(* ===== verification/Prelude.thy ===== *)
theory Prelude imports "HOL-Library.Word" begin

text \<open>
  Vocabulary shared by the theories of the development: C++ integer conversions written out
  over \<^typ>\<open>int\<close>, positions in a \<^verbatim>\<open>std::vector\<close> (erase, insert, swap and
  rotate at an index), the partition lemmas behind \<^verbatim>\<open>std::lower_bound\<close>, and the lemma
  collections the component theories extend.
\<close>

named_theorems vector_simps \<open>vector operations unfolded to take, drop and append\<close>
named_theorems component_inv \<open>introduction rules: an operation keeps a component's invariant\<close>
named_theorems component_frame \<open>what an operation leaves unchanged\<close>

type_synonym bytes = "8 word list"

section \<open>Integer conversions\<close>

definition u32 :: "int \<Rightarrow> int" where
  "u32 x = x mod 4294967296"

definition i32 :: "int \<Rightarrow> int" where
  "i32 x = (x + 2147483648) mod 4294967296 - 2147483648"

definition u64 :: "int \<Rightarrow> int" where
  "u64 x = x mod 18446744073709551616"

lemma u32_bounds [simp]: "0 \<le> u32 x" "u32 x < 4294967296"
  by (simp_all add: u32_def)

lemma u32_id [simp]: "0 \<le> x \<Longrightarrow> x < 4294967296 \<Longrightarrow> u32 x = x"
  by (simp add: u32_def)

lemma i32_bounds: "-2147483648 \<le> i32 x" "i32 x < 2147483648"
  by (simp_all add: i32_def)

lemma i32_id [simp]: "-2147483648 \<le> x \<Longrightarrow> x < 2147483648 \<Longrightarrow> i32 x = x"
  by (simp add: i32_def)

lemma u64_id [simp]: "0 \<le> x \<Longrightarrow> x < 18446744073709551616 \<Longrightarrow> u64 x = x"
  by (simp add: u64_def)

section \<open>Vectors by position\<close>

definition erase_at :: "nat \<Rightarrow> 'a list \<Rightarrow> 'a list" where
  [vector_simps]: "erase_at n xs = take n xs @ drop (Suc n) xs"

definition erase_range :: "nat \<Rightarrow> nat \<Rightarrow> 'a list \<Rightarrow> 'a list" where
  [vector_simps]: "erase_range a b xs = take a xs @ drop b xs"

definition insert_at :: "nat \<Rightarrow> 'a \<Rightarrow> 'a list \<Rightarrow> 'a list" where
  [vector_simps]: "insert_at n x xs = take n xs @ x # drop n xs"

definition swap_at :: "nat \<Rightarrow> nat \<Rightarrow> 'a list \<Rightarrow> 'a list" where
  "swap_at i j xs = xs[i := xs ! j, j := xs ! i]"

definition subrange :: "nat \<Rightarrow> nat \<Rightarrow> 'a list \<Rightarrow> 'a list" where
  [vector_simps]: "subrange a b xs = take (b - a) (drop a xs)"

text \<open>\<^verbatim>\<open>std::rotate(first, middle, last)\<close> on the positions of a vector.\<close>

definition rotate_range :: "nat \<Rightarrow> nat \<Rightarrow> nat \<Rightarrow> 'a list \<Rightarrow> 'a list" where
  [vector_simps]: "rotate_range f m l xs =
     take f xs @ subrange m l xs @ subrange f m xs @ drop l xs"

lemma rotate_range_append:
  "f = length as \<Longrightarrow> m = f + length bs \<Longrightarrow> l = m + length cs \<Longrightarrow>
     rotate_range f m l (as @ bs @ cs @ ds) = as @ cs @ bs @ ds"
  by (simp add: rotate_range_def subrange_def)

text \<open>The position of the first element that satisfies a predicate, or the end.\<close>

definition find_index :: "('a \<Rightarrow> bool) \<Rightarrow> 'a list \<Rightarrow> nat" where
  "find_index P xs = length (takeWhile (\<lambda>x. \<not> P x) xs)"

lemma find_index_le [simp]: "find_index P xs \<le> length xs"
  by (simp add: find_index_def length_takeWhile_le)

lemma find_index_less_iff: "find_index P xs < length xs \<longleftrightarrow> (\<exists>x\<in>set xs. P x)"
  by (induction xs) (auto simp: find_index_def)

lemma find_index_nth: "find_index P xs < length xs \<Longrightarrow> P (xs ! find_index P xs)"
  using nth_length_takeWhile [of "\<lambda>x. \<not> P x" xs] by (simp add: find_index_def)

lemma find_index_before: "i < find_index P xs \<Longrightarrow> \<not> P (xs ! i)"
  using nth_mem [of i "takeWhile (\<lambda>x. \<not> P x) xs"] set_takeWhileD
  by (fastforce simp: find_index_def takeWhile_nth)

lemma find_index_Nil [simp]: "find_index P [] = 0"
  by (simp add: find_index_def)

lemma find_index_Cons [simp]: "find_index P (x # xs) = (if P x then 0 else Suc (find_index P xs))"
  by (simp add: find_index_def)

lemma find_index_append:
  "(\<And>x. x \<in> set as \<Longrightarrow> \<not> P x) \<Longrightarrow> P y \<Longrightarrow> find_index P (as @ y # bs) = length as"
  by (simp add: find_index_def takeWhile_append2)

lemma find_index_none: "(\<And>x. x \<in> set xs \<Longrightarrow> \<not> P x) \<Longrightarrow> find_index P xs = length xs"
  by (metis find_index_le find_index_less_iff le_neq_implies_less)

lemma distinct_map_other:
  "distinct (map f (as @ x # bs)) \<Longrightarrow> y \<in> set as \<union> set bs \<Longrightarrow> f y \<noteq> f x"
  by (auto simp: image_iff)

lemma length_erase_at [simp]: "n < length xs \<Longrightarrow> length (erase_at n xs) = length xs - 1"
  by (simp add: erase_at_def)

lemma length_insert_at [simp]: "length (insert_at n x xs) = Suc (length xs)"
  by (simp add: insert_at_def)

lemma length_swap_at [simp]: "length (swap_at i j xs) = length xs"
  by (simp add: swap_at_def)

lemma set_insert_at [simp]: "set (insert_at n x xs) = insert x (set xs)"
proof -
  have "set xs = set (take n xs) \<union> set (drop n xs)"
    by (metis append_take_drop_id set_append)
  then show ?thesis by (auto simp: insert_at_def)
qed

lemma set_erase_at_subset: "set (erase_at n xs) \<subseteq> set xs"
  by (auto simp: erase_at_def dest: in_set_takeD in_set_dropD)

lemma sorted_wrt_take: "sorted_wrt R xs \<Longrightarrow> sorted_wrt R (take n xs)"
  by (metis append_take_drop_id sorted_wrt_append)

lemma sorted_wrt_drop: "sorted_wrt R xs \<Longrightarrow> sorted_wrt R (drop n xs)"
  by (metis append_take_drop_id sorted_wrt_append)

lemma sorted_wrt_erase_range: "sorted_wrt R xs \<Longrightarrow> a \<le> b \<Longrightarrow> sorted_wrt R (erase_range a b xs)"
proof -
  assume R: "sorted_wrt R xs" and "a \<le> b"
  then have "drop b xs = drop (b - a) (drop a xs)"
    by simp
  then have "set (drop b xs) \<subseteq> set (drop a xs)"
    by (metis set_drop_subset)
  moreover have "\<forall>x\<in>set (take a xs). \<forall>y\<in>set (drop a xs). R x y"
    using R by (metis append_take_drop_id sorted_wrt_append)
  ultimately show ?thesis
    using R by (auto simp: erase_range_def sorted_wrt_append sorted_wrt_take sorted_wrt_drop)
qed

lemma sorted_wrt_erase_at: "sorted_wrt R xs \<Longrightarrow> sorted_wrt R (erase_at n xs)"
  using sorted_wrt_erase_range [of R xs n "Suc n"] by (simp add: erase_at_def erase_range_def)

section \<open>Partition points\<close>

lemma take_takeWhile_length [simp]: "take (length (takeWhile P xs)) xs = takeWhile P xs"
  by (metis takeWhile_eq_take)

lemma drop_takeWhile_length [simp]: "drop (length (takeWhile P xs)) xs = dropWhile P xs"
  by (metis dropWhile_eq_drop)

lemma insert_at_takeWhile:
  "insert_at (length (takeWhile P xs)) v xs = takeWhile P xs @ v # dropWhile P xs"
  by (simp add: insert_at_def)

lemma nth_takeWhile_length:
  "dropWhile P xs = y # ys \<Longrightarrow> xs ! length (takeWhile P xs) = y"
  by (metis nth_append_length takeWhile_dropWhile_id)

lemma erase_at_takeWhile:
  "dropWhile P xs = y # ys \<Longrightarrow> erase_at (length (takeWhile P xs)) xs = takeWhile P xs @ ys"
  by (simp add: erase_at_def drop_Suc flip: tl_drop drop_tl)

lemma dropWhile_Nil_iff: "dropWhile P xs = [] \<longleftrightarrow> (\<forall>x\<in>set xs. P x)"
  by (simp add: dropWhile_eq_Nil_conv)

lemma takeWhile_length_less_iff: "length (takeWhile P xs) < length xs \<longleftrightarrow> dropWhile P xs \<noteq> []"
  by (metis append_Nil2 length_append less_add_same_cancel1 length_greater_0_conv
      takeWhile_dropWhile_id less_irrefl)

lemma sorted_wrt_insert_between:
  "sorted_wrt R (as @ bs) \<Longrightarrow> (\<And>x. x \<in> set as \<Longrightarrow> R x v) \<Longrightarrow> (\<And>y. y \<in> set bs \<Longrightarrow> R v y) \<Longrightarrow>
     sorted_wrt R (as @ v # bs)"
  by (simp add: sorted_wrt_append)

section \<open>Optional counters\<close>

lemma option_cases_iff [simp]: "(case x of None \<Rightarrow> False | Some v \<Rightarrow> P v) \<longleftrightarrow> (\<exists>v. x = Some v \<and> P v)"
  by (cases x) auto

section \<open>Data refinement\<close>

text \<open>Operations on a state that keep an invariant and are, through an abstraction, operations on
  a specification: so are their sequences.\<close>

locale refinement =
  fixes good :: "'s \<Rightarrow> bool"
    and abs_state :: "'s \<Rightarrow> 'a"
    and step :: "'op \<Rightarrow> 's \<Rightarrow> 's"
    and spec :: "'op \<Rightarrow> 'a \<Rightarrow> 'a"
    and allowed :: "'op \<Rightarrow> bool"
  assumes step_good: "good s \<Longrightarrow> allowed op \<Longrightarrow> good (step op s)"
    and step_spec: "good s \<Longrightarrow> allowed op \<Longrightarrow> abs_state (step op s) = spec op (abs_state s)"
begin

lemma run_refines:
  "good s \<Longrightarrow> list_all allowed ops \<Longrightarrow>
     good (fold step ops s) \<and> abs_state (fold step ops s) = fold spec ops (abs_state s)"
  by (induction ops arbitrary: s) (simp_all add: step_good step_spec)

lemma runs_agree:
  "good s \<Longrightarrow> good t \<Longrightarrow> abs_state s = abs_state t \<Longrightarrow> list_all allowed ops \<Longrightarrow>
     abs_state (fold step ops s) = abs_state (fold step ops t)"
  using run_refines by metis

end

end
