(* ===== verification/FlatSet.thy ===== *)
theory FlatSet imports Prelude "HOL-Library.Multiset" begin

text \<open>
  \<^verbatim>\<open>lib_base/base/flat_set.h\<close>: \<^verbatim>\<open>base::flat_multi_set\<close> (prefix \<open>fms_\<close>)
  and \<^verbatim>\<open>base::flat_set\<close> (prefix \<open>fs_\<close>), sorted vectors with a comparison that is a
  template parameter. The vector is a list, an iterator is a position of it (the length is
  \<^verbatim>\<open>end()\<close>) and the comparison is the first argument \<open>lt\<close> of every operation. What
  \<^verbatim>\<open>std::lower_bound\<close>, \<^verbatim>\<open>std::upper_bound\<close>, \<^verbatim>\<open>std::sort\<close> and
  \<^verbatim>\<open>std::unique\<close> compute is written out.

  The locales \<open>strict_weak\<close> and \<open>strict_total\<close> state what a comparison has to
  satisfy; the correctness of the containers is proved once inside them.
\<close>

section \<open>The operations\<close>

definition fms_lower_bound :: "('a \<Rightarrow> 'b \<Rightarrow> bool) \<Rightarrow> 'a list \<Rightarrow> 'b \<Rightarrow> nat" where
  "fms_lower_bound lt xs v = length (takeWhile (\<lambda>x. lt x v) xs)"

definition fms_upper_bound :: "('b \<Rightarrow> 'a \<Rightarrow> bool) \<Rightarrow> 'a list \<Rightarrow> 'b \<Rightarrow> nat" where
  "fms_upper_bound lt xs v = length (takeWhile (\<lambda>x. \<not> lt v x) xs)"

definition fms_equal_range :: "('a \<Rightarrow> 'a \<Rightarrow> bool) \<Rightarrow> 'a list \<Rightarrow> 'a \<Rightarrow> nat \<times> nat" where
  "fms_equal_range lt xs v = (fms_lower_bound lt xs v, fms_upper_bound lt xs v)"

text \<open>\<^verbatim>\<open>std::sort\<close>: the sorted vector of the same elements (equivalent ones keep their
  order, which \<^verbatim>\<open>std::sort\<close> leaves open).\<close>

fun lt_insort :: "('a \<Rightarrow> 'a \<Rightarrow> bool) \<Rightarrow> 'a \<Rightarrow> 'a list \<Rightarrow> 'a list" where
  "lt_insort lt x [] = [x]"
| "lt_insort lt x (y # ys) = (if lt y x then y # lt_insort lt x ys else x # y # ys)"

definition lt_sort :: "('a \<Rightarrow> 'a \<Rightarrow> bool) \<Rightarrow> 'a list \<Rightarrow> 'a list" where
  "lt_sort lt xs = foldr (lt_insort lt) xs []"

text \<open>\<^verbatim>\<open>std::unique\<close> with the predicate \<^verbatim>\<open>!compare()(a, b)\<close>: of a run of
  elements the first stays.\<close>

fun lt_unique :: "('a \<Rightarrow> 'a \<Rightarrow> bool) \<Rightarrow> 'a list \<Rightarrow> 'a list" where
  "lt_unique lt (x # y # zs) =
     (if \<not> lt x y then lt_unique lt (x # zs) else x # lt_unique lt (y # zs))"
| "lt_unique lt xs = xs"

definition fms_from_range :: "('a \<Rightarrow> 'a \<Rightarrow> bool) \<Rightarrow> 'a list \<Rightarrow> 'a list" where
  "fms_from_range lt rng = lt_sort lt rng"

definition fms_insert :: "('a \<Rightarrow> 'a \<Rightarrow> bool) \<Rightarrow> 'a list \<Rightarrow> 'a \<Rightarrow> 'a list \<times> nat" where
  "fms_insert lt xs v =
     (if xs = [] \<or> \<not> lt v (last xs) then (xs @ [v], length xs)
      else let pos = fms_upper_bound lt xs v in (insert_at pos v xs, pos))"

definition fms_remove_one :: "('a \<Rightarrow> 'a \<Rightarrow> bool) \<Rightarrow> 'a list \<Rightarrow> 'a \<Rightarrow> 'a list \<times> bool" where
  "fms_remove_one lt xs v =
     (if xs = [] \<or> lt v (hd xs) \<or> lt (last xs) v then (xs, False)
      else let pos = fms_lower_bound lt xs v in
        if lt v (xs ! pos) then (xs, False) else (erase_at pos xs, True))"

definition fms_remove_all :: "('a \<Rightarrow> 'a \<Rightarrow> bool) \<Rightarrow> 'a list \<Rightarrow> 'a \<Rightarrow> 'a list \<times> nat" where
  "fms_remove_all lt xs v =
     (if xs = [] \<or> lt v (hd xs) \<or> lt (last xs) v then (xs, 0)
      else let (first, second) = fms_equal_range lt xs v in
        if first = second then (xs, 0) else (erase_range first second xs, second - first))"

definition fms_find_first :: "('a \<Rightarrow> 'a \<Rightarrow> bool) \<Rightarrow> 'a list \<Rightarrow> 'a \<Rightarrow> nat" where
  "fms_find_first lt xs v =
     (if xs = [] \<or> lt v (hd xs) \<or> lt (last xs) v then length xs
      else let pos = fms_lower_bound lt xs v in
        if lt v (xs ! pos) then length xs else pos)"

definition fms_contains :: "('a \<Rightarrow> 'a \<Rightarrow> bool) \<Rightarrow> 'a list \<Rightarrow> 'a \<Rightarrow> bool" where
  "fms_contains lt xs v \<longleftrightarrow> fms_find_first lt xs v \<noteq> length xs"

definition fms_count :: "('a \<Rightarrow> 'a \<Rightarrow> bool) \<Rightarrow> 'a list \<Rightarrow> 'a \<Rightarrow> nat" where
  "fms_count lt xs v =
     (if xs = [] \<or> lt v (hd xs) \<or> lt (last xs) v then 0
      else let (first, second) = fms_equal_range lt xs v in second - first)"

definition fms_merge :: "('a \<Rightarrow> 'a \<Rightarrow> bool) \<Rightarrow> 'a list \<Rightarrow> 'a list \<Rightarrow> 'a list" where
  "fms_merge lt xs rng = lt_sort lt (xs @ rng)"

text \<open>\<^verbatim>\<open>flat_multi_set::modify\<close>: the two bubbling loops compare with the element that
  is at the position \<open>which\<close>, which a swap replaces.\<close>

function fms_modify_up :: "('a \<Rightarrow> 'a \<Rightarrow> bool) \<Rightarrow> 'a list \<Rightarrow> nat \<Rightarrow> nat \<Rightarrow> 'a list" where
  "fms_modify_up lt xs which i =
     (if i < length xs \<and> lt (xs ! i) (xs ! which)
      then fms_modify_up lt (swap_at i which xs) which (Suc i) else xs)"
  by pat_completeness auto
termination
  by (relation "measure (\<lambda>(lt, xs, which, i). length xs - i)") auto

fun fms_modify_down :: "('a \<Rightarrow> 'a \<Rightarrow> bool) \<Rightarrow> 'a list \<Rightarrow> nat \<Rightarrow> nat \<Rightarrow> 'a list" where
  "fms_modify_down lt xs which 0 = xs"
| "fms_modify_down lt xs which (Suc i) =
     (if lt (xs ! which) (xs ! i) then fms_modify_down lt (swap_at i which xs) which i else xs)"

definition fms_modify :: "('a \<Rightarrow> 'a \<Rightarrow> bool) \<Rightarrow> 'a list \<Rightarrow> nat \<Rightarrow> ('a \<Rightarrow> 'a) \<Rightarrow> 'a list" where
  "fms_modify lt xs which action =
     fms_modify_down lt (fms_modify_up lt (xs[which := action (xs ! which)]) which (Suc which))
       which which"

definition fs_finalize :: "('a \<Rightarrow> 'a \<Rightarrow> bool) \<Rightarrow> 'a list \<Rightarrow> 'a list" where
  "fs_finalize lt xs = lt_unique lt xs"

definition fs_from_range :: "('a \<Rightarrow> 'a \<Rightarrow> bool) \<Rightarrow> 'a list \<Rightarrow> 'a list" where
  "fs_from_range lt rng = fs_finalize lt (fms_from_range lt rng)"

definition fs_insert :: "('a \<Rightarrow> 'a \<Rightarrow> bool) \<Rightarrow> 'a list \<Rightarrow> 'a \<Rightarrow> 'a list \<times> nat \<times> bool" where
  "fs_insert lt xs v =
     (if xs = [] \<or> lt (last xs) v then (xs @ [v], length xs, True)
      else let pos = fms_lower_bound lt xs v in
        if lt v (xs ! pos) then (insert_at pos v xs, pos, True) else (xs, pos, False))"

definition fs_remove :: "('a \<Rightarrow> 'a \<Rightarrow> bool) \<Rightarrow> 'a list \<Rightarrow> 'a \<Rightarrow> 'a list \<times> bool" where
  "fs_remove lt xs v = fms_remove_one lt xs v"

definition fs_find :: "('a \<Rightarrow> 'a \<Rightarrow> bool) \<Rightarrow> 'a list \<Rightarrow> 'a \<Rightarrow> nat" where
  "fs_find lt xs v = fms_find_first lt xs v"

definition fs_merge :: "('a \<Rightarrow> 'a \<Rightarrow> bool) \<Rightarrow> 'a list \<Rightarrow> 'a list \<Rightarrow> 'a list" where
  "fs_merge lt xs rng = fs_finalize lt (fms_merge lt xs rng)"

text \<open>\<^verbatim>\<open>flat_set::modify\<close>: as above, and an element that became equivalent to another
  one is erased, which ends the call (the left value).\<close>

function fs_modify_up :: "('a \<Rightarrow> 'a \<Rightarrow> bool) \<Rightarrow> 'a list \<Rightarrow> nat \<Rightarrow> nat \<Rightarrow> 'a list + 'a list" where
  "fs_modify_up lt xs which i =
     (if i < length xs then
        if lt (xs ! i) (xs ! which) then fs_modify_up lt (swap_at i which xs) which (Suc i)
        else if \<not> lt (xs ! which) (xs ! i) then Inl (erase_at which xs)
        else Inr xs
      else Inr xs)"
  by pat_completeness auto
termination
  by (relation "measure (\<lambda>(lt, xs, which, i). length xs - i)") auto

fun fs_modify_down :: "('a \<Rightarrow> 'a \<Rightarrow> bool) \<Rightarrow> 'a list \<Rightarrow> nat \<Rightarrow> nat \<Rightarrow> 'a list" where
  "fs_modify_down lt xs which 0 = xs"
| "fs_modify_down lt xs which (Suc i) =
     (if lt (xs ! which) (xs ! i) then fs_modify_down lt (swap_at i which xs) which i
      else if \<not> lt (xs ! i) (xs ! which) then erase_at which xs
      else xs)"

definition fs_modify :: "('a \<Rightarrow> 'a \<Rightarrow> bool) \<Rightarrow> 'a list \<Rightarrow> nat \<Rightarrow> ('a \<Rightarrow> 'a) \<Rightarrow> 'a list" where
  "fs_modify lt xs which action =
     (case fs_modify_up lt (xs[which := action (xs ! which)]) which (Suc which) of
        Inl ys \<Rightarrow> ys
      | Inr ys \<Rightarrow> fs_modify_down lt ys which which)"

declare fms_modify_up.simps [simp del] fs_modify_up.simps [simp del]

text \<open>The invariants: sorted, and for the set without equivalent elements.\<close>

definition fms_inv :: "('a \<Rightarrow> 'a \<Rightarrow> bool) \<Rightarrow> 'a list \<Rightarrow> bool" where
  "fms_inv lt xs \<longleftrightarrow> sorted_wrt (\<lambda>a b. \<not> lt b a) xs"

definition fs_inv :: "('a \<Rightarrow> 'a \<Rightarrow> bool) \<Rightarrow> 'a list \<Rightarrow> bool" where
  "fs_inv lt xs \<longleftrightarrow> sorted_wrt lt xs"

section \<open>What a comparison promises\<close>

text \<open>A strict weak order, as the standard library asks of a comparison.\<close>

locale strict_weak =
  fixes lt :: "'a \<Rightarrow> 'a \<Rightarrow> bool"
  assumes lt_asym: "lt a b \<Longrightarrow> \<not> lt b a"
    and lt_negtrans: "\<not> lt a b \<Longrightarrow> \<not> lt b c \<Longrightarrow> \<not> lt a c"
begin

lemma lt_irrefl [simp]: "\<not> lt a a"
  using lt_asym by blast

lemma lt_trans: "lt a b \<Longrightarrow> lt b c \<Longrightarrow> lt a c"
  using lt_asym lt_negtrans by blast

lemma lt_le_trans: "lt a b \<Longrightarrow> \<not> lt c b \<Longrightarrow> lt a c"
  using lt_negtrans by blast

lemma le_lt_trans: "\<not> lt b a \<Longrightarrow> lt b c \<Longrightarrow> lt a c"
  using lt_negtrans by blast

lemma fs_inv_fms_inv: "fs_inv lt xs \<Longrightarrow> fms_inv lt xs"
  unfolding fs_inv_def fms_inv_def by (induction xs) (auto dest: lt_asym)

lemma lower_rest: "fms_inv lt xs \<Longrightarrow> x \<in> set (dropWhile (\<lambda>x. lt x v) xs) \<Longrightarrow> \<not> lt x v"
  unfolding fms_inv_def
  by (induction xs) (auto split: if_splits dest: lt_negtrans)

lemma lower_first: "x \<in> set (takeWhile (\<lambda>x. lt x v) xs) \<Longrightarrow> lt x v"
  by (rule set_takeWhileD [THEN conjunct2])

lemma upper_rest: "fms_inv lt xs \<Longrightarrow> x \<in> set (dropWhile (\<lambda>x. \<not> lt v x) xs) \<Longrightarrow> lt v x"
  unfolding fms_inv_def
  by (induction xs) (auto split: if_splits dest: lt_le_trans)

lemma fms_inv_last: "fms_inv lt xs \<Longrightarrow> x \<in> set xs \<Longrightarrow> \<not> lt (last xs) x"
  unfolding fms_inv_def by (induction xs) (auto split: if_splits)

lemma fms_inv_hd: "fms_inv lt xs \<Longrightarrow> x \<in> set xs \<Longrightarrow> \<not> lt x (hd xs)"
  unfolding fms_inv_def by (induction xs) auto

lemma fms_inv_split:
  "fms_inv lt xs \<Longrightarrow>
     fms_inv lt (takeWhile P xs) \<and> fms_inv lt (dropWhile P xs) \<and>
     (\<forall>x\<in>set (takeWhile P xs). \<forall>y\<in>set (dropWhile P xs). \<not> lt y x)"
  unfolding fms_inv_def by (metis sorted_wrt_append takeWhile_dropWhile_id)

lemma fs_inv_split:
  "fs_inv lt xs \<Longrightarrow>
     fs_inv lt (takeWhile P xs) \<and> fs_inv lt (dropWhile P xs) \<and>
     (\<forall>x\<in>set (takeWhile P xs). \<forall>y\<in>set (dropWhile P xs). lt x y)"
  unfolding fs_inv_def by (metis sorted_wrt_append takeWhile_dropWhile_id)

lemma set_takeWhile_dropWhile: "set xs = set (takeWhile P xs) \<union> set (dropWhile P xs)"
  by (metis set_append takeWhile_dropWhile_id)

text \<open>Where the lower bound is the end, the last element is below the value.\<close>

lemma lower_not_end:
  assumes "fms_inv lt xs" "xs \<noteq> []" "\<not> lt (last xs) v"
  shows "\<exists>y ys. dropWhile (\<lambda>x. lt x v) xs = y # ys \<and>
    xs ! fms_lower_bound lt xs v = y \<and> \<not> lt y v"
proof -
  have "dropWhile (\<lambda>x. lt x v) xs \<noteq> []"
    using assms(2,3) by (auto simp: dropWhile_eq_Nil_conv)
  then obtain y ys where ys: "dropWhile (\<lambda>x. lt x v) xs = y # ys"
    by (meson neq_Nil_conv)
  then have "\<not> lt y v"
    using lower_rest [OF assms(1), of y v] by simp
  with ys show ?thesis
    by (simp add: fms_lower_bound_def nth_takeWhile_length)
qed

subsection \<open>Insertion\<close>

lemma fms_insert_keeps: "fms_inv lt xs \<Longrightarrow> fms_inv lt (fst (fms_insert lt xs v))"
proof (cases "xs = [] \<or> \<not> lt v (last xs)")
  case True
  assume inv: "fms_inv lt xs"
  have "\<not> lt v x" if "x \<in> set xs" for x
    using True that fms_inv_last [OF inv that] lt_negtrans [of v "last xs" x] by auto
  then show ?thesis
    using inv True by (auto simp: fms_insert_def fms_inv_def sorted_wrt_append)
next
  case False
  assume inv: "fms_inv lt xs"
  have "\<not> lt v x" if "x \<in> set (takeWhile (\<lambda>x. \<not> lt v x) xs)" for x
    using that by (rule set_takeWhileD [THEN conjunct2])
  moreover have "\<not> lt y v" if "y \<in> set (dropWhile (\<lambda>x. \<not> lt v x) xs)" for y
    using upper_rest [OF inv that] by (rule lt_asym)
  moreover have "fst (fms_insert lt xs v) =
      takeWhile (\<lambda>x. \<not> lt v x) xs @ v # dropWhile (\<lambda>x. \<not> lt v x) xs"
    using False by (simp add: fms_insert_def fms_upper_bound_def insert_at_takeWhile)
  moreover have "fms_inv lt (takeWhile (\<lambda>x. \<not> lt v x) xs @ dropWhile (\<lambda>x. \<not> lt v x) xs)"
    using inv by simp
  ultimately show ?thesis
    unfolding fms_inv_def by (simp only:) (rule sorted_wrt_insert_between, simp_all)
qed

lemma fms_insert_mset: "mset (fst (fms_insert lt xs v)) = add_mset v (mset xs)"
proof -
  have "mset (take n xs) + mset (drop n xs) = mset xs" for n
    by (metis append_take_drop_id mset_append)
  then show ?thesis by (simp add: fms_insert_def Let_def insert_at_def)
qed

lemma fs_insert_cases:
  assumes "fs_inv lt xs"
  shows "(snd (snd (fs_insert lt xs v)) \<and> (\<forall>x\<in>set xs. lt x v \<or> lt v x) \<and>
            fst (fs_insert lt xs v) =
              takeWhile (\<lambda>x. lt x v) xs @ v # dropWhile (\<lambda>x. lt x v) xs) \<or>
         (\<not> snd (snd (fs_insert lt xs v)) \<and> (\<exists>x\<in>set xs. \<not> lt x v \<and> \<not> lt v x) \<and>
            fst (fs_insert lt xs v) = xs)"
proof (cases "xs = [] \<or> lt (last xs) v")
  case True
  have below: "lt x v" if "x \<in> set xs" for x
    using True that fms_inv_last [OF fs_inv_fms_inv [OF assms] that]
      le_lt_trans [of "last xs" x v] by auto
  then have "takeWhile (\<lambda>x. lt x v) xs = xs \<and> dropWhile (\<lambda>x. lt x v) xs = []"
    by (induction xs) auto
  moreover have "fs_insert lt xs v = (xs @ [v], length xs, True)"
    using True by (simp add: fs_insert_def)
  ultimately show ?thesis using below
    by (metis append_Nil2 fst_conv snd_conv append.simps(2))
next
  case False
  note inv = fs_inv_fms_inv [OF assms]
  obtain y ys where ys: "dropWhile (\<lambda>x. lt x v) xs = y # ys"
    "xs ! fms_lower_bound lt xs v = y" "\<not> lt y v"
    using lower_not_end [OF inv, of v] False by blast
  have y: "y \<in> set xs"
    using ys(1) set_dropWhileD [of y "\<lambda>x. lt x v" xs] by simp
  show ?thesis
  proof (cases "lt v y")
    case True
    have "lt x v \<or> lt v x" if "x \<in> set xs" for x
    proof (cases "x \<in> set (takeWhile (\<lambda>x. lt x v) xs)")
      case True
      then show ?thesis using lower_first by blast
    next
      case False
      with that have "x \<in> set (y # ys)"
        using set_takeWhile_dropWhile [of xs "\<lambda>x. lt x v"] ys(1) by auto
      then have "\<not> lt x y"
        using fms_inv_split [OF inv, of "\<lambda>x. lt x v"] ys(1) by (auto simp: fms_inv_def)
      then show ?thesis
        using lt_le_trans [OF \<open>lt v y\<close>] by blast
    qed
    moreover have "fs_insert lt xs v =
        (takeWhile (\<lambda>x. lt x v) xs @ v # dropWhile (\<lambda>x. lt x v) xs, fms_lower_bound lt xs v, True)"
      using False True ys(2)
      by (simp add: fs_insert_def Let_def) (simp add: fms_lower_bound_def insert_at_takeWhile)
    ultimately show ?thesis by simp
  next
    case False': False
    then show ?thesis
      using False ys y by (auto simp: fs_insert_def Let_def)
  qed
qed

lemma fs_insert_between:
  assumes "fs_inv lt (as @ bs)" "\<forall>a\<in>set as. lt a v" "\<forall>b\<in>set bs. lt v b"
  shows "fs_insert lt (as @ bs) v = (as @ v # bs, length as, True)"
proof (cases bs)
  case Nil
  then show ?thesis using assms(2) by (cases "as = []") (simp_all add: fs_insert_def)
next
  case (Cons b bs')
  have "lt v (last bs)" "lt v b" using assms(3) Cons by simp_all
  moreover have "takeWhile (\<lambda>x. lt x v) (as @ bs) = as"
    using assms(2) \<open>lt v b\<close> Cons lt_asym by (simp add: takeWhile_append2)
  ultimately show ?thesis
    using Cons lt_asym by (simp add: fs_insert_def fms_lower_bound_def Let_def insert_at_def)
qed

lemma fs_insert_keeps: "fs_inv lt xs \<Longrightarrow> fs_inv lt (fst (fs_insert lt xs v))"
proof -
  assume inv: "fs_inv lt xs"
  have split: "xs = takeWhile (\<lambda>x. lt x v) xs @ dropWhile (\<lambda>x. lt x v) xs"
    by simp
  consider "fst (fs_insert lt xs v) = xs"
    | "\<forall>x\<in>set xs. lt x v \<or> lt v x"
      "fst (fs_insert lt xs v) = takeWhile (\<lambda>x. lt x v) xs @ v # dropWhile (\<lambda>x. lt x v) xs"
    using fs_insert_cases [OF inv] by metis
  then show ?thesis
  proof cases
    case 2
    have "lt v y" if "y \<in> set (dropWhile (\<lambda>x. lt x v) xs)" for y
      using 2(1) that lower_rest [OF fs_inv_fms_inv [OF inv] that] set_dropWhileD by fastforce
    moreover have "lt x v" if "x \<in> set (takeWhile (\<lambda>x. lt x v) xs)" for x
      using that by (rule lower_first)
    ultimately show ?thesis
      unfolding 2(2) fs_inv_def
      by (intro sorted_wrt_insert_between) (use inv in \<open>simp_all add: fs_inv_def\<close>)
  qed (use inv in simp)
qed

subsection \<open>Search and removal\<close>

lemma fms_find_first_bound: "fms_find_first lt xs v \<le> length xs"
  by (auto simp: fms_find_first_def Let_def fms_lower_bound_def length_takeWhile_le)

lemma fms_find_first_None:
  assumes inv: "fms_inv lt xs"
  shows "fms_find_first lt xs v = length xs \<longleftrightarrow> (\<forall>x\<in>set xs. lt x v \<or> lt v x)"
proof (cases "xs = [] \<or> lt v (hd xs) \<or> lt (last xs) v")
  case True
  have "lt x v \<or> lt v x" if "x \<in> set xs" for x
    using True that fms_inv_hd [OF inv that] fms_inv_last [OF inv that]
      le_lt_trans [of "last xs" x v] lt_le_trans [of v "hd xs" x] by auto
  with True show ?thesis by (auto simp: fms_find_first_def)
next
  case False
  obtain y ys where ys: "dropWhile (\<lambda>x. lt x v) xs = y # ys"
    "xs ! fms_lower_bound lt xs v = y" "\<not> lt y v"
    using lower_not_end [OF inv, of v] False by blast
  have less: "fms_lower_bound lt xs v < length xs"
    using ys(1) by (simp add: fms_lower_bound_def takeWhile_length_less_iff)
  have y: "y \<in> set xs" using ys(2) less nth_mem by blast
  show ?thesis
  proof (cases "lt v y")
    case True
    have "lt x v \<or> lt v x" if "x \<in> set xs" for x
      using that set_takeWhile_dropWhile [of xs "\<lambda>x. lt x v"] lower_first [of x v xs] ys(1) True
        fms_inv_split [OF inv, of "\<lambda>x. lt x v"] lt_le_trans [OF True]
      by (auto simp: fms_inv_def)
    with True False ys(2) show ?thesis by (auto simp: fms_find_first_def Let_def)
  next
    case False': False
    with False ys y less show ?thesis by (auto simp: fms_find_first_def Let_def)
  qed
qed

lemma fms_find_first_hit:
  assumes "fms_inv lt xs" "fms_find_first lt xs v < length xs"
  shows "\<not> lt (xs ! fms_find_first lt xs v) v \<and> \<not> lt v (xs ! fms_find_first lt xs v)"
proof -
  have ne: "\<not> (xs = [] \<or> lt v (hd xs) \<or> lt (last xs) v)"
    and nl: "\<not> lt v (xs ! fms_lower_bound lt xs v)"
    and eq: "fms_find_first lt xs v = fms_lower_bound lt xs v"
    using assms(2) by (auto simp: fms_find_first_def Let_def split: if_splits)
  obtain y ys where "xs ! fms_lower_bound lt xs v = y" "\<not> lt y v"
    using lower_not_end [OF assms(1), of v] ne by blast
  with nl eq show ?thesis by simp
qed

lemma fms_contains_iff:
  "fms_inv lt xs \<Longrightarrow> fms_contains lt xs v \<longleftrightarrow> (\<exists>x\<in>set xs. \<not> lt x v \<and> \<not> lt v x)"
  by (auto simp: fms_contains_def fms_find_first_None)

lemma fms_remove_one_eq:
  assumes "fms_inv lt xs"
  shows "fms_remove_one lt xs v =
    (if fms_contains lt xs v then (erase_at (fms_find_first lt xs v) xs, True) else (xs, False))"
proof (cases "xs = [] \<or> lt v (hd xs) \<or> lt (last xs) v")
  case True
  then show ?thesis by (auto simp: fms_remove_one_def fms_contains_def fms_find_first_def)
next
  case False
  obtain y ys where ys: "dropWhile (\<lambda>x. lt x v) xs = y # ys"
    using lower_not_end [OF assms, of v] False by blast
  then have "fms_lower_bound lt xs v < length xs"
    by (simp add: fms_lower_bound_def takeWhile_length_less_iff)
  with False show ?thesis
    by (auto simp: fms_remove_one_def fms_contains_def fms_find_first_def Let_def)
qed

lemma fms_remove_one_keeps: "fms_inv lt xs \<Longrightarrow> fms_inv lt (fst (fms_remove_one lt xs v))"
  by (simp add: fms_remove_one_eq sorted_wrt_erase_at fms_inv_def)

lemma fs_remove_keeps: "fs_inv lt xs \<Longrightarrow> fs_inv lt (fst (fs_remove lt xs v))"
  by (simp add: fs_remove_def fms_remove_one_def Let_def fs_inv_def sorted_wrt_erase_at)

subsection \<open>Sorting and merging\<close>

lemma mset_lt_insort [simp]: "mset (lt_insort lt x ys) = add_mset x (mset ys)"
  by (induction ys) auto

lemma lt_insort_keeps: "fms_inv lt ys \<Longrightarrow> fms_inv lt (lt_insort lt x ys)"
proof (induction ys)
  case (Cons y ys)
  have "set (lt_insort lt x ys) = insert x (set ys)"
    by (metis mset_lt_insort set_mset_add_mset_insert set_mset_mset)
  with Cons show ?case
    by (auto simp: fms_inv_def dest: lt_asym lt_negtrans)
qed (simp add: fms_inv_def)

lemma lt_sort_inv: "fms_inv lt (lt_sort lt xs)"
  unfolding lt_sort_def by (induction xs) (auto simp: lt_insort_keeps, simp add: fms_inv_def)

lemma mset_lt_sort [simp]: "mset (lt_sort lt xs) = mset xs"
  unfolding lt_sort_def by (induction xs) auto

lemma set_lt_sort [simp]: "set (lt_sort lt xs) = set xs"
  by (metis mset_lt_sort set_mset_mset)

lemma set_lt_unique_subset: "set (lt_unique lt xs) \<subseteq> set xs"
  by (induction lt xs rule: lt_unique.induct) auto

lemma hd_lt_unique: "xs \<noteq> [] \<Longrightarrow> hd (lt_unique lt xs) = hd xs"
  by (induction lt xs rule: lt_unique.induct) auto

lemma lt_unique_inv: "fms_inv lt xs \<Longrightarrow> fs_inv lt (lt_unique lt xs)"
proof (induction lt \<equiv> lt xs rule: lt_unique.induct)
  case (1 x y zs)
  show ?case
  proof (cases "lt x y")
    case True
    have "lt x z" if "z \<in> set (lt_unique lt (y # zs))" for z
    proof -
      have "z \<in> set (y # zs)"
        using that set_lt_unique_subset by blast
      then have "\<not> lt z y" using 1(3) by (auto simp: fms_inv_def)
      with True show ?thesis by (rule lt_le_trans)
    qed
    with True 1 show ?thesis by (simp add: fms_inv_def fs_inv_def)
  qed (use 1 in \<open>simp add: fms_inv_def\<close>)
qed (auto simp: fs_inv_def)

lemma fs_merge_inv: "fs_inv lt (fs_merge lt xs rng)"
  by (simp add: fs_merge_def fs_finalize_def fms_merge_def lt_unique_inv lt_sort_inv)

subsection \<open>Modifying an element in place\<close>

lemma fs_modify_in_place:
  assumes "which < length xs" "fs_inv lt (xs[which := f (xs ! which)])"
  shows "fs_modify lt xs which f = xs[which := f (xs ! which)]"
proof -
  let ?ys = "xs[which := f (xs ! which)]"
  have order: "lt (?ys ! i) (?ys ! j)" if "i < j" "j < length xs" for i j
    using assms(2) that by (simp add: fs_inv_def sorted_wrt_iff_nth_less)
  have "fs_modify_up lt ?ys which (Suc which) = Inr ?ys"
    using order [of which "Suc which"] lt_asym by (subst fs_modify_up.simps) auto
  moreover have "fs_modify_down lt ?ys which which = ?ys"
    using order [of "which - 1" which] assms(1) lt_asym by (cases which) auto
  ultimately show ?thesis by (simp add: fs_modify_def)
qed

text \<open>The loops move the modified element one position only, so an element modified past its
  next two neighbours leaves the vector unsorted.\<close>

lemma fs_modify_two_up:
  assumes inv: "fs_inv lt xs" and w: "Suc (Suc which) < length xs"
    and up: "lt (xs ! Suc (Suc which)) (f (xs ! which))"
  shows "fs_modify lt xs which f = xs[which := xs ! Suc which, Suc which := f (xs ! which)]"
proof -
  let ?x = "f (xs ! which)"
  let ?ys = "xs[which := xs ! Suc which, Suc which := ?x]"
  have order: "lt (xs ! i) (xs ! j)" if "i < j" "j < length xs" for i j
    using inv that by (simp add: fs_inv_def sorted_wrt_iff_nth_less)
  have "lt (xs ! Suc which) ?x"
    using lt_trans [OF order [of "Suc which" "Suc (Suc which)"] up] w by simp
  moreover have "swap_at (Suc which) which (xs[which := ?x]) = ?ys"
    using w by (simp add: swap_at_def list_update_swap)
  moreover have "fs_modify_up lt ?ys which (Suc (Suc which)) = Inr ?ys"
    using w order [of "Suc which" "Suc (Suc which)"] lt_asym by (subst fs_modify_up.simps) auto
  ultimately have "fs_modify_up lt (xs[which := ?x]) which (Suc which) = Inr ?ys"
    using w by (subst fs_modify_up.simps) auto
  moreover have "fs_modify_down lt ?ys which which = ?ys"
    using order [of "which - 1" "Suc which"] w lt_asym by (cases which) auto
  ultimately show ?thesis by (simp add: fs_modify_def)
qed

lemma fs_modify_two_up_unsorted:
  assumes "fs_inv lt xs" "Suc (Suc which) < length xs"
    "lt (xs ! Suc (Suc which)) (f (xs ! which))"
  shows "\<not> fs_inv lt (fs_modify lt xs which f)"
proof
  assume "fs_inv lt (fs_modify lt xs which f)"
  then have "\<forall>i j. i < j \<longrightarrow> j < length xs \<longrightarrow>
      lt (xs[which := xs ! Suc which, Suc which := f (xs ! which)] ! i)
         (xs[which := xs ! Suc which, Suc which := f (xs ! which)] ! j)"
    by (simp add: fs_modify_two_up [of xs which f, OF assms] fs_inv_def sorted_wrt_iff_nth_less)
  from this [rule_format, of "Suc which" "Suc (Suc which)"] show False
    using assms(2,3) lt_asym by auto
qed

lemma fs_from_range_inv: "fs_inv lt (fs_from_range lt rng)"
  by (simp add: fs_from_range_def fs_finalize_def fms_from_range_def lt_unique_inv lt_sort_inv)

end

text \<open>A comparison in which equivalent elements are equal: the set of the elements is what
  the container represents.\<close>

locale strict_total = strict_weak +
  assumes lt_linear: "\<not> lt a b \<Longrightarrow> \<not> lt b a \<Longrightarrow> a = b"
begin

lemma fms_contains_set: "fms_inv lt xs \<Longrightarrow> fms_contains lt xs v \<longleftrightarrow> v \<in> set xs"
  by (auto simp: fms_contains_iff dest: lt_linear intro!: bexI [of _ v])

lemma fs_contains_set: "fs_inv lt xs \<Longrightarrow> fms_contains lt xs v \<longleftrightarrow> v \<in> set xs"
  by (simp add: fms_contains_set fs_inv_fms_inv)

lemma fs_inv_distinct: "fs_inv lt xs \<Longrightarrow> distinct xs"
  unfolding fs_inv_def by (induction xs) auto

lemma fs_insert_set: "fs_inv lt xs \<Longrightarrow> set (fst (fs_insert lt xs v)) = insert v (set xs)"
proof -
  assume "fs_inv lt xs"
  then consider "fst (fs_insert lt xs v) = xs" "v \<in> set xs"
    | "fst (fs_insert lt xs v) = takeWhile (\<lambda>x. lt x v) xs @ v # dropWhile (\<lambda>x. lt x v) xs"
    using fs_insert_cases [of xs v] lt_linear by metis
  then show ?thesis
    using set_takeWhile_dropWhile [of xs "\<lambda>x. lt x v"] by cases auto
qed

lemma fs_insert_fresh: "fs_inv lt xs \<Longrightarrow> snd (snd (fs_insert lt xs v)) \<longleftrightarrow> v \<notin> set xs"
  using fs_insert_cases [of xs v] lt_linear lt_irrefl by metis

lemma fs_find_hit: "fs_inv lt xs \<Longrightarrow> v \<in> set xs \<Longrightarrow>
    fs_find lt xs v < length xs \<and> xs ! fs_find lt xs v = v"
  using fms_find_first_None [OF fs_inv_fms_inv, of xs v]
    fms_find_first_hit [OF fs_inv_fms_inv, of xs v] fms_find_first_bound [of xs v] lt_linear
  by (metis fs_find_def le_neq_implies_less lt_irrefl)

lemma fs_remove_set: "fs_inv lt xs \<Longrightarrow> set (fst (fs_remove lt xs v)) = set xs - {v}"
proof (cases "v \<in> set xs")
  case True
  assume inv: "fs_inv lt xs"
  let ?n = "fs_find lt xs v"
  have n: "?n < length xs" "xs ! ?n = v"
    using fs_find_hit [OF inv True] by simp_all
  then have "xs = take ?n xs @ v # drop (Suc ?n) xs"
    by (metis id_take_nth_drop)
  then have "set xs = insert v (set (take ?n xs @ drop (Suc ?n) xs)) \<and>
      v \<notin> set (take ?n xs @ drop (Suc ?n) xs)"
    using fs_inv_distinct [OF inv] by (metis Un_insert_right distinct_append distinct.simps(2)
        list.simps(15) not_distinct_conv_prefix set_append Un_iff insertCI disjoint_iff)
  then show ?thesis
    using True by (auto simp: fs_remove_def fms_remove_one_eq [OF fs_inv_fms_inv [OF inv]]
        fs_contains_set [OF inv] erase_at_def simp flip: fs_find_def)
next
  case False
  assume "fs_inv lt xs"
  with False show ?thesis
    by (simp add: fs_remove_def fms_remove_one_eq fs_inv_fms_inv fs_contains_set)
qed

lemma set_lt_unique: "fms_inv lt xs \<Longrightarrow> set (lt_unique lt xs) = set xs"
proof (induction lt \<equiv> lt xs rule: lt_unique.induct)
  case (1 x y zs)
  show ?case
  proof (cases "lt x y")
    case False
    then have "x = y"
      using 1(3) lt_linear by (auto simp: fms_inv_def)
    then show ?thesis using 1 False by (simp add: fms_inv_def)
  qed (use 1 in \<open>simp add: fms_inv_def\<close>)
qed simp_all

lemma fs_merge_set: "set (fs_merge lt xs rng) = set xs \<union> set rng"
  by (simp add: fs_merge_def fs_finalize_def fms_merge_def set_lt_unique lt_sort_inv)

lemma fs_from_range_set: "set (fs_from_range lt rng) = set rng"
  by (simp add: fs_from_range_def fs_finalize_def fms_from_range_def set_lt_unique lt_sort_inv)

text \<open>A set has one representation: equal sets are equal vectors.\<close>

lemma fs_unique: "fs_inv lt xs \<Longrightarrow> fs_inv lt ys \<Longrightarrow> set xs = set ys \<Longrightarrow> xs = ys"
proof (induction xs arbitrary: ys)
  case (Cons x xs)
  then obtain y ys' where ys: "ys = y # ys'" by (cases ys) auto
  have mem: "x \<in> set ys" "y \<in> set (x # xs)"
    using Cons.prems(3) ys by auto
  have "x = y"
  proof (rule ccontr)
    assume "x \<noteq> y"
    then have "lt y x" "lt x y"
      using Cons.prems(1,2) mem ys by (auto simp: fs_inv_def)
    then show False using lt_asym by blast
  qed
  have "x \<notin> set xs" "x \<notin> set ys'"
    using Cons.prems(1,2) ys \<open>x = y\<close> by (auto simp: fs_inv_def)
  moreover have "insert x (set xs) = insert x (set ys')"
    using Cons.prems(3) ys \<open>x = y\<close> by simp
  ultimately have "set xs = set ys'"
    by (simp add: insert_ident)
  then have "xs = ys'"
    using Cons.prems(1,2) ys by (intro Cons.IH) (simp_all add: fs_inv_def)
  then show ?case using ys \<open>x = y\<close> by simp
qed simp

end

interpretation less_order: strict_total "(<) :: 'a::linorder \<Rightarrow> 'a \<Rightarrow> bool"
  by unfold_locales auto

text \<open>The set that clients use: over a linear order, with \<^verbatim>\<open>std::less\<close>.\<close>

lemma fs_inv_less: "fs_inv (<) xs \<longleftrightarrow> sorted_wrt (<) (xs :: 'a::linorder list)"
  by (simp add: fs_inv_def)

section \<open>Properties\<close>



text \<open>C20: \<^verbatim>\<open>flat_set::modify\<close> keeps a modification that stays between its neighbours,
  but an element that outgrows its next two neighbours is moved past one of them only: the
  vector is left unsorted.\<close>

theorem flat_set_modify_moves_once:
  fixes xs :: "'a::linorder list"
  assumes "fs_inv (<) xs" "which < length xs"
  shows "(fs_inv (<) (xs[which := f (xs ! which)])
      \<longrightarrow> fs_modify (<) xs which f = xs[which := f (xs ! which)])
    \<and> (Suc (Suc which) < length xs \<and> xs ! Suc (Suc which) < f (xs ! which)
      \<longrightarrow> fs_modify (<) xs which f = xs[which := xs ! Suc which, Suc which := f (xs ! which)]
        \<and> \<not> fs_inv (<) (fs_modify (<) xs which f))"
  using less_order.fs_modify_in_place [OF assms(2)] less_order.fs_modify_two_up [OF assms(1)]
    less_order.fs_modify_two_up_unsorted [OF assms(1)] by blast

lemma flat_set_modify_moves_once_witness:
  "fs_modify (<) [1, 2, 3 :: int] 0 (\<lambda>x. x + 9) = [2, 10, 3]
    \<and> \<not> fs_inv (<) (fs_modify (<) [1, 2, 3 :: int] 0 (\<lambda>x. x + 9))"
  using flat_set_modify_moves_once [of "[1, 2, 3 :: int]" 0 "\<lambda>x. x + 9"]
  by (simp add: fs_inv_def)

end
