(* ===== verification/FlatMap.thy ===== *)
theory FlatMap imports FlatSet begin

text \<open>
  \<^verbatim>\<open>lib_base/base/flat_map.h\<close>: \<^verbatim>\<open>base::flat_multi_map\<close> (prefix \<open>fmm_\<close>)
  and \<^verbatim>\<open>base::flat_map\<close> (prefix \<open>fm_\<close>), vectors of key-value pairs sorted by key, with
  \<^verbatim>\<open>std::less\<close> on keys of a linear order. An iterator is a position, the length of the
  list is \<^verbatim>\<open>end()\<close>. The map that the vector represents is \<^term>\<open>map_of\<close> of it.

  The locale \<open>map_store\<close> is the interface the components of the program use; it is interpreted
  on the operations of \<^verbatim>\<open>base::flat_map\<close> at the end of the theory.
\<close>

section \<open>The operations\<close>

definition fmm_lower_bound :: "('k::linorder \<times> 'v) list \<Rightarrow> 'k \<Rightarrow> nat" where
  "fmm_lower_bound xs k = length (takeWhile (\<lambda>p. fst p < k) xs)"

definition fmm_upper_bound :: "('k::linorder \<times> 'v) list \<Rightarrow> 'k \<Rightarrow> nat" where
  "fmm_upper_bound xs k = length (takeWhile (\<lambda>p. \<not> k < fst p) xs)"

definition fmm_equal_range :: "('k::linorder \<times> 'v) list \<Rightarrow> 'k \<Rightarrow> nat \<times> nat" where
  "fmm_equal_range xs k = (fmm_lower_bound xs k, fmm_upper_bound xs k)"

definition key_compare :: "'k::linorder \<times> 'v \<Rightarrow> 'k \<times> 'v \<Rightarrow> bool" where
  "key_compare a b \<longleftrightarrow> fst a < fst b"

definition fmm_from_range :: "('k::linorder \<times> 'v) list \<Rightarrow> ('k \<times> 'v) list" where
  "fmm_from_range rng = lt_sort key_compare rng"

definition fmm_insert :: "('k::linorder \<times> 'v) list \<Rightarrow> 'k \<times> 'v \<Rightarrow> ('k \<times> 'v) list \<times> nat" where
  "fmm_insert xs value =
     (if xs = [] \<or> \<not> fst value < fst (last xs) then (xs @ [value], length xs)
      else let pos = fmm_upper_bound xs (fst value) in (insert_at pos value xs, pos))"

text \<open>The guard the searches share: the key is outside the range of the keys.\<close>

definition fmm_outside :: "('k::linorder \<times> 'v) list \<Rightarrow> 'k \<Rightarrow> bool" where
  "fmm_outside xs k \<longleftrightarrow> xs = [] \<or> k < fst (hd xs) \<or> fst (last xs) < k"

definition fmm_remove_one :: "('k::linorder \<times> 'v) list \<Rightarrow> 'k \<Rightarrow> ('k \<times> 'v) list \<times> bool" where
  "fmm_remove_one xs k =
     (if fmm_outside xs k then (xs, False)
      else let pos = fmm_lower_bound xs k in
        if k < fst (xs ! pos) then (xs, False) else (erase_at pos xs, True))"

definition fmm_remove_all :: "('k::linorder \<times> 'v) list \<Rightarrow> 'k \<Rightarrow> ('k \<times> 'v) list \<times> nat" where
  "fmm_remove_all xs k =
     (if fmm_outside xs k then (xs, 0)
      else let (first, second) = fmm_equal_range xs k in
        if first = second then (xs, 0) else (erase_range first second xs, second - first))"

function fmm_remove_value :: "('k::linorder \<times> 'v) list \<Rightarrow> 'k \<Rightarrow> 'v \<Rightarrow> nat \<Rightarrow> ('k \<times> 'v) list \<times> bool" where
  "fmm_remove_value xs k v pos =
     (if pos < length xs \<and> \<not> k < fst (xs ! pos) then
        if snd (xs ! pos) = v then (erase_at pos xs, True)
        else fmm_remove_value xs k v (Suc pos)
      else (xs, False))"
  by pat_completeness auto
termination
  by (relation "measure (\<lambda>(xs, k, v, pos). length xs - pos)") auto

definition fmm_remove :: "('k::linorder \<times> 'v) list \<Rightarrow> 'k \<Rightarrow> 'v \<Rightarrow> ('k \<times> 'v) list \<times> bool" where
  "fmm_remove xs k v =
     (if fmm_outside xs k then (xs, False) else fmm_remove_value xs k v (fmm_lower_bound xs k))"

definition fmm_find_first :: "('k::linorder \<times> 'v) list \<Rightarrow> 'k \<Rightarrow> nat" where
  "fmm_find_first xs k =
     (if fmm_outside xs k then length xs
      else let pos = fmm_lower_bound xs k in if k < fst (xs ! pos) then length xs else pos)"

definition fmm_contains :: "('k::linorder \<times> 'v) list \<Rightarrow> 'k \<Rightarrow> bool" where
  "fmm_contains xs k \<longleftrightarrow> fmm_find_first xs k \<noteq> length xs"

definition fmm_count :: "('k::linorder \<times> 'v) list \<Rightarrow> 'k \<Rightarrow> nat" where
  "fmm_count xs k =
     (if fmm_outside xs k then 0
      else let (first, second) = fmm_equal_range xs k in second - first)"

definition fm_finalize :: "('k::linorder \<times> 'v) list \<Rightarrow> ('k \<times> 'v) list" where
  "fm_finalize xs = lt_unique key_compare xs"

definition fm_from_range :: "('k::linorder \<times> 'v) list \<Rightarrow> ('k \<times> 'v) list" where
  "fm_from_range rng = fm_finalize (fmm_from_range rng)"

definition fm_insert :: "('k::linorder \<times> 'v) list \<Rightarrow> 'k \<times> 'v \<Rightarrow> ('k \<times> 'v) list \<times> nat \<times> bool" where
  "fm_insert xs value =
     (if xs = [] \<or> fst (last xs) < fst value then (xs @ [value], length xs, True)
      else let pos = fmm_lower_bound xs (fst value) in
        if fst value < fst (xs ! pos) then (insert_at pos value xs, pos, True)
        else (xs, pos, False))"

definition fm_insert_or_assign :: "('k::linorder \<times> 'v) list \<Rightarrow> 'k \<Rightarrow> 'v \<Rightarrow> ('k \<times> 'v) list \<times> nat \<times> bool" where
  "fm_insert_or_assign xs k v =
     (if xs = [] \<or> fst (last xs) < k then (xs @ [(k, v)], length xs, True)
      else let pos = fmm_lower_bound xs k in
        if k < fst (xs ! pos) then (insert_at pos (k, v) xs, pos, True)
        else (xs[pos := (fst (xs ! pos), v)], pos, False))"

definition fm_emplace :: "('k::linorder \<times> 'v) list \<Rightarrow> 'k \<Rightarrow> 'v \<Rightarrow> ('k \<times> 'v) list \<times> nat \<times> bool" where
  "fm_emplace xs k v = fm_insert xs (k, v)"

definition fm_emplace_or_assign :: "('k::linorder \<times> 'v) list \<Rightarrow> 'k \<Rightarrow> 'v \<Rightarrow> ('k \<times> 'v) list \<times> nat \<times> bool" where
  "fm_emplace_or_assign xs k v = fm_insert_or_assign xs k v"

definition fm_try_emplace :: "('k::linorder \<times> 'v) list \<Rightarrow> 'k \<Rightarrow> 'v \<Rightarrow> ('k \<times> 'v) list \<times> nat \<times> bool" where
  "fm_try_emplace xs k v =
     (if xs = [] \<or> fst (last xs) < k then (xs @ [(k, v)], length xs, True)
      else let pos = fmm_lower_bound xs k in
        if k < fst (xs ! pos) then (insert_at pos (k, v) xs, pos, True) else (xs, pos, False))"

definition fm_remove :: "('k::linorder \<times> 'v) list \<Rightarrow> 'k \<Rightarrow> ('k \<times> 'v) list \<times> bool" where
  "fm_remove xs k = fmm_remove_one xs k"

definition fm_find :: "('k::linorder \<times> 'v) list \<Rightarrow> 'k \<Rightarrow> nat" where
  "fm_find xs k = fmm_find_first xs k"

text \<open>\<^verbatim>\<open>operator[]\<close> returns the position whose value the caller reads or writes; the
  argument \<open>dflt\<close> is \<^verbatim>\<open>Type()\<close>.\<close>

definition fm_index :: "'v \<Rightarrow> ('k::linorder \<times> 'v) list \<Rightarrow> 'k \<Rightarrow> ('k \<times> 'v) list \<times> nat" where
  "fm_index dflt xs k =
     (if xs = [] \<or> fst (last xs) < k then (xs @ [(k, dflt)], length xs)
      else let pos = fmm_lower_bound xs k in
        if k < fst (xs ! pos) then (insert_at pos (k, dflt) xs, pos) else (xs, pos))"

definition fm_take :: "('k::linorder \<times> 'v) list \<Rightarrow> 'k \<Rightarrow> ('k \<times> 'v) list \<times> 'v option" where
  "fm_take xs k =
     (let it = fm_find xs k in
      if it = length xs then (xs, None) else (erase_at it xs, Some (snd (xs ! it))))"

declare fmm_remove_value.simps [simp del]

section \<open>Correctness\<close>

definition fm_inv :: "('k::linorder \<times> 'v) list \<Rightarrow> bool" where
  "fm_inv xs \<longleftrightarrow> sorted_wrt (<) (map fst xs)"

lemma fm_inv_key_compare: "fm_inv xs \<longleftrightarrow> fs_inv key_compare xs"
  by (induction xs) (auto simp: fm_inv_def fs_inv_def key_compare_def)

lemma fm_inv_Nil [simp]: "fm_inv []"
  by (simp add: fm_inv_def)

lemma fm_inv_distinct: "fm_inv xs \<Longrightarrow> distinct (map fst xs)"
  by (simp add: fm_inv_def strict_sorted_iff)

lemma fm_inv_append:
  "fm_inv (xs @ ys) \<longleftrightarrow> fm_inv xs \<and> fm_inv ys \<and> (\<forall>x\<in>set xs. \<forall>y\<in>set ys. fst x < fst y)"
  by (auto simp: fm_inv_def sorted_wrt_append)

lemma fm_inv_Cons: "fm_inv (x # xs) \<longleftrightarrow> fm_inv xs \<and> (\<forall>y\<in>set xs. fst x < fst y)"
  by (auto simp: fm_inv_def)

interpretation key_less: strict_weak "key_compare :: 'k::linorder \<times> 'v \<Rightarrow> 'k \<times> 'v \<Rightarrow> bool"
  by unfold_locales (auto simp: key_compare_def)

text \<open>The split of a vector around a key: smaller keys, perhaps the key, larger keys. Every
  operation has one equation for a vector that holds the key and one for a vector that does
  not.\<close>

definition key_split :: "'k::linorder \<Rightarrow> ('k \<times> 'v) list \<Rightarrow> ('k \<times> 'v) list \<Rightarrow> bool" where
  "key_split k as bs \<longleftrightarrow> (\<forall>p\<in>set as. fst p < k) \<and> (\<forall>p\<in>set bs. k < fst p)"

lemma fm_split_cases:
  assumes "fm_inv xs"
  obtains (hit) as v bs where "xs = as @ (k, v) # bs" "key_split k as bs"
  | (miss) as bs where "xs = as @ bs" "key_split k as bs"
proof -
  define as where "as = takeWhile (\<lambda>p. fst p < k) xs"
  define bs where "bs = dropWhile (\<lambda>p. fst p < k) xs"
  have xs: "xs = as @ bs" by (simp add: as_def bs_def)
  have as: "fst p < k" if "p \<in> set as" for p
    using that unfolding as_def by (rule set_takeWhileD [THEN conjunct2])
  show ?thesis
  proof (cases bs)
    case Nil
    then show ?thesis using miss [of as bs] xs as by (simp add: key_split_def)
  next
    case (Cons b bs')
    then have b: "\<not> fst b < k"
      using hd_dropWhile [of "\<lambda>p. fst p < k" xs] by (simp add: bs_def)
    have bs': "fst b < fst p" if "p \<in> set bs'" for p
      using assms that unfolding xs Cons fm_inv_append fm_inv_Cons by blast
    show ?thesis
    proof (cases "fst b = k")
      case True
      then show ?thesis
        using hit [of as "snd b" bs'] xs Cons as bs' by (cases b) (simp add: key_split_def)
    next
      case False
      with b bs' have "k < fst p" if "p \<in> set bs" for p
        using that Cons by fastforce
      then show ?thesis using miss [of as bs] xs as by (simp add: key_split_def)
    qed
  qed
qed

lemma key_split_lower [simp]:
  assumes "key_split k as bs"
  shows "fmm_lower_bound (as @ bs) k = length as" "fmm_lower_bound (as @ (k, v) # bs) k = length as"
proof -
  have "takeWhile (\<lambda>p. fst p < k) as = as" "takeWhile (\<lambda>p. fst p < k) bs = []"
    using assms by (cases bs; auto simp: key_split_def)+
  then show "fmm_lower_bound (as @ bs) k = length as" "fmm_lower_bound (as @ (k, v) # bs) k = length as"
    using assms by (simp_all add: fmm_lower_bound_def takeWhile_append key_split_def)
qed

lemma key_split_last:
  assumes "key_split k as bs"
  shows "\<not> fst (last (as @ (k, v) # bs)) < k"
    and "bs \<noteq> [] \<Longrightarrow> \<not> fst (last (as @ bs)) < k"
    and "bs = [] \<Longrightarrow> as \<noteq> [] \<Longrightarrow> fst (last as) < k"
  using assms by (auto simp: key_split_def dest: less_not_sym)

lemma key_split_hd:
  assumes "key_split k as bs"
  shows "\<not> k < fst (hd (as @ (k, v) # bs))"
    and "as \<noteq> [] \<Longrightarrow> \<not> k < fst (hd as)"
    and "as = [] \<Longrightarrow> bs \<noteq> [] \<Longrightarrow> k < fst (hd bs)"
  using assms by (cases as; auto simp: key_split_def dest: less_not_sym)+

lemma key_split_insert:
  assumes "key_split k as bs"
  shows "fm_insert (as @ (k, w) # bs) (k, v) = (as @ (k, w) # bs, length as, False)"
    and "fm_insert (as @ bs) (k, v) = (as @ (k, v) # bs, length as, True)"
    and "fm_try_emplace (as @ (k, w) # bs) k v = (as @ (k, w) # bs, length as, False)"
    and "fm_try_emplace (as @ bs) k v = (as @ (k, v) # bs, length as, True)"
    and "fm_insert_or_assign (as @ (k, w) # bs) k v = (as @ (k, v) # bs, length as, False)"
    and "fm_insert_or_assign (as @ bs) k v = (as @ (k, v) # bs, length as, True)"
    and "fm_index v (as @ (k, w) # bs) k = (as @ (k, w) # bs, length as)"
    and "fm_index v (as @ bs) k = (as @ (k, v) # bs, length as)"
proof -
  note defs = fm_insert_def fm_try_emplace_def fm_insert_or_assign_def fm_index_def Let_def
    insert_at_def
  show "fm_insert (as @ (k, w) # bs) (k, v) = (as @ (k, w) # bs, length as, False)"
    "fm_try_emplace (as @ (k, w) # bs) k v = (as @ (k, w) # bs, length as, False)"
    "fm_insert_or_assign (as @ (k, w) # bs) k v = (as @ (k, v) # bs, length as, False)"
    "fm_index v (as @ (k, w) # bs) k = (as @ (k, w) # bs, length as)"
    using assms key_split_last(1) [OF assms] by (simp_all add: defs)
  show "fm_insert (as @ bs) (k, v) = (as @ (k, v) # bs, length as, True)"
    "fm_try_emplace (as @ bs) k v = (as @ (k, v) # bs, length as, True)"
    "fm_insert_or_assign (as @ bs) k v = (as @ (k, v) # bs, length as, True)"
    "fm_index v (as @ bs) k = (as @ (k, v) # bs, length as)"
  proof -
    have guard: "as @ bs = [] \<or> fst (last (as @ bs)) < k \<longleftrightarrow> bs = []"
      using key_split_last(2,3) [OF assms] by (cases "bs = []") auto
    have at: "bs \<noteq> [] \<Longrightarrow> k < fst ((as @ bs) ! length as)"
      using assms by (cases bs) (simp_all add: key_split_def)
    show "fm_insert (as @ bs) (k, v) = (as @ (k, v) # bs, length as, True)"
      "fm_try_emplace (as @ bs) k v = (as @ (k, v) # bs, length as, True)"
      "fm_insert_or_assign (as @ bs) k v = (as @ (k, v) # bs, length as, True)"
      "fm_index v (as @ bs) k = (as @ (k, v) # bs, length as)"
      unfolding fm_insert_def fm_try_emplace_def fm_insert_or_assign_def fm_index_def fst_conv guard
      using at key_split_lower(1) [OF assms] by (cases "bs = []"; simp add: Let_def insert_at_def)+
  qed
qed

lemma key_split_find:
  assumes "key_split k as bs"
  shows "fmm_find_first (as @ (k, w) # bs) k = length as"
    and "fmm_find_first (as @ bs) k = length (as @ bs)"
proof -
  show "fmm_find_first (as @ (k, w) # bs) k = length as"
    using assms key_split_last(1) [OF assms] key_split_hd(1) [OF assms]
    by (simp add: fmm_find_first_def fmm_outside_def Let_def)
  show "fmm_find_first (as @ bs) k = length (as @ bs)"
  proof (cases bs)
    case Nil
    then show ?thesis
      using key_split_last(3) [OF assms] by (auto simp: fmm_find_first_def fmm_outside_def)
  next
    case (Cons b bs')
    then have "k < fst b" using assms by (simp add: key_split_def)
    with assms Cons show ?thesis
      by (simp add: fmm_find_first_def Let_def)
  qed
qed

lemma key_split_remove:
  assumes "key_split k as bs"
  shows "fmm_remove_one (as @ (k, w) # bs) k = (as @ bs, True)"
    and "fmm_remove_one (as @ bs) k = (as @ bs, False)"
    and "fm_take (as @ (k, w) # bs) k = (as @ bs, Some w)"
    and "fm_take (as @ bs) k = (as @ bs, None)"
proof -
  show "fmm_remove_one (as @ (k, w) # bs) k = (as @ bs, True)"
    using assms key_split_last(1) [OF assms] key_split_hd(1) [OF assms]
    by (simp add: fmm_remove_one_def fmm_outside_def Let_def erase_at_def)
  show "fmm_remove_one (as @ bs) k = (as @ bs, False)"
    using assms key_split_last(3) [OF assms]
    by (cases bs) (auto simp: fmm_remove_one_def fmm_outside_def Let_def key_split_def)
  show "fm_take (as @ (k, w) # bs) k = (as @ bs, Some w)" "fm_take (as @ bs) k = (as @ bs, None)"
    by (simp_all add: fm_take_def fm_find_def key_split_find [OF assms] Let_def erase_at_def)
qed

lemma key_split_map_of:
  assumes "key_split k as bs"
  shows "map_of as k = None" "map_of bs k = None" "(map_of bs ++ map_of as) k = None"
    and "m(k \<mapsto> v) ++ map_of as = (m ++ map_of as)(k \<mapsto> v)"
proof -
  have "k \<notin> fst ` set as" "k \<notin> fst ` set bs"
    using assms by (auto simp: key_split_def)
  then show "map_of as k = None" "map_of bs k = None" "(map_of bs ++ map_of as) k = None"
    "m(k \<mapsto> v) ++ map_of as = (m ++ map_of as)(k \<mapsto> v)"
    by (simp_all add: map_add_upd_left dom_map_of_conv_image_fst map_of_eq_None_iff map_add_None)
qed

lemma key_split_inv:
  "key_split k as bs \<Longrightarrow> fm_inv (as @ (k, v) # bs) \<longleftrightarrow> fm_inv (as @ bs)"
  by (auto simp: fm_inv_append fm_inv_Cons key_split_def)

section \<open>The map the operations compute\<close>

lemma fm_insert_map:
  assumes "fm_inv xs"
  shows "map_of (fst (fm_insert xs (k, v))) =
    (if map_of xs k = None then (map_of xs)(k \<mapsto> v) else map_of xs)"
  using assms by (cases rule: fm_split_cases [of xs k]) (auto simp: key_split_insert key_split_map_of)

lemma fm_insert_fresh: "fm_inv xs \<Longrightarrow> snd (snd (fm_insert xs (k, v))) \<longleftrightarrow> map_of xs k = None"
  by (cases rule: fm_split_cases [of xs k]) (auto simp: key_split_insert key_split_map_of)

lemma fm_insert_inv: "fm_inv xs \<Longrightarrow> fm_inv (fst (fm_insert xs p))"
  by (cases p, cases rule: fm_split_cases [of xs "fst p"])
    (auto simp: key_split_insert key_split_inv)

lemma fm_try_emplace_insert: "fm_try_emplace xs k v = fm_insert xs (k, v)"
  by (simp add: fm_try_emplace_def fm_insert_def)

lemma fm_insert_or_assign_map:
  "fm_inv xs \<Longrightarrow> map_of (fst (fm_insert_or_assign xs k v)) = (map_of xs)(k \<mapsto> v)"
  by (cases rule: fm_split_cases [of xs k]) (auto simp: key_split_insert key_split_map_of)

lemma fm_insert_or_assign_inv: "fm_inv xs \<Longrightarrow> fm_inv (fst (fm_insert_or_assign xs k v))"
  by (cases rule: fm_split_cases [of xs k]) (auto simp: key_split_insert key_split_inv)

lemma fm_index_map:
  "fm_inv xs \<Longrightarrow> map_of (fst (fm_index d xs k)) =
     (if map_of xs k = None then (map_of xs)(k \<mapsto> d) else map_of xs)"
  by (cases rule: fm_split_cases [of xs k]) (auto simp: key_split_insert key_split_map_of)

lemma fm_index_inv: "fm_inv xs \<Longrightarrow> fm_inv (fst (fm_index d xs k))"
  by (cases rule: fm_split_cases [of xs k]) (auto simp: key_split_insert key_split_inv)

lemma fm_index_nth: "fm_inv xs \<Longrightarrow>
    fst (fm_index d xs k) ! snd (fm_index d xs k) = (k, case map_of xs k of None \<Rightarrow> d | Some v \<Rightarrow> v)"
  by (cases rule: fm_split_cases [of xs k]) (auto simp: key_split_insert key_split_map_of)

lemma fm_remove_map: "fm_inv xs \<Longrightarrow> map_of (fst (fm_remove xs k)) = (map_of xs)(k := None)"
  by (cases rule: fm_split_cases [of xs k])
    (auto simp: fm_remove_def key_split_remove key_split_map_of fun_upd_idem)

lemma fm_remove_hit: "fm_inv xs \<Longrightarrow> snd (fm_remove xs k) \<longleftrightarrow> map_of xs k \<noteq> None"
  by (cases rule: fm_split_cases [of xs k])
    (auto simp: fm_remove_def key_split_remove key_split_map_of)

lemma fm_remove_inv: "fm_inv xs \<Longrightarrow> fm_inv (fst (fm_remove xs k))"
  by (cases rule: fm_split_cases [of xs k])
    (auto simp: fm_remove_def key_split_remove key_split_inv)

lemma fm_take_map: "fm_inv xs \<Longrightarrow>
    map_of (fst (fm_take xs k)) = (map_of xs)(k := None) \<and> snd (fm_take xs k) = map_of xs k"
  by (cases rule: fm_split_cases [of xs k])
    (auto simp: key_split_remove key_split_map_of fun_upd_idem)

lemma fm_find_end: "fm_inv xs \<Longrightarrow> fm_find xs k = length xs \<longleftrightarrow> map_of xs k = None"
  by (cases rule: fm_split_cases [of xs k]) (auto simp: fm_find_def key_split_find key_split_map_of)

lemma fm_find_nth: "fm_inv xs \<Longrightarrow> map_of xs k = Some v \<Longrightarrow>
    fm_find xs k < length xs \<and> xs ! fm_find xs k = (k, v)"
  by (cases rule: fm_split_cases [of xs k]) (auto simp: fm_find_def key_split_find key_split_map_of)

lemma fm_contains_dom: "fm_inv xs \<Longrightarrow> fmm_contains xs k \<longleftrightarrow> map_of xs k \<noteq> None"
  using fm_find_end [of xs k] by (simp add: fmm_contains_def fm_find_def)

lemma fm_from_range_inv: "fm_inv (fm_from_range rng)"
  by (simp add: fm_inv_key_compare fm_from_range_def fm_finalize_def fmm_from_range_def
      key_less.lt_unique_inv key_less.lt_sort_inv)

lemma fm_inv_tl: "fm_inv xs \<Longrightarrow> fm_inv (tl xs)"
  by (cases xs) (auto simp: fm_inv_Cons)

lemma fm_inv_erase: "fm_inv xs \<Longrightarrow> fm_inv (erase_at n xs)"
  using sorted_wrt_erase_at [of key_compare xs n] by (simp add: fm_inv_key_compare fs_inv_def)

section \<open>The interface of the map\<close>

locale map_store =
  fixes store_inv :: "'m \<Rightarrow> bool"
    and lookup :: "'m \<Rightarrow> 'k \<Rightarrow> 'v option"
    and emplace :: "'m \<Rightarrow> 'k \<Rightarrow> 'v \<Rightarrow> 'm"
    and assign :: "'m \<Rightarrow> 'k \<Rightarrow> 'v \<Rightarrow> 'm"
    and delete :: "'m \<Rightarrow> 'k \<Rightarrow> 'm"
  assumes emplace_inv: "store_inv m \<Longrightarrow> store_inv (emplace m k v)"
    and assign_inv: "store_inv m \<Longrightarrow> store_inv (assign m k v)"
    and delete_inv: "store_inv m \<Longrightarrow> store_inv (delete m k)"
    and lookup_emplace: "store_inv m \<Longrightarrow>
      lookup (emplace m k v) = (if lookup m k = None then (lookup m)(k \<mapsto> v) else lookup m)"
    and lookup_assign: "store_inv m \<Longrightarrow> lookup (assign m k v) = (lookup m)(k \<mapsto> v)"
    and lookup_delete: "store_inv m \<Longrightarrow> lookup (delete m k) = (lookup m)(k := None)"
begin

definition emplace_all :: "('k \<times> 'v) list \<Rightarrow> 'm \<Rightarrow> 'm" where
  "emplace_all = fold (\<lambda>(k, v) m. emplace m k v)"

definition assign_all :: "('k \<times> 'v) list \<Rightarrow> 'm \<Rightarrow> 'm" where
  "assign_all = fold (\<lambda>(k, v) m. assign m k v)"

definition delete_all :: "'k list \<Rightarrow> 'm \<Rightarrow> 'm" where
  "delete_all = fold (\<lambda>k m. delete m k)"

lemma emplace_all_inv: "store_inv m \<Longrightarrow> store_inv (emplace_all kvs m)"
  unfolding emplace_all_def by (induction kvs arbitrary: m) (auto simp: emplace_inv)

lemma assign_all_inv: "store_inv m \<Longrightarrow> store_inv (assign_all kvs m)"
  unfolding assign_all_def by (induction kvs arbitrary: m) (auto simp: assign_inv)

lemma delete_all_inv: "store_inv m \<Longrightarrow> store_inv (delete_all ks m)"
  unfolding delete_all_def by (induction ks arbitrary: m) (auto simp: delete_inv)

text \<open>The first value emplaced under a key stays, the last one assigned does.\<close>

lemma lookup_emplace_all: "store_inv m \<Longrightarrow> lookup (emplace_all kvs m) = map_of kvs ++ lookup m"
proof (induction kvs arbitrary: m)
  case (Cons p kvs)
  obtain k v where p: "p = (k, v)" by (cases p)
  have "lookup (emplace_all (p # kvs) m) = map_of kvs ++ lookup (emplace m k v)"
    using Cons by (simp add: p emplace_all_def emplace_inv)
  also have "\<dots> = map_of (p # kvs) ++ lookup m"
    using Cons.prems by (auto simp: p lookup_emplace map_add_def split: option.splits)
  finally show ?case .
qed (simp add: emplace_all_def)

lemma lookup_assign_all:
  "store_inv m \<Longrightarrow> lookup (assign_all kvs m) = lookup m ++ map_of (rev kvs)"
  unfolding assign_all_def
  by (induction kvs arbitrary: m)
    (auto simp: assign_inv lookup_assign map_add_def fun_eq_iff split: option.splits)

lemma lookup_delete_all:
  "store_inv m \<Longrightarrow> lookup (delete_all ks m) = lookup m |` (- set ks)"
  unfolding delete_all_def
  by (induction ks arbitrary: m)
    (auto simp: delete_inv lookup_delete restrict_map_def fun_eq_iff)

end

interpretation flat_store: map_store fm_inv map_of
  "\<lambda>m k v. fst (fm_emplace m k v)" "\<lambda>m k v. fst (fm_emplace_or_assign m k v)"
  "\<lambda>m k. fst (fm_remove m k)"
  by unfold_locales
    (simp_all add: fm_emplace_def fm_emplace_or_assign_def fm_insert_inv fm_insert_or_assign_inv
      fm_remove_inv fm_insert_map fm_insert_or_assign_map fm_remove_map)

section \<open>Properties\<close>



end
