(* ===== verification/TlTypes.thy ===== *)
theory TlTypes imports Prelude "HOL-Library.Word" begin

text \<open>
  The wire format of the TL types: \<^verbatim>\<open>lib_tl/tl/tl_basic_types.h\<close>,
  \<^verbatim>\<open>lib_tl/tl/tl_boxed.h\<close> and the reader and writer of
  \<^verbatim>\<open>mtproto/core_types.h\<close>. A buffer is a list of 32-bit primes. A
  \<^verbatim>\<open>read(from, end, cons)\<close> returns the value (\<open>None\<close> for \<^verbatim>\<open>false\<close>)
  and where \<^verbatim>\<open>from\<close> was left; a \<^verbatim>\<open>write(to)\<close> is a template over the accumulator,
  here over a record of the two functions \<^verbatim>\<open>Put\<close> and \<^verbatim>\<open>PutBytes\<close>, with the
  instances \<open>buffer_writer\<close> (\<^verbatim>\<open>mtpBuffer\<close>) and \<open>length_writer\<close>
  (\<^verbatim>\<open>LengthCounter\<close>). Bytes are placed in primes with the low byte first, as
  \<^verbatim>\<open>memcpy\<close> does on the little-endian platforms of the client.
\<close>

unbundle bit_operations_syntax

type_synonym prime = "32 word"
type_synonym byte = "8 word"
type_synonym 'a read_result = "'a option \<times> prime list"

section \<open>Readers and writers\<close>

record 'acc tl_writer =
  tl_put :: "'acc \<Rightarrow> prime \<Rightarrow> 'acc"
  tl_put_bytes :: "'acc \<Rightarrow> byte list \<Rightarrow> 'acc"

definition prime_count :: "nat \<Rightarrow> nat" where
  "prime_count count = count div 4 + (if count mod 4 \<noteq> 0 then 1 else 0)"

definition pack4 :: "byte \<Rightarrow> byte \<Rightarrow> byte \<Rightarrow> byte \<Rightarrow> prime" where
  "pack4 b0 b1 b2 b3 =
     ucast b0 OR push_bit 8 (ucast b1) OR push_bit 16 (ucast b2) OR push_bit 24 (ucast b3)"

definition byte_of :: "nat \<Rightarrow> prime \<Rightarrow> byte" where
  "byte_of i p = ucast (drop_bit (8 * i) p)"

fun primes_of_bytes :: "byte list \<Rightarrow> prime list" where
  "primes_of_bytes [] = []"
| "primes_of_bytes [b0] = [pack4 b0 0 0 0]"
| "primes_of_bytes [b0, b1] = [pack4 b0 b1 0 0]"
| "primes_of_bytes [b0, b1, b2] = [pack4 b0 b1 b2 0]"
| "primes_of_bytes (b0 # b1 # b2 # b3 # bs) = pack4 b0 b1 b2 b3 # primes_of_bytes bs"

definition bytes_of_primes :: "prime list \<Rightarrow> byte list" where
  "bytes_of_primes ps = concat (map (\<lambda>p. [byte_of 0 p, byte_of 1 p, byte_of 2 p, byte_of 3 p]) ps)"

definition buffer_writer :: "prime list tl_writer" where
  "buffer_writer = \<lparr>
     tl_put = (\<lambda>to value. to @ [value]),
     tl_put_bytes = (\<lambda>to bytes. to @ primes_of_bytes bytes) \<rparr>"

definition length_writer :: "32 word tl_writer" where
  "length_writer = \<lparr>
     tl_put = (\<lambda>len value. len + 4),
     tl_put_bytes = (\<lambda>len bytes. len + of_nat (prime_count (length bytes) * 4)) \<rparr>"

definition reader_has :: "nat \<Rightarrow> prime list \<Rightarrow> bool" where
  "reader_has primes from \<longleftrightarrow> primes \<le> length from"

definition reader_has_bytes :: "nat \<Rightarrow> prime list \<Rightarrow> bool" where
  "reader_has_bytes count from \<longleftrightarrow> prime_count count \<le> length from"

definition reader_get :: "prime list \<Rightarrow> prime \<times> prime list" where
  "reader_get from = (hd from, tl from)"

definition reader_get_bytes :: "nat \<Rightarrow> prime list \<Rightarrow> byte list \<times> prime list" where
  "reader_get_bytes count from =
     (let primes = prime_count count in
      (take count (bytes_of_primes (take primes from)), drop primes from))"

section \<open>The types\<close>

definition id_int :: prime where "id_int = 0xa8509bda"
definition id_long :: prime where "id_long = 0x22076cba"
definition id_int128 :: prime where "id_int128 = 0x4bb5362b"
definition id_int256 :: prime where "id_int256 = 0x929c32f"
definition id_double :: prime where "id_double = 0x2210c154"
definition id_string :: prime where "id_string = 0xb5286e24"
definition id_vector :: prime where "id_vector = 0x1cb5c415"
definition id_flags :: prime where "id_flags = id_int"
definition id_flags64 :: prime where "id_flags64 = id_long"

definition int_read :: "prime \<Rightarrow> prime list \<Rightarrow> 32 word read_result" where
  "int_read cons from =
     (if \<not> reader_has 1 from \<or> cons \<noteq> id_int then (None, from)
      else let (v, from) = reader_get from in (Some v, from))"

definition int_write :: "'acc tl_writer \<Rightarrow> 'acc \<Rightarrow> 32 word \<Rightarrow> 'acc" where
  "int_write w to v = tl_put w to v"

definition low_half :: "64 word \<Rightarrow> prime" where
  "low_half v = ucast (v AND 0xFFFFFFFF)"

definition high_half :: "64 word \<Rightarrow> prime" where
  "high_half v = ucast (drop_bit 32 v)"

definition join_halves :: "prime \<Rightarrow> prime \<Rightarrow> 64 word" where
  "join_halves low high = ucast low OR push_bit 32 (ucast high)"

definition flags_read :: "prime \<Rightarrow> prime list \<Rightarrow> 32 word read_result" where
  "flags_read cons from =
     (if \<not> reader_has 1 from \<or> cons \<noteq> id_flags then (None, from)
      else let (v, from) = reader_get from in (Some v, from))"

definition flags64_read :: "prime \<Rightarrow> prime list \<Rightarrow> 64 word read_result" where
  "flags64_read cons from =
     (if \<not> reader_has 1 from \<or> cons \<noteq> id_flags then (None, from)
      else let (low, from) = reader_get from in
        if \<not> reader_has 1 from then (None, from)
        else let (high, from) = reader_get from in (Some (join_halves low high), from))"

definition flags64_write :: "'acc tl_writer \<Rightarrow> 'acc \<Rightarrow> 64 word \<Rightarrow> 'acc" where
  "flags64_write w to v = tl_put w (tl_put w to (low_half v)) (high_half v)"

definition long_read :: "prime \<Rightarrow> prime list \<Rightarrow> 64 word read_result" where
  "long_read cons from =
     (if \<not> reader_has 2 from \<or> cons \<noteq> id_long then (None, from)
      else let (low, from) = reader_get from; (high, from) = reader_get from in
        (Some (join_halves low high), from))"

definition long_write :: "'acc tl_writer \<Rightarrow> 'acc \<Rightarrow> 64 word \<Rightarrow> 'acc" where
  "long_write w to v = tl_put w (tl_put w to (low_half v)) (high_half v)"

text \<open>\<^verbatim>\<open>int64_type\<close> casts to and from \<^verbatim>\<open>uint64\<close>: the same 64 bits, read as
  signed.\<close>

definition int64_read :: "prime \<Rightarrow> prime list \<Rightarrow> 64 word read_result" where
  "int64_read cons from =
     (if \<not> reader_has 2 from \<or> cons \<noteq> id_long then (None, from)
      else let (low, from) = reader_get from; (high, from) = reader_get from in
        (Some (join_halves low high), from))"

definition int64_write :: "'acc tl_writer \<Rightarrow> 'acc \<Rightarrow> 64 word \<Rightarrow> 'acc" where
  "int64_write w to v = tl_put w (tl_put w to (low_half v)) (high_half v)"

record int128 =
  i128_l :: "64 word"
  i128_h :: "64 word"

definition int128_read :: "prime \<Rightarrow> prime list \<Rightarrow> int128 read_result" where
  "int128_read cons from =
     (if \<not> reader_has 4 from \<or> cons \<noteq> id_int128 then (None, from)
      else let (l0, from) = reader_get from; (l1, from) = reader_get from;
               (h0, from) = reader_get from; (h1, from) = reader_get from in
        (Some \<lparr>i128_l = join_halves l0 l1, i128_h = join_halves h0 h1\<rparr>, from))"

definition int128_write :: "'acc tl_writer \<Rightarrow> 'acc \<Rightarrow> int128 \<Rightarrow> 'acc" where
  "int128_write w to v =
     tl_put w (tl_put w (tl_put w (tl_put w to (low_half (i128_l v))) (high_half (i128_l v)))
       (low_half (i128_h v))) (high_half (i128_h v))"

record int256 =
  i256_l :: int128
  i256_h :: int128

definition int256_read :: "prime \<Rightarrow> prime list \<Rightarrow> int256 read_result" where
  "int256_read cons from =
     (if cons \<noteq> id_int256 then (None, from)
      else case int128_read id_int128 from of
        (None, from) \<Rightarrow> (None, from)
      | (Some l, from) \<Rightarrow>
          (case int128_read id_int128 from of
             (None, from) \<Rightarrow> (None, from)
           | (Some h, from) \<Rightarrow> (Some \<lparr>i256_l = l, i256_h = h\<rparr>, from)))"

definition int256_write :: "'acc tl_writer \<Rightarrow> 'acc \<Rightarrow> int256 \<Rightarrow> 'acc" where
  "int256_write w to v = int128_write w (int128_write w to (i256_l v)) (i256_h v)"

text \<open>A \<^verbatim>\<open>float64\<close> by its bits (\<^verbatim>\<open>memcpy\<close> to and from
  \<^verbatim>\<open>uint64\<close>).\<close>

definition double_read :: "prime \<Rightarrow> prime list \<Rightarrow> 64 word read_result" where
  "double_read cons from =
     (if \<not> reader_has 2 from \<or> cons \<noteq> id_double then (None, from)
      else let (low, from) = reader_get from; (high, from) = reader_get from in
        (Some (join_halves low high), from))"

definition double_write :: "'acc tl_writer \<Rightarrow> 'acc \<Rightarrow> 64 word \<Rightarrow> 'acc" where
  "double_write w to v = tl_put w (tl_put w to (low_half v)) (high_half v)"

definition string_read :: "prime \<Rightarrow> prime list \<Rightarrow> byte list read_result" where
  "string_read cons from =
     (if \<not> reader_has 1 from \<or> cons \<noteq> id_string then (None, from)
      else let (first, from) = reader_get from; last = first AND 0xFF;
               at = (\<lambda>n. ucast (drop_bit n first AND 0xFF) :: byte) in
        if last > 254 then (None, from)
        else if last = 0 then (Some [], from)
        else if last = 1 then (Some [at 8], from)
        else if last = 2 then (Some [at 8, at 16], from)
        else if last < 254 then
          let remaining = unat (last - 3) in
          if \<not> reader_has_bytes remaining from then (None, from)
          else let (bytes, from) = reader_get_bytes remaining from in
            (Some ([at 8, at 16, at 24] @ bytes), from)
        else
          let len = unat (drop_bit 8 first) in
          if \<not> reader_has_bytes len from then (None, from)
          else let (bytes, from) = reader_get_bytes len from in (Some bytes, from))"

text \<open>\<^verbatim>\<open>Expects(v.size() < 0x1000000)\<close> is the precondition \<open>string_ok\<close>.\<close>

definition string_ok :: "byte list \<Rightarrow> bool" where
  "string_ok v \<longleftrightarrow> length v < 0x1000000"

definition string_write :: "'acc tl_writer \<Rightarrow> 'acc \<Rightarrow> byte list \<Rightarrow> 'acc" where
  "string_write w to v =
     (let size = of_nat (length v) :: prime; ch = (\<lambda>i. ucast (v ! i) :: prime) in
      if size = 0 then tl_put w to size
      else if size = 1 then tl_put w to (size OR push_bit 8 (ch 0))
      else if size = 2 then tl_put w to (size OR push_bit 8 (ch 0) OR push_bit 16 (ch 1))
      else if size < 254 then
        tl_put_bytes w
          (tl_put w to (size OR push_bit 8 (ch 0) OR push_bit 16 (ch 1) OR push_bit 24 (ch 2)))
          (drop 3 v)
      else tl_put_bytes w (tl_put w to (push_bit 8 size OR 254)) v)"

text \<open>The loop over the items of \<^verbatim>\<open>vector_type::read\<close>, over the reader of the item
  type.\<close>

fun items_read :: "(prime list \<Rightarrow> 'a read_result) \<Rightarrow> nat \<Rightarrow> prime list \<Rightarrow> 'a list read_result" where
  "items_read rd 0 from = (Some [], from)"
| "items_read rd (Suc n) from =
     (case rd from of
        (None, from) \<Rightarrow> (None, from)
      | (Some item, from) \<Rightarrow>
          (case items_read rd n from of
             (None, from) \<Rightarrow> (None, from)
           | (Some items, from) \<Rightarrow> (Some (item # items), from)))"

definition vector_read :: "(prime list \<Rightarrow> 'a read_result) \<Rightarrow> prime \<Rightarrow> prime list \<Rightarrow> 'a list read_result" where
  "vector_read rd cons from =
     (if \<not> reader_has 1 from \<or> cons \<noteq> id_vector then (None, from)
      else let (count, from) = reader_get from in items_read rd (unat count) from)"

definition vector_write :: "('acc \<Rightarrow> 'a \<Rightarrow> 'acc) \<Rightarrow> 'acc tl_writer \<Rightarrow> 'acc \<Rightarrow> 'a list \<Rightarrow> 'acc" where
  "vector_write wr w to v = foldl wr (tl_put w to (of_nat (length v))) v"

definition boxed_read :: "(prime \<Rightarrow> prime list \<Rightarrow> 'a read_result) \<Rightarrow> prime list \<Rightarrow> 'a read_result" where
  "boxed_read rd from =
     (if \<not> reader_has 1 from then (None, from)
      else let (cons, from) = reader_get from in rd cons from)"

definition boxed_write :: "prime \<Rightarrow> ('acc \<Rightarrow> 'a \<Rightarrow> 'acc) \<Rightarrow> 'acc tl_writer \<Rightarrow> 'acc \<Rightarrow> 'a \<Rightarrow> 'acc" where
  "boxed_write tid wr w to v = wr (tl_put w to tid) v"

text \<open>\<^verbatim>\<open>count_length\<close>: a write to a \<^verbatim>\<open>LengthCounter\<close>.\<close>

definition count_length :: "(32 word \<Rightarrow> 'a \<Rightarrow> 32 word) \<Rightarrow> 'a \<Rightarrow> 32 word" where
  "count_length wr value = wr 0 value"

section \<open>Bytes in primes\<close>

lemma bit_high_byte: "8 \<le> n \<Longrightarrow> \<not> bit (b :: 8 word) n"
  by (auto dest: bit_imp_le_length)

lemma byte_of_pack4 [simp]:
  "byte_of 0 (pack4 b0 b1 b2 b3) = b0" "byte_of 1 (pack4 b0 b1 b2 b3) = b1"
  "byte_of 2 (pack4 b0 b1 b2 b3) = b2" "byte_of 3 (pack4 b0 b1 b2 b3) = b3"
  by (rule bit_word_eqI; simp add: byte_of_def pack4_def bit_simps bit_high_byte)+

lemma bit_small: "s < 2 ^ k \<Longrightarrow> bit (s :: 'a::len word) n \<Longrightarrow> n < k"
proof -
  assume "s < 2 ^ k" and b: "bit s n"
  have "n < LENGTH('a)" using b by (rule bit_imp_le_length)
  show "n < k"
  proof (cases "k < LENGTH('a)")
    case True
    have "s = take_bit k s"
      using \<open>s < 2 ^ k\<close> True by (simp add: take_bit_word_eq_self word_less_nat_alt take_bit_eq_mod mod_word_less)
    with b show ?thesis by (metis bit_take_bit_iff)
  qed (use \<open>n < LENGTH('a)\<close> in simp)
qed

lemma mask_255: "(255 :: 32 word) = mask 8"
  by (simp add: mask_eq_exp_minus_1)

lemma mask_low: "(0xFFFFFFFF :: 64 word) = mask 32"
  by (simp add: mask_eq_exp_minus_1)

lemma join_low_high [simp]: "join_halves (low_half v) (high_half v) = v"
  unfolding join_halves_def low_half_def high_half_def mask_low
  by (rule bit_word_eqI) (auto simp: bit_simps)

lemma head_last: "p AND 0xFF = ucast (byte_of 0 p)"
  unfolding mask_255 byte_of_def by (rule bit_word_eqI) (auto simp: bit_simps)

lemma head_at: "ucast (drop_bit 8 p AND 0xFF) = byte_of 1 p" "ucast (drop_bit 16 p AND 0xFF) = byte_of 2 p"
  "ucast (drop_bit 24 p AND 0xFF) = byte_of 3 p"
  unfolding mask_255 byte_of_def by (rule bit_word_eqI; auto simp: bit_simps)+

lemma bit_254: "bit (254 :: int) n \<Longrightarrow> n < 8"
proof -
  assume "bit (254 :: int) n"
  moreover have "take_bit 8 (254 :: int) = 254" by (simp add: take_bit_eq_mod)
  ultimately show "n < 8" by (metis bit_take_bit_iff)
qed

lemma long_header_last: "(push_bit 8 sz OR 254) AND 0xFF = (254 :: prime)"
  unfolding mask_255 by (rule bit_word_eqI) (auto simp: bit_simps dest: bit_254)

lemma long_header_size: "sz < 0x1000000 \<Longrightarrow> drop_bit 8 (push_bit 8 sz OR 254) = (sz :: prime)"
  using bit_small [of sz 24]
  by (intro bit_word_eqI) (auto simp: bit_simps dest: bit_254)

lemma byte_of_pack4_Suc0 [simp]: "byte_of (Suc 0) (pack4 b0 b1 b2 b3) = b1"
  using byte_of_pack4(2) by simp

lemma bytes_of_primes_Cons [simp]: "bytes_of_primes (p # ps) =
    byte_of 0 p # byte_of 1 p # byte_of 2 p # byte_of 3 p # bytes_of_primes ps"
  by (simp add: bytes_of_primes_def)

lemma prime_count_add4 [simp]: "prime_count (Suc (Suc (Suc (Suc n)))) = Suc (prime_count n)"
  by (simp add: prime_count_def)

lemma length_primes_of_bytes [simp]: "length (primes_of_bytes bs) = prime_count (length bs)"
  by (induction bs rule: primes_of_bytes.induct) (simp_all add: prime_count_def)

lemma bytes_of_primes_of_bytes [simp]:
  "take (length bs) (bytes_of_primes (primes_of_bytes bs)) = bs"
  by (induction bs rule: primes_of_bytes.induct) simp_all

lemma reader_get_primes_of_bytes [simp]:
  "reader_get_bytes (length bs) (primes_of_bytes bs @ rest) = (bs, rest)"
  by (simp add: reader_get_bytes_def)

lemma reader_has_primes_of_bytes [simp]: "reader_has_bytes (length bs) (primes_of_bytes bs @ rest)"
  by (simp add: reader_has_bytes_def)

lemma buffer_put [simp]: "tl_put buffer_writer to p = to @ [p]"
  "tl_put_bytes buffer_writer to bs = to @ primes_of_bytes bs"
  by (simp_all add: buffer_writer_def)

lemma length_put [simp]: "tl_put length_writer len p = len + 4"
  "tl_put_bytes length_writer len bs = len + of_nat (4 * length (primes_of_bytes bs))"
  by (simp_all add: length_writer_def)

lemma of_nat_length_less: "k < 4294967296 \<Longrightarrow> n < 4294967296 \<Longrightarrow> (of_nat n :: prime) < of_nat k \<longleftrightarrow> n < k"
  by (simp add: word_less_nat_alt unat_of_nat)

lemma of_nat_length_eq: "k < 4294967296 \<Longrightarrow> n < 4294967296 \<Longrightarrow> (of_nat n :: prime) = of_nat k \<longleftrightarrow> n = k"
  by (simp add: word_unat_eq_iff unat_of_nat)

text \<open>The first prime of a short string, byte by byte.\<close>

lemma short_header:
  assumes "n < 256"
  shows "(of_nat n :: prime) OR push_bit 8 (ucast b1) OR push_bit 16 (ucast b2) OR push_bit 24 (ucast b3)
    = pack4 (of_nat n) b1 b2 b3"
  using assms by (simp add: pack4_def unsigned_of_nat take_bit_nat_eq_self )

lemma ucast_of_nat_byte: "n < 256 \<Longrightarrow> (ucast (of_nat n :: byte) :: prime) = of_nat n"
  by (simp add: unsigned_of_nat take_bit_nat_eq_self)

lemma string_write_buffer:
  assumes "string_ok v"
  shows "string_write buffer_writer to v =
   to @ (if v = [] then [0] else if length v = 1 then [pack4 1 (v ! 0) 0 0]
     else if length v = 2 then [pack4 2 (v ! 0) (v ! 1) 0]
     else if length v < 254 then pack4 (of_nat (length v)) (v ! 0) (v ! 1) (v ! 2) # primes_of_bytes (drop 3 v)
     else (push_bit 8 (of_nat (length v)) OR 254) # primes_of_bytes v)"
proof -
  have n: "length v < 4294967296" using assms by (simp add: string_ok_def)
  note cmp = of_nat_length_less [OF _ n, of 254] of_nat_length_eq [OF _ n, of 0]
     of_nat_length_eq [OF _ n, of 1]  of_nat_length_eq [OF _ n, of 2]
  show ?thesis
    using cmp short_header [of 1 "v ! 0" 0 0] short_header [of 2 "v ! 0" "v ! 1" 0] short_header [of "length v" "v ! 0" "v ! 1" "v ! 2"]
    by (simp add: string_write_def Let_def)
qed

lemma list_len2: "length v = 2 \<Longrightarrow> v = [v ! 0, v ! 1]"
  by (cases v; cases "tl v") auto

lemma list_len3: "3 \<le> length v \<Longrightarrow> v ! 0 # v ! 1 # v ! 2 # drop 3 v = v"
  by (metis (no_types, lifting) Cons_nth_drop_Suc One_nat_def Suc_1 Suc_le_lessD drop0 less_Suc_eq
      less_trans_Suc numeral_3_eq_3 zero_less_Suc less_le_trans)

lemma string_read_Cons: "string_read id_string (p # rest) =
    (let last = ucast (byte_of 0 p) :: prime; has = \<lambda>n. reader_has_bytes n rest;
         get = \<lambda>n. reader_get_bytes n rest in
     if last > 254 then (None, rest)
     else if last = 0 then (Some [], rest)
     else if last = 1 then (Some [byte_of 1 p], rest)
     else if last = 2 then (Some [byte_of 1 p, byte_of 2 p], rest)
     else if last < 254 then
       (if \<not> has (unat (last - 3)) then (None, rest)
        else (Some ([byte_of 1 p, byte_of 2 p, byte_of 3 p] @ fst (get (unat (last - 3)))),
              snd (get (unat (last - 3)))))
     else if \<not> has (unat (drop_bit 8 p)) then (None, rest)
     else (Some (fst (get (unat (drop_bit 8 p)))), snd (get (unat (drop_bit 8 p)))))"
proof -
  have "reader_has 1 (p # rest)" by (simp add: reader_has_def)
  then show ?thesis
    unfolding string_read_def Let_def reader_get_def list.sel prod.case head_at
    unfolding head_last
    by (simp only: case_prod_beta) simp
qed

lemma string_read_short:
  assumes "n < 254"
  shows "string_read id_string (pack4 (of_nat n) b1 b2 b3 # rest) =
    (if n = 0 then (Some [], rest) else if n = 1 then (Some [b1], rest)
     else if n = 2 then (Some [b1, b2], rest)
     else if \<not> reader_has_bytes (n - 3) rest then (None, rest)
     else (Some (b1 # b2 # b3 # fst (reader_get_bytes (n - 3) rest)), snd (reader_get_bytes (n - 3) rest)))"
proof -
  have b: "n < 4294967296" using assms by simp
  note cmp = of_nat_length_less [OF _ b, of 254] of_nat_length_eq [OF _ b, of 0]
    of_nat_length_eq [OF _ b, of 1] of_nat_length_eq [OF _ b, of 2]
  have big: "\<not> 254 < (of_nat n :: prime)"
    using cmp(1) assms by simp
  have rem: "3 \<le> n \<Longrightarrow> unat (of_nat n - 3 :: prime) = n - 3"
    using b by (simp add: unat_sub_if' unat_of_nat)
  show ?thesis
    using cmp assms big rem
    by (simp add: string_read_Cons Let_def ucast_of_nat_byte)
qed

lemma string_read_long:
  assumes "n < 0x1000000"
  shows "string_read id_string ((push_bit 8 (of_nat n) OR 254) # rest) =
    (if \<not> reader_has_bytes n rest then (None, rest)
     else (Some (fst (reader_get_bytes n rest)), snd (reader_get_bytes n rest)))"
proof -
  have b: "(of_nat n :: prime) < 0x1000000"
    using of_nat_length_less [of 16777216 n] assms by simp
  show ?thesis
    using assms 
    unfolding string_read_Cons Let_def head_last [symmetric] long_header_last long_header_size [OF b]
    by (simp add: unat_of_nat)
qed

lemma string_read_write:
  assumes "string_ok v"
  shows "string_read id_string (string_write buffer_writer [] v @ rest) = (Some v, rest)"
proof -
  have len: "length v < 16777216" using assms by (simp add: string_ok_def)
  have "length v = 0 \<or> length v = 1 \<or> length v = 2 \<or> (3 \<le> length v \<and> length v < 254) \<or> 254 \<le> length v"
    by arith
  then consider "v = []" | "length v = 1" | "length v = 2" | "3 \<le> length v" "length v < 254"
    | "254 \<le> length v"
    by auto
  then show ?thesis
  proof cases
    case 1
    then show ?thesis using string_read_short [of 0 0 0 0 rest] string_write_buffer [OF assms, of "[]"]
      by (simp add: pack4_def)
  next
    case 2
    then have "v \<noteq> []" "[v ! 0] = v" by (cases v; simp)+
    then show ?thesis using 2 string_read_short [of 1 "v ! 0" 0 0 rest]
      by (simp add: string_write_buffer [OF assms])
  next
    case 3
    have "v \<noteq> []" using 3 by auto
    then show ?thesis using 3 string_read_short [of 2 "v ! 0" "v ! 1" 0 rest] list_len2 [OF 3]
      by (simp add: string_write_buffer [OF assms])
  next
    case 4
    then have "v \<noteq> []" by auto
    then show ?thesis
      using 4 list_len3 [of v] reader_get_primes_of_bytes [of "drop 3 v" rest]
       reader_has_primes_of_bytes [of "drop 3 v" rest]
      string_read_short [of "length v" "v ! 0" "v ! 1" "v ! 2" "primes_of_bytes (drop 3 v) @ rest"]
      by (simp add: string_write_buffer [OF assms])
  next
    case 5
    then have "v \<noteq> []" by auto
    then show ?thesis
      using 5 string_read_long [OF len, of "primes_of_bytes v @ rest"]
      by (simp add: string_write_buffer [OF assms])
  qed
qed

lemma string_truncated:
  assumes "string_ok v" "n < length (string_write buffer_writer [] v)"
  shows "fst (string_read id_string (take n (string_write buffer_writer [] v))) = None"
proof (cases n)
  case 0
  then show ?thesis by (simp add: string_read_def reader_has_def)
next
  case (Suc m)
  have len: "length v < 16777216" using assms by (simp add: string_ok_def)
  show ?thesis using assms(2) Suc
     string_read_short [of "length v" "v ! 0" "v ! 1" "v ! 2" "take m (primes_of_bytes (drop 3 v))"]
     string_read_long [OF len, of "take m (primes_of_bytes v)"]
    by (auto simp: string_write_buffer [OF assms(1)] reader_has_bytes_def split: if_splits)
qed

section \<open>What a TL type promises\<close>

text \<open>A type of the wire format by its reader (for its own type id) and its writer into a buffer
  and into a length counter: the buffer is only appended to, a value is read back and the rest
  of the buffer is left, a truncated value is rejected, and the counter advances by the bytes
  written.\<close>

locale tl_codec =
  fixes rd :: "prime list \<Rightarrow> 'a read_result"
    and wr :: "prime list \<Rightarrow> 'a \<Rightarrow> prime list"
    and len :: "32 word \<Rightarrow> 'a \<Rightarrow> 32 word"
    and valid :: "'a \<Rightarrow> bool"
  assumes write_appends: "wr to x = to @ wr [] x"
    and read_write: "valid x \<Longrightarrow> rd (wr [] x @ rest) = (Some x, rest)"
    and read_truncated: "valid x \<Longrightarrow> n < length (wr [] x) \<Longrightarrow> fst (rd (take n (wr [] x))) = None"
    and length_write: "valid x \<Longrightarrow> len l x = l + of_nat (4 * length (wr [] x))"
begin

lemma write_all: "foldl wr to xs = to @ concat (map (wr []) xs)"
proof (induction xs arbitrary: to)
  case (Cons x xs)
  then show ?case using write_appends [of to x] by simp
qed simp

lemma items_read_write:
  "\<forall>x\<in>set xs. valid x \<Longrightarrow>
     items_read rd (length xs) (concat (map (wr []) xs) @ rest) = (Some xs, rest)"
  by (induction xs) (simp_all add: read_write)

lemma items_truncated:
  "\<forall>x\<in>set xs. valid x \<Longrightarrow> n < length (concat (map (wr []) xs)) \<Longrightarrow>
     fst (items_read rd (length xs) (take n (concat (map (wr []) xs)))) = None"
proof (induction xs arbitrary: n)
  case (Cons x xs)
  show ?case
  proof (cases "n < length (wr [] x)")
    case True
    then have "fst (rd (take n (wr [] x))) = None"
      using read_truncated Cons.prems(1) by simp
    with True show ?thesis by (auto split: prod.splits option.splits)
  next
    case False
    then have "take n (concat (map (wr []) (x # xs))) =
        wr [] x @ take (n - length (wr [] x)) (concat (map (wr []) xs))"
      by simp
    moreover have "fst (items_read rd (length xs)
        (take (n - length (wr [] x)) (concat (map (wr []) xs)))) = None"
      using Cons False by (intro Cons.IH) auto
    ultimately show ?thesis
      using Cons.prems(1) by (auto simp: read_write split: prod.splits option.splits)
  qed
qed simp

lemma length_all:
  "\<forall>x\<in>set xs. valid x \<Longrightarrow> foldl len l xs = l + of_nat (4 * length (concat (map (wr []) xs)))"
  by (induction xs arbitrary: l) (simp_all add: length_write algebra_simps)

lemma count_length_buffer: "valid x \<Longrightarrow> count_length len x = of_nat (4 * length (wr [] x))"
  by (simp add: count_length_def length_write)

text \<open>A vector of the type, shorter than \<^verbatim>\<open>2^31\<close>, as a \<^verbatim>\<open>QVector\<close> is, is again a type with these laws.\<close>

lemma vector_codec:
  "tl_codec (vector_read rd id_vector) (vector_write wr buffer_writer) (vector_write len length_writer)
     (\<lambda>xs. length xs < 2147483648 \<and> (\<forall>x\<in>set xs. valid x))"
proof
  fix to xs
  show "vector_write wr buffer_writer to xs = to @ vector_write wr buffer_writer [] xs"
    by (simp add: vector_write_def write_all)
next
  fix xs rest assume "length xs < 2147483648 \<and> (\<forall>x\<in>set xs. valid x)"
  then show "vector_read rd id_vector (vector_write wr buffer_writer [] xs @ rest) = (Some xs, rest)"
    using items_read_write [of xs rest]
    by (simp add: vector_read_def vector_write_def write_all reader_has_def reader_get_def unat_of_nat)
next
  fix xs n assume v: "length xs < 2147483648 \<and> (\<forall>x\<in>set xs. valid x)"
    and "n < length (vector_write wr buffer_writer [] xs)"
  then show "fst (vector_read rd id_vector (take n (vector_write wr buffer_writer [] xs))) = None"
    using items_truncated [of xs "n - 1"]
    by (cases n) (simp_all add: vector_read_def vector_write_def write_all reader_has_def
        reader_get_def unat_of_nat)
next
  fix l xs assume "length xs < 2147483648 \<and> (\<forall>x\<in>set xs. valid x)"
  then show "vector_write len length_writer l xs =
      l + of_nat (4 * length (vector_write wr buffer_writer [] xs))"
    using length_all [of xs "l + 4"] by (simp add: vector_write_def write_all algebra_simps)
qed

end

text \<open>A type whose reader takes the constructor id: boxed, the id is written before the value.\<close>

locale tl_boxable = tl_codec "rd_bare tid" wr len valid
  for rd_bare :: "prime \<Rightarrow> prime list \<Rightarrow> 'a read_result" and tid wr len valid
begin

lemma boxed_codec:
  "tl_codec (boxed_read rd_bare) (boxed_write tid wr buffer_writer) (boxed_write tid len length_writer) valid"
proof
  show "boxed_write tid wr buffer_writer to x = to @ boxed_write tid wr buffer_writer [] x" for to x
    using write_appends [of "to @ [tid]" x] write_appends [of "[tid]" x] by (simp add: boxed_write_def)
  show "boxed_read rd_bare (boxed_write tid wr buffer_writer [] x @ rest) = (Some x, rest)"
    if "valid x" for x rest
    using read_write [OF that, of rest] write_appends [of "[tid]" x]
    by (simp add: boxed_write_def boxed_read_def reader_has_def reader_get_def)
  show "fst (boxed_read rd_bare (take n (boxed_write tid wr buffer_writer [] x))) = None"
    if "valid x" "n < length (boxed_write tid wr buffer_writer [] x)" for x n
    using that read_truncated [OF that(1), of "n - 1"] write_appends [of "[tid]" x]
    by (cases n) (simp_all add: boxed_write_def boxed_read_def reader_has_def reader_get_def)
  show "boxed_write tid len length_writer l x =
      l + of_nat (4 * length (boxed_write tid wr buffer_writer [] x))" if "valid x" for l x
    using length_write [OF that, of "l + 4"] write_appends [of "[tid]" x]
    by (simp add: boxed_write_def algebra_simps)
qed

end

section \<open>The types keep their promise\<close>

interpretation tl_int: tl_boxable int_read id_int "int_write buffer_writer" "int_write length_writer"
    "\<lambda>_. True"
  by unfold_locales (simp_all add: int_write_def int_read_def reader_has_def reader_get_def)

interpretation tl_flags: tl_boxable flags_read id_flags "int_write buffer_writer"
    "int_write length_writer" "\<lambda>_. True"
  by unfold_locales (simp_all add: int_write_def flags_read_def reader_has_def reader_get_def)

interpretation tl_long: tl_boxable long_read id_long "long_write buffer_writer"
    "long_write length_writer" "\<lambda>_. True"
  by unfold_locales (simp_all add: long_write_def long_read_def reader_has_def reader_get_def)

interpretation tl_int64: tl_boxable int64_read id_long "int64_write buffer_writer"
    "int64_write length_writer" "\<lambda>_. True"
  by unfold_locales (simp_all add: int64_write_def int64_read_def reader_has_def reader_get_def)

interpretation tl_double: tl_boxable double_read id_double "double_write buffer_writer"
    "double_write length_writer" "\<lambda>_. True"
  by unfold_locales (simp_all add: double_write_def double_read_def reader_has_def reader_get_def)

interpretation tl_int128: tl_boxable int128_read id_int128 "int128_write buffer_writer"
    "int128_write length_writer" "\<lambda>_. True"
  by unfold_locales (simp_all add: int128_write_def int128_read_def reader_has_def reader_get_def)

lemma int256_append: "int256_write buffer_writer to x = to @ int256_write buffer_writer [] x"
  using tl_int128.write_appends [of to "i256_l x"]
    tl_int128.write_appends [of "to @ int128_write buffer_writer [] (i256_l x)" "i256_h x"]
    tl_int128.write_appends [of "int128_write buffer_writer [] (i256_l x)" "i256_h x"]
  by (simp add: int256_write_def)

interpretation tl_int256: tl_boxable int256_read id_int256 "int256_write buffer_writer"
    "int256_write length_writer" "\<lambda>_. True"
proof unfold_locales
  show "int256_read id_int256 (int256_write buffer_writer [] x @ rest) = (Some x, rest)" for x rest
    using tl_int128.write_appends [of "int128_write buffer_writer [] (i256_l x)" "i256_h x"]
    by (simp add: int256_write_def int256_read_def tl_int128.read_write)
  show "fst (int256_read id_int256 (take n (int256_write buffer_writer [] x))) = None"
    if "n < length (int256_write buffer_writer [] x)" for x n
    using that tl_int128.write_appends [of "int128_write buffer_writer [] (i256_l x)" "i256_h x"]
      tl_int128.read_truncated [where x = "i256_l x" and n = n]
      tl_int128.read_truncated [where x = "i256_h x" and n = "n - length (int128_write buffer_writer [] (i256_l x))"]
    by (cases "n < length (int128_write buffer_writer [] (i256_l x))")
      (auto simp: int256_write_def int256_read_def tl_int128.read_write less_diff_conv2
        split: prod.splits option.splits)
  show "int256_write length_writer l x = l + of_nat (4 * length (int256_write buffer_writer [] x))" for l x
    using tl_int128.write_appends [of "int128_write buffer_writer [] (i256_l x)" "i256_h x"]
    by (simp add: int256_write_def tl_int128.length_write)
qed (rule int256_append)

interpretation tl_string: tl_boxable string_read id_string "string_write buffer_writer"
    "string_write length_writer" string_ok
proof unfold_locales
  show "string_write length_writer l x = l + of_nat (4 * length (string_write buffer_writer [] x))"
    if "string_ok x" for l x
    using that by (auto simp: string_write_def Let_def)
  show "string_write buffer_writer to x = to @ string_write buffer_writer [] x" for to x
    by (auto simp: string_write_def Let_def)
qed (simp_all add: string_read_write string_truncated)

text \<open>A vector of strings, and a vector of longs.\<close>

interpretation tl_strings: tl_boxable "vector_read (string_read id_string)" id_vector
  "vector_write (string_write buffer_writer) buffer_writer"
  "vector_write (string_write length_writer) length_writer"
  "\<lambda>xs. length xs < 2147483648 \<and> (\<forall>x\<in>set xs. string_ok x)"
  by (simp add: tl_boxable_def tl_string.vector_codec)

interpretation tl_longs: tl_boxable "vector_read (long_read id_long)" id_vector
  "vector_write (long_write buffer_writer) buffer_writer"
  "vector_write (long_write length_writer) length_writer"
  "\<lambda>xs. length xs < 2147483648 \<and> (\<forall>x\<in>set xs. True)"
  by (simp add: tl_boxable_def tl_long.vector_codec [simplified])

section \<open>Properties\<close>

text \<open>C15: every basic value written to a buffer is read back, and the read stops exactly where
  the value ends: numbers of 32, 64, 128 and 256 bits, doubles, flags, and byte strings in their
  three encodings (inline, short and long form).\<close>

theorem tl_values_round_trip:
  assumes "string_ok s"
  shows "int_read id_int (int_write buffer_writer [] i @ rest) = (Some i, rest)
    \<and> flags_read id_flags (int_write buffer_writer [] i @ rest) = (Some i, rest)
    \<and> long_read id_long (long_write buffer_writer [] l @ rest) = (Some l, rest)
    \<and> int64_read id_long (int64_write buffer_writer [] l @ rest) = (Some l, rest)
    \<and> double_read id_double (double_write buffer_writer [] l @ rest) = (Some l, rest)
    \<and> int128_read id_int128 (int128_write buffer_writer [] h @ rest) = (Some h, rest)
    \<and> int256_read id_int256 (int256_write buffer_writer [] w @ rest) = (Some w, rest)
    \<and> string_read id_string (string_write buffer_writer [] s @ rest) = (Some s, rest)"
  using assms
  by (simp add: tl_int.read_write tl_flags.read_write tl_long.read_write tl_int64.read_write
      tl_double.read_write tl_int128.read_write tl_int256.read_write tl_string.read_write)

lemma tl_values_round_trip_witness:
  "string_read id_string (string_write buffer_writer [] [7, 8, 9, 10, 11] @ [42]) =
     (Some [7, 8, 9, 10, 11], [42])"
  using tl_values_round_trip [of "[7, 8, 9, 10, 11]" 0 "[42]"] by (simp add: string_ok_def)

text \<open>C21: a boxed vector of strings is read back from the buffer it was written to, with
  whatever follows it left unread, and every proper prefix of it is rejected.\<close>

theorem tl_string_vector_round_trip:
  assumes "length xs < 2147483648" "\<forall>x\<in>set xs. string_ok x"
  defines "written \<equiv> boxed_write id_vector (vector_write (string_write buffer_writer) buffer_writer)
    buffer_writer [] xs"
  shows "boxed_read (vector_read (string_read id_string)) (written @ rest) = (Some xs, rest)
    \<and> (n < length written \<longrightarrow>
        fst (boxed_read (vector_read (string_read id_string)) (take n written)) = None)"
  using tl_codec.read_write [OF tl_strings.boxed_codec, of xs rest]
    tl_codec.read_truncated [OF tl_strings.boxed_codec, of xs n] assms
  by blast

lemma tl_string_vector_round_trip_witness:
  "boxed_read (vector_read (string_read id_string))
     (boxed_write id_vector (vector_write (string_write buffer_writer) buffer_writer) buffer_writer []
        [[1], [2, 3, 4, 5]] @ []) = (Some [[1], [2, 3, 4, 5]], [])"
  using tl_string_vector_round_trip [of "[[1], [2, 3, 4, 5]]" "[]"] by (simp add: string_ok_def)

text \<open>Writing to a \<^verbatim>\<open>LengthCounter\<close> counts exactly the bytes that writing to a
  buffer produces, padding included, for strings and for boxed vectors of strings.\<close>

theorem tl_length_counter_exact:
  assumes "length xs < 2147483648" "\<forall>x\<in>set xs. string_ok x" "string_ok s"
  shows "count_length (string_write length_writer) s =
      of_nat (4 * length (string_write buffer_writer [] s))
    \<and> count_length (boxed_write id_vector (vector_write (string_write length_writer) length_writer)
        length_writer) xs =
      of_nat (4 * length (boxed_write id_vector
        (vector_write (string_write buffer_writer) buffer_writer) buffer_writer [] xs))"
  using tl_string.count_length_buffer [of s] tl_codec.count_length_buffer [OF tl_strings.boxed_codec, of xs]
    assms by blast

lemma tl_length_counter_exact_witness:
  "count_length (string_write length_writer) [1, 2, 3, 4, 5, 6] = 8"
  using tl_length_counter_exact [of "[]" "[1, 2, 3, 4, 5, 6]"]
  by (simp add: string_ok_def string_write_def buffer_writer_def)

text \<open>C22: boxed 64-bit flags do not read back what they wrote: \<^verbatim>\<open>type()\<close> announces
  \<^verbatim>\<open>id_flags64\<close> and \<^verbatim>\<open>read\<close> accepts \<^verbatim>\<open>id_flags\<close> only, while the bare
  value round-trips.\<close>

theorem tl_boxed_flags64_rejected:
  "boxed_read flags64_read (boxed_write id_flags64 (flags64_write buffer_writer) buffer_writer [] v
       @ rest) = (None, flags64_write buffer_writer [] v @ rest)
    \<and> flags64_read id_flags (flags64_write buffer_writer [] v @ rest) = (Some v, rest)"
  by (simp add: boxed_read_def boxed_write_def flags64_write_def flags64_read_def reader_has_def
      reader_get_def id_flags_def id_flags64_def id_int_def id_long_def)

end
