(* ===== verification/ReceivedIds.thy ===== *)
theory ReceivedIds imports FlatMap begin

text \<open>
  \<^verbatim>\<open>mtproto/details/mtproto_received_ids_manager\<close>: the ids of the messages a session has
  received, a \<^verbatim>\<open>flat_map\<close> from the id to whether it waits for an acknowledgement. The
  buffer of the 400 greatest ids is what protects the session from handling a message twice.
\<close>

datatype received_state = NotFound | NeedsAck | NoAckNeeded

datatype register_result = Success | Duplicate | TooOld

type_synonym received_ids = "(int \<times> bool) list"

definition kIdsBufferSize :: nat where
  "kIdsBufferSize = 400"

definition received_min :: "received_ids \<Rightarrow> int" where
  "received_min ids = (if ids = [] then 0 else fst (hd ids))"

definition received_max :: "received_ids \<Rightarrow> int" where
  "received_max ids = (if ids = [] then 0 else fst (last ids))"

definition register_msg_id :: "received_ids \<Rightarrow> int \<Rightarrow> bool \<Rightarrow> received_ids \<times> register_result" where
  "register_msg_id ids msgId needAck =
     (let i = fm_find ids msgId in
      if i \<noteq> length ids then (ids, Duplicate)
      else if length ids < kIdsBufferSize \<or> received_min ids < msgId
      then (fst (fm_emplace ids msgId needAck), Success)
      else (ids, TooOld))"

definition received_lookup :: "received_ids \<Rightarrow> int \<Rightarrow> received_state" where
  "received_lookup ids msgId =
     (let i = fm_find ids msgId in
      if i = length ids then NotFound else if snd (ids ! i) then NeedsAck else NoAckNeeded)"

text \<open>The loop \<^verbatim>\<open>while (size-- > kIdsBufferSize)\<close>.\<close>

fun shrink_loop :: "nat \<Rightarrow> received_ids \<Rightarrow> received_ids" where
  "shrink_loop n ids =
     (if kIdsBufferSize < n then shrink_loop (n - 1) (erase_at 0 ids) else ids)"

declare shrink_loop.simps [simp del]

definition received_shrink :: "received_ids \<Rightarrow> received_ids" where
  "received_shrink ids = shrink_loop (length ids) ids"

definition received_clear :: "received_ids \<Rightarrow> received_ids" where
  "received_clear ids = []"

section \<open>Correctness\<close>

lemma shrink_loop_drop: "shrink_loop n ids = drop (n - kIdsBufferSize) ids"
proof (induction n ids rule: shrink_loop.induct)
  case (1 n ids)
  have "drop (n - 1 - kIdsBufferSize) (erase_at 0 ids) = drop (Suc (n - 1 - kIdsBufferSize)) ids"
    by (simp add: erase_at_def drop_Suc drop_tl)
  with 1 show ?case
    by (subst shrink_loop.simps) (auto simp: Suc_diff_Suc simp flip: diff_Suc_eq_diff_pred)
qed

lemma received_shrink_drop: "received_shrink ids = drop (length ids - kIdsBufferSize) ids"
  by (simp add: received_shrink_def shrink_loop_drop)

lemma fm_inv_drop: "fm_inv ids \<Longrightarrow> fm_inv (drop n ids)"
  by (simp add: fm_inv_def sorted_wrt_drop flip: drop_map)

lemma received_shrink_inv: "fm_inv ids \<Longrightarrow> fm_inv (received_shrink ids)"
  by (simp add: received_shrink_drop fm_inv_drop)

lemma received_shrink_length: "length (received_shrink ids) = min (length ids) kIdsBufferSize"
  by (simp add: received_shrink_drop)

lemma received_lookup_map: "fm_inv ids \<Longrightarrow> received_lookup ids m =
    (case map_of ids m of None \<Rightarrow> NotFound | Some a \<Rightarrow> if a then NeedsAck else NoAckNeeded)"
  using fm_find_end [of ids m] fm_find_nth [of ids m]
  by (auto simp: received_lookup_def Let_def split: option.splits)

lemma register_cases:
  assumes "fm_inv ids"
  shows "(map_of ids m \<noteq> None \<and> register_msg_id ids m a = (ids, Duplicate))
    \<or> (map_of ids m = None \<and> (length ids < kIdsBufferSize \<or> received_min ids < m)
        \<and> register_msg_id ids m a = (fst (fm_emplace ids m a), Success))
    \<or> (map_of ids m = None \<and> kIdsBufferSize \<le> length ids \<and> m \<le> received_min ids
        \<and> register_msg_id ids m a = (ids, TooOld))"
  using fm_find_end [OF assms, of m] by (auto simp: register_msg_id_def Let_def)

lemma register_inv: "fm_inv ids \<Longrightarrow> fm_inv (fst (register_msg_id ids m a))"
  using register_cases [of ids m a] flat_store.emplace_inv [of ids m a] by auto

text \<open>A fresh id that is above the smallest one leaves the smallest one in its place.\<close>

lemma emplace_fresh:
  assumes "fm_inv ids" "map_of ids m = None"
  shows "length (fst (fm_emplace ids m a)) = Suc (length ids)
    \<and> (ids \<noteq> [] \<longrightarrow> received_min ids < m \<longrightarrow>
        received_min (fst (fm_emplace ids m a)) = received_min ids)"
proof (cases rule: fm_split_cases [OF assms(1), of m])
  case (1 as v bs)
  then show ?thesis using assms(2) by (simp add: key_split_map_of)
next
  case (2 as bs)
  then have "fst (fm_emplace ids m a) = as @ (m, a) # bs"
    using key_split_insert(2) [of m as bs a] by (simp add: fm_emplace_def)
  then show ?thesis
    using 2 by (cases as; cases bs) (auto simp: received_min_def key_split_def)
qed

section \<open>A session's use of the buffer\<close>

text \<open>What a session does with the buffer between two calls of \<^verbatim>\<open>clear()\<close>: it registers
  ids and shrinks, in any order. The run also collects the ids that were accepted.\<close>

datatype received_op = Register int bool | Shrink

fun received_run :: "received_op list \<Rightarrow> received_ids \<Rightarrow> int list \<Rightarrow> received_ids \<times> int list" where
  "received_run [] ids accepted = (ids, accepted)"
| "received_run (Register m a # ops) ids accepted =
     (let (ids', result) = register_msg_id ids m a in
      received_run ops ids' (if result = Success then m # accepted else accepted))"
| "received_run (Shrink # ops) ids accepted = received_run ops (received_shrink ids) accepted"

text \<open>Every accepted id is still stored, or the buffer is full and the id is below its
  smallest one.\<close>

definition remembers :: "int list \<Rightarrow> received_ids \<Rightarrow> bool" where
  "remembers accepted ids \<longleftrightarrow> fm_inv ids \<and> distinct accepted
     \<and> (\<forall>x\<in>set accepted. map_of ids x = None \<longrightarrow>
          kIdsBufferSize \<le> length ids \<and> x < received_min ids)"

lemma remembers_register:
  assumes "remembers accepted ids"
  shows "remembers (if snd (register_msg_id ids m a) = Success then m # accepted else accepted)
    (fst (register_msg_id ids m a))"
proof -
  have inv: "fm_inv ids" using assms by (simp add: remembers_def)
  consider "snd (register_msg_id ids m a) \<noteq> Success" "fst (register_msg_id ids m a) = ids"
    | "map_of ids m = None" "length ids < kIdsBufferSize \<or> received_min ids < m"
      "register_msg_id ids m a = (fst (fm_emplace ids m a), Success)"
    using register_cases [OF inv, of m a] by fastforce
  then show ?thesis
  proof cases
    case 1
    then show ?thesis using assms by simp
  next
    case 2
    have "m \<notin> set accepted"
      using assms 2(1,2) by (fastforce simp: remembers_def)
    moreover have "map_of (fst (fm_emplace ids m a)) = (map_of ids)(m \<mapsto> a)"
      using flat_store.lookup_emplace [OF inv, of m a] 2(1) by simp
    moreover have "kIdsBufferSize \<le> length ids \<Longrightarrow> ids \<noteq> []"
      by (auto simp: kIdsBufferSize_def)
    ultimately show ?thesis
      using assms 2 emplace_fresh [OF inv 2(1), of a] flat_store.emplace_inv [OF inv, of m a]
      by (auto simp: remembers_def split: if_splits)
  qed
qed

lemma remembers_shrink:
  assumes "remembers accepted ids"
  shows "remembers accepted (received_shrink ids)"
proof -
  let ?n = "length ids - kIdsBufferSize"
  have inv: "fm_inv (take ?n ids @ drop ?n ids)" using assms by (simp add: remembers_def)
  have map: "map_of ids x = None" if "map_of (drop ?n ids) x = None" "map_of (take ?n ids) x = None" for x
    using that map_of_append [of "take ?n ids" "drop ?n ids"] by (simp add: map_add_None)
  show ?thesis
  proof (cases "length ids \<le> kIdsBufferSize")
    case True
    then show ?thesis using assms by (simp add: received_shrink_drop)
  next
    case False
    then have ne: "drop ?n ids \<noteq> []" by (simp add: kIdsBufferSize_def)
    have below: "x < received_min (drop ?n ids)" if "map_of (take ?n ids) x \<noteq> None" for x
    proof -
      from that obtain v where "map_of (take ?n ids) x = Some v"
        by blast
      then have "(x, v) \<in> set (take ?n ids)" by (rule map_of_SomeD)
      moreover have "hd (drop ?n ids) \<in> set (drop ?n ids)" using ne by simp
      ultimately show ?thesis
        using inv ne unfolding fm_inv_append received_min_def by fastforce
    qed
    have low: "received_min ids \<le> received_min (drop ?n ids)"
    proof -
      have "ids \<noteq> []" "take ?n ids \<noteq> []" using False by auto
      then have "map_of (take ?n ids) (received_min ids) \<noteq> None"
        by (cases ids) (auto simp: received_min_def take_Cons')
      then show ?thesis using below by force
    qed
    have "x < received_min (drop ?n ids)"
      if "x \<in> set accepted" "map_of (drop ?n ids) x = None" for x
    proof (cases "map_of (take ?n ids) x = None")
      case True
      then have "x < received_min ids"
        using assms map that by (simp add: remembers_def)
      then show ?thesis using low by simp
    qed (rule below)
    then show ?thesis
      using assms False by (simp add: remembers_def received_shrink_drop fm_inv_drop)
  qed
qed

lemma remembers_run: "remembers accepted ids \<Longrightarrow>
    remembers (snd (received_run ops ids accepted)) (fst (received_run ops ids accepted))"
proof (induction ops ids accepted rule: received_run.induct)
  case (2 m a ops ids accepted)
  then show ?case
    using remembers_register [of accepted ids m a] by (auto simp: Let_def split: prod.splits)
qed (simp_all add: remembers_shrink)

section \<open>Properties\<close>

text \<open>C14: no message id is accepted twice: whatever ids a session registers after a
  \<^verbatim>\<open>clear()\<close>, and wherever it shrinks the buffer in between, the ids that got
  \<^verbatim>\<open>Success\<close> are pairwise distinct, although the buffer forgets all but 400 of them.\<close>

theorem received_never_accepts_twice:
  "distinct (snd (received_run ops (received_clear ids) []))"
  using remembers_run [of "[]" "received_clear ids" ops]
  by (simp add: remembers_def received_clear_def)

text \<open>What \<^verbatim>\<open>registerMsgId\<close> reports on a sorted buffer: \<^verbatim>\<open>Duplicate\<close> exactly
  for a stored id; \<^verbatim>\<open>TooOld\<close> exactly for an id that is not stored, when the buffer is full
  and the id is not above the smallest one; after \<^verbatim>\<open>Success\<close> the id is looked up with its
  flag and all others as before; and \<^verbatim>\<open>shrink\<close> leaves at most 400 ids.\<close>

theorem received_register_reports:
  assumes "fm_inv ids"
  shows "(snd (register_msg_id ids m a) = Duplicate) = (received_lookup ids m \<noteq> NotFound)
    \<and> (snd (register_msg_id ids m a) = TooOld) =
        (received_lookup ids m = NotFound \<and> 400 \<le> length ids \<and> m \<le> received_min ids)
    \<and> (snd (register_msg_id ids m a) = Success \<longrightarrow>
        received_lookup (fst (register_msg_id ids m a)) x =
          (if x = m then if a then NeedsAck else NoAckNeeded else received_lookup ids x))
    \<and> (snd (register_msg_id ids m a) \<noteq> Success \<longrightarrow> fst (register_msg_id ids m a) = ids)
    \<and> length (received_shrink ids) \<le> 400"
proof -
  note inv' = flat_store.emplace_inv [OF assms, of m a]
  note look = received_lookup_map [OF assms] received_lookup_map [OF inv']
    flat_store.lookup_emplace [OF assms, of m a]
  consider "register_msg_id ids m a = (ids, Duplicate)" "map_of ids m \<noteq> None"
    | "register_msg_id ids m a = (fst (fm_emplace ids m a), Success)" "map_of ids m = None"
      "length ids < 400 \<or> received_min ids < m"
    | "register_msg_id ids m a = (ids, TooOld)" "map_of ids m = None" "400 \<le> length ids"
      "m \<le> received_min ids"
    using register_cases [OF assms, of m a] unfolding kIdsBufferSize_def by metis
  then show ?thesis
  proof cases
    case 1
    then show ?thesis by (auto simp: look received_shrink_length kIdsBufferSize_def split: if_splits)
  next
    case 2
    then show ?thesis by (simp add: look received_shrink_length kIdsBufferSize_def) linarith
  next
    case 3
    then show ?thesis by (simp add: look received_shrink_length kIdsBufferSize_def)
  qed
qed

lemma received_register_reports_witness:
  "snd (register_msg_id [(3, True), (5, False)] 5 True) = Duplicate
    \<and> received_lookup (fst (register_msg_id [(3, True), (5, False)] 4 True)) 4 = NeedsAck"
  using received_register_reports [of "[(3, True), (5, False)]" 5 True 5]
    received_register_reports [of "[(3, True), (5, False)]" 4 True 4]
  by (cases "snd (register_msg_id [(3, True), (5, False)] 4 True)")
    (auto simp: fm_inv_def received_lookup_def fm_find_def fmm_find_first_def fmm_outside_def
      fmm_lower_bound_def Let_def)

end
