(* ===== verification/PtsWaiter.thy ===== *)
theory PtsWaiter imports FlatMap begin

text \<open>
  \<^verbatim>\<open>data/data_pts_waiter\<close>: the updates of a channel (or of the account) carry a
  \<^verbatim>\<open>pts\<close>, the position after the update, and the number of events they hold. The waiter
  applies an update when it continues the known position, and keeps the ones that came too early
  in \<^verbatim>\<open>flat_map\<close>s keyed by \<^verbatim>\<open>pts\<close> and arrival.

  A \<^verbatim>\<open>uint64\<close> key is an \<^typ>\<open>int\<close>; \<^verbatim>\<open>int32\<close> positions are
  \<^typ>\<open>int\<close>s (a sum past \<^verbatim>\<open>2^31\<close> is undefined in the source). The calls into the
  owner, \<^verbatim>\<open>Api::Updates\<close>, are collected in the order they are made.
\<close>

section \<open>State\<close>

datatype skipped_queue = SkippedUpdate | SkippedUpdates

datatype ('c, 'u, 'us) owner_call =
    StartTimer 'c int
  | ApplyUpdate 'u
  | ApplyUpdates 'us

record ('c, 'u, 'us) pts_waiter =
  pw_queue :: "(int \<times> skipped_queue) list"
  pw_update_queue :: "(int \<times> 'u) list"
  pw_updates_queue :: "(int \<times> 'us) list"
  pw_good :: int
  pw_last :: int
  pw_count :: int
  pw_level :: int
  pw_requesting :: bool
  pw_waiting_skipped :: bool
  pw_waiting_poll :: bool
  pw_skipped_key :: int
  pw_calls :: "('c, 'u, 'us) owner_call list"

definition kWaitForSkippedTimeout :: int where
  "kWaitForSkippedTimeout = 1000"

definition pts_waiter_new :: "('c, 'u, 'us) pts_waiter" where
  "pts_waiter_new = \<lparr> pw_queue = [], pw_update_queue = [], pw_updates_queue = [], pw_good = 0,
     pw_last = 0, pw_count = 0, pw_level = 0, pw_requesting = False, pw_waiting_skipped = False,
     pw_waiting_poll = False, pw_skipped_key = 0, pw_calls = [] \<rparr>"

definition owner_do :: "('c, 'u, 'us) owner_call \<Rightarrow> ('c, 'u, 'us) pts_waiter \<Rightarrow> ('c, 'u, 'us) pts_waiter" where
  "owner_do c w = w\<lparr> pw_calls := pw_calls w @ [c] \<rparr>"

section \<open>Operations\<close>

definition clear_skipped :: "('c, 'u, 'us) pts_waiter \<Rightarrow> ('c, 'u, 'us) pts_waiter" where
  "clear_skipped w =
     w\<lparr> pw_queue := [], pw_update_queue := [], pw_updates_queue := [], pw_level := 0 \<rparr>"

definition pts_init :: "int \<Rightarrow> ('c, 'u, 'us) pts_waiter \<Rightarrow> ('c, 'u, 'us) pts_waiter" where
  "pts_init pts w = clear_skipped (w\<lparr> pw_good := pts, pw_last := pts, pw_count := pts \<rparr>)"

definition pts_inited :: "('c, 'u, 'us) pts_waiter \<Rightarrow> bool" where
  "pts_inited w \<longleftrightarrow> 0 < pw_good w"

definition set_requesting :: "bool \<Rightarrow> ('c, 'u, 'us) pts_waiter \<Rightarrow> ('c, 'u, 'us) pts_waiter" where
  "set_requesting r w =
     (let w = w\<lparr> pw_requesting := r \<rparr> in if pw_requesting w then clear_skipped w else w)"

text \<open>\<^verbatim>\<open>uint64(uint32(pts)) << 32 | (++_skippedKey)\<close>: the low half of the shifted value is
  zero, so the bitwise or is a sum.\<close>

definition pts_key :: "skipped_queue \<Rightarrow> int \<Rightarrow> ('c, 'u, 'us) pts_waiter \<Rightarrow> int \<times> ('c, 'u, 'us) pts_waiter" where
  "pts_key kind pts w =
     (let key = u32 (pw_skipped_key w + 1);
          (q, at, _) = fm_emplace (pw_queue w) (u32 pts * 4294967296 + key) kind in
      (fst (q ! at), w\<lparr> pw_skipped_key := key, pw_queue := q \<rparr>))"

definition check_for_waiting :: "'c \<Rightarrow> ('c, 'u, 'us) pts_waiter \<Rightarrow> ('c, 'u, 'us) pts_waiter" where
  "check_for_waiting channel w =
     (if \<not> pw_waiting_skipped w \<and> \<not> pw_waiting_poll w then owner_do (StartTimer channel (-1)) w
      else w)"

definition set_waiting_skipped :: "'c \<Rightarrow> int \<Rightarrow> ('c, 'u, 'us) pts_waiter \<Rightarrow> ('c, 'u, 'us) pts_waiter" where
  "set_waiting_skipped channel ms w =
     (if 0 \<le> ms then (owner_do (StartTimer channel ms) w)\<lparr> pw_waiting_skipped := True \<rparr>
      else check_for_waiting channel (w\<lparr> pw_waiting_skipped := False \<rparr>))"

definition set_waiting_poll :: "'c \<Rightarrow> int \<Rightarrow> ('c, 'u, 'us) pts_waiter \<Rightarrow> ('c, 'u, 'us) pts_waiter" where
  "set_waiting_poll channel ms w =
     (if 0 \<le> ms then (owner_do (StartTimer channel ms) w)\<lparr> pw_waiting_poll := True \<rparr>
      else check_for_waiting channel (w\<lparr> pw_waiting_poll := False \<rparr>))"

text \<open>One turn of the loop of \<^verbatim>\<open>applySkippedUpdates\<close>; \<open>du\<close> and \<open>dus\<close> are
  \<^verbatim>\<open>MTPUpdate()\<close> and \<^verbatim>\<open>MTPUpdates()\<close>, which \<^verbatim>\<open>operator[]\<close> would insert.\<close>

definition apply_queued :: "'u \<Rightarrow> 'us \<Rightarrow> int \<times> skipped_queue \<Rightarrow> ('c, 'u, 'us) pts_waiter
    \<Rightarrow> ('c, 'u, 'us) pts_waiter" where
  "apply_queued du dus i w =
     (case snd i of
        SkippedUpdate \<Rightarrow>
          (let (q, at) = fm_index du (pw_update_queue w) (fst i) in
           owner_do (ApplyUpdate (snd (q ! at))) (w\<lparr> pw_update_queue := q \<rparr>))
      | SkippedUpdates \<Rightarrow>
          (let (q, at) = fm_index dus (pw_updates_queue w) (fst i) in
           owner_do (ApplyUpdates (snd (q ! at))) (w\<lparr> pw_updates_queue := q \<rparr>)))"

definition apply_skipped :: "'u \<Rightarrow> 'us \<Rightarrow> 'c \<Rightarrow> ('c, 'u, 'us) pts_waiter \<Rightarrow> ('c, 'u, 'us) pts_waiter" where
  "apply_skipped du dus channel w =
     (if \<not> pw_waiting_skipped w then w
      else let w = set_waiting_skipped channel (-1) w in
        if pw_queue w = [] then w
        else let w = w\<lparr> pw_level := pw_level w + 1 \<rparr>;
                 w = fold (apply_queued du dus) (pw_queue w) w;
                 w = w\<lparr> pw_level := pw_level w - 1 \<rparr> in
          clear_skipped w)"

definition pts_check :: "'c \<Rightarrow> int \<Rightarrow> int \<Rightarrow> ('c, 'u, 'us) pts_waiter \<Rightarrow> bool \<times> ('c, 'u, 'us) pts_waiter" where
  "pts_check channel pts cnt w =
     (if \<not> pts_inited w then (True, pts_init pts w)
      else let w = w\<lparr> pw_last := max (pw_last w) pts, pw_count := pw_count w + cnt \<rparr> in
        if pw_last w = pw_count w then (True, w\<lparr> pw_good := pw_last w \<rparr>)
        else if pw_last w < pw_count w then (cnt = 0, set_waiting_skipped channel 1 w)
        else (cnt = 0, set_waiting_skipped channel kWaitForSkippedTimeout w))"

definition updated_updates :: "'c \<Rightarrow> int \<Rightarrow> int \<Rightarrow> 'us \<Rightarrow> ('c, 'u, 'us) pts_waiter
    \<Rightarrow> bool \<times> ('c, 'u, 'us) pts_waiter" where
  "updated_updates channel pts cnt updates w =
     (if pw_requesting w \<or> pw_level w \<noteq> 0 then (True, w)
      else if pts \<le> pw_good w \<and> 0 < cnt then (False, w)
      else let (ok, w) = pts_check channel pts cnt w in
        if ok then (True, w)
        else let (key, w) = pts_key SkippedUpdates pts w in
          (False, w\<lparr> pw_updates_queue := fst (fm_emplace (pw_updates_queue w) key updates) \<rparr>))"

definition updated_update :: "'c \<Rightarrow> int \<Rightarrow> int \<Rightarrow> 'u \<Rightarrow> ('c, 'u, 'us) pts_waiter
    \<Rightarrow> bool \<times> ('c, 'u, 'us) pts_waiter" where
  "updated_update channel pts cnt update w =
     (if pw_requesting w \<or> pw_level w \<noteq> 0 then (True, w)
      else if pts \<le> pw_good w \<and> 0 < cnt then (False, w)
      else let (ok, w) = pts_check channel pts cnt w in
        if ok then (True, w)
        else let (key, w) = pts_key SkippedUpdate pts w in
          (False, w\<lparr> pw_update_queue := fst (fm_emplace (pw_update_queue w) key update) \<rparr>))"

definition updated_pts :: "'c \<Rightarrow> int \<Rightarrow> int \<Rightarrow> ('c, 'u, 'us) pts_waiter
    \<Rightarrow> bool \<times> ('c, 'u, 'us) pts_waiter" where
  "updated_pts channel pts cnt w =
     (if pw_requesting w \<or> pw_level w \<noteq> 0 then (True, w)
      else if pts \<le> pw_good w \<and> 0 < cnt then (False, w)
      else pts_check channel pts cnt w)"

definition apply_updates :: "'u \<Rightarrow> 'us \<Rightarrow> 'c \<Rightarrow> int \<Rightarrow> int \<Rightarrow> 'us \<Rightarrow> ('c, 'u, 'us) pts_waiter
    \<Rightarrow> bool \<times> ('c, 'u, 'us) pts_waiter" where
  "apply_updates du dus channel pts cnt updates w =
     (let (ok, w) = updated_updates channel pts cnt updates w in
      if \<not> ok then (False, w)
      else if \<not> pw_waiting_skipped w \<or> pw_queue w = [] then (True, owner_do (ApplyUpdates updates) w)
      else let (key, w) = pts_key SkippedUpdates pts w;
               w = w\<lparr> pw_updates_queue := fst (fm_emplace (pw_updates_queue w) key updates) \<rparr> in
        (True, apply_skipped du dus channel w))"

definition apply_update :: "'u \<Rightarrow> 'us \<Rightarrow> 'c \<Rightarrow> int \<Rightarrow> int \<Rightarrow> 'u \<Rightarrow> ('c, 'u, 'us) pts_waiter
    \<Rightarrow> bool \<times> ('c, 'u, 'us) pts_waiter" where
  "apply_update du dus channel pts cnt update w =
     (let (ok, w) = updated_update channel pts cnt update w in
      if \<not> ok then (False, w)
      else if \<not> pw_waiting_skipped w \<or> pw_queue w = [] then (True, owner_do (ApplyUpdate update) w)
      else let (key, w) = pts_key SkippedUpdate pts w;
               w = w\<lparr> pw_update_queue := fst (fm_emplace (pw_update_queue w) key update) \<rparr> in
        (True, apply_skipped du dus channel w))"

definition apply_pts :: "'u \<Rightarrow> 'us \<Rightarrow> 'c \<Rightarrow> int \<Rightarrow> int \<Rightarrow> ('c, 'u, 'us) pts_waiter
    \<Rightarrow> bool \<times> ('c, 'u, 'us) pts_waiter" where
  "apply_pts du dus channel pts cnt w =
     (let (ok, w) = updated_pts channel pts cnt w in
      if \<not> ok then (False, w) else (True, apply_skipped du dus channel w))"

section \<open>The queues of an ordinary waiter\<close>

text \<open>What a waiter has saved, in the order of the keys: each update under its key.\<close>

definition item_kind :: "'u + 'us \<Rightarrow> skipped_queue" where
  "item_kind i = (case i of Inl _ \<Rightarrow> SkippedUpdate | Inr _ \<Rightarrow> SkippedUpdates)"

fun saved_lefts :: "(int \<times> ('u + 'us)) list \<Rightarrow> (int \<times> 'u) list" where
  "saved_lefts [] = []"
| "saved_lefts ((k, Inl u) # zs) = (k, u) # saved_lefts zs"
| "saved_lefts ((k, Inr _) # zs) = saved_lefts zs"

fun saved_rights :: "(int \<times> ('u + 'us)) list \<Rightarrow> (int \<times> 'us) list" where
  "saved_rights [] = []"
| "saved_rights ((k, Inl _) # zs) = saved_rights zs"
| "saved_rights ((k, Inr v) # zs) = (k, v) # saved_rights zs"

definition saved_as :: "(int \<times> ('u + 'us)) list \<Rightarrow> ('c, 'u, 'us) pts_waiter \<Rightarrow> bool" where
  "saved_as zs w \<longleftrightarrow> fm_inv zs \<and> pw_queue w = map (\<lambda>(k, i). (k, item_kind i)) zs
     \<and> pw_update_queue w = saved_lefts zs \<and> pw_updates_queue w = saved_rights zs"

lemma saved_append [simp]:
  "saved_lefts (xs @ ys) = saved_lefts xs @ saved_lefts ys"
  "saved_rights (xs @ ys) = saved_rights xs @ saved_rights ys"
  by (induction xs rule: saved_lefts.induct) simp_all

lemma saved_mem:
  "(k, u) \<in> set (saved_lefts zs) \<Longrightarrow> \<exists>i. (k, i) \<in> set zs"
  "(k, v) \<in> set (saved_rights zs) \<Longrightarrow> \<exists>i. (k, i) \<in> set zs"
  by (induction zs rule: saved_lefts.induct) auto

lemma key_split_saved:
  assumes "key_split k as bs"
  shows "key_split k (map (\<lambda>(k, i). (k, item_kind i)) as) (map (\<lambda>(k, i). (k, item_kind i)) bs)"
    "key_split k (saved_lefts as) (saved_lefts bs)" "key_split k (saved_rights as) (saved_rights bs)"
  using assms by (fastforce simp: key_split_def dest!: saved_mem)+

lemma saved_inv: "fm_inv zs \<Longrightarrow> fm_inv (saved_lefts zs)" "fm_inv zs \<Longrightarrow> fm_inv (saved_rights zs)"
  by (induction zs rule: saved_lefts.induct) (fastforce simp: fm_inv_Cons dest!: saved_mem)+

text \<open>Saving an update under a new key, as both \<^verbatim>\<open>updated\<close> and
  \<^verbatim>\<open>updateAndApply\<close> do.\<close>

definition save_item :: "int \<Rightarrow> 'u + 'us \<Rightarrow> ('c, 'u, 'us) pts_waiter \<Rightarrow> ('c, 'u, 'us) pts_waiter" where
  "save_item pts i w =
     (let (key, w) = pts_key (item_kind i) pts w in
      case i of
        Inl u \<Rightarrow> w\<lparr> pw_update_queue := fst (fm_emplace (pw_update_queue w) key u) \<rparr>
      | Inr us \<Rightarrow> w\<lparr> pw_updates_queue := fst (fm_emplace (pw_updates_queue w) key us) \<rparr>)"

definition new_key :: "int \<Rightarrow> ('c, 'u, 'us) pts_waiter \<Rightarrow> int" where
  "new_key pts w = u32 pts * 4294967296 + u32 (pw_skipped_key w + 1)"

lemma new_key_div: "0 \<le> pts \<Longrightarrow> pts < 4294967296 \<Longrightarrow> new_key pts w div 4294967296 = pts"
  using u32_bounds [of "pw_skipped_key w + 1"] by (simp add: new_key_def)

lemma save_item_frame [simp]:
  "pw_good (save_item pts i w) = pw_good w" "pw_last (save_item pts i w) = pw_last w"
  "pw_count (save_item pts i w) = pw_count w" "pw_level (save_item pts i w) = pw_level w"
  "pw_requesting (save_item pts i w) = pw_requesting w" "pw_calls (save_item pts i w) = pw_calls w"
  "pw_waiting_skipped (save_item pts i w) = pw_waiting_skipped w"
  by (cases i; simp add: save_item_def pts_key_def Let_def split: prod.splits)+

lemma save_item_split:
  assumes "saved_as (as @ bs) w" "key_split (new_key pts w) as bs"
  shows "saved_as (as @ (new_key pts w, i) # bs) (save_item pts i w)"
proof -
  let ?k = "new_key pts w"
  have emp: "fm_emplace (pw_queue w) ?k (item_kind i) =
      (map (\<lambda>(k, i). (k, item_kind i)) (as @ (?k, i) # bs), length as, True)"
    using assms key_split_insert(2) [OF key_split_saved(1) [OF assms(2)], of "item_kind i"]
    by (simp add: saved_as_def fm_emplace_def)
  then have key: "pts_key (item_kind i) pts w = (?k, w\<lparr> pw_skipped_key := u32 (pw_skipped_key w + 1),
      pw_queue := map (\<lambda>(k, i). (k, item_kind i)) (as @ (?k, i) # bs) \<rparr>)"
    by (simp add: pts_key_def new_key_def Let_def nth_append)
  have inv: "fm_inv (as @ (?k, i) # bs)"
    using assms by (simp add: saved_as_def key_split_inv)
  show "saved_as (as @ (?k, i) # bs) (save_item pts i w)"
    unfolding save_item_def key
    using assms inv key_split_insert(2) [OF key_split_saved(2) [OF assms(2)]]
      key_split_insert(2) [OF key_split_saved(3) [OF assms(2)]]
    by (cases i) (simp_all add: saved_as_def fm_emplace_def)
qed

text \<open>The updates handed to the owner, in order.\<close>

fun applied_items :: "('c, 'u, 'us) owner_call list \<Rightarrow> ('u + 'us) list" where
  "applied_items [] = []"
| "applied_items (StartTimer _ _ # cs) = applied_items cs"
| "applied_items (ApplyUpdate u # cs) = Inl u # applied_items cs"
| "applied_items (ApplyUpdates v # cs) = Inr v # applied_items cs"

lemma applied_items_append [simp]: "applied_items (xs @ ys) = applied_items xs @ applied_items ys"
  by (induction xs rule: applied_items.induct) simp_all

lemma fm_index_present: "fm_inv xs \<Longrightarrow> (k, v) \<in> set xs \<Longrightarrow>
    \<exists>at. fm_index d xs k = (xs, at) \<and> xs ! at = (k, v)"
proof -
  assume inv: "fm_inv xs" and mem: "(k, v) \<in> set xs"
  then have m: "map_of xs k = Some v"
    by (simp add: fm_inv_distinct)
  show ?thesis
  proof (cases rule: fm_split_cases [OF inv, of k])
    case (1 as w bs)
    then show ?thesis using m by (auto simp: key_split_insert key_split_map_of)
  next
    case (2 as bs)
    then show ?thesis using m by (auto simp: key_split_map_of)
  qed
qed

lemma apply_queued_item:
  assumes "fm_inv zs" "(k, i) \<in> set zs" "pw_update_queue w = saved_lefts zs"
    "pw_updates_queue w = saved_rights zs"
  shows "\<exists>cs. apply_queued du dus (k, item_kind i) w = w\<lparr> pw_calls := pw_calls w @ cs \<rparr>
    \<and> applied_items cs = [i]"
proof (cases i)
  case (Inl u)
  have "(k, u) \<in> set (saved_lefts zs)"
    using assms(2) Inl by (induction zs rule: saved_lefts.induct) auto
  from fm_index_present [OF saved_inv(1) [OF assms(1)] this, of du] assms(3) Inl
  have "apply_queued du dus (k, item_kind i) w = w\<lparr> pw_calls := pw_calls w @ [ApplyUpdate u] \<rparr>"
    by (auto simp: apply_queued_def item_kind_def owner_do_def)
  then show ?thesis using Inl by auto
next
  case (Inr v)
  have "(k, v) \<in> set (saved_rights zs)"
    using assms(2) Inr by (induction zs rule: saved_rights.induct) auto
  from fm_index_present [OF saved_inv(2) [OF assms(1)] this, of dus] assms(4) Inr
  have "apply_queued du dus (k, item_kind i) w = w\<lparr> pw_calls := pw_calls w @ [ApplyUpdates v] \<rparr>"
    by (auto simp: apply_queued_def item_kind_def owner_do_def)
  then show ?thesis using Inr by auto
qed

lemma apply_queued_all:
  assumes "fm_inv zs" "set ys \<subseteq> set zs" "pw_update_queue w = saved_lefts zs"
    "pw_updates_queue w = saved_rights zs"
  shows "\<exists>cs. fold (apply_queued du dus) (map (\<lambda>(k, i). (k, item_kind i)) ys) w =
      w\<lparr> pw_calls := pw_calls w @ cs \<rparr> \<and> applied_items cs = map snd ys"
  using assms(2,3,4)
proof (induction ys arbitrary: w)
  case Nil
  show ?case by (rule exI [of _ "[]"]) simp
next
  case (Cons y ys)
  obtain k i where y: "y = (k, i)" by (cases y)
  obtain cs where cs: "apply_queued du dus (k, item_kind i) w = w\<lparr> pw_calls := pw_calls w @ cs \<rparr>"
    "applied_items cs = [i]"
    using apply_queued_item [OF assms(1), of k i w du dus] Cons.prems y by auto
  obtain ds where "fold (apply_queued du dus) (map (\<lambda>(k, i). (k, item_kind i)) ys)
      (w\<lparr> pw_calls := pw_calls w @ cs \<rparr>) = w\<lparr> pw_calls := (pw_calls w @ cs) @ ds \<rparr>"
    "applied_items ds = map snd ys"
    using Cons.IH [of "w\<lparr> pw_calls := pw_calls w @ cs \<rparr>"] Cons.prems by auto
  with cs y show ?case
    by (intro exI [of _ "cs @ ds"]) simp
qed

text \<open>\<^verbatim>\<open>applySkippedUpdates\<close> hands everything saved to the owner, in the order of the
  keys, and forgets it.\<close>

lemma apply_skipped_all:
  fixes w :: "('c, 'u, 'us) pts_waiter" and du dus ch
  assumes "saved_as zs w" "pw_waiting_skipped w" "zs \<noteq> []" "pw_level w = 0"
  defines "w' \<equiv> apply_skipped du dus ch w"
  shows "applied_items (pw_calls w') = applied_items (pw_calls w) @ map snd zs"
    and "saved_as [] w'" and "\<not> pw_waiting_skipped w'" and "pw_level w' = 0"
    and "pw_good w' = pw_good w" and "pw_last w' = pw_last w" and "pw_count w' = pw_count w"
    and "pw_requesting w' = pw_requesting w"
proof -
  let ?v = "set_waiting_skipped ch (-1) w"
  let ?u = "?v\<lparr> pw_level := pw_level ?v + 1 \<rparr>"
  have frame: "applied_items (pw_calls ?v) = applied_items (pw_calls w)"
    "pw_queue ?v = pw_queue w" "pw_update_queue ?v = pw_update_queue w"
    "pw_updates_queue ?v = pw_updates_queue w" "pw_good ?v = pw_good w" "pw_last ?v = pw_last w"
    "pw_count ?v = pw_count w" "pw_requesting ?v = pw_requesting w" "pw_level ?v = pw_level w"
    "\<not> pw_waiting_skipped ?v"
    by (simp_all add: set_waiting_skipped_def check_for_waiting_def owner_do_def)
  have q: "pw_queue w = map (\<lambda>(k, i). (k, item_kind i)) zs" "pw_queue w \<noteq> []"
    using assms(1,3) by (simp_all add: saved_as_def)
  obtain cs where cs: "fold (apply_queued du dus) (pw_queue w) ?u = ?u\<lparr> pw_calls := pw_calls ?u @ cs \<rparr>"
    "applied_items cs = map snd zs"
    using apply_queued_all [of zs zs ?u du dus] assms(1) frame by (auto simp: saved_as_def)
  have "w' = clear_skipped ((?u\<lparr> pw_calls := pw_calls ?u @ cs \<rparr>)\<lparr> pw_level := pw_level ?u - 1 \<rparr>)"
    using assms(2) q frame cs(1) by (simp add: w'_def apply_skipped_def Let_def)
  then show "applied_items (pw_calls w') = applied_items (pw_calls w) @ map snd zs"
    "saved_as [] w'" "\<not> pw_waiting_skipped w'" "pw_level w' = 0"
    "pw_good w' = pw_good w" "pw_last w' = pw_last w" "pw_count w' = pw_count w"
    "pw_requesting w' = pw_requesting w"
    using frame cs(2) by (simp_all add: clear_skipped_def saved_as_def)
qed

section \<open>Updates that continue each other\<close>

datatype ('u, 'us) pts_event = PtsEvent (ev_pts: int) (ev_count: int) (ev_item: "'u + 'us")

text \<open>Events each of which starts where the one before ended.\<close>

fun contiguous :: "int \<Rightarrow> ('u, 'us) pts_event list \<Rightarrow> bool" where
  "contiguous g [] \<longleftrightarrow> True"
| "contiguous g (e # es) \<longleftrightarrow> 0 < ev_count e \<and> ev_pts e = g + ev_count e \<and> contiguous (ev_pts e) es"

definition last_pts :: "int \<Rightarrow> ('u, 'us) pts_event list \<Rightarrow> int" where
  "last_pts g es = (if es = [] then g else ev_pts (last es))"

definition total_count :: "('u, 'us) pts_event list \<Rightarrow> int" where
  "total_count es = sum_list (map ev_count es)"

lemma last_pts_simps [simp]: "last_pts g [] = g" "last_pts g (e # es) = last_pts (ev_pts e) es"
  "last_pts g (es @ [e]) = ev_pts e"
  by (simp_all add: last_pts_def)

lemma total_count_simps [simp]: "total_count [] = 0" "total_count (e # es) = ev_count e + total_count es"
  "total_count (es @ fs) = total_count es + total_count fs"
  by (simp_all add: total_count_def)

lemma contiguous_append [simp]:
  "contiguous g (es @ fs) \<longleftrightarrow> contiguous g es \<and> contiguous (last_pts g es) fs"
  by (induction es arbitrary: g) simp_all

lemma contiguous_above: "contiguous g es \<Longrightarrow> e \<in> set es \<Longrightarrow> g < ev_pts e"
  by (induction es arbitrary: g) fastforce+

lemma contiguous_sorted: "contiguous g es \<Longrightarrow> sorted_wrt (\<lambda>a b. ev_pts a < ev_pts b) es"
  using contiguous_above by (induction es arbitrary: g) fastforce+

lemma contiguous_total: "contiguous g es \<Longrightarrow> g + total_count es = last_pts g es"
  by (induction es arbitrary: g) (auto simp: add.assoc [symmetric])

lemma last_pts_mono: "contiguous g es \<Longrightarrow> g \<le> last_pts g es"
  by (induction es arbitrary: g) force+

text \<open>A part of contiguous events reaches its last position with its counts only when no event
  before it is missing.\<close>

lemma filter_reach:
  "contiguous g es \<Longrightarrow> filter P es \<noteq> [] \<Longrightarrow> g + total_count (filter P es) \<le> last_pts g (filter P es)"
proof (induction es arbitrary: g)
  case (Cons e es)
  then show ?case
    by (cases "filter P es = []"; cases "P e") (fastforce simp: last_pts_def)+
qed simp

lemma filter_prefix:
  assumes "contiguous g es" "g + total_count (filter P es) = last_pts g (filter P es)"
  shows "\<exists>fs. es = filter P es @ fs"
  using assms
proof (induction es arbitrary: g)
  case (Cons e es)
  show ?case
  proof (cases "P e")
    case True
    then show ?thesis using Cons by (auto simp: last_pts_def split: if_splits)
  next
    case False
    show ?thesis
    proof (cases "filter P es = []")
      case True
      with False show ?thesis by simp
    next
      case ne: False
      have "ev_pts e + total_count (filter P es) \<le> last_pts (ev_pts e) (filter P es)"
        using filter_reach Cons.prems(1) ne by auto
      then show ?thesis
        using Cons.prems False ne by (simp add: last_pts_def)
    qed
  qed
qed simp

section \<open>Delivery in any order\<close>

definition deliver :: "'u \<Rightarrow> 'us \<Rightarrow> 'c \<Rightarrow> ('u, 'us) pts_event \<Rightarrow> ('c, 'u, 'us) pts_waiter
    \<Rightarrow> ('c, 'u, 'us) pts_waiter" where
  "deliver du dus ch e w =
     (case ev_item e of
        Inl u \<Rightarrow> snd (apply_update du dus ch (ev_pts e) (ev_count e) u w)
      | Inr v \<Rightarrow> snd (apply_updates du dus ch (ev_pts e) (ev_count e) v w))"

text \<open>The two overloads of \<^verbatim>\<open>updateAndApply\<close> on an initialised waiter that is not
  requesting and a new event: hand over, hand over everything, or save.\<close>

definition hand_over :: "'u + 'us \<Rightarrow> ('c, 'u, 'us) owner_call" where
  "hand_over i = (case i of Inl u \<Rightarrow> ApplyUpdate u | Inr v \<Rightarrow> ApplyUpdates v)"

lemma applied_hand_over [simp]: "applied_items [hand_over i] = [i]"
  by (cases i) (simp_all add: hand_over_def)

lemma deliver_cases:
  fixes w :: "('c, 'u, 'us) pts_waiter"
  assumes "\<not> pw_requesting w" "pw_level w = 0" "0 < pw_good w" "pw_good w < ev_pts e" "0 < ev_count e"
  defines "v \<equiv> w\<lparr> pw_last := max (pw_last w) (ev_pts e), pw_count := pw_count w + ev_count e \<rparr>"
  defines "ok \<equiv> v\<lparr> pw_good := pw_last v \<rparr>"
  shows "pw_last v = pw_count v \<Longrightarrow> \<not> pw_waiting_skipped w \<or> pw_queue w = [] \<Longrightarrow>
      deliver du dus ch e w = owner_do (hand_over (ev_item e)) ok"
    and "pw_last v = pw_count v \<Longrightarrow> pw_waiting_skipped w \<Longrightarrow> pw_queue w \<noteq> [] \<Longrightarrow>
      deliver du dus ch e w = apply_skipped du dus ch (save_item (ev_pts e) (ev_item e) ok)"
    and "pw_last v \<noteq> pw_count v \<Longrightarrow> \<exists>ms\<ge>0.
      deliver du dus ch e w = save_item (ev_pts e) (ev_item e) (set_waiting_skipped ch ms v)"
proof -
  have check: "pts_check ch (ev_pts e) (ev_count e) w =
      (if pw_last v = pw_count v then (True, ok)
       else (False, set_waiting_skipped ch (if pw_last v < pw_count v then 1 else 1000) v))"
    using assms(3,5) by (simp add: pts_check_def pts_inited_def v_def ok_def Let_def kWaitForSkippedTimeout_def)
  note defs = deliver_def apply_update_def apply_updates_def updated_update_def updated_updates_def
  show "deliver du dus ch e w = owner_do (hand_over (ev_item e)) ok"
    if "pw_last v = pw_count v" "\<not> pw_waiting_skipped w \<or> pw_queue w = []"
    using that assms(1-5) check
    by (cases "ev_item e") (auto simp: defs hand_over_def ok_def v_def)
  show "deliver du dus ch e w = apply_skipped du dus ch (save_item (ev_pts e) (ev_item e) ok)"
    if "pw_last v = pw_count v" "pw_waiting_skipped w" "pw_queue w \<noteq> []"
    using that assms(1-5) check
    by (cases "ev_item e")
      (auto simp: defs save_item_def item_kind_def ok_def v_def Let_def split: prod.splits)
  show "\<exists>ms\<ge>0. deliver du dus ch e w = save_item (ev_pts e) (ev_item e) (set_waiting_skipped ch ms v)"
    if "pw_last v \<noteq> pw_count v"
    using that assms(1-5) check
    by (intro exI [of _ "if pw_last v < pw_count v then 1 else 1000"], cases "ev_item e")
      (auto simp: defs save_item_def item_kind_def Let_def split: prod.splits)
qed

definition saved_under :: "int \<times> ('u + 'us) \<Rightarrow> ('u, 'us) pts_event \<Rightarrow> bool" where
  "saved_under z e \<longleftrightarrow> fst z div 4294967296 = ev_pts e \<and> snd z = ev_item e"

lemma saved_under_items: "list_all2 saved_under zs es \<Longrightarrow> map snd zs = map ev_item es"
  by (induction rule: list_all2_induct) (simp_all add: saved_under_def)

lemma saved_under_split:
  assumes "list_all2 saved_under as es" "list_all2 saved_under bs fs" "k div 4294967296 = p"
    "\<forall>e\<in>set es. ev_pts e < p" "\<forall>e\<in>set fs. p < ev_pts e"
  shows "key_split k as bs"
proof -
  have "\<exists>e\<in>set es. fst z div 4294967296 = ev_pts e" if "z \<in> set as" for z
    using assms(1) that by (induction rule: list_all2_induct) (auto simp: saved_under_def)
  moreover have "\<exists>e\<in>set fs. fst z div 4294967296 = ev_pts e" if "z \<in> set bs" for z
    using assms(2) that by (induction rule: list_all2_induct) (auto simp: saved_under_def)
  moreover have "j < (k :: int)" if "j div 4294967296 < k div 4294967296" for j k :: int
    using that zdiv_mono1 [of k j 4294967296] by linarith
  ultimately show ?thesis
    using assms(3-5) unfolding key_split_def by metis
qed

text \<open>What has been handed over is a first part of the events; what was delivered of the rest is
  saved.\<close>

definition tracks :: "int \<Rightarrow> ('u + 'us) list \<Rightarrow> int set \<Rightarrow> ('u, 'us) pts_event list \<Rightarrow> ('c, 'u, 'us) pts_waiter
    \<Rightarrow> ('u, 'us) pts_event list \<Rightarrow> ('u, 'us) pts_event list \<Rightarrow> bool" where
  "tracks g old D es w done rest \<longleftrightarrow>
     (let S = filter (\<lambda>e. ev_pts e \<in> D) rest in
      es = done @ rest \<and> last_pts g done = pw_good w \<and> contiguous (pw_good w) rest \<and> 0 < pw_good w
      \<and> applied_items (pw_calls w) = old @ map ev_item done \<and> ev_pts ` set done \<subseteq> D
      \<and> (\<exists>zs. saved_as zs w \<and> list_all2 saved_under zs S)
      \<and> pw_last w = last_pts (pw_good w) S \<and> pw_count w = pw_good w + total_count S
      \<and> pw_waiting_skipped w = (S \<noteq> []) \<and> (S \<noteq> [] \<longrightarrow> pw_last w \<noteq> pw_count w)
      \<and> \<not> pw_requesting w \<and> pw_level w = 0)"

lemma contiguous_count: "contiguous g es \<Longrightarrow> e \<in> set es \<Longrightarrow> 0 < ev_count e"
  by (induction es arbitrary: g) auto

lemma last_pts_insert:
  assumes "g < ev_pts e" "\<forall>x\<in>set xs. ev_pts x < ev_pts e" "\<forall>y\<in>set ys. ev_pts e < ev_pts y"
  shows "max (last_pts g (xs @ ys)) (ev_pts e) = last_pts g (xs @ e # ys)"
proof (cases "ys = []")
  case True
  then show ?thesis using assms(1,2) by (cases "xs = []") (auto simp: last_pts_def max_def intro: less_imp_le)
next
  case False
  then have "ev_pts e < ev_pts (last ys)" using assms(3) by simp
  with False show ?thesis by (simp add: last_pts_def)
qed

text \<open>The events around a new one.\<close>

lemma new_event_split:
  assumes "contiguous g rest" "e \<in> set rest" "ev_pts e \<notin> D"
  shows "\<exists>xs ys. filter (\<lambda>x. ev_pts x \<in> D) rest = xs @ ys
    \<and> filter (\<lambda>x. ev_pts x \<in> insert (ev_pts e) D) rest = xs @ e # ys
    \<and> (\<forall>x\<in>set xs. ev_pts x < ev_pts e) \<and> (\<forall>y\<in>set ys. ev_pts e < ev_pts y)"
proof -
  obtain r1 r2 where r: "rest = r1 @ e # r2"
    using assms(2) by (meson split_list)
  have order: "\<forall>x\<in>set r1. ev_pts x < ev_pts e" "\<forall>y\<in>set r2. ev_pts e < ev_pts y"
    using contiguous_sorted [OF assms(1)] unfolding r by (auto simp: sorted_wrt_append)
  have "filter (\<lambda>x. ev_pts x \<in> insert (ev_pts e) D) r1 = filter (\<lambda>x. ev_pts x \<in> D) r1"
    "filter (\<lambda>x. ev_pts x \<in> insert (ev_pts e) D) r2 = filter (\<lambda>x. ev_pts x \<in> D) r2"
    using order by (auto intro!: filter_cong)
  then show ?thesis
    using r order assms(3)
    by (intro exI [of _ "filter (\<lambda>x. ev_pts x \<in> D) r1"] exI [of _ "filter (\<lambda>x. ev_pts x \<in> D) r2"]) auto
qed

lemma tracks_new_event:
  assumes tr: "tracks g old D es w done rest" and e: "e \<in> set es" "ev_pts e \<notin> D"
  shows "pw_good w < ev_pts e \<and> 0 < ev_count e \<and>
    (\<exists>xs ys as bs. filter (\<lambda>x. ev_pts x \<in> D) rest = xs @ ys
      \<and> filter (\<lambda>x. ev_pts x \<in> insert (ev_pts e) D) rest = xs @ e # ys
      \<and> (\<forall>x\<in>set xs. ev_pts x < ev_pts e) \<and> (\<forall>y\<in>set ys. ev_pts e < ev_pts y)
      \<and> saved_as (as @ bs) w \<and> list_all2 saved_under as xs \<and> list_all2 saved_under bs ys
      \<and> max (pw_last w) (ev_pts e) = last_pts (pw_good w) (xs @ e # ys)
      \<and> pw_count w + ev_count e = pw_good w + total_count (xs @ e # ys)
      \<and> pw_waiting_skipped w = (as @ bs \<noteq> []))"
proof -
  have basic: "es = done @ rest" "contiguous (pw_good w) rest" "ev_pts ` set done \<subseteq> D"
    using tr by (simp_all add: tracks_def Let_def)
  have mem: "e \<in> set rest" using e basic(1,3) by auto
  have above: "pw_good w < ev_pts e" "0 < ev_count e"
    using contiguous_above [OF basic(2) mem] contiguous_count [OF basic(2) mem] by auto
  obtain xs ys where S: "filter (\<lambda>x. ev_pts x \<in> D) rest = xs @ ys"
    "filter (\<lambda>x. ev_pts x \<in> insert (ev_pts e) D) rest = xs @ e # ys"
    and order: "\<forall>x\<in>set xs. ev_pts x < ev_pts e" "\<forall>y\<in>set ys. ev_pts e < ev_pts y"
    using new_event_split [OF basic(2) mem e(2)] by blast
  obtain zs where zs: "saved_as zs w" "list_all2 saved_under zs (xs @ ys)"
    using tr S(1) by (auto simp: tracks_def Let_def)
  then obtain as bs where ab: "zs = as @ bs" "list_all2 saved_under as xs" "list_all2 saved_under bs ys"
    by (auto simp: list_all2_append2)
  have "pw_waiting_skipped w = (as @ bs \<noteq> [])"
    using tr S(1) zs(2) ab(1) by (auto simp: tracks_def Let_def)
  moreover have "max (pw_last w) (ev_pts e) = last_pts (pw_good w) (xs @ e # ys)"
    using tr last_pts_insert [OF above(1) order] S(1) by (simp add: tracks_def Let_def)
  moreover have "pw_count w + ev_count e = pw_good w + total_count (xs @ e # ys)"
    using tr S(1) by (simp add: tracks_def Let_def)
  ultimately show ?thesis
    using above S order zs ab by blast
qed

lemma save_new_event:
  assumes "saved_as (as @ bs) u" "list_all2 saved_under as xs" "list_all2 saved_under bs ys"
    "\<forall>x\<in>set xs. ev_pts x < ev_pts e" "\<forall>y\<in>set ys. ev_pts e < ev_pts y"
    "0 < ev_pts e" "ev_pts e < 2147483648"
  shows "\<exists>zs. saved_as zs (save_item (ev_pts e) (ev_item e) u) \<and> list_all2 saved_under zs (xs @ e # ys)"
proof (intro exI conjI)
  have key: "new_key (ev_pts e) u div 4294967296 = ev_pts e"
    using assms(6,7) by (simp add: new_key_div)
  show "list_all2 saved_under (as @ (new_key (ev_pts e) u, ev_item e) # bs) (xs @ e # ys)"
    using assms(2,3) key by (auto simp: saved_under_def intro!: list_all2_appendI)
  show "saved_as (as @ (new_key (ev_pts e) u, ev_item e) # bs) (save_item (ev_pts e) (ev_item e) u)"
    using assms(1) by (rule save_item_split) (rule saved_under_split [OF assms(2,3) key assms(4,5)])
qed

lemma last_pts_append [simp]: "last_pts g (xs @ ys) = last_pts (last_pts g xs) ys"
  by (simp add: last_pts_def)

text \<open>A state in which everything up to the last delivered event has been handed over.\<close>

lemma tracks_flush:
  assumes tr: "tracks g old D es w done rest"
    and S: "filter (\<lambda>x. ev_pts x \<in> insert (ev_pts e) D) rest = S" and fs: "rest = S @ fs"
    and "saved_as [] w'" "\<not> pw_waiting_skipped w'" "pw_level w' = 0" "\<not> pw_requesting w'"
    and good: "pw_good w' = last_pts (pw_good w) S" and "pw_last w' = pw_good w'" "pw_count w' = pw_good w'"
    and "applied_items (pw_calls w') = old @ map ev_item (done @ S)"
  shows "tracks g old (insert (ev_pts e) D) es w' (done @ S) fs"
proof -
  let ?P = "\<lambda>x. ev_pts x \<in> insert (ev_pts e) D"
  have basic: "es = done @ rest" "contiguous (pw_good w) rest" "0 < pw_good w" "ev_pts ` set done \<subseteq> D"
    "last_pts g done = pw_good w"
    using tr by (simp_all add: tracks_def Let_def)
  have "filter ?P S @ filter ?P fs = S" using S fs by simp
  moreover have "filter ?P S = S" unfolding S [symmetric] by simp
  ultimately have none: "filter ?P fs = []" by simp
  have "contiguous (pw_good w) S" "contiguous (pw_good w') fs"
    using basic(2) good unfolding fs by simp_all
  moreover have "0 < pw_good w'"
    using last_pts_mono [OF \<open>contiguous (pw_good w) S\<close>] basic(3) good by simp
  moreover have "ev_pts ` set S \<subseteq> insert (ev_pts e) D"
    unfolding S [symmetric] by auto
  ultimately show ?thesis
    using assms(4-) basic fs none by (auto simp: tracks_def Let_def)
qed

lemma tracks_step:
  fixes w :: "('c, 'u, 'us) pts_waiter" and du dus ch
  assumes tr: "tracks g old D es w done rest" and e: "e \<in> set es" "ev_pts e \<notin> D"
    and pts: "ev_pts e < 2147483648"
  shows "\<exists>done' rest'. tracks g old (insert (ev_pts e) D) es (deliver du dus ch e w) done' rest'"
proof -
  let ?D = "insert (ev_pts e) D" and ?g = "pw_good w" and ?i = "ev_item e"
  define v where "v = w\<lparr> pw_last := max (pw_last w) (ev_pts e), pw_count := pw_count w + ev_count e \<rparr>"
  define ok where "ok = v\<lparr> pw_good := pw_last v \<rparr>"
  have basic: "es = done @ rest" "contiguous ?g rest" "0 < ?g" "\<not> pw_requesting w" "pw_level w = 0"
    "ev_pts ` set done \<subseteq> D" "applied_items (pw_calls w) = old @ map ev_item done"
    "last_pts g done = pw_good w"
    using tr by (simp_all add: tracks_def Let_def)
  obtain xs ys as bs where above: "?g < ev_pts e" "0 < ev_count e"
    and S: "filter (\<lambda>x. ev_pts x \<in> D) rest = xs @ ys" "filter (\<lambda>x. ev_pts x \<in> ?D) rest = xs @ e # ys"
    and order: "\<forall>x\<in>set xs. ev_pts x < ev_pts e" "\<forall>y\<in>set ys. ev_pts e < ev_pts y"
    and ab: "saved_as (as @ bs) w" "list_all2 saved_under as xs" "list_all2 saved_under bs ys"
    and last: "pw_last v = last_pts ?g (xs @ e # ys)" and cnt: "pw_count v = ?g + total_count (xs @ e # ys)"
    and waiting: "pw_waiting_skipped w = (as @ bs \<noteq> [])"
    using tracks_new_event [OF tr e] by (auto simp: v_def)
  have q: "pw_queue w = [] \<longleftrightarrow> as @ bs = []" using ab(1) by (simp add: saved_as_def)
  note save = save_new_event [OF _ ab(2,3) order, of _]
  note delivered = deliver_cases [OF basic(4,5,3) above, folded v_def, folded ok_def, of du dus ch]
  have pos: "0 < ev_pts e" using above(1) basic(3) by simp
  show ?thesis
  proof (cases "pw_last v = pw_count v")
    case False
    then obtain ms where ms: "0 \<le> ms" "deliver du dus ch e w = save_item (ev_pts e) ?i (set_waiting_skipped ch ms v)"
      using delivered(3) by blast
    have "saved_as (as @ bs) (set_waiting_skipped ch ms v)"
      using ab(1) ms(1) by (simp add: saved_as_def set_waiting_skipped_def owner_do_def v_def)
    from save [OF this pos pts] have "tracks g old ?D es (deliver du dus ch e w) done rest"
      using basic last cnt False S(2) ms
      by (auto simp: tracks_def Let_def set_waiting_skipped_def owner_do_def v_def)
    then show ?thesis by blast
  next
    case True
    have "\<exists>fs. rest = (xs @ e # ys) @ fs"
      using filter_prefix [OF basic(2), of "\<lambda>x. ev_pts x \<in> ?D"] last cnt True unfolding S(2) by simp
    then obtain fs where fs: "rest = (xs @ e # ys) @ fs" by blast
    have flush: ?thesis
      if "saved_as [] w'" "\<not> pw_waiting_skipped w'" "pw_level w' = 0" "\<not> pw_requesting w'"
        "pw_good w' = pw_last v" "pw_last w' = pw_last v" "pw_count w' = pw_count v"
        "applied_items (pw_calls w') = old @ map ev_item (done @ xs @ e # ys)"
        "deliver du dus ch e w = w'" for w'
      using tracks_flush [OF tr S(2) fs, of w'] that last True by auto
    show ?thesis
    proof (cases "as @ bs = []")
      case True
      then have "xs = []" "ys = []" using ab(2,3) by simp_all
      with True delivered(1) \<open>pw_last v = pw_count v\<close> waiting ab(1) basic show ?thesis
        by (intro flush [of "owner_do (hand_over ?i) ok"])
          (simp_all add: owner_do_def ok_def v_def saved_as_def)
    next
      case False
      have "saved_as (as @ bs) ok" using ab(1) by (simp add: ok_def v_def saved_as_def)
      from save [OF this pos pts] obtain zs where zs: "saved_as zs (save_item (ev_pts e) ?i ok)"
        "list_all2 saved_under zs (xs @ e # ys)" by blast
      then have "zs \<noteq> []" by auto
      then show ?thesis
        using delivered(2) True False waiting q saved_under_items [OF zs(2)] basic
          apply_skipped_all [OF zs(1), of du dus ch]
        by (intro flush [of "apply_skipped du dus ch (save_item (ev_pts e) ?i ok)"])
          (simp_all add: ok_def v_def)
    qed
  qed
qed


definition pts_ready :: "('c, 'u, 'us) pts_waiter \<Rightarrow> bool" where
  "pts_ready w \<longleftrightarrow> pts_inited w \<and> pw_last w = pw_good w \<and> pw_count w = pw_good w
     \<and> pw_queue w = [] \<and> pw_update_queue w = [] \<and> pw_updates_queue w = []
     \<and> \<not> pw_requesting w \<and> \<not> pw_waiting_skipped w \<and> pw_level w = 0"

lemma tracks_ready:
  "pts_ready w \<Longrightarrow> contiguous (pw_good w) es \<Longrightarrow> tracks (pw_good w) (applied_items (pw_calls w)) {} es w [] es"
  by (simp add: tracks_def Let_def pts_ready_def pts_inited_def saved_as_def)

lemma tracks_run:
  "tracks g old D es w dn rest \<Longrightarrow> distinct (map ev_pts ds) \<Longrightarrow> set ds \<subseteq> set es \<Longrightarrow>
     \<forall>e\<in>set ds. ev_pts e \<notin> D \<and> ev_pts e < 2147483648 \<Longrightarrow>
     \<exists>dn' rest'. tracks g old (D \<union> ev_pts ` set ds) es (fold (deliver du dus ch) ds w) dn' rest'"
proof (induction ds arbitrary: D w dn rest)
  case (Cons d ds)
  obtain dn' rest' where "tracks g old (insert (ev_pts d) D) es (deliver du dus ch d w) dn' rest'"
    using tracks_step [of g old D es w dn rest d du dus ch] Cons.prems by auto
  moreover have "\<forall>e\<in>set ds. ev_pts e \<noteq> ev_pts d"
    using Cons.prems(2) by (metis distinct.simps(2) image_eqI list.simps(9) set_map)
  ultimately show ?case using Cons.IH Cons.prems by fastforce
qed auto

lemma contiguous_distinct:
  assumes "contiguous g es" "distinct ds" "set ds \<subseteq> set es"
  shows "distinct (map ev_pts ds)"
proof -
  have "sorted_wrt (<) (map ev_pts es)"
    using contiguous_sorted [OF assms(1)] by (simp add: sorted_wrt_map)
  then have "distinct (map ev_pts es)" by (simp add: strict_sorted_iff)
  then show ?thesis using assms(2,3) by (auto simp: distinct_map inj_on_def)
qed

lemma tracks_complete:
  assumes "tracks g old D es w dn rest" "ev_pts ` set es \<subseteq> D"
  shows "rest = []"
proof (rule ccontr)
  assume ne: "rest \<noteq> []"
  have "\<forall>e\<in>set rest. ev_pts e \<in> D"
    using assms by (auto simp: tracks_def Let_def)
  then have all: "filter (\<lambda>e. ev_pts e \<in> D) rest = rest" by simp
  have "pw_good w + total_count rest = last_pts (pw_good w) rest"
    using assms(1) by (intro contiguous_total) (simp add: tracks_def Let_def)
  then show False using assms(1) ne all by (auto simp: tracks_def Let_def)
qed

section \<open>Properties\<close>



text \<open>C23: once every update of a contiguous batch has arrived, in any order, all of them have
  been handed over, exactly once and in order, nothing is saved, the waiter has stopped waiting
  and its position is the end of the batch.\<close>

theorem pts_batch_completes:
  fixes w :: "('c, 'u, 'us) pts_waiter" and du dus ch
  assumes "pts_ready w" "contiguous (pw_good w) es" "\<forall>e\<in>set es. ev_pts e < 2147483648"
    "set ds = set es" "distinct ds"
  defines "w' \<equiv> fold (deliver du dus ch) ds w"
  shows "applied_items (pw_calls w') = applied_items (pw_calls w) @ map ev_item es
    \<and> pw_queue w' = [] \<and> \<not> pw_waiting_skipped w'
    \<and> pw_good w' = pw_good w + total_count es"
proof -
  obtain dn rest where t: "tracks (pw_good w) (applied_items (pw_calls w)) (ev_pts ` set ds) es w' dn rest"
    using tracks_run [OF tracks_ready [OF assms(1,2)], of ds du dus ch]
      contiguous_distinct [OF assms(2,5)] assms(3,4) by (auto simp: w'_def)
  have "rest = []" using tracks_complete [OF t] assms(4) by simp
  then show ?thesis
    using t contiguous_total [OF assms(2)] by (auto simp: tracks_def Let_def saved_as_def)
qed

lemma pts_batch_completes_witness:
  "applied_items (pw_calls (fold (deliver 0 (0 :: nat) ())
      [PtsEvent 8 2 (Inl 80), PtsEvent 9 1 (Inr 90), PtsEvent 6 1 (Inl (60 :: nat))]
      (pts_init 5 pts_waiter_new))) = [Inl 60, Inl 80, Inr (90 :: nat)]"
  using pts_batch_completes [of "pts_init 5 pts_waiter_new"
      "[PtsEvent 6 1 (Inl 60), PtsEvent 8 2 (Inl 80), PtsEvent 9 1 (Inr 90)]"
      "[PtsEvent 8 2 (Inl 80), PtsEvent 9 1 (Inr 90), PtsEvent 6 1 (Inl (60 :: nat))]" 0 "0 :: nat" "()"]
  by (auto simp: pts_ready_def pts_init_def pts_waiter_new_def clear_skipped_def pts_inited_def)

text \<open>An update that is not new (its position is not above the known one and it carries
  events) changes nothing and is not applied, in each form of \<^verbatim>\<open>updated\<close> and
  \<^verbatim>\<open>updateAndApply\<close>; a waiter that is requesting the difference applies everything
  it is given and does not move.\<close>

theorem pts_stale_and_requesting:
  fixes w :: "('c, 'u, 'us) pts_waiter"
  shows "(\<not> pw_requesting w \<and> pw_level w = 0 \<and> pts \<le> pw_good w \<and> 0 < n \<longrightarrow>
      apply_update du dus ch pts n u w = (False, w) \<and> apply_updates du dus ch pts n v w = (False, w)
      \<and> apply_pts du dus ch pts n w = (False, w) \<and> updated_pts ch pts n w = (False, w))
    \<and> (pw_requesting w \<and> pw_queue w = [] \<longrightarrow>
      apply_update du dus ch pts n u w = (True, owner_do (ApplyUpdate u) w)
      \<and> apply_updates du dus ch pts n v w = (True, owner_do (ApplyUpdates v) w)
      \<and> updated_pts ch pts n w = (True, w))"
  by (simp add: apply_update_def apply_updates_def apply_pts_def updated_update_def
      updated_updates_def updated_pts_def)

lemma pts_stale_and_requesting_witness:
  "apply_update 0 (0 :: nat) () 4 1 (7 :: nat) (pts_init 5 pts_waiter_new) = (False, pts_init 5 pts_waiter_new)"
  using pts_stale_and_requesting [of "pts_init 5 pts_waiter_new" 4 1 0 "0 :: nat" "()" "7 :: nat" 8]
  by (simp add: pts_init_def pts_waiter_new_def clear_skipped_def)

end
