(* ===== verification/Slices.thy ===== *)
theory Slices imports FlatSet begin

text \<open>
  The sorted vector of slices that \<^verbatim>\<open>storage/storage_sparse_ids_list\<close> and
  \<^verbatim>\<open>data/data_messages\<close> share: a slice is a set of ids and the range of ids without
  unknown messages around them. The operations are those of \<^verbatim>\<open>Storage::SparseIdsList\<close>,
  over any linear order of ids; \<^verbatim>\<open>_slices\<close> is a \<^verbatim>\<open>flat_set\<close> ordered by the
  start of the range, and is changed through its \<^verbatim>\<open>modify\<close>, \<^verbatim>\<open>emplace\<close> and
  \<^verbatim>\<open>erase\<close>.
\<close>

section \<open>Operations\<close>

record 'a slice =
  sl_messages :: "'a list"
  sl_from :: 'a
  sl_till :: 'a

record 'a slice_update =
  su_messages :: "'a list option"
  su_from :: 'a
  su_till :: 'a
  su_count :: "int option"

definition slice_less :: "'a::linorder slice \<Rightarrow> 'a slice \<Rightarrow> bool" where
  "slice_less a b \<longleftrightarrow> sl_from a < sl_from b"

definition slice_merge :: "'a::linorder list \<Rightarrow> 'a \<Rightarrow> 'a \<Rightarrow> 'a slice \<Rightarrow> 'a slice" where
  "slice_merge extra from till s = s\<lparr>
     sl_messages := fs_merge (<) (sl_messages s) extra,
     sl_from := min (sl_from s) from,
     sl_till := max (sl_till s) till \<rparr>"

text \<open>\<^verbatim>\<open>ranges::lower_bound\<close> by the end of the range and
  \<^verbatim>\<open>ranges::upper_bound\<close> by its start.\<close>

definition lower_till :: "'a::linorder slice list \<Rightarrow> 'a \<Rightarrow> nat" where
  "lower_till xs v = length (takeWhile (\<lambda>s. sl_till s < v) xs)"

definition upper_from :: "'a::linorder slice list \<Rightarrow> 'a \<Rightarrow> nat" where
  "upper_from xs v = length (takeWhile (\<lambda>s. \<not> v < sl_from s) xs)"

definition unite_rest :: "nat \<Rightarrow> nat \<Rightarrow> 'a::linorder slice list \<Rightarrow> 'a slice list" where
  "unite_rest uniteFrom uniteTill xs =
     fold (\<lambda>it xs. fs_modify slice_less xs uniteFrom
         (slice_merge (sl_messages (xs ! it)) (sl_from (xs ! it)) (sl_till (xs ! it))))
       [Suc uniteFrom..<uniteTill] xs"

text \<open>The result is the vector, the position of the united slice, which the update points at, and
  how many messages were added.\<close>

definition unite_and_add :: "'a::linorder slice list \<Rightarrow> nat \<Rightarrow> nat \<Rightarrow> 'a list \<Rightarrow> 'a \<Rightarrow> 'a
    \<Rightarrow> 'a slice list \<times> nat \<times> int" where
  "unite_and_add xs uniteFrom uniteTill messages from till =
     (let was = int (length (sl_messages (xs ! uniteFrom)));
          xs = fs_modify slice_less xs uniteFrom (slice_merge messages from till);
          xs = (if Suc uniteFrom \<noteq> uniteTill
                then erase_range (Suc uniteFrom) uniteTill (unite_rest uniteFrom uniteTill xs)
                else xs) in
      (xs, uniteFrom, int (length (sl_messages (xs ! uniteFrom))) - was))"

section \<open>The invariant\<close>

definition slice_ok :: "'a::linorder slice \<Rightarrow> bool" where
  "slice_ok s \<longleftrightarrow> sl_from s \<le> sl_till s \<and> fs_inv (<) (sl_messages s)
     \<and> set (sl_messages s) \<subseteq> {sl_from s..sl_till s}"

definition slices_inv :: "'a::linorder slice list \<Rightarrow> bool" where
  "slices_inv xs \<longleftrightarrow> (\<forall>s\<in>set xs. slice_ok s) \<and> sorted_wrt (\<lambda>a b. sl_till a < sl_from b) xs"

text \<open>What the vector represents: the known messages and the ids about which everything is
  known.\<close>

definition slices_messages :: "'a::linorder slice list \<Rightarrow> 'a set" where
  "slices_messages xs = (\<Union>s\<in>set xs. set (sl_messages s))"

definition slices_covered :: "'a::linorder slice list \<Rightarrow> 'a set" where
  "slices_covered xs = (\<Union>s\<in>set xs. {sl_from s..sl_till s})"

interpretation by_from: strict_weak "slice_less :: 'a::linorder slice \<Rightarrow> 'a slice \<Rightarrow> bool"
  by unfold_locales (auto simp: slice_less_def)

lemma slices_inv_Nil [simp]: "slices_inv []"
  by (simp add: slices_inv_def)

lemma slices_inv_append: "slices_inv (xs @ ys) \<longleftrightarrow> slices_inv xs \<and> slices_inv ys
    \<and> (\<forall>x\<in>set xs. \<forall>y\<in>set ys. sl_till x < sl_from y)"
  by (auto simp: slices_inv_def sorted_wrt_append)

lemma slices_inv_Cons: "slices_inv (s # xs) \<longleftrightarrow> slice_ok s \<and> slices_inv xs
    \<and> (\<forall>y\<in>set xs. sl_till s < sl_from y)"
  by (auto simp: slices_inv_def)

lemma slices_order: "slices_inv xs \<Longrightarrow> fs_inv slice_less xs"
proof (induction xs)
  case (Cons s xs)
  then have "sl_from s \<le> sl_till s" "\<forall>y\<in>set xs. sl_till s < sl_from y"
    by (simp_all add: slices_inv_Cons slice_ok_def)
  then have "\<forall>y\<in>set xs. sl_from s < sl_from y" by fastforce
  with Cons show ?case
    by (simp add: slices_inv_Cons fs_inv_def slice_less_def)
qed (simp add: fs_inv_def)

lemma slices_sets [simp]:
  "slices_messages [] = {}" "slices_covered [] = {}"
  "slices_messages (s # xs) = set (sl_messages s) \<union> slices_messages xs"
  "slices_covered (s # xs) = {sl_from s..sl_till s} \<union> slices_covered xs"
  "slices_messages (xs @ ys) = slices_messages xs \<union> slices_messages ys"
  "slices_covered (xs @ ys) = slices_covered xs \<union> slices_covered ys"
  by (simp_all add: slices_messages_def slices_covered_def)

lemma slices_messages_covered: "slices_inv xs \<Longrightarrow> slices_messages xs \<subseteq> slices_covered xs"
  by (induction xs) (auto simp: slices_inv_Cons slice_ok_def)

section \<open>Where a range falls\<close>

text \<open>The slices before a range, those that meet it, and those after it.\<close>

definition range_split :: "'a::linorder \<Rightarrow> 'a \<Rightarrow> 'a slice list \<Rightarrow> 'a slice list \<Rightarrow> 'a slice list \<Rightarrow> bool" where
  "range_split from till as ms bs \<longleftrightarrow> (\<forall>s\<in>set as. sl_till s < from)
     \<and> (\<forall>s\<in>set ms. from \<le> sl_till s \<and> sl_from s \<le> till) \<and> (\<forall>s\<in>set bs. till < sl_from s)"

lemma range_split_exists:
  assumes "slices_inv xs" "from \<le> till"
  shows "\<exists>as ms bs. xs = as @ ms @ bs \<and> range_split from till as ms bs"
  using assms(1)
proof (induction xs)
  case Nil
  show ?case by (auto simp: range_split_def)
next
  case (Cons s xs)
  then obtain as ms bs where split: "xs = as @ ms @ bs" "range_split from till as ms bs"
    by (auto simp: slices_inv_Cons)
  have s: "sl_from s \<le> sl_till s" "\<forall>y\<in>set xs. sl_till s < sl_from y" "\<forall>y\<in>set xs. sl_from y \<le> sl_till y"
    using Cons.prems by (auto simp: slices_inv_Cons slice_ok_def slices_inv_def)
  consider "sl_till s < from" | "from \<le> sl_till s" "sl_from s \<le> till" | "till < sl_from s"
    by fastforce
  then show ?case
  proof cases
    case 1
    then show ?thesis using split
      by (intro exI [of _ "s # as"] exI [of _ ms] exI [of _ bs]) (simp add: range_split_def)
  next
    case 2
    have "as = []"
    proof (rule ccontr)
      assume "as \<noteq> []"
      then obtain a where "a \<in> set as" by (cases as) auto
      then have "sl_till s < sl_from a" "sl_from a \<le> sl_till a" "sl_till a < from"
        using s(2,3) split by (simp_all add: range_split_def)
      then show False using 2(1) by order
    qed
    then show ?thesis using split 2
      by (intro exI [of _ "[]"] exI [of _ "s # ms"] exI [of _ bs]) (simp add: range_split_def)
  next
    case 3
    then show ?thesis using s
      by (intro exI [of _ "[]"] exI [of _ "[]"] exI [of _ "s # xs"]) (fastforce simp: range_split_def)
  qed
qed

lemma range_split_bounds:
  assumes "slices_inv (as @ ms @ bs)" "range_split from till as ms bs" "from \<le> till"
  shows "lower_till (as @ ms @ bs) from = length as" "upper_from (as @ ms @ bs) till = length (as @ ms)"
proof -
  have ok: "sl_from s \<le> sl_till s" if "s \<in> set as \<union> set ms \<union> set bs" for s
    using assms(1) that by (auto simp: slices_inv_def slice_ok_def)
  have "\<not> sl_till s < from" if "s \<in> set (ms @ bs)" for s
  proof (cases "s \<in> set ms")
    case False
    then have "till < sl_from s" "sl_from s \<le> sl_till s"
      using that assms(2) ok by (auto simp: range_split_def)
    then show ?thesis using assms(3) by order
  qed (use assms(2) in \<open>auto simp: range_split_def\<close>)
  then have "takeWhile (\<lambda>s. sl_till s < from) (ms @ bs) = []"
    by (cases "ms @ bs") auto
  moreover have "takeWhile (\<lambda>s. sl_till s < from) as = as"
    using assms(2) by (auto simp: range_split_def)
  ultimately show "lower_till (as @ ms @ bs) from = length as"
    using assms(2) by (simp add: lower_till_def range_split_def)
  have before: "\<not> till < sl_from s" if "s \<in> set (as @ ms)" for s
  proof (cases "s \<in> set as")
    case True
    then have "sl_till s < from" "sl_from s \<le> sl_till s"
      using assms(2) ok by (auto simp: range_split_def)
    then show ?thesis using assms(3) by order
  qed (use assms(2) that in \<open>auto simp: range_split_def\<close>)
  have "takeWhile (\<lambda>s. \<not> till < sl_from s) bs = []"
    using assms(2) by (cases bs) (auto simp: range_split_def)
  with before show "upper_from (as @ ms @ bs) till = length (as @ ms)"
    using takeWhile_append2 [of "as @ ms" "\<lambda>s. \<not> till < sl_from s" bs]
    by (simp add: upper_from_def)
qed

section \<open>Uniting slices\<close>

definition absorb :: "'a::linorder slice list \<Rightarrow> 'a slice \<Rightarrow> 'a slice" where
  "absorb ss m = fold (\<lambda>s m. slice_merge (sl_messages s) (sl_from s) (sl_till s) m) ss m"

lemma modify_slice:
  assumes "fs_inv slice_less (as @ m # rest)" "sl_from (g m) \<le> sl_from m"
    "\<forall>a\<in>set as. sl_from a < sl_from (g m)"
  shows "fs_modify slice_less (as @ m # rest) (length as) g = as @ g m # rest"
    and "fs_inv slice_less (as @ g m # rest)"
proof -
  show inv: "fs_inv slice_less (as @ g m # rest)"
    using assms by (auto simp: fs_inv_def sorted_wrt_append slice_less_def)
  then show "fs_modify slice_less (as @ m # rest) (length as) g = as @ g m # rest"
    using by_from.fs_modify_in_place [of "length as" "as @ m # rest" g] by simp
qed

lemma unite_rest_absorb:
  assumes "fs_inv slice_less (as @ m # ps @ qs @ bs)"
  shows "fold (\<lambda>it xs. fs_modify slice_less xs (length as)
      (slice_merge (sl_messages (xs ! it)) (sl_from (xs ! it)) (sl_till (xs ! it))))
      [Suc (length as + length ps)..<Suc (length as + length ps + length qs)] (as @ m # ps @ qs @ bs)
    = as @ absorb qs m # ps @ qs @ bs"
  using assms
proof (induction qs arbitrary: m ps)
  case (Cons q qs)
  let ?g = "slice_merge (sl_messages q) (sl_from q) (sl_till q)"
  let ?xs = "as @ m # ps @ (q # qs) @ bs"
  have nth: "?xs ! Suc (length as + length ps) = q"
    by (simp add: nth_append)
  have "slice_less m q" "\<forall>a\<in>set as. sl_from a < sl_from m"
    using Cons.prems by (auto simp: fs_inv_def sorted_wrt_append slice_less_def)
  then have "sl_from (?g m) = sl_from m"
    by (simp add: slice_merge_def slice_less_def min_absorb1 less_imp_le)
  then have mod: "fs_modify slice_less ?xs (length as) ?g = as @ ?g m # ps @ (q # qs) @ bs"
    "fs_inv slice_less (as @ ?g m # ps @ (q # qs) @ bs)"
    using modify_slice [of as m "ps @ (q # qs) @ bs" ?g] Cons.prems \<open>\<forall>a\<in>set as. sl_from a < sl_from m\<close>
    by simp_all
  have "[Suc (length as + length ps)..<Suc (length as + length ps + length (q # qs))] =
      Suc (length as + length ps) # [Suc (length as + length (ps @ [q]))..<
        Suc (length as + length (ps @ [q]) + length qs)]"
    by (simp add: upt_conv_Cons del: upt_Suc)
  then show ?case
    using Cons.IH [of "?g m" "ps @ [q]"] mod nth
    by (simp add: absorb_def)
qed (simp add: absorb_def)

lemma unite_and_add_eq:
  fixes messages :: "'a::linorder list" and till
  assumes "fs_inv slice_less (as @ m # ms @ bs)" "\<forall>a\<in>set as. sl_from a < from"
  defines "u \<equiv> absorb ms (slice_merge messages from till m)"
  shows "unite_and_add (as @ m # ms @ bs) (length as) (Suc (length as + length ms)) messages from till =
    (as @ u # bs, length as, int (length (sl_messages u)) - int (length (sl_messages m)))"
proof -
  let ?m = "slice_merge messages from till m"
  have "\<forall>a\<in>set as. sl_from a < sl_from ?m" "sl_from ?m \<le> sl_from m"
    using assms(1,2) by (auto simp: slice_merge_def fs_inv_def sorted_wrt_append slice_less_def)
  then have mod: "fs_modify slice_less (as @ m # ms @ bs) (length as) (slice_merge messages from till) =
      as @ ?m # ms @ bs" "fs_inv slice_less (as @ ?m # [] @ ms @ bs)"
    using modify_slice [of as m "ms @ bs" "slice_merge messages from till"] assms(1) by simp_all
  have "unite_rest (length as) (Suc (length as + length ms)) (as @ ?m # ms @ bs) = as @ u # ms @ bs"
    using unite_rest_absorb [OF mod(2)] by (simp add: unite_rest_def u_def)
  moreover have "ms = [] \<Longrightarrow> u = ?m"
    by (simp add: u_def absorb_def)
  ultimately show ?thesis
    using mod(1) by (cases "ms = []") (simp_all add: unite_and_add_def Let_def erase_range_def)
qed

lemma interval_union:
  fixes a :: "'a::linorder"
  assumes "a \<le> b" "f \<le> t" "f \<le> b" "a \<le> t"
  shows "{min a f..max b t} = {a..b} \<union> {f..t}"
  using assms by (auto simp: min_le_iff_disj le_max_iff_disj)

lemma slice_merge_ok:
  assumes "slice_ok m" "from \<le> till" "set messages \<subseteq> {from..till}" "from \<le> sl_till m" "sl_from m \<le> till"
  shows "slice_ok (slice_merge messages from till m)"
    and "set (sl_messages (slice_merge messages from till m)) = set (sl_messages m) \<union> set messages"
    and "{sl_from (slice_merge messages from till m)..sl_till (slice_merge messages from till m)} =
      {sl_from m..sl_till m} \<union> {from..till}"
proof -
  show set: "set (sl_messages (slice_merge messages from till m)) = set (sl_messages m) \<union> set messages"
    by (simp add: slice_merge_def less_order.fs_merge_set)
  show range: "{sl_from (slice_merge messages from till m)..sl_till (slice_merge messages from till m)} =
      {sl_from m..sl_till m} \<union> {from..till}"
    using assms interval_union [of "sl_from m" "sl_till m" "from" "till"]
    by (simp add: slice_merge_def slice_ok_def)
  have "min (sl_from m) from \<le> max (sl_till m) till"
    using assms(1) by (auto simp: slice_ok_def min_le_iff_disj le_max_iff_disj)
  then show "slice_ok (slice_merge messages from till m)"
    unfolding slice_ok_def set range using assms(1,3)
    by (auto simp: slice_ok_def slice_merge_def less_order.fs_merge_inv)
qed

lemma absorb_ok:
  assumes "slice_ok m" "sl_from m \<le> from" "till \<le> sl_till m"
    "\<forall>s\<in>set ss. slice_ok s \<and> from \<le> sl_till s \<and> sl_from s \<le> till"
  shows "slice_ok (absorb ss m) \<and> set (sl_messages (absorb ss m)) = set (sl_messages m) \<union> slices_messages ss
    \<and> {sl_from (absorb ss m)..sl_till (absorb ss m)} = {sl_from m..sl_till m} \<union> slices_covered ss"
  using assms
proof (induction ss arbitrary: m)
  case (Cons s ss)
  let ?m = "slice_merge (sl_messages s) (sl_from s) (sl_till s) m"
  have s: "slice_ok s" "sl_from s \<le> sl_till s" "set (sl_messages s) \<subseteq> {sl_from s..sl_till s}"
    "sl_from s \<le> sl_till m" "sl_from m \<le> sl_till s"
    using Cons.prems by (auto simp: slice_ok_def intro: order_trans)
  note merged = slice_merge_ok [OF Cons.prems(1) s(2,3,4,5)]
  have "sl_from ?m \<le> from" "till \<le> sl_till ?m"
    using Cons.prems by (simp_all add: slice_merge_def min_le_iff_disj le_max_iff_disj)
  with Cons.IH [OF merged(1)] Cons.prems(4) merged(2,3) show ?case
    by (simp add: absorb_def Un_assoc)
qed (simp add: absorb_def)

section \<open>Adding a range\<close>

text \<open>What the vector is after a range of messages was added, whether it met slices or not.\<close>

definition add_at :: "'a::linorder slice list \<Rightarrow> 'a list \<Rightarrow> 'a \<Rightarrow> 'a \<Rightarrow> 'a slice list \<times> nat \<times> int" where
  "add_at xs messages from till =
     (let uniteFrom = lower_till xs from; uniteTill = upper_from xs till in
      if uniteFrom < uniteTill then unite_and_add xs uniteFrom uniteTill messages from till
      else let s = \<lparr>sl_messages = fs_from_range (<) messages, sl_from = from, sl_till = till\<rparr>;
               (ys, at, _) = fs_insert slice_less xs s in
        (ys, at, int (length (sl_messages (ys ! at)))))"

text \<open>The slice that holds the range afterwards.\<close>

definition added_slice :: "'a::linorder slice list \<Rightarrow> 'a list \<Rightarrow> 'a \<Rightarrow> 'a \<Rightarrow> 'a slice" where
  "added_slice ms messages from till =
     (case ms of
        [] \<Rightarrow> \<lparr>sl_messages = fs_from_range (<) messages, sl_from = from, sl_till = till\<rparr>
      | m # ms \<Rightarrow> absorb ms (slice_merge messages from till m))"

lemma added_slice_ok:
  assumes "\<forall>s\<in>set ms. slice_ok s \<and> from \<le> sl_till s \<and> sl_from s \<le> till" "from \<le> till"
    "set messages \<subseteq> {from..till}"
  shows "slice_ok (added_slice ms messages from till)
    \<and> set (sl_messages (added_slice ms messages from till)) = set messages \<union> slices_messages ms
    \<and> {sl_from (added_slice ms messages from till)..sl_till (added_slice ms messages from till)} =
        {from..till} \<union> slices_covered ms"
proof (cases ms)
  case Nil
  then show ?thesis using assms(2,3)
    by (simp add: added_slice_def slice_ok_def less_order.fs_from_range_set less_order.fs_from_range_inv)
next
  case (Cons m ms')
  note merged = slice_merge_ok [of m "from" till messages]
  have "sl_from (slice_merge messages from till m) \<le> from" "till \<le> sl_till (slice_merge messages from till m)"
    by (simp_all add: slice_merge_def)
  from absorb_ok [OF _ this, of ms'] merged assms Cons show ?thesis
    by (auto simp: added_slice_def)
qed

lemma add_at_eq:
  assumes inv: "slices_inv (as @ ms @ bs)" and split: "range_split from till as ms bs" and "from \<le> till"
  shows "add_at (as @ ms @ bs) messages from till =
    (as @ added_slice ms messages from till # bs, length as,
     int (length (sl_messages (added_slice ms messages from till)))
       - (if ms = [] then 0 else int (length (sl_messages (hd ms)))))"
proof (cases ms)
  case Nil
  let ?s = "\<lparr>sl_messages = fs_from_range (<) messages, sl_from = from, sl_till = till\<rparr>"
  have ok: "\<forall>a\<in>set as. sl_from a \<le> sl_till a"
    using inv by (auto simp: slices_inv_def slice_ok_def)
  have "\<forall>a\<in>set as. slice_less a ?s" "\<forall>b\<in>set bs. slice_less ?s b"
    using split ok assms(3) by (fastforce simp: range_split_def slice_less_def)+
  then have "fs_insert slice_less (as @ bs) ?s = (as @ ?s # bs, length as, True)"
    using by_from.fs_insert_between [of as bs ?s] slices_order [OF inv] Nil by simp
  then show ?thesis
    using Nil range_split_bounds [OF inv split assms(3)]
    by (simp add: add_at_def added_slice_def Let_def)
next
  case (Cons m ms')
  have "\<forall>a\<in>set as. sl_from a \<le> sl_till a \<and> sl_till a < from"
    using inv split by (auto simp: range_split_def slices_inv_def slice_ok_def)
  then have "\<forall>a\<in>set as. sl_from a < from" by fastforce
  then show ?thesis
    using Cons range_split_bounds [OF inv split assms(3)]
      unite_and_add_eq [OF slices_order [OF inv [unfolded Cons append_Cons]], of "from" messages till]
    by (simp add: add_at_def added_slice_def Let_def)
qed

lemma added_slices_inv:
  assumes inv: "slices_inv (as @ ms @ bs)" and split: "range_split from till as ms bs"
    and u: "slice_ok u" "{sl_from u..sl_till u} = {from..till} \<union> slices_covered ms"
    and le: "from \<le> till"
  shows "slices_inv (as @ u # bs)"
proof -
  have u_le: "sl_from u \<le> sl_till u" using u(1) by (simp add: slice_ok_def)
  then have ends: "sl_from u \<in> {from..till} \<union> slices_covered ms" "sl_till u \<in> {from..till} \<union> slices_covered ms"
    using u(2) by auto
  have "sl_till a < x" if "a \<in> set as" "x \<in> {from..till} \<union> slices_covered ms" for a x
  proof -
    have "sl_till a < from" "\<forall>s\<in>set ms. sl_till a < sl_from s"
      using that(1) inv split by (simp_all add: range_split_def slices_inv_append)
    then show ?thesis using that(2) by (auto simp: slices_covered_def intro: less_le_trans)
  qed
  moreover have "x < sl_from b" if "b \<in> set bs" "x \<in> {from..till} \<union> slices_covered ms" for b x
  proof -
    have "till < sl_from b" "\<forall>s\<in>set ms. sl_till s < sl_from b"
      using that(1) inv split by (simp_all add: range_split_def slices_inv_append)
    then show ?thesis using that(2) by (auto simp: slices_covered_def intro: le_less_trans)
  qed
  ultimately show ?thesis
    using ends inv u(1) by (auto simp: slices_inv_append slices_inv_Cons)
qed

lemma add_at_refines:
  assumes inv: "slices_inv xs" and le: "from \<le> till" and sub: "set messages \<subseteq> {from..till}"
  shows "\<exists>ys at n. add_at xs messages from till = (ys, at, n) \<and> slices_inv ys \<and> at < length ys
    \<and> slices_messages ys = slices_messages xs \<union> set messages
    \<and> slices_covered ys = slices_covered xs \<union> {from..till}
    \<and> {from..till} \<subseteq> {sl_from (ys ! at)..sl_till (ys ! at)}
    \<and> set messages \<subseteq> set (sl_messages (ys ! at))"
proof -
  obtain as ms bs where xs: "xs = as @ ms @ bs" and split: "range_split from till as ms bs"
    using range_split_exists [OF inv le] by blast
  let ?u = "added_slice ms messages from till"
  have "\<forall>s\<in>set ms. slice_ok s \<and> from \<le> sl_till s \<and> sl_from s \<le> till"
    using inv split by (auto simp: xs slices_inv_def range_split_def)
  note u = added_slice_ok [OF this le sub]
  have "slices_inv (as @ ?u # bs)"
    using added_slices_inv [OF inv [unfolded xs] split] u le by blast
  moreover have "add_at xs messages from till = (as @ ?u # bs, length as,
      int (length (sl_messages ?u)) - (if ms = [] then 0 else int (length (sl_messages (hd ms)))))"
    using add_at_eq [OF inv [unfolded xs] split le] by (simp add: xs)
  moreover have "slices_messages (as @ ?u # bs) = slices_messages xs \<union> set messages"
    "slices_covered (as @ ?u # bs) = slices_covered xs \<union> {from..till}"
    using u by (auto simp: xs)
  moreover have "{from..till} \<subseteq> {sl_from ?u..sl_till ?u}" "set messages \<subseteq> set (sl_messages ?u)"
    using u by blast+
  ultimately show ?thesis by (auto simp: nth_append)
qed

section \<open>Looking up and removing\<close>

definition in_slice :: "'a::linorder slice list \<Rightarrow> 'a \<Rightarrow> bool" where
  "in_slice xs v \<longleftrightarrow> lower_till xs v < length xs \<and> sl_from (xs ! lower_till xs v) \<le> v"

lemma slice_lookup:
  assumes "slices_inv xs"
  shows "(\<exists>as m bs. xs = as @ m # bs \<and> lower_till xs v = length as \<and> in_slice xs v
      \<and> v \<in> {sl_from m..sl_till m} \<and> v \<notin> slices_covered (as @ bs))
    \<or> (v \<notin> slices_covered xs \<and> \<not> in_slice xs v)"
proof -
  obtain as ms bs where xs: "xs = as @ ms @ bs" and split: "range_split v v as ms bs"
    using range_split_exists [OF assms order_refl [of v]] by blast
  have low: "lower_till xs v = length as"
    using range_split_bounds [OF assms [unfolded xs] split] xs by simp
  have out: "v \<notin> slices_covered as" "v \<notin> slices_covered bs"
    using split by (auto simp: slices_covered_def range_split_def)
  show ?thesis
  proof (cases ms)
    case Nil
    have "\<not> in_slice xs v"
      using low split by (cases bs) (auto simp: in_slice_def xs Nil range_split_def)
    then show ?thesis using out by (simp add: xs Nil)
  next
    case (Cons m ms')
    have m: "v \<in> {sl_from m..sl_till m}" using split Cons by (simp add: range_split_def)
    have "ms' = []"
    proof (rule ccontr)
      assume "ms' \<noteq> []"
      then obtain n where "n \<in> set ms'" by (cases ms') auto
      then have "sl_from n \<le> v" "sl_till m < sl_from n"
        using assms split by (auto simp: xs Cons range_split_def slices_inv_append slices_inv_Cons)
      then show False using m by auto
    qed
    then show ?thesis
      using m low out by (intro disjI1 exI [of _ as] exI [of _ m] exI [of _ bs])
        (simp add: xs Cons in_slice_def nth_append)
  qed
qed

text \<open>A slice changed in place, within its range.\<close>

lemma modify_within:
  assumes "slices_inv (as @ m # bs)" "slice_ok (g m)" "sl_from (g m) = sl_from m"
    "sl_till (g m) \<le> sl_till m"
  shows "fs_modify slice_less (as @ m # bs) (length as) g = as @ g m # bs \<and> slices_inv (as @ g m # bs)"
proof
  have "\<forall>a\<in>set as. sl_from a < sl_from m"
    using slices_order [OF assms(1)] by (simp add: fs_inv_def sorted_wrt_append slice_less_def)
  then show "fs_modify slice_less (as @ m # bs) (length as) g = as @ g m # bs"
    using modify_slice(1) [OF slices_order [OF assms(1)], of g] assms(3) by simp
  show "slices_inv (as @ g m # bs)"
    using assms by (force simp: slices_inv_append slices_inv_Cons)
qed

definition remove_message :: "'a::linorder \<Rightarrow> 'a slice \<Rightarrow> 'a slice" where
  "remove_message v s = s\<lparr> sl_messages := fst (fs_remove (<) (sl_messages s) v) \<rparr>"

lemma remove_message_ok: "slice_ok s \<Longrightarrow> slice_ok (remove_message v s)
    \<and> set (sl_messages (remove_message v s)) = set (sl_messages s) - {v}"
  by (auto simp: remove_message_def slice_ok_def less_order.fs_remove_set less_order.fs_remove_keeps)

definition remove_at :: "'a::linorder slice list \<Rightarrow> 'a \<Rightarrow> 'a slice list" where
  "remove_at xs v =
     (let i = lower_till xs v in
      if i \<noteq> length xs \<and> sl_from (xs ! i) \<le> v then fs_modify slice_less xs i (remove_message v) else xs)"

lemma remove_at_refines:
  assumes "slices_inv xs"
  shows "slices_inv (remove_at xs v) \<and> slices_messages (remove_at xs v) = slices_messages xs - {v}
    \<and> slices_covered (remove_at xs v) = slices_covered xs"
proof -
  have len: "lower_till xs v \<le> length xs" by (simp add: lower_till_def length_takeWhile_le)
  then have at: "remove_at xs v =
      (if in_slice xs v then fs_modify slice_less xs (lower_till xs v) (remove_message v) else xs)"
    by (auto simp: remove_at_def in_slice_def Let_def)
  consider as m bs where "xs = as @ m # bs" "lower_till xs v = length as" "in_slice xs v"
      "v \<notin> slices_covered (as @ bs)"
    | "v \<notin> slices_covered xs" "\<not> in_slice xs v"
    using slice_lookup [OF assms, of v] by blast
  then show ?thesis
  proof cases
    case (1 as m bs)
    have ok: "slice_ok m" "slices_inv (as @ bs)"
      using assms 1(1) by (auto simp: slices_inv_append slices_inv_Cons)
    have same: "sl_from (remove_message v m) = sl_from m" "sl_till (remove_message v m) = sl_till m"
      by (simp_all add: remove_message_def)
    have "v \<notin> slices_messages as" "v \<notin> slices_messages bs"
      using slices_messages_covered [OF ok(2)] 1(4) by auto
    moreover have "remove_at xs v = as @ remove_message v m # bs \<and> slices_inv (as @ remove_message v m # bs)"
      using modify_within [of as m bs "remove_message v"] assms remove_message_ok [OF ok(1), of v] same 1(1-3) at
      by simp
    ultimately show ?thesis
      using remove_message_ok [OF ok(1), of v] same 1(1) by auto
  next
    case 2
    then show ?thesis
      using assms slices_messages_covered [OF assms] by (auto simp: at)
  qed
qed

text \<open>The end of the last slice, moved back to its last message.\<close>

definition cut_bottom :: "'a::linorder slice \<Rightarrow> 'a slice" where
  "cut_bottom s = s\<lparr> sl_till := (if sl_messages s = [] then sl_from s else last (sl_messages s)) \<rparr>"

definition invalidate_last :: "'a::linorder \<Rightarrow> 'a slice list \<Rightarrow> 'a slice list" where
  "invalidate_last newest xs =
     (if xs \<noteq> [] \<and> sl_till (last xs) = newest then fs_modify slice_less xs (length xs - 1) cut_bottom
      else xs)"

lemma cut_bottom_ok: "slice_ok s \<Longrightarrow> slice_ok (cut_bottom s) \<and> sl_till (cut_bottom s) \<le> sl_till s"
proof (cases "sl_messages s = []")
  case False
  assume ok: "slice_ok s"
  then have sub: "set (sl_messages s) \<subseteq> {sl_from s..sl_till s}" and inv: "fs_inv (<) (sl_messages s)"
    by (simp_all add: slice_ok_def)
  have "last (sl_messages s) \<in> {sl_from s..sl_till s}"
    using sub last_in_set [OF False] by blast
  moreover have "x \<le> last (sl_messages s)" if "x \<in> set (sl_messages s)" for x
    using less_order.fms_inv_last [OF less_order.fs_inv_fms_inv [OF inv] that] by simp
  ultimately show ?thesis
    using ok False sub by (auto simp: slice_ok_def cut_bottom_def)
qed (simp add: slice_ok_def cut_bottom_def fs_inv_def)

lemma invalidate_last_refines:
  assumes "slices_inv xs"
  shows "slices_inv (invalidate_last newest xs)
    \<and> slices_messages (invalidate_last newest xs) = slices_messages xs
    \<and> slices_covered (invalidate_last newest xs) \<subseteq> slices_covered xs"
proof (cases "xs \<noteq> [] \<and> sl_till (last xs) = newest")
  case True
  then obtain as m where xs: "xs = as @ [m]" by (metis append_butlast_last_id)
  then have m: "slice_ok m" using assms by (simp add: slices_inv_append slices_inv_Cons)
  have "sl_from (cut_bottom m) = sl_from m" "sl_messages (cut_bottom m) = sl_messages m"
    by (simp_all add: cut_bottom_def)
  then show ?thesis
    using True modify_within [of as m "[]" cut_bottom] assms cut_bottom_ok [OF m]
    by (auto simp: invalidate_last_def xs)
qed (use assms in \<open>auto simp: invalidate_last_def\<close>)

section \<open>Queries\<close>

record 'a list_result =
  lr_count :: "int option"
  lr_skipped_before :: "int option"
  lr_skipped_after :: "int option"
  lr_ids :: "'a list"

definition empty_result :: "'a list_result" where
  "empty_result = \<lparr>lr_count = None, lr_skipped_before = None, lr_skipped_after = None, lr_ids = []\<rparr>"

text \<open>\<^verbatim>\<open>queryFromSlice\<close>: at most \<open>limitBefore\<close> messages below the id and
  \<open>limitAfter + 1\<close> from it on; \<open>first\<close> and \<open>end\<close> are the ids at which the whole
  list starts and ends.\<close>

definition query_from_slice :: "'a::linorder \<Rightarrow> 'a \<Rightarrow> int option \<Rightarrow> 'a \<Rightarrow> int \<Rightarrow> int \<Rightarrow> 'a slice
    \<Rightarrow> 'a list_result" where
  "query_from_slice first final cnt aroundId limitBefore limitAfter s =
     (let position = fms_lower_bound (<) (sl_messages s) aroundId;
          haveBefore = int position;
          haveEqualOrAfter = int (length (sl_messages s) - position);
          before = min haveBefore limitBefore;
          equalOrAfter = min haveEqualOrAfter (limitAfter + 1);
          ids = subrange (nat (haveBefore - before)) (nat (haveBefore + equalOrAfter)) (sl_messages s);
          messageIds = fs_merge (<) [] ids;
          skippedBefore = (if sl_from s = first then Some (haveBefore - before) else None);
          skippedAfter = (if sl_till s = final then Some (haveEqualOrAfter - equalOrAfter) else None);
          n = int (length messageIds) in
      (case cnt of
         None \<Rightarrow> \<lparr>lr_count = None, lr_skipped_before = skippedBefore, lr_skipped_after = skippedAfter,
           lr_ids = messageIds\<rparr>
       | Some c \<Rightarrow>
           (case (skippedBefore, skippedAfter) of
              (None, Some a) \<Rightarrow> \<lparr>lr_count = Some c, lr_skipped_before = Some (c - a - n),
                lr_skipped_after = Some a, lr_ids = messageIds\<rparr>
            | (Some b, None) \<Rightarrow> \<lparr>lr_count = Some c, lr_skipped_before = Some b,
                lr_skipped_after = Some (c - b - n), lr_ids = messageIds\<rparr>
            | _ \<Rightarrow> \<lparr>lr_count = Some c, lr_skipped_before = skippedBefore,
                lr_skipped_after = skippedAfter, lr_ids = messageIds\<rparr>)))"

text \<open>The window of a sorted list around a value: the last few below it, the first few from it
  on.\<close>

definition id_window :: "'a::linorder \<Rightarrow> nat \<Rightarrow> nat \<Rightarrow> 'a list \<Rightarrow> 'a list" where
  "id_window v b a xs =
     (let low = filter (\<lambda>x. x < v) xs; high = filter (\<lambda>x. v \<le> x) xs in
      drop (length low - b) low @ take a high)"

lemma sorted_split_filter:
  assumes "fs_inv (<) (xs :: 'a::linorder list)"
  shows "filter (\<lambda>x. x < v) xs = takeWhile (\<lambda>x. x < v) xs
    \<and> filter (\<lambda>x. v \<le> x) xs = dropWhile (\<lambda>x. x < v) xs"
  using assms unfolding fs_inv_def
proof (induction xs)
  case (Cons x xs)
  show ?case
  proof (cases "x < v")
    case False
    then have "\<forall>y\<in>set xs. v \<le> y" using Cons.prems by (auto simp: not_less)
    then show ?thesis using False by (auto simp: filter_empty_conv filter_id_conv not_less)
  qed (use Cons in \<open>auto simp: not_le\<close>)
qed simp

lemma subrange_append:
  "i \<le> length xs \<Longrightarrow> subrange i (length xs + j) (xs @ ys) = drop i xs @ take j ys"
  by (simp add: subrange_def)

lemma fs_merge_sorted: "fs_inv (<) xs \<Longrightarrow> fs_merge (<) [] xs = (xs :: 'a::linorder list)"
  by (rule less_order.fs_unique) (simp_all add: less_order.fs_merge_inv less_order.fs_merge_set)

lemma query_from_slice_ids:
  assumes "fs_inv (<) (sl_messages s)" "0 \<le> limitBefore" "0 \<le> limitAfter"
  shows "lr_ids (query_from_slice first final cnt v limitBefore limitAfter s) =
    id_window v (nat limitBefore) (Suc (nat limitAfter)) (sl_messages s)"
proof -
  let ?xs = "sl_messages s" and ?L = "takeWhile (\<lambda>x. x < v) (sl_messages s)"
    and ?H = "dropWhile (\<lambda>x. x < v) (sl_messages s)"
  let ?b = "min (int (length ?L)) limitBefore"
  let ?a = "min (int (length ?xs - length ?L)) (limitAfter + 1)"
  have H: "length ?xs - length ?L = length ?H"
    by (metis length_append diff_add_inverse takeWhile_dropWhile_id)
  have window: "subrange (nat (int (length ?L) - ?b)) (nat (int (length ?L) + ?a)) ?xs =
      drop (length ?L - nat limitBefore) ?L @ take (Suc (nat limitAfter)) ?H"
  proof -
    have lo: "nat (int (length ?L) - ?b) = length ?L - nat limitBefore"
      and hi: "nat (int (length ?L) + ?a) = length ?L + min (length ?H) (Suc (nat limitAfter))"
      using assms(2,3) unfolding H by (auto simp: min_def)
    show ?thesis
      using subrange_append [of "length ?L - nat limitBefore" ?L "min (length ?H) (Suc (nat limitAfter))" ?H]
      unfolding lo hi takeWhile_dropWhile_id by (simp add: min_def)
  qed
  have inv: "fs_inv (<) (subrange i j ?xs)" for i j
    using assms(1) by (simp add: fs_inv_def subrange_def sorted_wrt_take sorted_wrt_drop)
  have "lr_ids (query_from_slice first final cnt v limitBefore limitAfter s) =
      fs_merge (<) [] (subrange (nat (int (length ?L) - ?b)) (nat (int (length ?L) + ?a)) ?xs)"
    by (simp add: query_from_slice_def Let_def fms_lower_bound_def split: option.splits)
  then show ?thesis
    unfolding fs_merge_sorted [OF inv]
    by (simp add: window id_window_def Let_def sorted_split_filter [OF assms(1)])
qed

text \<open>A slice holds every known message of its range.\<close>

lemma slices_messages_in:
  assumes "slices_inv xs" "s \<in> set xs"
  shows "set (sl_messages s) = slices_messages xs \<inter> {sl_from s..sl_till s}"
proof -
  obtain as bs where xs: "xs = as @ s # bs" using assms(2) by (meson split_list)
  have ok: "slice_ok s" "slices_inv as" "slices_inv bs" "\<forall>a\<in>set as. sl_till a < sl_from s"
    "\<forall>b\<in>set bs. sl_till s < sl_from b"
    using assms(1) by (auto simp: xs slices_inv_append slices_inv_Cons)
  have "slices_covered as \<inter> {sl_from s..sl_till s} = {}" "slices_covered bs \<inter> {sl_from s..sl_till s} = {}"
    using ok(4,5) by (fastforce simp: slices_covered_def)+
  then have "slices_messages as \<inter> {sl_from s..sl_till s} = {}" "slices_messages bs \<inter> {sl_from s..sl_till s} = {}"
    using slices_messages_covered [OF ok(2)] slices_messages_covered [OF ok(3)] by blast+
  then show ?thesis using ok(1) by (auto simp: xs slice_ok_def)
qed

end
