(* ===== verification/MsgIds.thy ===== *)
theory MsgIds imports Prelude "HOL-Library.Word" begin

text \<open>
  \<^verbatim>\<open>data/data_msg_id.h\<close>, \<^verbatim>\<open>data/data_peer_id.h\<close> and
  \<^verbatim>\<open>data/data_peer_id.cpp\<close>: ids of messages and of peers. A \<^verbatim>\<open>MsgId\<close> wraps an
  \<^verbatim>\<open>int64\<close> whose values keep far from the ends, modelled as \<^typ>\<open>int\<close>; a
  \<^verbatim>\<open>PeerId\<close> packs a type and a bare id into a \<^verbatim>\<open>uint64\<close>, modelled as
  \<^typ>\<open>64 word\<close>. \<^verbatim>\<open>FullMsgId\<close> and \<^verbatim>\<open>Data::MessagePosition\<close> are
  linear orders, as their \<^verbatim>\<open>operator<\<close> makes them.
\<close>

unbundle bit_operations_syntax

section \<open>Message ids\<close>

definition StartClientMsgId :: int where "StartClientMsgId = 1 - 2 ^ 58"
definition ClientMsgIds :: int where "ClientMsgIds = 2 ^ 31"
definition EndClientMsgId :: int where "EndClientMsgId = StartClientMsgId + ClientMsgIds"
definition StartStoryMsgId :: int where "StartStoryMsgId = EndClientMsgId + 1"
definition ServerMaxStoryId :: int where "ServerMaxStoryId = 2 ^ 30"
definition StoryMsgIds :: int where "StoryMsgIds = ServerMaxStoryId"
definition EndStoryMsgId :: int where "EndStoryMsgId = StartStoryMsgId + StoryMsgIds"
definition ServerMaxMsgId :: int where "ServerMaxMsgId = 2 ^ 56"
definition ScheduledMaxMsgId :: int where "ScheduledMaxMsgId = ServerMaxMsgId + 2 ^ 32"
definition ShortcutMaxMsgId :: int where "ShortcutMaxMsgId = ScheduledMaxMsgId + 2 ^ 32"
definition ShowAtUnreadMsgId :: int where "ShowAtUnreadMsgId = 0"
definition SpecialMsgIdShift :: int where "SpecialMsgIdShift = EndStoryMsgId"
definition ShowAtTheEndMsgId :: int where "ShowAtTheEndMsgId = SpecialMsgIdShift + 1"
definition SwitchAtTopMsgId :: int where "SwitchAtTopMsgId = SpecialMsgIdShift + 2"
definition ShowAndStartBotMsgId :: int where "ShowAndStartBotMsgId = SpecialMsgIdShift + 4"
definition ShowAndMaybeStartBotMsgId :: int where "ShowAndMaybeStartBotMsgId = SpecialMsgIdShift + 5"
definition ShowForChooseMessagesMsgId :: int where "ShowForChooseMessagesMsgId = SpecialMsgIdShift + 6"

definition IsClientMsgId :: "int \<Rightarrow> bool" where
  "IsClientMsgId m \<longleftrightarrow> StartClientMsgId \<le> m \<and> m < EndClientMsgId"

text \<open>The functions with an \<^verbatim>\<open>Expects\<close> return \<open>None\<close> where it fails.\<close>

definition ClientMsgIndex :: "int \<Rightarrow> int option" where
  "ClientMsgIndex m = (if IsClientMsgId m then Some (i32 (m - StartClientMsgId)) else None)"

definition ClientMsgByIndex :: "int \<Rightarrow> int option" where
  "ClientMsgByIndex index = (if 0 \<le> index then Some (StartClientMsgId + index) else None)"

definition IsStoryMsgId :: "int \<Rightarrow> bool" where
  "IsStoryMsgId m \<longleftrightarrow> StartStoryMsgId \<le> m \<and> m < EndStoryMsgId"

definition StoryIdFromMsgId :: "int \<Rightarrow> int option" where
  "StoryIdFromMsgId m = (if IsStoryMsgId m then Some (i32 (m - StartStoryMsgId)) else None)"

definition StoryIdToMsgId :: "int \<Rightarrow> int option" where
  "StoryIdToMsgId story = (if 0 \<le> story then Some (StartStoryMsgId + story) else None)"

definition IsServerMsgId :: "int \<Rightarrow> bool" where
  "IsServerMsgId m \<longleftrightarrow> 0 < m \<and> m < ServerMaxMsgId"

lemmas msg_id_consts = StartClientMsgId_def ClientMsgIds_def EndClientMsgId_def StartStoryMsgId_def
  ServerMaxStoryId_def StoryMsgIds_def EndStoryMsgId_def ServerMaxMsgId_def ScheduledMaxMsgId_def
  ShortcutMaxMsgId_def ShowAtUnreadMsgId_def SpecialMsgIdShift_def ShowAtTheEndMsgId_def
  SwitchAtTopMsgId_def ShowAndStartBotMsgId_def ShowAndMaybeStartBotMsgId_def
  ShowForChooseMessagesMsgId_def

section \<open>Peer ids\<close>

type_synonym peer_id = "64 word"

definition kReservedBit :: "64 word" where "kReservedBit = 0x80"
definition kChatTypeMask :: "64 word" where "kChatTypeMask = 0xFFFFFFFFFFFF"

definition user_shift :: "64 word" where "user_shift = 0"
definition chat_shift :: "64 word" where "chat_shift = 1"
definition channel_shift :: "64 word" where "channel_shift = 2"
definition fake_chat_shift :: "64 word" where "fake_chat_shift = 0x7F"

definition peer_of :: "64 word \<Rightarrow> 64 word \<Rightarrow> peer_id" where
  "peer_of shift bare = bare OR push_bit 48 shift"

definition peer_is :: "64 word \<Rightarrow> peer_id \<Rightarrow> bool" where
  "peer_is shift value \<longleftrightarrow> drop_bit 48 value AND 0xFF = shift"

definition peer_to :: "64 word \<Rightarrow> peer_id \<Rightarrow> 64 word" where
  "peer_to shift value = (if peer_is shift value then value AND kChatTypeMask else 0)"

datatype mtp_peer = PeerUser "64 word" | PeerChat "64 word" | PeerChannel "64 word"

definition peerToBareMTPInt :: "peer_id \<Rightarrow> 64 word" where
  "peerToBareMTPInt value = value AND kChatTypeMask"

definition peerFromMTP :: "mtp_peer \<Rightarrow> peer_id" where
  "peerFromMTP peer = (case peer of
     PeerUser v \<Rightarrow> peer_of user_shift v
   | PeerChat v \<Rightarrow> peer_of chat_shift v
   | PeerChannel v \<Rightarrow> peer_of channel_shift v)"

definition peerToMTP :: "peer_id \<Rightarrow> mtp_peer" where
  "peerToMTP value =
     (if peer_is user_shift value then PeerUser (peerToBareMTPInt value)
      else if peer_is chat_shift value then PeerChat (peerToBareMTPInt value)
      else if peer_is channel_shift value then PeerChannel (peerToBareMTPInt value)
      else PeerUser 0)"

definition reserved_flag :: "64 word" where
  "reserved_flag = push_bit 48 kReservedBit"

definition DeserializePeerId :: "64 word \<Rightarrow> peer_id" where
  "DeserializePeerId serialized =
     (if serialized AND reserved_flag \<noteq> 0 then serialized AND NOT reserved_flag
      else let bare = serialized AND 0xFFFFFFFF; kind = serialized AND 0xF00000000 in
        if kind = 0 then peer_of user_shift bare
        else if kind = 0x100000000 then peer_of chat_shift bare
        else if kind = 0x200000000 then peer_of channel_shift bare
        else if kind = 0xF00000000 then peer_of fake_chat_shift bare
        else 0)"

definition SerializePeerId :: "peer_id \<Rightarrow> 64 word option" where
  "SerializePeerId value =
     (if value AND reserved_flag \<noteq> 0 then None else Some (value OR reserved_flag))"

section \<open>Orders\<close>

datatype full_msg_id = FullMsgId (fm_peer: int) (fm_msg: int)

instantiation full_msg_id :: linorder
begin

definition less_eq_full_msg_id :: "full_msg_id \<Rightarrow> full_msg_id \<Rightarrow> bool" where
  "less_eq_full_msg_id a b \<longleftrightarrow> fm_peer a < fm_peer b \<or> (fm_peer a = fm_peer b \<and> fm_msg a \<le> fm_msg b)"

definition less_full_msg_id :: "full_msg_id \<Rightarrow> full_msg_id \<Rightarrow> bool" where
  "less_full_msg_id a b \<longleftrightarrow> fm_peer a < fm_peer b \<or> (fm_peer a = fm_peer b \<and> fm_msg a < fm_msg b)"

instance
  by standard (auto simp: less_eq_full_msg_id_def less_full_msg_id_def full_msg_id.expand)

end

datatype message_position = MessagePosition (mp_full: full_msg_id) (mp_date: int)

instantiation message_position :: linorder
begin

definition less_message_position :: "message_position \<Rightarrow> message_position \<Rightarrow> bool" where
  "less_message_position a b \<longleftrightarrow>
     (if mp_date a < mp_date b then True
      else if mp_date b < mp_date a then False
      else mp_full a < mp_full b)"

definition less_eq_message_position :: "message_position \<Rightarrow> message_position \<Rightarrow> bool" where
  "less_eq_message_position a b \<longleftrightarrow> \<not> b < (a :: message_position)"

instance
proof
  fix a b c :: message_position
  show "(a < b) = (a \<le> b \<and> \<not> b \<le> a)"
    by (auto simp: less_eq_message_position_def less_message_position_def)
  show "a \<le> a"
    by (simp add: less_eq_message_position_def less_message_position_def)
  show "a \<le> b \<Longrightarrow> b \<le> c \<Longrightarrow> a \<le> c"
    by (auto simp: less_eq_message_position_def less_message_position_def split: if_splits)
  show "a \<le> b \<Longrightarrow> b \<le> a \<Longrightarrow> a = b"
    by (auto simp: less_eq_message_position_def less_message_position_def message_position.expand
        split: if_splits)
  show "a \<le> b \<or> b \<le> a"
    by (auto simp: less_eq_message_position_def less_message_position_def)
qed

end

section \<open>Lemmas on peer ids\<close>

lemma peer_bits: "(v :: 64 word) < 2 ^ 48 \<Longrightarrow> bit v n \<Longrightarrow> n < 48"
proof -
  assume "v < 2 ^ 48" and b: "bit v n"
  then have "take_bit 48 v = v"
    by (simp add: word_less_nat_alt take_bit_eq_mod mod_word_less)
  with b show "n < 48" by (metis bit_take_bit_iff)
qed

lemma byte_bits: "(v :: 64 word) < 2 ^ 8 \<Longrightarrow> bit v n \<Longrightarrow> n < 8"
proof -
  assume "v < 2 ^ 8" and b: "bit v n"
  then have "take_bit 8 v = v"
    by (simp add: word_less_nat_alt take_bit_eq_mod mod_word_less)
  with b show "n < 8" by (metis bit_take_bit_iff)
qed

lemma mask_consts: "(0xFF :: 64 word) = mask 8" "kChatTypeMask = mask 48"
  by (simp_all add: mask_eq_exp_minus_1 kChatTypeMask_def)

lemma bit_reserved_flag: "bit reserved_flag n \<longleftrightarrow> n = 55"
proof -
  have "reserved_flag = push_bit 55 1" by (simp add: reserved_flag_def kReservedBit_def)
  then show ?thesis unfolding \<open>reserved_flag = push_bit 55 1\<close> bit_push_bit_iff bit_1_iff by auto
qed

lemma peer_is_of: "bare < 2 ^ 48 \<Longrightarrow> shift < 2 ^ 8 \<Longrightarrow> peer_is s (peer_of shift bare) \<longleftrightarrow> s = shift"
proof -
  assume b: "bare < 2 ^ 48" and s: "shift < 2 ^ 8"
  have "drop_bit 48 (peer_of shift bare) AND 0xFF = shift"
    unfolding peer_of_def mask_consts
    by (rule bit_word_eqI) (auto simp: bit_simps dest: peer_bits [OF b] byte_bits [OF s])
  then show ?thesis by (auto simp: peer_is_def)
qed

lemma peer_bare_of: "bare < 2 ^ 48 \<Longrightarrow> peer_of shift bare AND kChatTypeMask = bare"
proof -
  assume b: "bare < 2 ^ 48"
  show ?thesis
    unfolding peer_of_def mask_consts
    by (rule bit_word_eqI) (use peer_bits [OF b] in \<open>auto simp: bit_simps\<close>)
qed

lemma reserved_of: "bare < 2 ^ 48 \<Longrightarrow> shift < 2 ^ 7 \<Longrightarrow> peer_of shift bare AND reserved_flag = 0"
proof -
  assume b: "bare < 2 ^ 48" and s: "(shift :: 64 word) < 2 ^ 7"
  have "take_bit 7 shift = shift"
    using s by (simp add: word_less_nat_alt take_bit_eq_mod mod_word_less)
  then have low: "bit shift n \<Longrightarrow> n < 7" for n by (metis bit_take_bit_iff)
  show ?thesis
    unfolding peer_of_def
    by (rule bit_word_eqI) (auto simp: bit_simps bit_reserved_flag dest!: peer_bits [OF b] low)
qed

lemma deserialize_serialize:
  "value AND reserved_flag = 0 \<Longrightarrow> DeserializePeerId (value OR reserved_flag) = value"
proof -
  assume r: "value AND reserved_flag = 0"
  have no: "\<not> bit value 55"
    using r bit_and_iff [of "value" reserved_flag 55] by (simp add: bit_reserved_flag)
  have "bit ((value OR reserved_flag) AND reserved_flag) 55"
    by (simp add: bit_simps bit_reserved_flag)
  then have "(value OR reserved_flag) AND reserved_flag \<noteq> 0" by auto
  moreover have "(value OR reserved_flag) AND NOT reserved_flag = value"
    by (rule bit_word_eqI) (use no in \<open>auto simp: bit_simps bit_reserved_flag\<close>)
  ultimately show ?thesis by (simp add: DeserializePeerId_def)
qed

section \<open>Properties\<close>

text \<open>Ids of messages being sent, ids that stand for stories and ids from the server are
  three disjoint classes, none of which contains the special ids, and indices of client messages
  and of stories are recovered from their ids.\<close>

theorem msg_id_classes_disjoint:
  "\<not> (IsClientMsgId m \<and> IsStoryMsgId m) \<and> \<not> (IsClientMsgId m \<and> IsServerMsgId m)
    \<and> \<not> (IsStoryMsgId m \<and> IsServerMsgId m)
    \<and> (m \<in> {ShowAtUnreadMsgId, ShowAtTheEndMsgId, SwitchAtTopMsgId, ShowAndStartBotMsgId,
          ShowAndMaybeStartBotMsgId, ShowForChooseMessagesMsgId}
        \<longrightarrow> \<not> IsClientMsgId m \<and> \<not> IsStoryMsgId m \<and> \<not> IsServerMsgId m)
    \<and> (0 \<le> i \<and> i < 2 ^ 31 \<longrightarrow> Option.bind (ClientMsgByIndex i) ClientMsgIndex = Some i)
    \<and> (0 \<le> i \<and> i < ServerMaxStoryId \<longrightarrow> Option.bind (StoryIdToMsgId i) StoryIdFromMsgId = Some i)"
  by (auto simp: msg_id_consts IsClientMsgId_def IsStoryMsgId_def IsServerMsgId_def
      ClientMsgByIndex_def ClientMsgIndex_def StoryIdToMsgId_def StoryIdFromMsgId_def)

lemma msg_id_classes_disjoint_witness:
  "Option.bind (StoryIdToMsgId 7) StoryIdFromMsgId = Some 7 \<and> \<not> IsServerMsgId SwitchAtTopMsgId"
  using msg_id_classes_disjoint [of SwitchAtTopMsgId 7] by (simp add: ServerMaxStoryId_def)

text \<open>C30: a peer id made of a bare id below \<^verbatim>\<open>2^48\<close> and a type below
  \<^verbatim>\<open>0x80\<close> is of that type only, gives back its bare id, and survives serialization; and
  users, chats and channels survive the conversion to the TL type and back.\<close>

theorem peer_id_round_trip:
  assumes "bare < 2 ^ 48" "shift < 2 ^ 7"
  shows "(peer_is s (peer_of shift bare) \<longleftrightarrow> s = shift) \<and> peer_to shift (peer_of shift bare) = bare
    \<and> map_option DeserializePeerId (SerializePeerId (peer_of shift bare)) = Some (peer_of shift bare)
    \<and> (shift \<in> {user_shift, chat_shift, channel_shift} \<longrightarrow>
        peerFromMTP (peerToMTP (peer_of shift bare)) = peer_of shift bare)"
proof -
  have "shift < 2 ^ 8" using assms(2) by (auto simp: word_less_nat_alt)
  note is_iff = peer_is_of [OF assms(1) this] and bare = peer_bare_of [OF assms(1), of shift]
  have "map_option DeserializePeerId (SerializePeerId (peer_of shift bare)) = Some (peer_of shift bare)"
    using reserved_of [OF assms] by (simp add: SerializePeerId_def deserialize_serialize)
  moreover have "peerFromMTP (peerToMTP (peer_of shift bare)) = peer_of shift bare"
    if "shift \<in> {user_shift, chat_shift, channel_shift}"
  proof -
    have distinct: "user_shift \<noteq> chat_shift" "user_shift \<noteq> channel_shift" "chat_shift \<noteq> channel_shift"
      by (simp_all add: user_shift_def chat_shift_def channel_shift_def)
    from that consider "shift = user_shift" | "shift = chat_shift" | "shift = channel_shift"
      by blast
    then show ?thesis
      using is_iff bare distinct
      by cases (simp_all add: peerFromMTP_def peerToMTP_def peerToBareMTPInt_def)
  qed
  ultimately show ?thesis using is_iff bare by (simp add: peer_to_def)
qed

lemma peer_id_round_trip_witness:
  "peer_to channel_shift (peer_of channel_shift 12345) = 12345
    \<and> \<not> peer_is user_shift (peer_of channel_shift 12345)"
  using peer_id_round_trip [of 12345 channel_shift user_shift]
  by (simp add: channel_shift_def user_shift_def)

end
