(* ===== verification/SparseIdsList.thy ===== *)
theory SparseIdsList imports Slices MsgIds begin

text \<open>
  \<^verbatim>\<open>storage/storage_sparse_ids_list\<close>: what is known of the ids of a shared media type,
  a \<^verbatim>\<open>flat_set\<close> of slices and an optional count. A \<^verbatim>\<open>MsgId\<close> is an
  \<^typ>\<open>int\<close>. An operation that fires \<^verbatim>\<open>_sliceUpdated\<close> returns the update.
  The vector of slices is in \<open>Slices\<close>.
\<close>

section \<open>State and operations\<close>

record sparse_list =
  sp_count :: "int option"
  sp_slices :: "int slice list"

definition slice_size :: "int slice \<Rightarrow> int" where
  "slice_size s = int (length (sl_messages s))"

text \<open>The position of the slice the update points at, if it is set.\<close>

definition add_range_items :: "int slice list \<Rightarrow> int list \<Rightarrow> int \<Rightarrow> int
    \<Rightarrow> int slice list \<times> nat option \<times> int" where
  "add_range_items xs messages from till =
     (if from = till \<and> messages = [] then (xs, None, 0)
      else let (ys, at, added) = add_at xs messages from till in (ys, Some at, added))"

definition make_full :: "int slice \<Rightarrow> int slice" where
  "make_full s = s\<lparr> sl_from := 0, sl_till := ServerMaxMsgId \<rparr>"

text \<open>The count after a range was added: given, incremented, or left.\<close>

definition next_count :: "int option \<Rightarrow> bool \<Rightarrow> int \<Rightarrow> int option \<Rightarrow> int option" where
  "next_count count' incrementCount added old =
     (case count' of
        Some c \<Rightarrow> Some c
      | None \<Rightarrow>
          (case old of
             Some c \<Rightarrow> if incrementCount \<and> 0 < added then Some (c + added) else Some c
           | None \<Rightarrow> None))"

text \<open>A single slice that holds as many messages as the count is everything. The comparison is
  of a \<^verbatim>\<open>size_t\<close> with an \<^verbatim>\<open>int\<close>, which a negative count never passes.\<close>

definition settle_single :: "int slice list \<Rightarrow> int option \<Rightarrow> int slice list \<times> int option" where
  "settle_single xs cnt =
     (if length xs = 1 then
        let xs = (case cnt of
                    Some c \<Rightarrow> if 0 \<le> c \<and> c \<le> slice_size (hd xs)
                      then fs_modify slice_less xs 0 make_full else xs
                  | None \<Rightarrow> xs) in
        (xs, if sl_from (hd xs) = 0 \<and> sl_till (hd xs) = ServerMaxMsgId
             then Some (slice_size (hd xs)) else cnt)
      else (xs, cnt))"

definition add_range :: "int list \<Rightarrow> int \<Rightarrow> int \<Rightarrow> int option \<Rightarrow> bool \<Rightarrow> sparse_list
    \<Rightarrow> sparse_list \<times> int slice_update" where
  "add_range messages from till count' incrementCount st =
     (let (xs, at, added) = add_range_items (sp_slices st) messages from till;
          update = (case at of
              None \<Rightarrow> \<lparr>su_messages = None, su_from = 0, su_till = 0, su_count = None\<rparr>
            | Some i \<Rightarrow> \<lparr>su_messages = Some (sl_messages (xs ! i)), su_from = sl_from (xs ! i),
                su_till = sl_till (xs ! i), su_count = None\<rparr>);
          cnt = next_count count' incrementCount added (sp_count st);
          (xs, cnt) = settle_single xs cnt;
          cnt = (case (cnt, su_messages update) of
              (Some c, Some ms) \<Rightarrow> Some (max c (int (length ms)))
            | _ \<Rightarrow> cnt) in
      (\<lparr>sp_count = cnt, sp_slices = xs\<rparr>, update\<lparr>su_count := cnt\<rparr>))"

definition add_new :: "int \<Rightarrow> sparse_list \<Rightarrow> sparse_list \<times> int slice_update" where
  "add_new messageId st = add_range [messageId] messageId ServerMaxMsgId None True st"

definition add_existing :: "int \<Rightarrow> int \<Rightarrow> int \<Rightarrow> sparse_list \<Rightarrow> sparse_list \<times> int slice_update" where
  "add_existing messageId from till st = add_range [messageId] from till None False st"

definition add_slice :: "int list \<Rightarrow> int \<Rightarrow> int \<Rightarrow> int option \<Rightarrow> sparse_list \<Rightarrow> sparse_list \<times> int slice_update" where
  "add_slice messageIds from till count' st = add_range messageIds from till count' False st"

definition remove_one :: "int \<Rightarrow> sparse_list \<Rightarrow> sparse_list" where
  "remove_one messageId st = st\<lparr> sp_slices := remove_at (sp_slices st) messageId,
     sp_count := (case sp_count st of Some c \<Rightarrow> Some (c - 1) | None \<Rightarrow> None) \<rparr>"

definition remove_all :: "sparse_list \<Rightarrow> sparse_list" where
  "remove_all st = \<lparr> sp_count = Some 0,
     sp_slices = fst (fs_insert slice_less []
       \<lparr>sl_messages = [], sl_from = 0, sl_till = ServerMaxMsgId\<rparr>) \<rparr>"

definition invalidate_bottom :: "sparse_list \<Rightarrow> sparse_list" where
  "invalidate_bottom st =
     \<lparr> sp_count = None, sp_slices = invalidate_last ServerMaxMsgId (sp_slices st) \<rparr>"

definition sparse_snapshot :: "int \<Rightarrow> int \<Rightarrow> int \<Rightarrow> sparse_list \<Rightarrow> int list_result" where
  "sparse_snapshot aroundId limitBefore limitAfter st =
     (let xs = sp_slices st;
          i = (if aroundId \<noteq> 0 then lower_till xs aroundId else length xs) in
      if i \<noteq> length xs \<and> sl_from (xs ! i) \<le> aroundId
      then query_from_slice 0 ServerMaxMsgId (sp_count st) aroundId limitBefore limitAfter (xs ! i)
      else case sp_count st of
             Some c \<Rightarrow> empty_result\<lparr> lr_count := Some c \<rparr>
           | None \<Rightarrow> empty_result)"

text \<open>\<^verbatim>\<open>query\<close>: the snapshot, when it says anything.\<close>

definition sparse_query :: "int \<Rightarrow> int \<Rightarrow> int \<Rightarrow> sparse_list \<Rightarrow> int list_result list" where
  "sparse_query aroundId limitBefore limitAfter st =
     (let now = sparse_snapshot aroundId limitBefore limitAfter st in
      if lr_ids now \<noteq> [] \<or> lr_count now \<noteq> None then [now] else [])"

definition sparse_empty :: "sparse_list \<Rightarrow> bool" where
  "sparse_empty st \<longleftrightarrow> (\<forall>s\<in>set (sp_slices st). sl_messages s = [])"

section \<open>Correctness\<close>

definition sparse_inv :: "sparse_list \<Rightarrow> bool" where
  "sparse_inv st \<longleftrightarrow> slices_inv (sp_slices st) \<and> slices_covered (sp_slices st) \<subseteq> {0..ServerMaxMsgId}"

abbreviation known :: "sparse_list \<Rightarrow> int set" where
  "known st \<equiv> slices_messages (sp_slices st)"

abbreviation covered :: "sparse_list \<Rightarrow> int set" where
  "covered st \<equiv> slices_covered (sp_slices st)"

lemma settle_single_refines:
  assumes "slices_inv xs" "slices_covered xs \<subseteq> {0..ServerMaxMsgId}"
  shows "slices_inv (fst (settle_single xs c)) \<and> slices_messages (fst (settle_single xs c)) = slices_messages xs
    \<and> slices_covered xs \<subseteq> slices_covered (fst (settle_single xs c))
    \<and> slices_covered (fst (settle_single xs c)) \<subseteq> {0..ServerMaxMsgId}"
proof (cases "\<exists>s. xs = [s]")
  case True
  then obtain s where xs: "xs = [s]" by blast
  have "fs_modify slice_less [s] 0 make_full = [make_full s]"
    using by_from.fs_modify_in_place [of 0 "[s]" make_full] by (simp add: fs_inv_def)
  moreover have "slice_ok s" "sl_from s \<le> sl_till s" "{sl_from s..sl_till s} \<subseteq> {0..ServerMaxMsgId}"
    using assms by (auto simp: xs slices_inv_Cons slice_ok_def)
  moreover have "slices_inv [make_full s]" if "slice_ok s" "{sl_from s..sl_till s} \<subseteq> {0..ServerMaxMsgId}"
    using that by (auto simp: slices_inv_Cons slice_ok_def make_full_def ServerMaxMsgId_def)
  ultimately show ?thesis
    using assms by (auto simp: settle_single_def xs make_full_def Let_def split: option.splits)
next
  case False
  then have "length xs \<noteq> 1" by (simp add: length_Suc_conv)
  then show ?thesis using assms by (auto simp: settle_single_def)
qed

lemma add_range_slices:
  "sp_slices (fst (add_range messages from till count' inc st)) =
    (let (xs, at, added) = add_range_items (sp_slices st) messages from till in
     fst (settle_single xs (next_count count' inc added (sp_count st))))"
  by (simp add: add_range_def Let_def split: prod.splits)

lemma add_range_refines:
  fixes count' :: "int option" and inc :: bool
  assumes inv: "sparse_inv st" and "0 \<le> from" "from \<le> till" "till \<le> ServerMaxMsgId"
    and sub: "set messages \<subseteq> {from..till}" and new: "from \<noteq> till \<or> messages \<noteq> []"
  defines "st' \<equiv> fst (add_range messages from till count' inc st)"
  shows "sparse_inv st' \<and> known st' = known st \<union> set messages
    \<and> covered st \<union> {from..till} \<subseteq> covered st'"
proof -
  obtain ys at n where add: "add_at (sp_slices st) messages from till = (ys, at, n)" "slices_inv ys"
    "slices_messages ys = slices_messages (sp_slices st) \<union> set messages"
    "slices_covered ys = slices_covered (sp_slices st) \<union> {from..till}"
    using add_at_refines [of "sp_slices st" "from" till messages] assms by (auto simp: sparse_inv_def)
  have "slices_covered ys \<subseteq> {0..ServerMaxMsgId}"
    using add(4) assms by (auto simp: sparse_inv_def)
  from settle_single_refines [OF add(2) this] add new show ?thesis
    unfolding st'_def sparse_inv_def add_range_slices add_range_items_def by auto
qed

lemma add_range_known:
  assumes "sparse_inv st" "0 \<le> from" "from \<le> till" "till \<le> ServerMaxMsgId" "set messages \<subseteq> {from..till}"
  shows "sparse_inv (fst (add_range messages from till count' inc st))
    \<and> known (fst (add_range messages from till count' inc st)) = known st \<union> set messages
    \<and> covered st \<subseteq> covered (fst (add_range messages from till count' inc st))"
proof (cases "from = till \<and> messages = []")
  case True
  then show ?thesis
    using settle_single_refines [of "sp_slices st" "next_count count' inc 0 (sp_count st)"] assms(1)
    by (simp add: sparse_inv_def add_range_slices add_range_items_def)
next
  case False
  then show ?thesis
    using add_range_refines [OF assms(1-5), of count' inc] by blast
qed

lemma remove_one_refines: "sparse_inv st \<Longrightarrow> sparse_inv (remove_one m st)
    \<and> known (remove_one m st) = known st - {m} \<and> covered (remove_one m st) = covered st"
  using remove_at_refines [of "sp_slices st" m] by (simp add: sparse_inv_def remove_one_def)

lemma remove_all_refines: "sparse_inv (remove_all st) \<and> known (remove_all st) = {}
    \<and> covered (remove_all st) = {0..ServerMaxMsgId}"
  by (simp add: sparse_inv_def remove_all_def fs_insert_def slices_inv_Cons slice_ok_def fs_inv_def
      ServerMaxMsgId_def)

lemma invalidate_bottom_refines: "sparse_inv st \<Longrightarrow> sparse_inv (invalidate_bottom st)
    \<and> known (invalidate_bottom st) = known st \<and> covered (invalidate_bottom st) \<subseteq> covered st"
  using invalidate_last_refines [of "sp_slices st" ServerMaxMsgId]
  by (auto simp: sparse_inv_def invalidate_bottom_def)

section \<open>The list as a set of ids\<close>

datatype sparse_op =
    AddNew int
  | AddExisting int int int
  | AddSlice "int list" int int "int option"
  | RemoveOne int
  | RemoveAll
  | InvalidateBottom

fun sparse_step :: "sparse_op \<Rightarrow> sparse_list \<Rightarrow> sparse_list" where
  "sparse_step (AddNew m) st = fst (add_new m st)"
| "sparse_step (AddExisting m from till) st = fst (add_existing m from till st)"
| "sparse_step (AddSlice ms from till c) st = fst (add_slice ms from till c st)"
| "sparse_step (RemoveOne m) st = remove_one m st"
| "sparse_step RemoveAll st = remove_all st"
| "sparse_step InvalidateBottom st = invalidate_bottom st"

text \<open>The caller's part: a range is one of ids and holds the messages that come with it.\<close>

fun sparse_op_ok :: "sparse_op \<Rightarrow> bool" where
  "sparse_op_ok (AddNew m) \<longleftrightarrow> 0 \<le> m \<and> m \<le> ServerMaxMsgId"
| "sparse_op_ok (AddExisting m from till) \<longleftrightarrow> 0 \<le> from \<and> from \<le> m \<and> m \<le> till \<and> till \<le> ServerMaxMsgId"
| "sparse_op_ok (AddSlice ms from till c) \<longleftrightarrow> 0 \<le> from \<and> from \<le> till \<and> till \<le> ServerMaxMsgId
     \<and> list_all (\<lambda>m. from \<le> m \<and> m \<le> till) ms"
| "sparse_op_ok _ \<longleftrightarrow> True"

fun spec_step :: "sparse_op \<Rightarrow> int set \<Rightarrow> int set" where
  "spec_step (AddNew m) M = insert m M"
| "spec_step (AddExisting m from till) M = insert m M"
| "spec_step (AddSlice ms from till c) M = M \<union> set ms"
| "spec_step (RemoveOne m) M = M - {m}"
| "spec_step RemoveAll M = {}"
| "spec_step InvalidateBottom M = M"

definition sparse_new :: sparse_list where
  "sparse_new = \<lparr>sp_count = None, sp_slices = []\<rparr>"

lemma sparse_step_refines:
  assumes "sparse_inv st" "sparse_op_ok op"
  shows "sparse_inv (sparse_step op st) \<and> known (sparse_step op st) = spec_step op (known st)"
proof (cases op)
  case (AddNew m)
  then show ?thesis using assms add_range_known [of st m ServerMaxMsgId "[m]" None True]
    by (simp add: add_new_def)
next
  case (AddExisting m a b)
  then show ?thesis using assms add_range_known [of st a b "[m]" None False]
    by (simp add: add_existing_def)
next
  case (AddSlice ms a b c)
  then have "set ms \<subseteq> {a..b}" using assms(2) by (auto simp: list_all_iff)
  then show ?thesis using AddSlice assms add_range_known [of st a b ms c False]
    by (simp add: add_slice_def)
qed (use assms remove_one_refines remove_all_refines invalidate_bottom_refines in simp_all)

interpretation sparse_ref: refinement sparse_inv "\<lambda>st. slices_messages (sp_slices st)" sparse_step
  spec_step sparse_op_ok
  by unfold_locales (simp_all add: sparse_step_refines)

lemma snapshot_window:
  assumes "sparse_inv st" "around \<noteq> 0" "0 \<le> before" "0 \<le> after"
  shows "(around \<in> covered st \<longrightarrow>
      (\<exists>s\<in>set (sp_slices st). around \<in> {sl_from s..sl_till s}
        \<and> set (sl_messages s) = known st \<inter> {sl_from s..sl_till s}
        \<and> lr_ids (sparse_snapshot around before after st) =
            id_window around (nat before) (Suc (nat after)) (sl_messages s)))
    \<and> (around \<notin> covered st \<longrightarrow>
      sparse_snapshot around before after st = empty_result\<lparr> lr_count := sp_count st \<rparr>)"
proof -
  let ?xs = "sp_slices st"
  have inv: "slices_inv ?xs" using assms(1) by (simp add: sparse_inv_def)
  have guard: "(lower_till ?xs around \<noteq> length ?xs \<and> sl_from (?xs ! lower_till ?xs around) \<le> around)
      = in_slice ?xs around"
    using length_takeWhile_le [of _ ?xs] by (auto simp: in_slice_def lower_till_def le_less)
  consider as m bs where "?xs = as @ m # bs" "lower_till ?xs around = length as" "in_slice ?xs around"
      "around \<in> {sl_from m..sl_till m}"
    | "around \<notin> covered st" "\<not> in_slice ?xs around"
    using slice_lookup [OF inv, of around] by blast
  then show ?thesis
  proof cases
    case (1 as m bs)
    then have m: "m \<in> set ?xs" "?xs ! length as = m" "slice_ok m" "around \<in> covered st"
      using inv by (auto simp: slices_inv_append slices_inv_Cons)
    have "lr_ids (sparse_snapshot around before after st) =
        id_window around (nat before) (Suc (nat after)) (sl_messages m)"
      using guard 1(2,3) m(2,3) assms(2-4)
      by (simp add: sparse_snapshot_def Let_def query_from_slice_ids slice_ok_def)
    then show ?thesis
      using m 1(4) slices_messages_in [OF inv m(1)] by blast
  next
    case 2
    then show ?thesis
      using guard assms(2) by (auto simp: sparse_snapshot_def Let_def empty_result_def split: option.splits)
  qed
qed

section \<open>Properties\<close>

text \<open>C12: whatever sequence of calls the list has seen since it was created, its slices stay
  sorted, disjoint and full of messages of their own range, and the messages they hold together
  are exactly those that were added and not removed: uniting, splitting off and shrinking slices
  never loses or invents an id.\<close>

theorem sparse_list_refines_set:
  assumes "list_all sparse_op_ok ops"
  shows "sparse_inv (fold sparse_step ops sparse_new)
    \<and> known (fold sparse_step ops sparse_new) = fold spec_step ops {}"
  using sparse_ref.run_refines [OF _ assms, of sparse_new]
  by (simp add: sparse_inv_def sparse_new_def)

lemma sparse_list_refines_set_witness:
  "known (fold sparse_step [AddSlice [10, 20] 5 30 None, AddSlice [50] 40 60 None,
      AddExisting 35 30 45, RemoveOne 20] sparse_new) = {35, 50, 10}"
  using sparse_list_refines_set [of "[AddSlice [10, 20] 5 30 None, AddSlice [50] 40 60 None,
      AddExisting 35 30 45, RemoveOne 20]"]
  by (simp add: ServerMaxMsgId_def insert_Diff_if)

text \<open>Adding a range adds its messages, makes the whole range covered, keeps what was
  covered, and the update that is fired carries a set of known messages and a covered range that
  contains the added one.\<close>

theorem sparse_add_range_update:
  assumes "sparse_inv st" "0 \<le> from" "from \<le> till" "till \<le> ServerMaxMsgId"
    "list_all (\<lambda>m. from \<le> m \<and> m \<le> till) messages" "from < till"
  shows "covered st \<union> {from..till} \<subseteq> covered (fst (add_range messages from till c inc st))
    \<and> su_from (snd (add_range messages from till c inc st)) \<le> from
    \<and> till \<le> su_till (snd (add_range messages from till c inc st))
    \<and> (\<exists>ms. su_messages (snd (add_range messages from till c inc st)) = Some ms
        \<and> set messages \<subseteq> set ms \<and> set ms \<subseteq> known (fst (add_range messages from till c inc st))
        \<and> (\<forall>n. su_count (snd (add_range messages from till c inc st)) = Some n \<longrightarrow> int (length ms) \<le> n))"
proof -
  have sub: "set messages \<subseteq> {from..till}" using assms(5) by (auto simp: list_all_iff)
  obtain ys at n where add: "add_at (sp_slices st) messages from till = (ys, at, n)" "at < length ys"
    "slices_messages ys = known st \<union> set messages" "set messages \<subseteq> set (sl_messages (ys ! at))"
    "{from..till} \<subseteq> {sl_from (ys ! at)..sl_till (ys ! at)}"
    using add_at_refines [of "sp_slices st" "from" till messages] assms(1,3) sub by (auto simp: sparse_inv_def)
  have known: "set (sl_messages (ys ! at)) \<subseteq> known st \<union> set messages"
    using nth_mem [OF add(2)] add(3) by (auto simp: slices_messages_def)
  have ends: "sl_from (ys ! at) \<le> from" "till \<le> sl_till (ys ! at)"
    using add(5) assms(3) by auto
  have upd: "su_messages (snd (add_range messages from till c inc st)) = Some (sl_messages (ys ! at))"
    "su_from (snd (add_range messages from till c inc st)) = sl_from (ys ! at)"
    "su_till (snd (add_range messages from till c inc st)) = sl_till (ys ! at)"
    "\<forall>n. su_count (snd (add_range messages from till c inc st)) = Some n \<longrightarrow>
      int (length (sl_messages (ys ! at))) \<le> n"
    using assms(6) add(1)
    by (simp_all add: add_range_def add_range_items_def Let_def split: prod.splits option.splits)
  show ?thesis
    using add_range_refines [OF assms(1-4) sub, of c inc] assms(6) upd known ends add(4) by auto
qed

lemma sparse_add_range_update_witness:
  "su_from (snd (add_range [10, 20] 5 30 (Some 9) False sparse_new)) \<le> 5
    \<and> covered sparse_new \<union> {5..30} \<subseteq> covered (fst (add_range [10, 20] 5 30 (Some 9) False sparse_new))"
  using sparse_add_range_update [of sparse_new 5 30 "[10, 20]" "Some 9" False]
  by (simp add: sparse_inv_def sparse_new_def ServerMaxMsgId_def)

text \<open>C24: a query around a covered id returns the window of the messages known in the covered
  range around it: at most \<open>limitBefore\<close> of those below, nearest first to go last, and
  \<open>limitAfter + 1\<close> from the id on, with no known message of the range left out in between;
  around any other id it returns no message, and only the count.\<close>

theorem sparse_snapshot_window:
  assumes "sparse_inv st" "around \<noteq> 0" "0 \<le> before" "0 \<le> after"
  shows "(around \<in> covered st \<longrightarrow>
      (\<exists>s\<in>set (sp_slices st). around \<in> {sl_from s..sl_till s}
        \<and> set (sl_messages s) = known st \<inter> {sl_from s..sl_till s}
        \<and> lr_ids (sparse_snapshot around before after st) =
            id_window around (nat before) (Suc (nat after)) (sl_messages s)))
    \<and> (around \<notin> covered st \<longrightarrow>
      sparse_snapshot around before after st = empty_result\<lparr> lr_count := sp_count st \<rparr>)"
  by (rule snapshot_window [OF assms])

lemma sparse_snapshot_window_witness:
  "lr_ids (sparse_snapshot 15 1 0 \<lparr>sp_count = None, sp_slices =
     [\<lparr>sl_messages = [10, 12, 15, 20], sl_from = 5, sl_till = 30\<rparr>]\<rparr>) = [12, 15]"
  using sparse_snapshot_window [of "\<lparr>sp_count = None, sp_slices =
     [\<lparr>sl_messages = [10, 12, 15, 20], sl_from = 5, sl_till = 30\<rparr>]\<rparr>" 15 1 0]
  by (simp add: sparse_inv_def slices_inv_Cons slice_ok_def fs_inv_def ServerMaxMsgId_def
      id_window_def)

end
