(* ===== verification/SparseSlice.thy ===== *)
theory SparseSlice imports Slices MsgIds SparseIdsList begin

text \<open>
  \<^verbatim>\<open>data/data_abstract_sparse_ids.h\<close> and \<^verbatim>\<open>data/data_sparse_ids\<close>: the part
  of a list of ids that a viewer shows. \<^verbatim>\<open>AbstractSparseIds\<close> is the part itself (ids
  and how many were left out on both sides), \<^verbatim>\<open>SparseIdsSliceBuilder\<close> keeps it up to date
  from the results and updates of \<^verbatim>\<open>SparseIdsList\<close>, and
  \<^verbatim>\<open>SparseIdsMergedSlice\<close> joins the part of a chat with that of the chat it was migrated
  from. An event of \<^verbatim>\<open>_insufficientAround\<close> is an entry of the request log. The viewers
  built with \<^verbatim>\<open>rpl\<close> are not modelled.
\<close>

section \<open>AbstractSparseIds\<close>

record 'a sparse_ids =
  si_ids :: "'a list"
  si_full :: "int option"
  si_before :: "int option"
  si_after :: "int option"

definition ids_index_of :: "'a sparse_ids \<Rightarrow> 'a \<Rightarrow> int option" where
  "ids_index_of s v =
     (let i = find_index (\<lambda>x. x = v) (si_ids s) in if i \<noteq> length (si_ids s) then Some (int i) else None)"

definition ids_size :: "'a sparse_ids \<Rightarrow> int" where
  "ids_size s = int (length (si_ids s))"

text \<open>\<^verbatim>\<open>operator[]\<close>; \<open>None\<close> where \<^verbatim>\<open>Expects\<close> fails.\<close>

definition ids_at :: "'a sparse_ids \<Rightarrow> int \<Rightarrow> 'a option" where
  "ids_at s i = (if 0 \<le> i \<and> i < ids_size s then Some (si_ids s ! nat i) else None)"

definition ids_distance :: "'a sparse_ids \<Rightarrow> 'a \<Rightarrow> 'a \<Rightarrow> int option" where
  "ids_distance s a b =
     (case ids_index_of s a of
        None \<Rightarrow> None
      | Some i \<Rightarrow> (case ids_index_of s b of None \<Rightarrow> None | Some j \<Rightarrow> Some (j - i)))"

definition ids_nearest :: "'a::linorder sparse_ids \<Rightarrow> 'a \<Rightarrow> 'a option" where
  "ids_nearest s v =
     (let it = fms_lower_bound (<) (si_ids s) v in
      if it \<noteq> length (si_ids s) then Some (si_ids s ! it)
      else if si_ids s = [] then None
      else Some (last (si_ids s)))"

definition ids_reverse :: "'a sparse_ids \<Rightarrow> 'a sparse_ids" where
  "ids_reverse s = s\<lparr> si_ids := rev (si_ids s), si_before := si_after s, si_after := si_before s \<rparr>"

section \<open>The builder\<close>

datatype load_direction = Around | Before | After

record 'a slice_builder =
  sb_key :: 'a
  sb_ids :: "'a list"
  sb_full :: "int option"
  sb_before :: "int option"
  sb_after :: "int option"
  sb_limit_before :: int
  sb_limit_after :: int
  sb_requests :: "('a \<times> load_direction) list"

text \<open>What the builder of \<^verbatim>\<open>MsgId\<close>s and that of \<^verbatim>\<open>Data::MessagePosition\<close>s
  (in \<open>Messages\<close>), which repeats the code, differ in: which key is set, the default id, the id
  that stands for none, and the ends of the whole list.\<close>

record 'a id_traits =
  it_set :: "'a \<Rightarrow> bool"
  it_default :: 'a
  it_absent :: 'a
  it_present :: "'a \<Rightarrow> bool"
  it_first :: 'a
  it_last :: 'a

definition sparse_traits :: "int id_traits" where
  "sparse_traits = \<lparr>it_set = (\<lambda>k. k \<noteq> 0), it_default = 0, it_absent = -1, it_present = (\<lambda>k. 0 \<le> k),
     it_first = 0, it_last = ServerMaxMsgId\<rparr>"

type_synonym sparse_builder = "int slice_builder"

definition request_messages :: "load_direction \<Rightarrow> 'a slice_builder \<Rightarrow> 'a slice_builder" where
  "request_messages direction b =
     b\<lparr> sb_requests := sb_requests b @
       [if sb_ids b = [] then (sb_key b, Around)
        else if direction = Before then (hd (sb_ids b), Before)
        else (last (sb_ids b), After)] \<rparr>"

definition request_messages_count :: "'a id_traits \<Rightarrow> 'a slice_builder \<Rightarrow> 'a slice_builder" where
  "request_messages_count t b = b\<lparr> sb_requests := sb_requests b @ [(it_default t, Around)] \<rparr>"

definition slice_to_limits :: "'a::linorder id_traits \<Rightarrow> 'a slice_builder \<Rightarrow> 'a slice_builder" where
  "slice_to_limits t b =
     (if \<not> it_set t (sb_key b) then (if sb_full b = None then request_messages_count t b else b)
      else
        let aroundIt = fms_lower_bound (<) (sb_ids b) (sb_key b);
            removeFromBegin = int aroundIt - sb_limit_before b;
            removeFromEnd = int (length (sb_ids b) - aroundIt) - sb_limit_after b - 1;
            (b, requested) =
              (if 0 < removeFromBegin
               then (b\<lparr> sb_ids := erase_range 0 (nat removeFromBegin) (sb_ids b),
                       sb_before := map_option (\<lambda>s. s + removeFromBegin) (sb_before b) \<rparr>, False)
               else if removeFromBegin < 0 \<and> (case sb_before b of None \<Rightarrow> True | Some s \<Rightarrow> 0 < s)
               then (request_messages Before b, True)
               else (b, False));
            (b, requested) =
              (if 0 < removeFromEnd
               then (b\<lparr> sb_ids := take (length (sb_ids b) - nat removeFromEnd) (sb_ids b),
                       sb_after := map_option (\<lambda>s. s + removeFromEnd) (sb_after b) \<rparr>, requested)
               else if removeFromEnd < 0 \<and> (case sb_after b of None \<Rightarrow> True | Some s \<Rightarrow> 0 < s)
               then (request_messages After b, True)
               else (b, requested)) in
        if sb_full b = None \<and> \<not> requested then request_messages_count t b else b)"

definition fill_skipped :: "'a slice_builder \<Rightarrow> 'a slice_builder" where
  "fill_skipped b =
     (case sb_full b of
        None \<Rightarrow> b
      | Some n \<Rightarrow>
          (case (sb_before b, sb_after b) of
             (Some s, None) \<Rightarrow> b\<lparr> sb_after := Some (n - s - int (length (sb_ids b))) \<rparr>
           | (None, Some s) \<Rightarrow> b\<lparr> sb_before := Some (n - s - int (length (sb_ids b))) \<rparr>
           | _ \<Rightarrow> b))"

definition fill_skipped_and_slice :: "'a::linorder id_traits \<Rightarrow> 'a slice_builder \<Rightarrow> 'a slice_builder" where
  "fill_skipped_and_slice t b = slice_to_limits t (fill_skipped b)"

text \<open>The lambdas of \<^verbatim>\<open>mergeSliceData\<close>: the count skipped before (after) an id, seen from
  the first (last) id now held.\<close>

definition adjust_before :: "'a::linorder list \<Rightarrow> 'a \<Rightarrow> int \<Rightarrow> int option" where
  "adjust_before ids oldId oldSkipped = Some (max (oldSkipped - int (fs_find (<) ids oldId)) 0)"

definition adjust_after :: "'a::linorder list \<Rightarrow> 'a \<Rightarrow> int \<Rightarrow> int option" where
  "adjust_after ids oldId oldSkipped =
     Some (max (oldSkipped - (int (length ids) - int (fs_find (<) ids oldId) - 1)) 0)"

text \<open>No new messages: the count alone. The comparison \<^verbatim>\<open>*_fullCount <= _ids.size()\<close> is
  unsigned, so a negative count does not pass it.\<close>

definition merge_count :: "int option \<Rightarrow> 'a slice_builder \<Rightarrow> 'a slice_builder" where
  "merge_count cnt b =
     (if cnt \<noteq> None \<and> sb_full b \<noteq> cnt then
        let b = b\<lparr> sb_full := cnt \<rparr>; n = the cnt in
        if 0 \<le> n \<and> n \<le> int (length (sb_ids b))
        then b\<lparr> sb_full := Some (int (length (sb_ids b))), sb_before := Some 0, sb_after := Some 0 \<rparr>
        else b
      else b)"

definition merge_slice_data :: "'a::linorder id_traits \<Rightarrow> int option \<Rightarrow> 'a list \<Rightarrow> int option \<Rightarrow> int option
    \<Rightarrow> 'a slice_builder \<Rightarrow> 'a slice_builder" where
  "merge_slice_data t cnt messageIds skippedBefore skippedAfter b =
     (if messageIds = [] then fill_skipped_and_slice t (merge_count cnt b)
      else
        let b = (if cnt \<noteq> None then b\<lparr> sb_full := cnt \<rparr> else b);
            wasMinId = (if sb_ids b = [] then it_absent t else hd (sb_ids b));
            wasMaxId = (if sb_ids b = [] then it_absent t else last (sb_ids b));
            ids = fs_merge (<) (sb_ids b) messageIds;
            before = (case skippedBefore of
                Some s \<Rightarrow> adjust_before ids (hd messageIds) s
              | None \<Rightarrow> (if it_present t wasMinId then
                  (case sb_before b of Some s \<Rightarrow> adjust_before ids wasMinId s | None \<Rightarrow> None) else None));
            after = (case skippedAfter of
                Some s \<Rightarrow> adjust_after ids (last messageIds) s
              | None \<Rightarrow> (if it_present t wasMaxId then
                  (case sb_after b of Some s \<Rightarrow> adjust_after ids wasMaxId s | None \<Rightarrow> None) else None)) in
        fill_skipped_and_slice t (b\<lparr> sb_ids := ids, sb_before := before, sb_after := after \<rparr>))"

definition builder_apply_initial :: "'a::linorder id_traits \<Rightarrow> 'a list_result \<Rightarrow> 'a slice_builder \<Rightarrow> 'a slice_builder" where
  "builder_apply_initial t r b =
     merge_slice_data t (lr_count r) (lr_ids r) (lr_skipped_before r) (lr_skipped_after r) b"

definition ranges_intersect :: "'a::linorder \<Rightarrow> 'a \<Rightarrow> 'a \<Rightarrow> 'a \<Rightarrow> bool" where
  "ranges_intersect from1 till1 from2 till2 \<longleftrightarrow> from1 \<le> till2 \<and> from2 \<le> till1"

definition builder_apply_update :: "'a::linorder id_traits \<Rightarrow> 'a slice_update \<Rightarrow> 'a slice_builder
    \<Rightarrow> bool \<times> 'a slice_builder" where
  "builder_apply_update t u b =
     (let needMerge = (su_messages u \<noteq> None \<and> ranges_intersect (su_from u) (su_till u)
            (if sb_ids b = [] then sb_key b else hd (sb_ids b))
            (if sb_ids b = [] then sb_key b else last (sb_ids b))) in
      if \<not> needMerge \<and> su_count u = None then (False, b)
      else (True, merge_slice_data t (su_count u) (if needMerge then the (su_messages u) else [])
          (if su_from u = it_first t then Some 0 else None) (if su_till u = it_last t then Some 0 else None) b))"

definition dec_positive :: "int option \<Rightarrow> int option \<times> bool" where
  "dec_positive c = (case c of
     Some n \<Rightarrow> if 0 < n then (Some (n - 1), True) else (c, False)
   | None \<Rightarrow> (c, False))"

text \<open>The changes that \<^verbatim>\<open>removeOne\<close> makes, before it checks for missing ids.\<close>

definition builder_forget :: "'a::linorder \<Rightarrow> 'a slice_builder \<Rightarrow> bool \<times> 'a slice_builder" where
  "builder_forget messageId b =
     (let (full, changed) = dec_positive (sb_full b);
          b = b\<lparr> sb_full := full \<rparr> in
      if fms_contains (<) (sb_ids b) messageId
      then (True, b\<lparr> sb_ids := fst (fs_remove (<) (sb_ids b) messageId) \<rparr>)
      else if sb_ids b \<noteq> [] then
        if messageId < hd (sb_ids b) \<and> snd (dec_positive (sb_before b))
        then (True, b\<lparr> sb_before := fst (dec_positive (sb_before b)) \<rparr>)
        else if last (sb_ids b) < messageId \<and> snd (dec_positive (sb_after b))
        then (True, b\<lparr> sb_after := fst (dec_positive (sb_after b)) \<rparr>)
        else (changed, b)
      else (changed, b))"

definition builder_remove_one :: "int \<Rightarrow> sparse_builder \<Rightarrow> bool \<times> sparse_builder" where
  "builder_remove_one messageId b =
     (let (changed, b) = builder_forget messageId b in
      (changed, if changed then slice_to_limits sparse_traits b else b))"

definition builder_remove_all :: "'a slice_builder \<Rightarrow> bool \<times> 'a slice_builder" where
  "builder_remove_all b =
     (True, b\<lparr> sb_ids := [], sb_full := Some 0, sb_before := Some 0, sb_after := Some 0 \<rparr>)"

definition builder_invalidate_bottom :: "'a::linorder id_traits \<Rightarrow> 'a slice_builder \<Rightarrow> bool \<times> 'a slice_builder" where
  "builder_invalidate_bottom t b = (True, slice_to_limits t (b\<lparr> sb_full := None, sb_after := None \<rparr>))"

definition builder_snapshot :: "sparse_builder \<Rightarrow> int sparse_ids" where
  "builder_snapshot b =
     \<lparr>si_ids = sb_ids b, si_full = sb_full b, si_before = sb_before b, si_after = sb_after b\<rparr>"

section \<open>The merged slice\<close>

record merged_key =
  mk_peer :: int
  mk_topic_root :: int
  mk_monoforum :: int
  mk_migrated :: int
  mk_universal :: int

definition merged_key_new :: "int \<Rightarrow> int \<Rightarrow> int \<Rightarrow> int \<Rightarrow> int \<Rightarrow> merged_key" where
  "merged_key_new peerId topicRootId monoforumPeerId migratedPeerId universalId =
     \<lparr>mk_peer = peerId, mk_topic_root = topicRootId, mk_monoforum = monoforumPeerId,
      mk_migrated = (if topicRootId \<noteq> 0 \<or> monoforumPeerId \<noteq> 0 then 0 else migratedPeerId),
      mk_universal = universalId\<rparr>"

record merged_slice =
  mg_key :: merged_key
  mg_part :: "int sparse_ids"
  mg_migrated :: "int sparse_ids option"
  mg_unsorted :: "int sparse_ids option"

definition PartKey :: "merged_key \<Rightarrow> int" where
  "PartKey k = (if mk_universal k < 0 then 1 else mk_universal k)"

definition MigratedKey :: "merged_key \<Rightarrow> int" where
  "MigratedKey k =
     (if mk_universal k < 0 then ServerMaxMsgId + mk_universal k
      else if 0 < mk_universal k then ServerMaxMsgId - 1 else 0)"

definition no_ids :: "int sparse_ids" where
  "no_ids = \<lparr>si_ids = [], si_full = None, si_before = None, si_after = None\<rparr>"

definition MigratedSlice :: "merged_key \<Rightarrow> int sparse_ids option" where
  "MigratedSlice k = (if mk_migrated k \<noteq> 0 then Some no_ids else None)"

definition merged_new :: "merged_key \<Rightarrow> merged_slice" where
  "merged_new k = \<lparr>mg_key = k, mg_part = no_ids, mg_migrated = MigratedSlice k, mg_unsorted = None\<rparr>"

definition ComputeId :: "merged_key \<Rightarrow> full_msg_id" where
  "ComputeId k =
     (if 0 \<le> mk_universal k then FullMsgId (mk_peer k) (mk_universal k)
      else FullMsgId (mk_migrated k) (ServerMaxMsgId + mk_universal k))"

definition AddCounts :: "int option \<Rightarrow> int option \<Rightarrow> int option" where
  "AddCounts a b = (case (a, b) of (Some x, Some y) \<Rightarrow> Some (x + y) | _ \<Rightarrow> None)"

text \<open>The dereference of an empty \<^verbatim>\<open>_migrated\<close> is undefined in the source: the functions
  that may reach one return an option whose \<open>None\<close> is that case.\<close>

definition isolatedInPart :: "merged_slice \<Rightarrow> bool" where
  "isolatedInPart m \<longleftrightarrow> IsServerMsgId (mk_universal (mg_key m))
     \<and> (mg_migrated m = None \<or> si_before (mg_part m) \<noteq> Some 0)"

definition isolatedInMigrated :: "merged_slice \<Rightarrow> bool option" where
  "isolatedInMigrated m =
     (if IsServerMsgId (ServerMaxMsgId + mk_universal (mg_key m))
      then map_option (\<lambda>g. si_after g \<noteq> Some 0) (mg_migrated m)
      else Some False)"

definition migratedSize :: "merged_slice \<Rightarrow> int option" where
  "migratedSize m = (if isolatedInPart m then Some 0 else map_option ids_size (mg_migrated m))"

definition isFromPart :: "merged_slice \<Rightarrow> full_msg_id \<Rightarrow> bool" where
  "isFromPart m fullId \<longleftrightarrow> mk_peer (mg_key m) = fm_peer fullId"

definition isFromMigrated :: "merged_slice \<Rightarrow> full_msg_id \<Rightarrow> bool" where
  "isFromMigrated m fullId \<longleftrightarrow> mg_migrated m \<noteq> None \<and> mk_migrated (mg_key m) = fm_peer fullId"

definition merged_full_count :: "merged_slice \<Rightarrow> int option" where
  "merged_full_count m = (case mg_unsorted m of
     Some u \<Rightarrow> si_full u
   | None \<Rightarrow> AddCounts (si_full (mg_part m)) (case mg_migrated m of Some g \<Rightarrow> si_full g | None \<Rightarrow> Some 0))"

definition merged_skipped_before :: "merged_slice \<Rightarrow> int option option" where
  "merged_skipped_before m = (case mg_unsorted m of
     Some u \<Rightarrow> Some (si_before u)
   | None \<Rightarrow> map_option (\<lambda>iso.
       AddCounts (if iso then Some 0 else si_before (mg_part m))
         (case mg_migrated m of
            Some g \<Rightarrow> if isolatedInPart m then si_full g else si_before g
          | None \<Rightarrow> Some 0)) (isolatedInMigrated m))"

definition merged_skipped_after :: "merged_slice \<Rightarrow> int option option" where
  "merged_skipped_after m = (case mg_unsorted m of
     Some u \<Rightarrow> Some (si_after u)
   | None \<Rightarrow> Option.bind (isolatedInMigrated m) (\<lambda>iso.
       Option.bind (if isolatedInPart m then Some (Some 0) else map_option si_after (mg_migrated m))
         (\<lambda>g. Some (AddCounts (if iso then si_full (mg_part m) else si_after (mg_part m)) g))))"

definition merged_index_of :: "merged_slice \<Rightarrow> full_msg_id \<Rightarrow> int option option" where
  "merged_index_of m fullId = (case mg_unsorted m of
     Some u \<Rightarrow> Some (ids_index_of u (fm_msg fullId))
   | None \<Rightarrow>
       if isFromPart m fullId then
         (case ids_index_of (mg_part m) (fm_msg fullId) of
            None \<Rightarrow> map_option (\<lambda>_. None) (migratedSize m)
          | Some i \<Rightarrow> map_option (\<lambda>n. Some (i + n)) (migratedSize m))
       else if isolatedInPart m then Some None
       else if isFromMigrated m fullId
       then map_option (\<lambda>g. ids_index_of g (fm_msg fullId)) (mg_migrated m)
       else Some None)"

definition merged_size :: "merged_slice \<Rightarrow> int option" where
  "merged_size m = (case mg_unsorted m of
     Some u \<Rightarrow> Some (ids_size u)
   | None \<Rightarrow>
       Option.bind (if isolatedInPart m then Some 0 else migratedSize m) (\<lambda>a.
         Option.bind (isolatedInMigrated m) (\<lambda>iso.
           Some (a + (if iso then 0 else ids_size (mg_part m))))))"

definition merged_at :: "merged_slice \<Rightarrow> int \<Rightarrow> full_msg_id option" where
  "merged_at m index =
     Option.bind (merged_size m) (\<lambda>total.
       if \<not> (0 \<le> index \<and> index < total) then None
       else case mg_unsorted m of
         Some u \<Rightarrow> map_option (FullMsgId (mk_peer (mg_key m))) (ids_at u index)
       | None \<Rightarrow>
           Option.bind (migratedSize m) (\<lambda>n.
             if n \<noteq> 0 \<and> index < n
             then Option.bind (mg_migrated m) (\<lambda>g.
               map_option (FullMsgId (mk_migrated (mg_key m))) (ids_at g index))
             else map_option (FullMsgId (mk_peer (mg_key m))) (ids_at (mg_part m) (index - n))))"

definition merged_distance :: "merged_slice \<Rightarrow> merged_key \<Rightarrow> merged_key \<Rightarrow> int option option" where
  "merged_distance m a b =
     Option.bind (merged_index_of m (ComputeId a)) (\<lambda>i. case i of
         None \<Rightarrow> Some None
       | Some i \<Rightarrow> Option.bind (merged_index_of m (ComputeId b)) (\<lambda>j. case j of
             None \<Rightarrow> Some None
           | Some j \<Rightarrow> Some (Some (j - i))))"

definition merged_nearest :: "merged_slice \<Rightarrow> int \<Rightarrow> full_msg_id option option" where
  "merged_nearest m v = (case mg_unsorted m of
     Some u \<Rightarrow>
       if ids_index_of u v \<noteq> None then Some (Some (FullMsgId (mk_peer (mg_key m)) v))
       else if ids_size u \<noteq> 0
       then Some (map_option (FullMsgId (mk_peer (mg_key m))) (ids_at u (ids_size u div 2)))
       else Some None
   | None \<Rightarrow>
       if IsServerMsgId v then
         (case ids_nearest (mg_part m) v of
            Some r \<Rightarrow> Some (Some (FullMsgId (mk_peer (mg_key m)) r))
          | None \<Rightarrow> if isolatedInPart m then Some None
              else map_option (\<lambda>g. map_option (FullMsgId (mk_migrated (mg_key m)))
                (ids_nearest g (ServerMaxMsgId - 1))) (mg_migrated m))
       else case Option.bind (mg_migrated m) (\<lambda>g. ids_nearest g (v + ServerMaxMsgId)) of
          Some r \<Rightarrow> Some (Some (FullMsgId (mk_migrated (mg_key m)) r))
        | None \<Rightarrow> Option.bind (isolatedInMigrated m) (\<lambda>iso.
            if iso then Some None
            else Some (map_option (FullMsgId (mk_peer (mg_key m))) (ids_nearest (mg_part m) 0))))"

section \<open>Correctness of the builder\<close>

lemma request_frame [simp]:
  "sb_ids (request_messages d b) = sb_ids b" "sb_key (request_messages d b) = sb_key b"
  "sb_full (request_messages d b) = sb_full b" "sb_before (request_messages d b) = sb_before b"
  "sb_after (request_messages d b) = sb_after b"
  "sb_ids (request_messages_count t b) = sb_ids b" "sb_key (request_messages_count t b) = sb_key b"
  "sb_full (request_messages_count t b) = sb_full b" "sb_before (request_messages_count t b) = sb_before b"
  "sb_after (request_messages_count t b) = sb_after b"
  by (simp_all add: request_messages_def request_messages_count_def)

text \<open>What \<^verbatim>\<open>sliceToLimits\<close> leaves, and how many ids it drops on each side.\<close>

definition below_count :: "'a::linorder slice_builder \<Rightarrow> int" where
  "below_count b = int (length (filter (\<lambda>x. x < sb_key b) (sb_ids b)))"

definition from_count :: "'a::linorder slice_builder \<Rightarrow> int" where
  "from_count b = int (length (filter (\<lambda>x. sb_key b \<le> x) (sb_ids b)))"

lemma slice_to_limits_window:
  assumes "fs_inv (<) (sb_ids b)" "it_set t (sb_key b)" "0 \<le> sb_limit_before b" "0 \<le> sb_limit_after b"
  shows "sb_ids (slice_to_limits t b) =
      id_window (sb_key b) (nat (sb_limit_before b)) (Suc (nat (sb_limit_after b))) (sb_ids b)"
    and "sb_before (slice_to_limits t b) =
      map_option (\<lambda>s. s + max 0 (below_count b - sb_limit_before b)) (sb_before b)"
    and "sb_after (slice_to_limits t b) =
      map_option (\<lambda>s. s + max 0 (from_count b - sb_limit_after b - 1)) (sb_after b)"
    and "sb_full (slice_to_limits t b) = sb_full b"
proof -
  let ?k = "sb_key b"
  define L where "L = filter (\<lambda>x. x < ?k) (sb_ids b)"
  define H where "H = filter (\<lambda>x. ?k \<le> x) (sb_ids b)"
  have ids: "sb_ids b = L @ H" and low: "fms_lower_bound (<) (sb_ids b) ?k = length L"
    using sorted_split_filter [OF assms(1), of ?k] by (simp_all add: L_def H_def fms_lower_bound_def)
  have b: "below_count b = int (length L)" "from_count b = int (length H)"
    by (simp_all add: below_count_def from_count_def L_def H_def)
  let ?rb = "int (length L) - sb_limit_before b" and ?re = "int (length H) - sb_limit_after b - 1"
  have len: "int (length (sb_ids b) - length L) = int (length H)" by (simp add: ids)
  have window: "id_window ?k (nat (sb_limit_before b)) (Suc (nat (sb_limit_after b))) (sb_ids b) =
      drop (length L - nat (sb_limit_before b)) L @ take (Suc (nat (sb_limit_after b))) H"
    by (simp add: id_window_def Let_def L_def H_def)
  have first: "erase_range 0 (nat ?rb) (L @ H) = drop (length L - nat (sb_limit_before b)) L @ H" if "0 < ?rb"
    using that assms(3) by (simp add: erase_range_def nat_diff_distrib')
  have kept: "drop (length L - nat (sb_limit_before b)) L = L" if "\<not> 0 < ?rb"
    using that assms(3) by (simp add: nat_le_iff)
  have second: "take (length (xs @ H) - nat ?re) (xs @ H) = xs @ take (Suc (nat (sb_limit_after b))) H"
    if "0 < ?re" for xs
  proof -
    have "length (xs @ H) - nat ?re = length xs + Suc (nat (sb_limit_after b))"
      using that assms(4) by simp
    then show ?thesis using that assms(4) by simp
  qed
  have all: "take (Suc (nat (sb_limit_after b))) H = H" if "\<not> 0 < ?re"
    using that assms(4) by simp
  note eval = slice_to_limits_def Let_def low len
  show "sb_ids (slice_to_limits t b) =
      id_window (sb_key b) (nat (sb_limit_before b)) (Suc (nat (sb_limit_after b))) (sb_ids b)"
  proof -
    let ?f = "if 0 < ?rb then erase_range 0 (nat ?rb) (sb_ids b) else sb_ids b"
    have "sb_ids (slice_to_limits t b) = (if 0 < ?re then take (length ?f - nat ?re) ?f else ?f)"
      using assms(2) unfolding eval by (simp split: prod.splits)
    also have "?f = drop (length L - nat (sb_limit_before b)) L @ H"
      using first kept unfolding ids by presburger
    finally show ?thesis
      unfolding window using second all by presburger
  qed
  show "sb_before (slice_to_limits t b) =
      map_option (\<lambda>s. s + max 0 (below_count b - sb_limit_before b)) (sb_before b)"
    using assms(2) unfolding eval b by (simp split: prod.splits) (auto simp: option.map_ident)
  show "sb_after (slice_to_limits t b) =
      map_option (\<lambda>s. s + max 0 (from_count b - sb_limit_after b - 1)) (sb_after b)"
    using assms(2) unfolding eval b by (simp split: prod.splits) (auto simp: option.map_ident)
  show "sb_full (slice_to_limits t b) = sb_full b"
    using assms(2) unfolding eval by (simp split: prod.splits)
qed

lemma slice_to_limits_quiet:
  assumes "fs_inv (<) (sb_ids b)" "it_set t (sb_key b)"
  shows "sb_limit_before b \<le> below_count b \<and> sb_limit_after b < from_count b \<and> sb_full b \<noteq> None
    \<longrightarrow> sb_requests (slice_to_limits t b) = sb_requests b"
proof -
  have "int (fms_lower_bound (<) (sb_ids b) (sb_key b)) = below_count b"
    using sorted_split_filter [OF assms(1), of "sb_key b"] by (simp add: below_count_def fms_lower_bound_def)
  moreover have "int (length (sb_ids b) - fms_lower_bound (<) (sb_ids b) (sb_key b)) = from_count b"
    using sorted_split_filter [OF assms(1), of "sb_key b"]
    by (simp add: from_count_def fms_lower_bound_def)
      (metis add_diff_cancel_left' length_append takeWhile_dropWhile_id)
  ultimately show ?thesis
    using assms(2) unfolding slice_to_limits_def Let_def by simp
qed

lemma merge_frame [simp]:
  "sb_ids (merge_count c b) = sb_ids b" "sb_key (merge_count c b) = sb_key b"
  "sb_limit_before (merge_count c b) = sb_limit_before b" "sb_limit_after (merge_count c b) = sb_limit_after b"
  "sb_ids (fill_skipped b) = sb_ids b" "sb_key (fill_skipped b) = sb_key b"
  "sb_limit_before (fill_skipped b) = sb_limit_before b" "sb_limit_after (fill_skipped b) = sb_limit_after b"
  by (simp_all add: merge_count_def fill_skipped_def Let_def split: option.splits)

lemma fill_window:
  assumes "fs_inv (<) (sb_ids b)" "it_set t (sb_key b)" "0 \<le> sb_limit_before b" "0 \<le> sb_limit_after b"
  shows "sb_ids (fill_skipped_and_slice t b) =
    id_window (sb_key b) (nat (sb_limit_before b)) (Suc (nat (sb_limit_after b))) (sb_ids b)"
  using slice_to_limits_window(1) [of "fill_skipped b" t] assms by (simp add: fill_skipped_and_slice_def)

lemma merge_slice_window:
  assumes "fs_inv (<) (sb_ids b)" "fs_inv (<) ms" "it_set t (sb_key b)" "0 \<le> sb_limit_before b" "0 \<le> sb_limit_after b"
  shows "\<exists>us. fs_inv (<) us \<and> set us = set (sb_ids b) \<union> set ms \<and>
    sb_ids (merge_slice_data t c ms x y b) =
      id_window (sb_key b) (nat (sb_limit_before b)) (Suc (nat (sb_limit_after b))) us"
proof (cases "ms = []")
  case True
  then show ?thesis
    using assms fill_window [of "merge_count c b" t] by (intro exI [of _ "sb_ids b"]) (simp add: merge_slice_data_def)
next
  case False
  then show ?thesis
    using assms by (intro exI [of _ "fs_merge (<) (sb_ids b) ms"])
      (simp add: merge_slice_data_def Let_def less_order.fs_merge_inv less_order.fs_merge_set fill_window)
qed

lemma id_window_idem:
  "id_window v b a (id_window v b a xs) = id_window v b a (xs :: 'a::linorder list)"
proof -
  let ?L = "filter (\<lambda>x. x < v) xs" and ?H = "filter (\<lambda>x. v \<le> x) xs"
  let ?n = "length ?L - b"
  define L where "L = drop ?n ?L"
  define H where "H = take a ?H"
  have w: "id_window v b a xs = L @ H" by (simp add: id_window_def Let_def L_def H_def)
  have "\<forall>x\<in>set L. x < v" "\<forall>x\<in>set H. v \<le> x"
    unfolding L_def H_def by (auto dest!: in_set_dropD in_set_takeD)
  then have f: "filter (\<lambda>x. x < v) (L @ H) = L" "filter (\<lambda>x. v \<le> x) (L @ H) = H"
    by (auto simp: filter_empty_conv filter_id_conv)
  have "length L \<le> b" "take a H = H" by (simp_all add: L_def H_def)
  then show ?thesis
    unfolding w by (simp only: id_window_def Let_def f) simp
qed

lemma id_window_sorted: "fs_inv (<) xs \<Longrightarrow> fs_inv (<) (id_window v b a (xs :: 'a::linorder list))"
proof -
  assume inv: "fs_inv (<) xs"
  have "sorted_wrt (<) (filter (\<lambda>x. x < v) xs)" "sorted_wrt (<) (filter (\<lambda>x. v \<le> x) xs)"
    using inv by (simp_all add: fs_inv_def sorted_wrt_filter)
  then show ?thesis
    by (auto simp: fs_inv_def id_window_def Let_def sorted_wrt_append sorted_wrt_take sorted_wrt_drop
        dest!: in_set_dropD in_set_takeD)
qed

section \<open>Correctness of the merged slice\<close>

text \<open>The ids a merged slice lists: the migrated part unless it is isolated, then the part.\<close>

definition merged_list :: "merged_slice \<Rightarrow> full_msg_id list" where
  "merged_list m =
     (case mg_migrated m of
        Some g \<Rightarrow> if isolatedInPart m then [] else map (FullMsgId (mk_migrated (mg_key m))) (si_ids g)
      | None \<Rightarrow> [])
     @ (if isolatedInMigrated m = Some True then [] else map (FullMsgId (mk_peer (mg_key m))) (si_ids (mg_part m)))"

text \<open>A slice whose migrated part is never dereferenced when it is missing.\<close>

definition merged_ok :: "merged_slice \<Rightarrow> bool" where
  "merged_ok m \<longleftrightarrow> mg_unsorted m = None \<and> (mg_migrated m = None \<longrightarrow> IsServerMsgId (mk_universal (mg_key m)))"

lemma server_not_migrated: "IsServerMsgId v \<Longrightarrow> \<not> IsServerMsgId (ServerMaxMsgId + v)"
  by (simp add: IsServerMsgId_def)

lemma merged_size_list: "merged_ok m \<Longrightarrow> merged_size m = Some (int (length (merged_list m)))"
  using server_not_migrated [of "mk_universal (mg_key m)"]
  by (cases "mg_migrated m") (auto simp: merged_ok_def merged_size_def merged_list_def migratedSize_def
      isolatedInMigrated_def isolatedInPart_def ids_size_def)

lemma merged_at_list:
  assumes "merged_ok m" "0 \<le> i" "i < int (length (merged_list m))"
  shows "merged_at m i = Some (merged_list m ! nat i)"
proof (cases "mg_migrated m")
  case None
  then show ?thesis
    using assms merged_size_list [OF assms(1)] server_not_migrated [of "mk_universal (mg_key m)"]
    by (auto simp: merged_at_def merged_ok_def merged_list_def migratedSize_def isolatedInPart_def
        isolatedInMigrated_def ids_at_def ids_size_def)
next
  case (Some g)
  show ?thesis
  proof (cases "isolatedInPart m")
    case True
    then show ?thesis
      using assms Some merged_size_list [OF assms(1)]
      by (auto simp: merged_at_def merged_ok_def merged_list_def migratedSize_def ids_at_def
          ids_size_def)
  next
    case False
    then have n: "migratedSize m = Some (int (length (si_ids g)))"
      using Some by (simp add: migratedSize_def ids_size_def)
    show ?thesis
      using False assms Some n merged_size_list [OF assms(1)]
      by (cases "i < int (length (si_ids g))"; cases "isolatedInMigrated m = Some True";
          cases "si_ids g = []")
        (simp_all add: merged_at_def merged_ok_def merged_list_def ids_at_def ids_size_def nth_append
          nat_less_iff nat_diff_distrib)
  qed
qed

lemma index_of_nth: "distinct (si_ids s) \<Longrightarrow> i < length (si_ids s) \<Longrightarrow> ids_index_of s (si_ids s ! i) = Some (int i)"
proof -
  assume d: "distinct (si_ids s)" and i: "i < length (si_ids s)"
  let ?P = "\<lambda>x. x = si_ids s ! i"
  have "find_index ?P (si_ids s) < length (si_ids s)"
    using i by (auto simp: find_index_less_iff)
  moreover from this have "si_ids s ! find_index ?P (si_ids s) = si_ids s ! i"
    by (rule find_index_nth)
  ultimately have "find_index ?P (si_ids s) = i"
    using d i by (simp add: nth_eq_iff_index_eq)
  then show ?thesis using i by (simp add: ids_index_of_def)
qed

lemma index_of_absent: "v \<notin> set (si_ids s) \<Longrightarrow> ids_index_of s v = None"
  using find_index_less_iff [of "\<lambda>x. x = v" "si_ids s"] find_index_le [of "\<lambda>x. x = v" "si_ids s"]
  by (auto simp: ids_index_of_def Let_def)

lemma merged_index_list:
  assumes "merged_ok m" "mk_peer (mg_key m) \<noteq> mk_migrated (mg_key m)" "distinct (si_ids (mg_part m))"
    "\<forall>g. mg_migrated m = Some g \<longrightarrow> distinct (si_ids g)" "i < length (merged_list m)"
  shows "merged_index_of m (merged_list m ! i) = Some (Some (int i))"
proof -
  let ?mig = "case mg_migrated m of Some g \<Rightarrow> if isolatedInPart m then []
      else map (FullMsgId (mk_migrated (mg_key m))) (si_ids g) | None \<Rightarrow> []"
  have size: "migratedSize m = Some (int (length ?mig))"
    using assms(1) by (cases "mg_migrated m")
      (auto simp: merged_ok_def migratedSize_def isolatedInPart_def ids_size_def)
  show ?thesis
  proof (cases "i < length ?mig")
    case True
    then obtain g where g: "mg_migrated m = Some g" "\<not> isolatedInPart m" "i < length (si_ids g)"
      by (auto split: option.splits if_splits)
    then have "merged_list m ! i = FullMsgId (mk_migrated (mg_key m)) (si_ids g ! i)"
      by (simp add: merged_list_def nth_append)
    then show ?thesis
      using assms(1,2,4) g by (simp add: merged_index_of_def merged_ok_def isFromPart_def isFromMigrated_def
          index_of_nth)
  next
    case False
    then have i: "i - length ?mig < length (si_ids (mg_part m))" "isolatedInMigrated m \<noteq> Some True"
      using assms(5) by (auto simp: merged_list_def split: if_splits)
    then have "merged_list m ! i = FullMsgId (mk_peer (mg_key m)) (si_ids (mg_part m) ! (i - length ?mig))"
      using False by (simp add: merged_list_def nth_append)
    then show ?thesis
      using assms(1,3) i False size by (simp add: merged_index_of_def merged_ok_def isFromPart_def index_of_nth)
  qed
qed

section \<open>Properties\<close>

text \<open>C25: trimming a builder's part to its limits keeps exactly the window of its ids around the
  key, adds what it dropped on each side to the counts of skipped ids, and asks for nothing when
  both sides are full and the full count is known.\<close>

theorem slice_builder_trims_to_window:
  assumes "fs_inv (<) (sb_ids b)" "it_set t (sb_key b)" "0 \<le> sb_limit_before b" "0 \<le> sb_limit_after b"
  shows "sb_ids (slice_to_limits t b) =
      id_window (sb_key b) (nat (sb_limit_before b)) (Suc (nat (sb_limit_after b))) (sb_ids b)
    \<and> sb_before (slice_to_limits t b) =
      map_option (\<lambda>s. s + max 0 (below_count b - sb_limit_before b)) (sb_before b)
    \<and> sb_after (slice_to_limits t b) =
      map_option (\<lambda>s. s + max 0 (from_count b - sb_limit_after b - 1)) (sb_after b)
    \<and> (sb_limit_before b \<le> below_count b \<and> sb_limit_after b < from_count b \<and> sb_full b \<noteq> None
        \<longrightarrow> sb_requests (slice_to_limits t b) = sb_requests b)"
  using slice_to_limits_window [OF assms] slice_to_limits_quiet [OF assms(1,2)] by blast

lemma slice_builder_trims_to_window_witness:
  "sb_ids (slice_to_limits sparse_traits \<lparr>sb_key = 30, sb_ids = [10, 20, 30, 40, 50], sb_full = Some 9,
     sb_before = Some 2, sb_after = None, sb_limit_before = 1, sb_limit_after = 1, sb_requests = []\<rparr>) =
   [20, 30, 40]"
  using slice_builder_trims_to_window [of "\<lparr>sb_key = 30, sb_ids = [10, 20, 30, 40, 50], sb_full = Some 9,
     sb_before = Some 2, sb_after = None, sb_limit_before = 1, sb_limit_after = 1, sb_requests = []\<rparr>" sparse_traits]
  by (simp add: fs_inv_def id_window_def sparse_traits_def)

text \<open>C26: a builder that is given the list's answer to its own query shows exactly the list's
  window of known messages around the key, and later answers and updates only ever trim the union
  of what it has and what it is given.\<close>

theorem viewer_shows_list_window:
  assumes "sparse_inv st" "key \<noteq> 0" "key \<in> covered st" "0 \<le> before" "0 \<le> after"
    "sb_key b = key" "sb_limit_before b = before" "sb_limit_after b = after" "sb_ids b = []"
  shows "\<exists>s\<in>set (sp_slices st). set (sl_messages s) = known st \<inter> {sl_from s..sl_till s}
    \<and> key \<in> {sl_from s..sl_till s}
    \<and> sb_ids (builder_apply_initial sparse_traits (sparse_snapshot key before after st) b) =
        id_window key (nat before) (Suc (nat after)) (sl_messages s)"
proof -
  obtain s where s: "s \<in> set (sp_slices st)" "key \<in> {sl_from s..sl_till s}"
    "set (sl_messages s) = known st \<inter> {sl_from s..sl_till s}"
    "lr_ids (sparse_snapshot key before after st) =
      id_window key (nat before) (Suc (nat after)) (sl_messages s)"
    using snapshot_window [OF assms(1,2,4,5)] assms(3) by blast
  have inv: "fs_inv (<) (sl_messages s)"
    using assms(1) s(1) by (auto simp: sparse_inv_def slices_inv_def slice_ok_def)
  let ?w = "id_window key (nat before) (Suc (nat after)) (sl_messages s)"
  let ?r = "sparse_snapshot key before after st"
  have "fs_inv (<) (sb_ids b)" using assms(9) by (simp add: fs_inv_def)
  from merge_slice_window [OF this id_window_sorted [OF inv], of sparse_traits key "nat before" "Suc (nat after)"
      "lr_count ?r" "lr_skipped_before ?r" "lr_skipped_after ?r"]
  obtain us where us: "fs_inv (<) us" "set us = set ?w"
    "sb_ids (builder_apply_initial sparse_traits ?r b) = id_window key (nat before) (Suc (nat after)) us"
    unfolding builder_apply_initial_def s(4) using assms by (auto simp: sparse_traits_def)
  have "us = ?w"
    using less_order.fs_unique [OF us(1) id_window_sorted [OF inv] us(2)] .
  then have "sb_ids (builder_apply_initial sparse_traits (sparse_snapshot key before after st) b) = ?w"
    using us(3) by (simp only: id_window_idem)
  then show ?thesis using s(1,2,3) by blast
qed

lemma viewer_shows_list_window_witness:
  "\<exists>s\<in>set [\<lparr>sl_messages = [10, 12, 15, 20], sl_from = 5, sl_till = 30\<rparr>].
    sb_ids (builder_apply_initial sparse_traits (sparse_snapshot 15 1 0 \<lparr>sp_count = None, sp_slices =
       [\<lparr>sl_messages = [10, 12, 15, 20], sl_from = 5, sl_till = 30\<rparr>]\<rparr>)
     \<lparr>sb_key = 15, sb_ids = [], sb_full = None, sb_before = None, sb_after = None,
      sb_limit_before = 1, sb_limit_after = 0, sb_requests = []\<rparr>) = id_window 15 1 1 (sl_messages s)"
  using viewer_shows_list_window [of "\<lparr>sp_count = None, sp_slices =
       [\<lparr>sl_messages = [10, 12, 15, 20], sl_from = 5, sl_till = 30\<rparr>]\<rparr>" 15 1 0
     "\<lparr>sb_key = 15, sb_ids = [], sb_full = None, sb_before = None, sb_after = None,
      sb_limit_before = 1, sb_limit_after = 0, sb_requests = []\<rparr>"]
  by (simp add: sparse_inv_def slices_inv_Cons slice_ok_def fs_inv_def ServerMaxMsgId_def)



text \<open>C28: a merged slice made for the key \<open>universalId = 0\<close> of a chat that was not migrated,
  which \<^verbatim>\<open>CreateViewer\<close> accepts, has a full count, but its size, its elements and its count
  of skipped ids after it dereference the migrated part it does not have.\<close>

theorem merged_slice_zero_key_undefined:
  "merged_full_count \<lparr>mg_key = merged_key_new p t 0 0 0, mg_part = part, mg_migrated = None,
      mg_unsorted = None\<rparr> = si_full part
    \<and> merged_size \<lparr>mg_key = merged_key_new p t 0 0 0, mg_part = part, mg_migrated = None,
      mg_unsorted = None\<rparr> = None
    \<and> merged_skipped_after \<lparr>mg_key = merged_key_new p t 0 0 0, mg_part = part, mg_migrated = None,
      mg_unsorted = None\<rparr> = None"
  by (simp add: merged_full_count_def AddCounts_def merged_size_def migratedSize_def isolatedInPart_def
      merged_key_new_def IsServerMsgId_def merged_skipped_after_def isolatedInMigrated_def
      split: option.splits)

end
