(* ===== verification/Messages.thy ===== *)
theory Messages imports SparseSlice begin

text \<open>
  \<^verbatim>\<open>data/data_messages\<close>: \<^verbatim>\<open>Data::MessagesList\<close>, what is known of a list of messages
  ordered by date and id, and \<^verbatim>\<open>Data::MessagesSliceBuilder\<close>, the part of it that a viewer
  shows. The vector of slices is the one of \<open>Slices\<close>, and the code that the builder shares
  with \<^verbatim>\<open>SparseIdsSliceBuilder\<close> is that of \<open>SparseSlice\<close>, here at the traits of
  \<^verbatim>\<open>MessagePosition\<close>. An operation that fires \<^verbatim>\<open>_sliceUpdated\<close> returns the update,
  as an option where it may not fire. The viewers built with \<^verbatim>\<open>rpl\<close> are not modelled.
\<close>

section \<open>Positions\<close>

definition MaxDate :: int where "MaxDate = 2 ^ 31 - 1"

definition MinMessagePosition :: message_position where
  "MinMessagePosition = MessagePosition (FullMsgId 0 1) 0"

definition MaxMessagePosition :: message_position where
  "MaxMessagePosition = MessagePosition (FullMsgId 0 (ServerMaxMsgId - 1)) MaxDate"

definition UnreadMessagePosition :: message_position where
  "UnreadMessagePosition = MessagePosition (FullMsgId 0 ShowAtUnreadMsgId) 0"

definition no_position :: message_position where
  "no_position = MessagePosition (FullMsgId 0 0) 0"

definition position_set :: "message_position \<Rightarrow> bool" where
  "position_set p \<longleftrightarrow> fm_msg (mp_full p) \<noteq> 0"

section \<open>The list\<close>

record messages_list =
  ml_count :: "int option"
  ml_slices :: "message_position slice list"

type_synonym messages_update = "message_position slice_update"

definition messages_no_update :: messages_update where
  "messages_no_update = \<lparr>su_messages = None, su_from = no_position, su_till = no_position, su_count = None\<rparr>"

definition messages_update_at :: "message_position slice list \<Rightarrow> nat \<Rightarrow> messages_update" where
  "messages_update_at xs i = \<lparr>su_messages = Some (sl_messages (xs ! i)), su_from = sl_from (xs ! i),
     su_till = sl_till (xs ! i), su_count = None\<rparr>"

text \<open>A single slice over the whole range knows the count.\<close>

definition messages_settle :: "message_position slice list \<Rightarrow> int option \<Rightarrow> int option" where
  "messages_settle xs cnt =
     (if length xs = 1 \<and> sl_from (hd xs) = MinMessagePosition \<and> sl_till (hd xs) = MaxMessagePosition
      then Some (int (length (sl_messages (hd xs)))) else cnt)"

text \<open>The code of \<^verbatim>\<open>addRangeItemsAndCountNew\<close> is that of the sparse list, except that
  an empty range is added too.\<close>

definition messages_add_items :: "message_position slice list \<Rightarrow> message_position list \<Rightarrow> message_position
    \<Rightarrow> message_position \<Rightarrow> message_position slice list \<times> nat \<times> int" where
  "messages_add_items = add_at"

text \<open>\<^verbatim>\<open>Expects(!count || !incrementCount)\<close> is kept by the callers below.\<close>

definition messages_add_range :: "message_position list \<Rightarrow> message_position \<Rightarrow> message_position
    \<Rightarrow> int option \<Rightarrow> bool \<Rightarrow> messages_list \<Rightarrow> messages_list \<times> messages_update" where
  "messages_add_range messages from till count' incrementCount st =
     (let (xs, at, added) = messages_add_items (ml_slices st) messages from till;
          update = messages_update_at xs at;
          cnt = messages_settle xs (next_count count' incrementCount added (ml_count st)) in
      (\<lparr>ml_count = cnt, ml_slices = xs\<rparr>, update\<lparr> su_count := cnt \<rparr>))"

definition messages_add_one :: "message_position \<Rightarrow> messages_list \<Rightarrow> messages_list \<times> messages_update" where
  "messages_add_one p st = messages_add_range [p] p p None True st"

definition messages_add_new :: "message_position \<Rightarrow> messages_list \<Rightarrow> messages_list \<times> messages_update" where
  "messages_add_new p st = messages_add_range [p] p MaxMessagePosition None True st"

definition messages_add_slice :: "message_position list \<Rightarrow> message_position \<Rightarrow> message_position
    \<Rightarrow> int option \<Rightarrow> messages_list \<Rightarrow> messages_list \<times> messages_update" where
  "messages_add_slice messageIds from till count' st = messages_add_range messageIds from till count' False st"

definition messages_remove_one :: "message_position \<Rightarrow> messages_list
    \<Rightarrow> messages_list \<times> messages_update option" where
  "messages_remove_one p st =
     (let xs = ml_slices st;
          i = lower_till xs p;
          found = (i \<noteq> length xs \<and> sl_from (xs ! i) \<le> p);
          xs = (if found then fs_modify slice_less xs i (remove_message p) else xs);
          update = (if found then messages_update_at xs i else messages_no_update);
          cnt = (case ml_count st of Some c \<Rightarrow> Some (c - 1) | None \<Rightarrow> None) in
      (\<lparr>ml_count = cnt, ml_slices = xs\<rparr>,
       if su_messages update \<noteq> None then Some (update\<lparr> su_count := cnt \<rparr>) else None))"

text \<open>The change of \<^verbatim>\<open>removeLessThan\<close> to the slice that the position falls in.\<close>

definition forget_below :: "message_position \<Rightarrow> message_position slice \<Rightarrow> message_position slice" where
  "forget_below p s = s\<lparr> sl_from := MinMessagePosition,
     sl_messages := erase_range 0 (fms_lower_bound (<) (sl_messages s) p) (sl_messages s) \<rparr>"

fun remove_less_loop :: "message_position \<Rightarrow> message_position slice list \<Rightarrow> int
    \<Rightarrow> message_position slice list \<times> int" where
  "remove_less_loop p [] removed = ([], removed)"
| "remove_less_loop p (s # xs) removed =
     (if sl_till s \<le> p then remove_less_loop p xs (removed + int (length (sl_messages s)))
      else if sl_from s \<le> p then
        (fs_modify slice_less (s # xs) 0 (forget_below p),
         removed + int (fms_lower_bound (<) (sl_messages s) p))
      else (s # xs, removed))"

definition messages_remove_less :: "message_position \<Rightarrow> messages_list \<Rightarrow> messages_list" where
  "messages_remove_less p st =
     (let (xs, removed) = remove_less_loop p (ml_slices st) 0 in
      \<lparr>ml_count = (case ml_count st of
           Some c \<Rightarrow> if removed \<noteq> 0 then Some (c - removed) else Some c
         | None \<Rightarrow> None),
       ml_slices = xs\<rparr>)"

definition messages_invalidate :: "messages_list \<Rightarrow> messages_list" where
  "messages_invalidate st = \<lparr>ml_count = None, ml_slices = []\<rparr>"

definition messages_invalidate_bottom :: "messages_list \<Rightarrow> messages_list" where
  "messages_invalidate_bottom st =
     \<lparr>ml_count = None, ml_slices = invalidate_last MaxMessagePosition (ml_slices st)\<rparr>"

definition messages_query_slice :: "int option \<Rightarrow> message_position \<Rightarrow> int \<Rightarrow> int
    \<Rightarrow> message_position slice \<Rightarrow> message_position list_result" where
  "messages_query_slice = query_from_slice MinMessagePosition MaxMessagePosition"

definition messages_query_current :: "message_position \<Rightarrow> int \<Rightarrow> int \<Rightarrow> messages_list
    \<Rightarrow> message_position list_result" where
  "messages_query_current aroundId limitBefore limitAfter st =
     (if \<not> position_set aroundId then empty_result
      else
        let xs = ml_slices st; i = lower_till xs aroundId in
        if i \<noteq> length xs \<and> sl_from (xs ! i) \<le> aroundId
        then messages_query_slice (ml_count st) aroundId limitBefore limitAfter (xs ! i)
        else empty_result)"

definition messages_query :: "message_position \<Rightarrow> int \<Rightarrow> int \<Rightarrow> messages_list
    \<Rightarrow> message_position list_result list" where
  "messages_query aroundId limitBefore limitAfter st =
     (let current = messages_query_current aroundId limitBefore limitAfter st in
      if lr_count current \<noteq> None \<or> lr_ids current \<noteq> [] then [current] else [])"

definition messages_empty :: "messages_list \<Rightarrow> bool" where
  "messages_empty st \<longleftrightarrow> (\<forall>s\<in>set (ml_slices st). sl_messages s = [])"

section \<open>The builder\<close>

type_synonym messages_builder = "message_position slice_builder"

definition impossible_position :: message_position where
  "impossible_position = MessagePosition (FullMsgId 0 0) (-1)"

definition message_traits :: "message_position id_traits" where
  "message_traits = \<lparr>it_set = position_set, it_default = no_position, it_absent = impossible_position,
     it_present = (\<lambda>p. p \<noteq> impossible_position), it_first = MinMessagePosition,
     it_last = MaxMessagePosition\<rparr>"

definition messages_request_count :: "messages_builder \<Rightarrow> messages_builder" where
  "messages_request_count = request_messages_count message_traits"

definition messages_slice_to_limits :: "messages_builder \<Rightarrow> messages_builder" where
  "messages_slice_to_limits = slice_to_limits message_traits"

definition messages_fill_skipped :: "messages_builder \<Rightarrow> messages_builder" where
  "messages_fill_skipped b = messages_slice_to_limits (fill_skipped b)"

definition messages_merge_data :: "int option \<Rightarrow> message_position list \<Rightarrow> int option \<Rightarrow> int option
    \<Rightarrow> messages_builder \<Rightarrow> messages_builder" where
  "messages_merge_data = merge_slice_data message_traits"

definition messages_apply_initial :: "message_position list_result \<Rightarrow> messages_builder \<Rightarrow> messages_builder" where
  "messages_apply_initial r b =
     messages_merge_data (lr_count r) (lr_ids r) (lr_skipped_before r) (lr_skipped_after r) b"

definition messages_apply_update :: "messages_update \<Rightarrow> messages_builder \<Rightarrow> bool \<times> messages_builder" where
  "messages_apply_update u b =
     (let needMerge = (su_messages u \<noteq> None \<and> ranges_intersect (su_from u) (su_till u)
            (if sb_ids b = [] then sb_key b else hd (sb_ids b))
            (if sb_ids b = [] then sb_key b else last (sb_ids b))) in
      if \<not> needMerge \<and> su_count u = None then (False, b)
      else (True, messages_merge_data (su_count u) (if needMerge then the (su_messages u) else [])
          (if su_from u = MinMessagePosition then Some 0 else None)
          (if su_till u = MaxMessagePosition then Some 0 else None) b))"

definition messages_builder_remove_one :: "message_position \<Rightarrow> messages_builder \<Rightarrow> bool \<times> messages_builder" where
  "messages_builder_remove_one p b = builder_forget p b"

text \<open>The builder's \<^verbatim>\<open>_range\<close>, which is only ever assigned, is left out.\<close>

definition messages_builder_remove_all :: "messages_builder \<Rightarrow> bool \<times> messages_builder" where
  "messages_builder_remove_all b =
     (True, b\<lparr> sb_ids := [], sb_full := Some 0, sb_before := Some 0, sb_after := Some 0 \<rparr>)"

definition messages_builder_invalidated :: "messages_builder \<Rightarrow> bool \<times> messages_builder" where
  "messages_builder_invalidated b = (False, messages_slice_to_limits
     (b\<lparr> sb_full := None, sb_before := None, sb_after := None, sb_ids := [] \<rparr>))"

definition messages_builder_bottom :: "messages_builder \<Rightarrow> bool \<times> messages_builder" where
  "messages_builder_bottom b =
     (True, messages_slice_to_limits (b\<lparr> sb_full := None, sb_after := None \<rparr>))"

record messages_slice =
  ms_ids :: "full_msg_id list"
  ms_nearest :: full_msg_id
  ms_before :: "int option"
  ms_after :: "int option"
  ms_full :: "int option"

definition messages_snapshot :: "messages_builder \<Rightarrow> messages_slice" where
  "messages_snapshot b =
     \<lparr>ms_ids = map mp_full (sb_ids b),
      ms_nearest = (case List.find (\<lambda>p. sb_key b \<le> p) (sb_ids b) of
          Some p \<Rightarrow> mp_full p
        | None \<Rightarrow> if sb_ids b = [] then FullMsgId 0 0 else mp_full (last (sb_ids b))),
      ms_before = sb_before b, ms_after = sb_after b, ms_full = sb_full b\<rparr>"

section \<open>Correctness\<close>

definition messages_inv :: "messages_list \<Rightarrow> bool" where
  "messages_inv st \<longleftrightarrow> slices_inv (ml_slices st)
     \<and> slices_covered (ml_slices st) \<subseteq> {MinMessagePosition..MaxMessagePosition}"

abbreviation messages_known :: "messages_list \<Rightarrow> message_position set" where
  "messages_known st \<equiv> slices_messages (ml_slices st)"

abbreviation messages_covered :: "messages_list \<Rightarrow> message_position set" where
  "messages_covered st \<equiv> slices_covered (ml_slices st)"

lemma messages_add_range_refines:
  assumes inv: "messages_inv st" and "MinMessagePosition \<le> from" "from \<le> till" "till \<le> MaxMessagePosition"
    and sub: "set messages \<subseteq> {from..till}"
  shows "messages_inv (fst (messages_add_range messages from till c inc st))
    \<and> messages_known (fst (messages_add_range messages from till c inc st)) = messages_known st \<union> set messages
    \<and> messages_covered (fst (messages_add_range messages from till c inc st)) = messages_covered st \<union> {from..till}"
proof -
  obtain ys at n where add: "add_at (ml_slices st) messages from till = (ys, at, n)" "slices_inv ys"
    "slices_messages ys = messages_known st \<union> set messages"
    "slices_covered ys = messages_covered st \<union> {from..till}"
    using add_at_refines [of "ml_slices st" "from" till messages] assms by (auto simp: messages_inv_def)
  have "{from..till} \<subseteq> {MinMessagePosition..MaxMessagePosition}"
    using assms by auto
  then show ?thesis
    using add inv by (simp add: messages_add_range_def messages_add_items_def messages_inv_def Let_def)
qed

lemma messages_remove_one_slices:
  "ml_slices (fst (messages_remove_one p st)) = remove_at (ml_slices st) p"
  by (simp add: messages_remove_one_def remove_at_def Let_def)

lemma messages_remove_one_refines: "messages_inv st \<Longrightarrow> messages_inv (fst (messages_remove_one p st))
    \<and> messages_known (fst (messages_remove_one p st)) = messages_known st - {p}"
  using remove_at_refines [of "ml_slices st" p]
  by (simp add: messages_inv_def messages_remove_one_slices)

lemma messages_invalidate_bottom_refines: "messages_inv st \<Longrightarrow> messages_inv (messages_invalidate_bottom st)
    \<and> messages_known (messages_invalidate_bottom st) = messages_known st"
  using invalidate_last_refines [of "ml_slices st" MaxMessagePosition]
  by (auto simp: messages_inv_def messages_invalidate_bottom_def)

subsection \<open>Forgetting the messages below a position\<close>

lemma forget_below_ok:
  assumes "slice_ok s" "MinMessagePosition \<le> sl_from s"
  shows "slice_ok (forget_below p s)
    \<and> set (sl_messages (forget_below p s)) = {x \<in> set (sl_messages s). p \<le> x}
    \<and> int (length (sl_messages (forget_below p s))) + int (fms_lower_bound (<) (sl_messages s) p) =
        int (length (sl_messages s))"
proof -
  have inv: "fs_inv (<) (sl_messages s)" using assms(1) by (simp add: slice_ok_def)
  have ms: "sl_messages (forget_below p s) = dropWhile (\<lambda>x. x < p) (sl_messages s)"
    by (simp add: forget_below_def erase_range_def fms_lower_bound_def)
  have set: "set (sl_messages (forget_below p s)) = {x \<in> set (sl_messages s). p \<le> x}"
    unfolding ms conjunct2 [OF sorted_split_filter [OF inv, of p], symmetric] by simp
  have "fs_inv (<) (sl_messages (forget_below p s))"
    unfolding ms dropWhile_eq_drop fs_inv_def using inv sorted_wrt_drop unfolding fs_inv_def by blast
  moreover have "MinMessagePosition \<le> sl_till s" "\<forall>x\<in>set (sl_messages s). MinMessagePosition \<le> x \<and> x \<le> sl_till s"
    using assms by (auto simp: slice_ok_def dest!: subsetD intro: order_trans)
  moreover have "length (sl_messages s) =
      length (takeWhile (\<lambda>x. x < p) (sl_messages s)) + length (dropWhile (\<lambda>x. x < p) (sl_messages s))"
    by (metis length_append takeWhile_dropWhile_id)
  moreover have "sl_from (forget_below p s) = MinMessagePosition" "sl_till (forget_below p s) = sl_till s"
    by (simp_all add: forget_below_def)
  ultimately have "slice_ok (forget_below p s)"
    unfolding slice_ok_def set by auto
  moreover have "int (length (sl_messages (forget_below p s))) + int (fms_lower_bound (<) (sl_messages s) p) =
      int (length (sl_messages s))"
    using \<open>length (sl_messages s) = _\<close> unfolding ms by (simp add: fms_lower_bound_def)
  ultimately show ?thesis using set by blast
qed

text \<open>The messages that remain: those above the position, and the one at the position unless it is
  the end of its slice.\<close>

definition kept_from :: "message_position \<Rightarrow> message_position slice list \<Rightarrow> message_position set" where
  "kept_from p xs = {x \<in> slices_messages xs. p < x \<or> (x = p \<and> (\<forall>s\<in>set xs. sl_till s \<noteq> p))}"

lemma slices_bounds:
  assumes "slices_inv (s # xs)"
  shows "slice_ok s" "slices_inv xs" "\<forall>y\<in>set xs. sl_till s < sl_from y \<and> sl_from y \<le> sl_till y"
    "\<forall>x\<in>set (sl_messages s). sl_from s \<le> x \<and> x \<le> sl_till s" "\<forall>x\<in>slices_messages xs. sl_till s < x"
proof -
  show 1: "slice_ok s" "slices_inv xs" "\<forall>y\<in>set xs. sl_till s < sl_from y \<and> sl_from y \<le> sl_till y"
    using assms by (auto simp: slices_inv_Cons slices_inv_def slice_ok_def)
  show "\<forall>x\<in>set (sl_messages s). sl_from s \<le> x \<and> x \<le> sl_till s"
    using 1(1) by (auto simp: slice_ok_def)
  show "\<forall>x\<in>slices_messages xs. sl_till s < x"
  proof
    fix x assume "x \<in> slices_messages xs"
    then have "x \<in> slices_covered xs" using slices_messages_covered [OF 1(2)] by blast
    then show "sl_till s < x" using 1(3) by (fastforce simp: slices_covered_def)
  qed
qed

lemma finite_slices_messages [simp]: "finite (slices_messages xs)"
  by (simp add: slices_messages_def)

lemma card_slice_split:
  assumes "slices_inv (s # xs)"
  shows "int (card (slices_messages (s # xs))) = int (length (sl_messages s)) + int (card (slices_messages xs))"
proof -
  have "set (sl_messages s) \<inter> slices_messages xs = {}"
    using slices_bounds(4,5) [OF assms] by fastforce
  moreover have "distinct (sl_messages s)"
    using slices_bounds(1) [OF assms] by (simp add: slice_ok_def fs_inv_def strict_sorted_iff)
  ultimately show ?thesis
    by (simp add: card_Un_disjoint distinct_card)
qed

lemma kept_from_split:
  assumes "slices_inv (s # xs)"
  shows "sl_till s \<le> p \<Longrightarrow> kept_from p (s # xs) = kept_from p xs"
    and "p < sl_till s \<Longrightarrow> kept_from p (s # xs) = {x \<in> set (sl_messages s). p \<le> x} \<union> slices_messages xs"
    and "p < sl_from s \<Longrightarrow> kept_from p (s # xs) = slices_messages (s # xs)"
proof -
  note b = slices_bounds [OF assms]
  show "kept_from p (s # xs) = kept_from p xs" if "sl_till s \<le> p"
  proof (cases "sl_till s = p")
    case True
    then have "p \<notin> slices_messages xs" using b(5) by auto
    then show ?thesis using True b(4) by (auto simp: kept_from_def)
  next
    case False
    then have "\<forall>x\<in>set (sl_messages s). x < p" using that b(4) by fastforce
    then show ?thesis using False by (auto simp: kept_from_def)
  qed
  have above: "kept_from p (s # xs) = {x \<in> set (sl_messages s). p \<le> x} \<union> slices_messages xs" if "p < sl_till s"
  proof -
    have "\<forall>y\<in>set xs. sl_till y \<noteq> p" "\<forall>x\<in>slices_messages xs. p < x" "sl_till s \<noteq> p"
      using that b(3,5) by fastforce+
    then show ?thesis by (auto simp: kept_from_def)
  qed
  then show "p < sl_till s \<Longrightarrow> kept_from p (s # xs) = {x \<in> set (sl_messages s). p \<le> x} \<union> slices_messages xs" .
  assume "p < sl_from s"
  then have "p < sl_till s" "{x \<in> set (sl_messages s). p \<le> x} = set (sl_messages s)"
    using b(1,4) by (auto simp: slice_ok_def)
  then show "kept_from p (s # xs) = slices_messages (s # xs)"
    using above by simp
qed

lemma remove_less_loop_refines:
  assumes "slices_inv xs" "slices_covered xs \<subseteq> {MinMessagePosition..MaxMessagePosition}"
  shows "slices_inv (fst (remove_less_loop p xs n))
    \<and> slices_covered (fst (remove_less_loop p xs n)) \<subseteq> {MinMessagePosition..MaxMessagePosition}
    \<and> slices_messages (fst (remove_less_loop p xs n)) = kept_from p xs
    \<and> snd (remove_less_loop p xs n) = n + int (card (slices_messages xs)) - int (card (kept_from p xs))"
  using assms
proof (induction xs arbitrary: n)
  case (Cons s xs)
  note b = slices_bounds [OF Cons.prems(1)] and k = kept_from_split [OF Cons.prems(1), of p]
    and c = card_slice_split [OF Cons.prems(1)]
  consider "sl_till s \<le> p" | "p < sl_till s" "sl_from s \<le> p" | "p < sl_from s"
    using b(1) by (fastforce simp: slice_ok_def)
  then show ?case
  proof cases
    case 1
    then show ?thesis
      using Cons.IH [of "n + int (length (sl_messages s))"] Cons.prems(2) b(2) k(1) c by simp
  next
    case 2
    have range: "MinMessagePosition \<le> sl_from s" "sl_till s \<le> MaxMessagePosition"
      using Cons.prems(2) b(1) by (auto simp: slice_ok_def)
    note f = forget_below_ok [OF b(1) range(1), of p]
    have sl: "sl_from (forget_below p s) = MinMessagePosition" "sl_till (forget_below p s) = sl_till s"
      by (simp_all add: forget_below_def)
    have inv: "slices_inv (forget_below p s # xs)"
      using f b(2,3) sl by (simp add: slices_inv_Cons)
    have mod: "fs_modify slice_less (s # xs) 0 (forget_below p) = forget_below p s # xs"
      using modify_slice(1) [of "[]" s xs "forget_below p"] slices_order [OF Cons.prems(1)] range(1) sl by simp
    have "int (card (kept_from p (s # xs))) =
        int (length (sl_messages (forget_below p s))) + int (card (slices_messages xs))"
      using card_slice_split [OF inv] f k(2) 2(1) by simp
    then show ?thesis
      using 2 Cons.prems(2) inv mod f c k(2) sl range by (auto simp: not_le)
  next
    case 3
    then have "p < sl_till s" using b(1) by (auto simp: slice_ok_def)
    then have "\<not> sl_till s \<le> p" "\<not> sl_from s \<le> p" using 3 by simp_all
    then show ?thesis using 3 Cons.prems k(3) by (simp del: slices_sets)
  qed
qed (simp add: kept_from_def)


section \<open>The list as a set of messages\<close>

datatype messages_op =
    MsgAddOne message_position
  | MsgAddNew message_position
  | MsgAddSlice "message_position list" message_position message_position "int option"
  | MsgRemoveOne message_position
  | MsgInvalidate
  | MsgInvalidateBottom

fun messages_step :: "messages_op \<Rightarrow> messages_list \<Rightarrow> messages_list" where
  "messages_step (MsgAddOne p) st = fst (messages_add_one p st)"
| "messages_step (MsgAddNew p) st = fst (messages_add_new p st)"
| "messages_step (MsgAddSlice ps from till c) st = fst (messages_add_slice ps from till c st)"
| "messages_step (MsgRemoveOne p) st = fst (messages_remove_one p st)"
| "messages_step MsgInvalidate st = messages_invalidate st"
| "messages_step MsgInvalidateBottom st = messages_invalidate_bottom st"

fun messages_spec :: "messages_op \<Rightarrow> message_position set \<Rightarrow> message_position set" where
  "messages_spec (MsgAddOne p) M = insert p M"
| "messages_spec (MsgAddNew p) M = insert p M"
| "messages_spec (MsgAddSlice ps from till c) M = M \<union> set ps"
| "messages_spec (MsgRemoveOne p) M = M - {p}"
| "messages_spec MsgInvalidate M = {}"
| "messages_spec MsgInvalidateBottom M = M"

definition position_ok :: "message_position \<Rightarrow> bool" where
  "position_ok p \<longleftrightarrow> MinMessagePosition \<le> p \<and> p \<le> MaxMessagePosition"

fun messages_op_ok :: "messages_op \<Rightarrow> bool" where
  "messages_op_ok (MsgAddOne p) \<longleftrightarrow> position_ok p"
| "messages_op_ok (MsgAddNew p) \<longleftrightarrow> position_ok p"
| "messages_op_ok (MsgAddSlice ps from till c) \<longleftrightarrow> MinMessagePosition \<le> from \<and> from \<le> till
     \<and> till \<le> MaxMessagePosition \<and> list_all (\<lambda>p. from \<le> p \<and> p \<le> till) ps"
| "messages_op_ok _ \<longleftrightarrow> True"

definition messages_new :: messages_list where
  "messages_new = \<lparr>ml_count = None, ml_slices = []\<rparr>"

lemma messages_step_refines:
  assumes "messages_inv st" "messages_op_ok op"
  shows "messages_inv (messages_step op st)
    \<and> messages_known (messages_step op st) = messages_spec op (messages_known st)"
proof (cases op)
  case (MsgAddOne p)
  then show ?thesis using assms messages_add_range_refines [of st p p "[p]" None True]
    by (simp add: messages_add_one_def position_ok_def)
next
  case (MsgAddNew p)
  then show ?thesis using assms messages_add_range_refines [of st p MaxMessagePosition "[p]" None True]
    by (simp add: messages_add_new_def position_ok_def)
next
  case (MsgAddSlice ps a b c)
  then have "set ps \<subseteq> {a..b}" using assms(2) by (auto simp: list_all_iff)
  then show ?thesis using MsgAddSlice assms messages_add_range_refines [of st a b ps c False]
    by (simp add: messages_add_slice_def)
next
  case MsgInvalidate
  then show ?thesis by (simp add: messages_invalidate_def messages_inv_def)
qed (use assms messages_remove_one_refines messages_invalidate_bottom_refines in simp_all)

interpretation messages_ref: refinement messages_inv "\<lambda>st. slices_messages (ml_slices st)" messages_step
  messages_spec messages_op_ok
  by unfold_locales (simp_all add: messages_step_refines)

lemma messages_query_window:
  assumes "messages_inv st" "position_set p" "0 \<le> before" "0 \<le> after" "p \<in> messages_covered st"
  shows "\<exists>s\<in>set (ml_slices st). p \<in> {sl_from s..sl_till s}
    \<and> set (sl_messages s) = messages_known st \<inter> {sl_from s..sl_till s}
    \<and> lr_ids (messages_query_current p before after st) =
        id_window p (nat before) (Suc (nat after)) (sl_messages s)"
proof -
  let ?xs = "ml_slices st"
  have inv: "slices_inv ?xs" using assms(1) by (simp add: messages_inv_def)
  obtain as m bs where 1: "?xs = as @ m # bs" "lower_till ?xs p = length as" "in_slice ?xs p"
      "p \<in> {sl_from m..sl_till m}"
    using slice_lookup [OF inv, of p] assms(5) by blast
  then have m: "m \<in> set ?xs" "?xs ! length as = m" "slice_ok m" "length as < length ?xs"
    using inv by (auto simp: slices_inv_append slices_inv_Cons)
  have "lr_ids (messages_query_current p before after st) =
      id_window p (nat before) (Suc (nat after)) (sl_messages m)"
    using 1(2,4) m(2-4) assms(2-4)
    by (simp add: messages_query_current_def messages_query_slice_def Let_def query_from_slice_ids slice_ok_def)
  then show ?thesis
    using m 1(4) slices_messages_in [OF inv m(1)] by blast
qed

text \<open>What \<^verbatim>\<open>snapshot\<close> calls nearest, in a sorted list.\<close>

lemma find_least:
  assumes "fs_inv (<) (xs :: 'a::linorder list)"
  shows "List.find (\<lambda>x. k \<le> x) xs = (if {x \<in> set xs. k \<le> x} = {} then None else Some (Min {x \<in> set xs. k \<le> x}))"
  using assms
proof (induction xs)
  case (Cons x xs)
  then have gt: "\<forall>y\<in>set xs. x < y" "fs_inv (<) xs" by (simp_all add: fs_inv_def)
  show ?case
  proof (cases "k \<le> x")
    case True
    have "Min {y \<in> set (x # xs). k \<le> y} = x"
      by (rule Min_eqI) (use True gt in auto)
    then show ?thesis using True by auto
  next
    case False
    then have "{y \<in> set (x # xs). k \<le> y} = {y \<in> set xs. k \<le> y}" by auto
    then show ?thesis using Cons.IH gt(2) False by simp
  qed
qed simp

lemma slice_to_limits_key [simp]: "sb_key (slice_to_limits t b) = sb_key b"
  by (simp add: slice_to_limits_def Let_def split: prod.splits)

lemma merge_slice_key: "sb_key (merge_slice_data t c ms x y b) = sb_key b"
  by (simp add: merge_slice_data_def fill_skipped_and_slice_def Let_def)

lemma messages_snapshot_nearest:
  assumes "fs_inv (<) w" "sb_ids b = w" "sb_key b = k"
  shows "(\<forall>p\<in>set w. k \<le> p \<longrightarrow> (\<forall>q\<in>set w. k \<le> q \<longrightarrow> p \<le> q) \<longrightarrow> ms_nearest (messages_snapshot b) = mp_full p)
    \<and> (w \<noteq> [] \<longrightarrow> last w < k \<longrightarrow> ms_nearest (messages_snapshot b) = mp_full (last w))"
proof (intro conjI ballI impI)
  fix p assume p: "p \<in> set w" "k \<le> p" "\<forall>q\<in>set w. k \<le> q \<longrightarrow> p \<le> q"
  have "Min {x \<in> set w. k \<le> x} = p"
    by (rule Min_eqI) (use p in auto)
  then show "ms_nearest (messages_snapshot b) = mp_full p"
    using p find_least [OF assms(1), of k] assms(2,3) by (auto simp: messages_snapshot_def)
next
  assume w: "w \<noteq> []" "last w < k"
  have "\<not> k \<le> x" if "x \<in> set w" for x
    using less_order.fms_inv_last [OF less_order.fs_inv_fms_inv [OF assms(1)] that] w(2) by simp
  then have "List.find (\<lambda>x. k \<le> x) w = None"
    by (simp add: find_None_iff)
  then show "ms_nearest (messages_snapshot b) = mp_full (last w)"
    using w(1) assms(2,3) by (simp add: messages_snapshot_def)
qed

section \<open>Properties\<close>



text \<open>C29: \<^verbatim>\<open>removeLessThan\<close> forgets every message below the position, keeps every
  message above it, and lowers the count by as many as it forgot; the message at the position
  itself is kept, unless a slice ends there: then it is forgotten too.\<close>

theorem messages_remove_less_than:
  assumes "messages_inv st"
  shows "messages_inv (messages_remove_less p st)
    \<and> messages_known (messages_remove_less p st) = {x \<in> messages_known st. p < x
        \<or> (x = p \<and> (\<forall>s\<in>set (ml_slices st). sl_till s \<noteq> p))}
    \<and> ml_count (messages_remove_less p st) = map_option (\<lambda>c. c - (int (card (messages_known st))
        - int (card (messages_known (messages_remove_less p st))))) (ml_count st)"
  using remove_less_loop_refines [of "ml_slices st" p 0] assms
  by (simp add: messages_inv_def messages_remove_less_def split_beta kept_from_def split: option.splits)

lemma messages_remove_less_than_witness:
  "messages_known (messages_remove_less (MessagePosition (FullMsgId 5 7) 100) \<lparr>ml_count = Some 2, ml_slices =
     [\<lparr>sl_messages = [MessagePosition (FullMsgId 5 3) 90, MessagePosition (FullMsgId 5 7) 100],
       sl_from = MessagePosition (FullMsgId 5 3) 90, sl_till = MessagePosition (FullMsgId 5 7) 100\<rparr>]\<rparr>) = {}"
  using messages_remove_less_than [of "\<lparr>ml_count = Some 2, ml_slices =
     [\<lparr>sl_messages = [MessagePosition (FullMsgId 5 3) 90, MessagePosition (FullMsgId 5 7) 100],
       sl_from = MessagePosition (FullMsgId 5 3) 90, sl_till = MessagePosition (FullMsgId 5 7) 100\<rparr>]\<rparr>"
     "MessagePosition (FullMsgId 5 7) 100"]
  by (auto simp: messages_inv_def slices_inv_Cons slice_ok_def fs_inv_def MinMessagePosition_def
      MaxMessagePosition_def MaxDate_def less_eq_message_position_def less_message_position_def)

text \<open>A viewer of the list whose position lies in a slice shows, after the list's answer to its
  query, exactly the window of known messages around the position, and calls nearest the first
  known message at or after it if the window holds one, the last one of the window otherwise.\<close>

theorem messages_viewer_shows_window:
  assumes "messages_inv st" "position_set (sb_key b)" "sb_key b \<in> messages_covered st" "sb_ids b = []"
    "0 \<le> sb_limit_before b" "0 \<le> sb_limit_after b"
  shows "\<exists>s\<in>set (ml_slices st). sb_key b \<in> {sl_from s..sl_till s}
    \<and> set (sl_messages s) = messages_known st \<inter> {sl_from s..sl_till s}
    \<and> (let r = messages_query_current (sb_key b) (sb_limit_before b) (sb_limit_after b) st;
           w = id_window (sb_key b) (nat (sb_limit_before b)) (Suc (nat (sb_limit_after b))) (sl_messages s);
           shown = messages_snapshot (messages_apply_initial r b) in
       ms_ids shown = map mp_full w
       \<and> (\<forall>p\<in>set w. sb_key b \<le> p \<longrightarrow> (\<forall>q\<in>set w. sb_key b \<le> q \<longrightarrow> p \<le> q) \<longrightarrow> ms_nearest shown = mp_full p)
       \<and> (w \<noteq> [] \<longrightarrow> last w < sb_key b \<longrightarrow> ms_nearest shown = mp_full (last w)))"
proof -
  let ?k = "sb_key b"
  let ?r = "messages_query_current ?k (sb_limit_before b) (sb_limit_after b) st"
  obtain s where s: "s \<in> set (ml_slices st)" "?k \<in> {sl_from s..sl_till s}"
    "set (sl_messages s) = messages_known st \<inter> {sl_from s..sl_till s}"
    "lr_ids ?r = id_window ?k (nat (sb_limit_before b)) (Suc (nat (sb_limit_after b))) (sl_messages s)"
    using messages_query_window [OF assms(1,2,5,6,3)] by blast
  define w where "w = id_window ?k (nat (sb_limit_before b)) (Suc (nat (sb_limit_after b))) (sl_messages s)"
  have inv: "fs_inv (<) w"
    unfolding w_def by (rule id_window_sorted)
      (use assms(1) s(1) in \<open>auto simp: messages_inv_def slices_inv_def slice_ok_def\<close>)
  have "it_set message_traits ?k" "fs_inv (<) (sb_ids b)"
    using assms(2,4) by (simp_all add: message_traits_def fs_inv_def)
  from merge_slice_window [OF this(2) inv this(1) assms(5,6), of "lr_count ?r" "lr_skipped_before ?r" "lr_skipped_after ?r"]
  obtain us where us: "fs_inv (<) us" "set us = set w" "sb_ids (messages_apply_initial ?r b) =
      id_window ?k (nat (sb_limit_before b)) (Suc (nat (sb_limit_after b))) us"
    using s(4) assms(4) unfolding messages_apply_initial_def messages_merge_data_def w_def [symmetric] by auto
  have "us = w" by (rule less_order.fs_unique [OF us(1) inv us(2)])
  then have ids: "sb_ids (messages_apply_initial ?r b) = w"
    using us(3) unfolding w_def by (simp only: id_window_idem)
  have key: "sb_key (messages_apply_initial ?r b) = ?k"
    by (simp add: messages_apply_initial_def messages_merge_data_def merge_slice_key)
  have "ms_ids (messages_snapshot (messages_apply_initial ?r b)) = map mp_full w"
    by (simp add: messages_snapshot_def ids)
  then have ?thesis if "w = id_window ?k (nat (sb_limit_before b)) (Suc (nat (sb_limit_after b))) (sl_messages s)"
    using s(1-3) messages_snapshot_nearest [OF inv ids key] unfolding Let_def that by blast
  then show ?thesis using w_def by blast
qed

lemma messages_viewer_shows_window_witness:
  "\<exists>s\<in>set [\<lparr>sl_messages = [MessagePosition (FullMsgId 5 3) 90], sl_from = MinMessagePosition,
      sl_till = MaxMessagePosition\<rparr>].
    ms_ids (messages_snapshot (messages_apply_initial (messages_query_current (MessagePosition (FullMsgId 5 3) 90) 1 1
       \<lparr>ml_count = None, ml_slices = [\<lparr>sl_messages = [MessagePosition (FullMsgId 5 3) 90],
          sl_from = MinMessagePosition, sl_till = MaxMessagePosition\<rparr>]\<rparr>)
     \<lparr>sb_key = MessagePosition (FullMsgId 5 3) 90, sb_ids = [], sb_full = None, sb_before = None, sb_after = None,
      sb_limit_before = 1, sb_limit_after = 1, sb_requests = []\<rparr>)) =
    map mp_full (id_window (MessagePosition (FullMsgId 5 3) 90) 1 (Suc 1) (sl_messages s))"
  using messages_viewer_shows_window [of "\<lparr>ml_count = None, ml_slices = [\<lparr>sl_messages =
          [MessagePosition (FullMsgId 5 3) 90], sl_from = MinMessagePosition, sl_till = MaxMessagePosition\<rparr>]\<rparr>"
     "\<lparr>sb_key = MessagePosition (FullMsgId 5 3) 90, sb_ids = [], sb_full = None, sb_before = None, sb_after = None,
      sb_limit_before = 1, sb_limit_after = 1, sb_requests = []\<rparr>"]
  by (simp add: messages_inv_def slices_inv_Cons slice_ok_def fs_inv_def MinMessagePosition_def
      MaxMessagePosition_def MaxDate_def less_eq_message_position_def less_message_position_def
      position_set_def Let_def)

end
