(* ===== verification/DownloadQueue.thy ===== *)
theory DownloadQueue imports Prelude "HOL-Library.Multiset" begin

text \<open>
  \<^verbatim>\<open>DownloadManagerMtproto::Queue\<close> of \<^verbatim>\<open>storage/download_manager_mtproto\<close>:
  the tasks of a data center that wait for a part to be requested, highest priority first. A task
  is a number, whether it is ready is asked through a predicate; a failed \<^verbatim>\<open>Assert\<close> is
  \<open>None\<close>.
\<close>

section \<open>Operations\<close>

record enqueued =
  en_task :: nat
  en_priority :: int

definition queue_enqueue :: "enqueued list \<Rightarrow> nat \<Rightarrow> int \<Rightarrow> enqueued list" where
  "queue_enqueue tasks task priority =
     (let position = find_index (\<lambda>e. en_priority e \<le> priority) tasks;
          now = find_index (\<lambda>e. en_task e = task) tasks;
          (tasks, i) =
            (if now \<noteq> length tasks then (tasks[now := (tasks ! now)\<lparr> en_priority := priority \<rparr>], now)
             else (tasks @ [\<lparr>en_task = task, en_priority = priority\<rparr>], length tasks)) in
      if position < i then rotate_range position i (Suc i) tasks
      else if Suc i < position then rotate_range i (Suc i) position tasks
      else tasks)"

definition queue_remove :: "enqueued list \<Rightarrow> nat \<Rightarrow> enqueued list" where
  "queue_remove tasks task = filter (\<lambda>e. en_task e \<noteq> task) tasks"

fun reset_from :: "enqueued list \<Rightarrow> enqueued list option" where
  "reset_from [] = Some []"
| "reset_from (e # es) =
     (if en_priority e \<noteq> 0 then (if en_priority e = -1 then Some (e # es) else None)
      else map_option (\<lambda>es. e\<lparr> en_priority := -1 \<rparr> # es) (reset_from es))"

definition queue_reset :: "enqueued list \<Rightarrow> enqueued list option" where
  "queue_reset tasks =
     (let from = find_index (\<lambda>e. en_priority e = 0) tasks in
      map_option (\<lambda>es. take from tasks @ es) (reset_from (drop from tasks)))"

definition queue_next :: "(nat \<Rightarrow> bool) \<Rightarrow> enqueued list \<Rightarrow> bool \<Rightarrow> nat option" where
  "queue_next ready tasks onlyHighestPriority =
     (if tasks = [] then None
      else
        let highest = en_priority (hd tasks);
            till = (if onlyHighestPriority \<and> 0 < highest
              then find_index (\<lambda>e. en_priority e \<noteq> highest) tasks else length tasks);
            first = find_index (\<lambda>e. ready (en_task e)) (take till tasks) in
        if first \<noteq> till then Some (en_task (tasks ! first)) else None)"

section \<open>Order\<close>

text \<open>Highest priority first, and every task once.\<close>

definition queue_inv :: "enqueued list \<Rightarrow> bool" where
  "queue_inv tasks \<longleftrightarrow> sorted_wrt (\<lambda>a b. en_priority b \<le> en_priority a) tasks
     \<and> distinct (map en_task tasks) \<and> (\<forall>e\<in>set tasks. -1 \<le> en_priority e)"

definition higher :: "int \<Rightarrow> enqueued list \<Rightarrow> enqueued list" where
  "higher p tasks = takeWhile (\<lambda>e. p < en_priority e) tasks"

definition not_higher :: "int \<Rightarrow> enqueued list \<Rightarrow> enqueued list" where
  "not_higher p tasks = dropWhile (\<lambda>e. p < en_priority e) tasks"

lemma find_priority: "find_index (\<lambda>e. en_priority e \<le> p) tasks = length (higher p tasks)"
  by (simp add: find_index_def higher_def not_le)

lemma higher_append: "higher p (as @ bs) = (if \<forall>e\<in>set as. p < en_priority e then as @ higher p bs else higher p as)"
  by (auto simp: higher_def)

lemma not_higher_append:
  "not_higher p (as @ bs) = (if \<forall>e\<in>set as. p < en_priority e then not_higher p bs else not_higher p as @ bs)"
  by (auto simp: not_higher_def dropWhile_append)

lemma higher_split [simp]: "higher p tasks @ not_higher p tasks = tasks"
  by (simp add: higher_def not_higher_def)

lemma enqueue_new:
  assumes "task \<notin> en_task ` set tasks"
  shows "queue_enqueue tasks task p = higher p tasks @ \<lparr>en_task = task, en_priority = p\<rparr> # not_higher p tasks"
proof -
  let ?e = "\<lparr>en_task = task, en_priority = p\<rparr>"
  have now: "find_index (\<lambda>e. en_task e = task) tasks = length tasks"
    by (rule find_index_none) (use assms in auto)
  have len: "length tasks = length (higher p tasks) + length (not_higher p tasks)"
    by (metis higher_split length_append)
  have rot: "rotate_range (length (higher p tasks)) (length tasks) (Suc (length tasks)) (tasks @ [?e]) =
      higher p tasks @ ?e # not_higher p tasks"
  proof -
    have "tasks @ [?e] = higher p tasks @ not_higher p tasks @ [?e] @ []"
      by (simp flip: append_assoc)
    then show ?thesis
      using rotate_range_append [of "length (higher p tasks)" "higher p tasks" "length tasks" "not_higher p tasks"
          "Suc (length tasks)" "[?e]" "[]"] len by (simp only:) simp
  qed
  have enq: "queue_enqueue tasks task p =
      (if length (higher p tasks) < length tasks
       then rotate_range (length (higher p tasks)) (length tasks) (Suc (length tasks)) (tasks @ [?e])
       else if Suc (length tasks) < length (higher p tasks)
       then rotate_range (length tasks) (Suc (length tasks)) (length (higher p tasks)) (tasks @ [?e])
       else tasks @ [?e])"
    unfolding queue_enqueue_def now find_priority Let_def by simp
  show ?thesis
  proof (cases "not_higher p tasks = []")
    case True
    then have "higher p tasks = tasks" using higher_split [of p tasks] by simp
    then show ?thesis using True enq by simp
  qed (use len enq rot in simp)
qed

lemma enqueue_known:
  assumes "queue_inv (as @ x # bs)" "en_task x = task"
  shows "queue_enqueue (as @ x # bs) task p =
    higher p (as @ bs) @ \<lparr>en_task = task, en_priority = p\<rparr> # not_higher p (as @ bs)"
proof -
  let ?e = "\<lparr>en_task = task, en_priority = p\<rparr>" and ?q = "as @ x # bs"
  have now: "find_index (\<lambda>e. en_task e = task) ?q = length as"
    by (rule find_index_append) (use assms distinct_map_other [of en_task as x bs] in \<open>auto simp: queue_inv_def\<close>)
  have e: "x\<lparr> en_priority := p \<rparr> = ?e"
    using assms(2) by simp
  have order: "\<forall>a\<in>set as. en_priority x \<le> en_priority a" "\<forall>b\<in>set bs. en_priority b \<le> en_priority x"
    using assms(1) by (auto simp: queue_inv_def sorted_wrt_append)
  have upd: "?q[length as := (?q ! length as)\<lparr> en_priority := p \<rparr>] = as @ ?e # bs"
    by (simp add: e)
  have enq: "queue_enqueue ?q task p =
     (if length (higher p ?q) < length as then rotate_range (length (higher p ?q)) (length as) (Suc (length as)) (as @ ?e # bs)
      else if Suc (length as) < length (higher p ?q)
      then rotate_range (length as) (Suc (length as)) (length (higher p ?q)) (as @ ?e # bs) else as @ ?e # bs)"
    unfolding queue_enqueue_def find_priority now Let_def upd by simp
  show ?thesis
  proof (cases "\<forall>a\<in>set as. p < en_priority a")
    case True
    show ?thesis
    proof (cases "p < en_priority x")
      case gt: True
      then have abv: "higher p ?q = as @ x # higher p bs"
        using True by (simp add: higher_append) (simp add: higher_def)
      have "rotate_range (length as) (Suc (length as)) (Suc (length as + length (higher p bs))) (as @ ?e # bs) =
          as @ higher p bs @ ?e # not_higher p bs"
        using rotate_range_append [of "length as" as "Suc (length as)" "[?e]" _ "higher p bs" "not_higher p bs"]
        by simp
      moreover have "higher p bs = [] \<Longrightarrow> bs = not_higher p bs"
        using higher_split [of p bs] by simp
      ultimately show ?thesis
        unfolding enq abv using True by (auto simp: higher_append not_higher_append)
    next
      case False
      then have "higher p ?q = as" "higher p bs = []" "not_higher p bs = bs"
        using True order by (auto simp: higher_append) (cases bs; force simp: higher_def not_higher_def)+
      then show ?thesis
        unfolding enq using True by (simp add: higher_append not_higher_append)
    qed
  next
    case False
    then have abv: "higher p ?q = higher p as" "length (higher p as) < length as"
      by (auto simp: higher_append) (auto simp: higher_def takeWhile_length_less_iff dropWhile_Nil_iff)
    have "rotate_range (length (higher p as)) (length as) (Suc (length as)) (as @ ?e # bs) =
        higher p as @ ?e # not_higher p as @ bs"
    proof -
      have "as @ ?e # bs = higher p as @ not_higher p as @ [?e] @ bs" "length as = length (higher p as) + length (not_higher p as)"
        by (simp flip: append_assoc, metis higher_split length_append)
      then show ?thesis
        using rotate_range_append [of "length (higher p as)" "higher p as" "length as" "not_higher p as"
            "Suc (length as)" "[?e]" bs] by (simp only:) simp
    qed
    then show ?thesis
      unfolding enq higher_append not_higher_append if_not_P [OF False] using abv(2) by simp
  qed
qed

lemma enqueue_eq:
  assumes "queue_inv tasks"
  shows "queue_enqueue tasks task p = higher p (queue_remove tasks task)
    @ \<lparr>en_task = task, en_priority = p\<rparr> # not_higher p (queue_remove tasks task)"
proof (cases "task \<in> en_task ` set tasks")
  case True
  then obtain as x bs where q: "tasks = as @ x # bs" "en_task x = task"
    by (metis imageE split_list)
  then have "\<forall>y\<in>set as \<union> set bs. en_task y \<noteq> task"
    using assms distinct_map_other [of en_task as x bs] by (simp add: queue_inv_def)
  then have "queue_remove tasks task = as @ bs"
    using q by (simp add: queue_remove_def filter_id_conv)
  then show ?thesis using enqueue_known [OF assms [unfolded q(1)] q(2)] q(1) by simp
next
  case False
  then have "queue_remove tasks task = tasks"
    by (auto simp: queue_remove_def filter_id_conv)
  then show ?thesis using enqueue_new [OF False] by simp
qed


lemma queue_inv_remove: "queue_inv tasks \<Longrightarrow> queue_inv (queue_remove tasks task)"
  by (auto simp: queue_inv_def queue_remove_def sorted_wrt_filter distinct_map_filter)

lemma higher_bounds:
  assumes "queue_inv tasks"
  shows "\<forall>e\<in>set (higher p tasks). p < en_priority e" "\<forall>e\<in>set (not_higher p tasks). en_priority e \<le> p"
proof -
  show "\<forall>e\<in>set (higher p tasks). p < en_priority e"
    by (auto simp: higher_def dest: set_takeWhileD)
  have "sorted_wrt (\<lambda>a b. en_priority b \<le> en_priority a) (not_higher p tasks)"
    using assms unfolding not_higher_def dropWhile_eq_drop by (simp add: queue_inv_def sorted_wrt_drop)
  moreover have "not_higher p tasks \<noteq> [] \<Longrightarrow> \<not> p < en_priority (hd (not_higher p tasks))"
    using hd_dropWhile [of "\<lambda>e. p < en_priority e" tasks] by (simp add: not_higher_def)
  ultimately show "\<forall>e\<in>set (not_higher p tasks). en_priority e \<le> p"
    by (cases "not_higher p tasks") (simp, fastforce)
qed

lemma queue_inv_enqueue:
  assumes "queue_inv tasks" "-1 \<le> p"
  shows "queue_inv (queue_enqueue tasks task p)"
proof -
  define q where "q = queue_remove tasks task"
  have q: "queue_inv q" "task \<notin> en_task ` set q"
    using queue_inv_remove [OF assms(1)] by (auto simp: q_def queue_remove_def)
  let ?e = "\<lparr>en_task = task, en_priority = p\<rparr>"
  have split: "sorted_wrt (\<lambda>a b. en_priority b \<le> en_priority a) (higher p q @ not_higher p q)"
    using q(1) by (simp add: queue_inv_def)
  have "sorted_wrt (\<lambda>a b. en_priority b \<le> en_priority a) (higher p q @ ?e # not_higher p q)"
    using higher_bounds [OF q(1), of p] by (intro sorted_wrt_insert_between [OF split]) (auto intro: less_imp_le)
  moreover have mset: "mset (higher p q @ ?e # not_higher p q) = mset (?e # q)"
    by (metis higher_split mset.simps(2) mset_append union_mset_add_mset_right)
  then have "set (higher p q @ ?e # not_higher p q) = insert ?e (set q)"
    by (metis list.simps(15) mset_eq_setD)
  moreover have "distinct (map en_task (higher p q @ ?e # not_higher p q))"
    using q by (metis (no_types, lifting) distinct.simps(2) enqueued.select_convs(1) image_set list.simps(9) mset
        mset_eq_imp_distinct_iff mset_map queue_inv_def)
  ultimately show ?thesis
    unfolding enqueue_eq [OF assms(1)] q_def [symmetric] using q(1) assms(2) by (simp add: queue_inv_def)
qed

lemma reset_from_eq:
  assumes "sorted_wrt (\<lambda>a b. en_priority b \<le> en_priority a) es" "\<forall>e\<in>set es. -1 \<le> en_priority e \<and> en_priority e \<le> 0"
  shows "reset_from es = Some (map (\<lambda>e. if en_priority e = 0 then e\<lparr> en_priority := -1 \<rparr> else e) es)"
  using assms
proof (induction es)
  case (Cons e es)
  show ?case
  proof (cases "en_priority e = 0")
    case False
    then have "\<forall>f\<in>set es. en_priority f \<noteq> 0" "en_priority e = -1"
      using Cons.prems by force+
    then show ?thesis by (simp add: map_idI)
  qed (use Cons in simp)
qed simp

text \<open>A new generation makes the tasks of priority \<open>0\<close> the last ones.\<close>

lemma queue_reset_eq:
  assumes "queue_inv tasks"
  shows "queue_reset tasks = Some (map (\<lambda>e. if en_priority e = 0 then e\<lparr> en_priority := -1 \<rparr> else e) tasks)"
proof -
  let ?n = "find_index (\<lambda>e. en_priority e = 0) tasks" and ?f = "\<lambda>e. if en_priority e = 0 then e\<lparr> en_priority := -1 \<rparr> else e"
  have first: "\<forall>e\<in>set (take ?n tasks). en_priority e \<noteq> 0"
    by (auto simp: find_index_def dest: set_takeWhileD)
  have "\<forall>e\<in>set (drop ?n tasks). en_priority e \<le> 0"
  proof (cases "?n < length tasks")
    case True
    then have "drop ?n tasks = tasks ! ?n # drop (Suc ?n) tasks"
      by (simp add: Cons_nth_drop_Suc)
    moreover have "sorted_wrt (\<lambda>a b. en_priority b \<le> en_priority a) (drop ?n tasks)"
      using assms by (simp add: queue_inv_def sorted_wrt_drop)
    ultimately show ?thesis
      using find_index_nth [OF True] by auto
  qed simp
  moreover have "\<forall>e\<in>set (drop ?n tasks). -1 \<le> en_priority e"
    using assms in_set_dropD unfolding queue_inv_def by fast
  ultimately have range: "\<forall>e\<in>set (drop ?n tasks). -1 \<le> en_priority e \<and> en_priority e \<le> 0" by blast
  have "sorted_wrt (\<lambda>a b. en_priority b \<le> en_priority a) tasks"
    using assms by (simp add: queue_inv_def)
  then have reset: "reset_from (drop ?n tasks) = Some (map ?f (drop ?n tasks))"
    by (rule reset_from_eq [OF sorted_wrt_drop range])
  have kept: "map ?f (take ?n tasks) = take ?n tasks"
  proof (rule map_idI)
    fix x assume "x \<in> set (take ?n tasks)"
    then have "en_priority x \<noteq> 0" using first by blast
    then show "?f x = x" by (rule if_not_P)
  qed
  have "queue_reset tasks = Some (take ?n tasks @ map ?f (drop ?n tasks))"
    unfolding queue_reset_def Let_def reset by (rule option.map(2))
  also have "take ?n tasks @ map ?f (drop ?n tasks) = map ?f (take ?n tasks @ drop ?n tasks)"
    unfolding map_append kept ..
  finally show ?thesis unfolding append_take_drop_id .
qed

lemma queue_inv_reset: "queue_inv tasks \<Longrightarrow> \<exists>q. queue_reset tasks = Some q \<and> queue_inv q"
proof -
  let ?f = "\<lambda>e. if en_priority e = 0 then e\<lparr> en_priority := -1 \<rparr> else e"
  assume inv: "queue_inv tasks"
  have "map en_task (map ?f tasks) = map en_task tasks" by simp
  moreover have "sorted_wrt (\<lambda>a b. en_priority (?f b) \<le> en_priority (?f a)) tasks"
    using inv unfolding queue_inv_def by (auto elim!: sorted_wrt_mono_rel [rotated])
  ultimately have "queue_inv (map ?f tasks)"
    using inv unfolding queue_inv_def by (auto simp: sorted_wrt_map simp del: map_map)
  then show ?thesis using queue_reset_eq [OF inv] by blast
qed

text \<open>What is chosen: a ready task that no other ready task may overtake.\<close>

lemma queue_next_chosen:
  assumes "queue_inv tasks"
  shows "case queue_next ready tasks onlyHighest of
      Some t \<Rightarrow> ready t \<and> (\<exists>e\<in>set tasks. en_task e = t
        \<and> (\<forall>f\<in>set tasks. ready (en_task f) \<longrightarrow> en_priority f \<le> en_priority e)
        \<and> (onlyHighest \<and> 0 < en_priority (hd tasks) \<longrightarrow> en_priority e = en_priority (hd tasks)))
    | None \<Rightarrow> (\<forall>f\<in>set tasks. ready (en_task f) \<longrightarrow>
        onlyHighest \<and> 0 < en_priority (hd tasks) \<and> en_priority f < en_priority (hd tasks))"
proof (cases tasks)
  case (Cons h hs)
  define highest where "highest = en_priority h"
  define till where "till = (if onlyHighest \<and> 0 < highest
      then find_index (\<lambda>e. en_priority e \<noteq> highest) tasks else length tasks)"
  have tl: "till \<le> length tasks" by (simp add: till_def)
  have order: "en_priority (tasks ! j) \<le> en_priority (tasks ! i)" if "i \<le> j" "j < length tasks" for i j
    using assms that sorted_wrt_nth_less [of "\<lambda>a b. en_priority b \<le> en_priority a" tasks i j]
    by (cases "i = j") (simp_all add: queue_inv_def)
  define first where "first = find_index (\<lambda>e. ready (en_task e)) (take till tasks)"
  have next_eq: "queue_next ready tasks onlyHighest = (if first \<noteq> till then Some (en_task (tasks ! first)) else None)"
    by (simp add: queue_next_def Let_def Cons first_def till_def highest_def)
  have rest: "onlyHighest \<and> 0 < highest \<and> en_priority (tasks ! j) < highest" if "till \<le> j" "j < length tasks" for j
  proof -
    have oh: "onlyHighest \<and> 0 < highest" "till = find_index (\<lambda>e. en_priority e \<noteq> highest) tasks"
      using that by (auto simp: till_def split: if_splits)
    then have "en_priority (tasks ! till) \<noteq> highest"
      using find_index_nth [of "\<lambda>e. en_priority e \<noteq> highest" tasks] that by simp
    moreover have "en_priority (tasks ! till) \<le> en_priority (tasks ! 0)" "en_priority (tasks ! j) \<le> en_priority (tasks ! till)"
      using order [of 0 till] order [OF that(1)] that by simp_all
    ultimately show ?thesis using oh(1) by (simp add: Cons highest_def)
  qed
  show ?thesis
  proof (cases "first \<noteq> till")
    case True
    then have lt: "first < till" "ready (en_task (tasks ! first))"
      using find_index_le [of "\<lambda>e. ready (en_task e)" "take till tasks"]
        find_index_nth [of "\<lambda>e. ready (en_task e)" "take till tasks"] tl
      by (auto simp: first_def)
    have best: "en_priority f \<le> en_priority (tasks ! first)" if f: "f \<in> set tasks" "ready (en_task f)" for f
    proof -
      obtain j where j: "j < length tasks" "tasks ! j = f" using f(1) by (auto simp: in_set_conv_nth)
      have "\<not> j < first"
        using find_index_before [of j "\<lambda>e. ready (en_task e)" "take till tasks"] f(2) j lt(1) by (auto simp: first_def)
      then show ?thesis using order [of first j] j by simp
    qed
    have top: "en_priority (tasks ! first) = highest" if "onlyHighest \<and> 0 < highest"
      using find_index_before [of first "\<lambda>e. en_priority e \<noteq> highest" tasks] lt(1) that by (simp add: till_def)
    have "tasks ! first \<in> set tasks" using lt(1) tl by simp
    then show ?thesis
      unfolding next_eq using True lt(2) best top by (auto simp: Cons highest_def)
  next
    case False
    have none: "\<not> ready (en_task (tasks ! j))" if "j < till" for j
      using find_index_before [of j "\<lambda>e. ready (en_task e)" "take till tasks"] False that tl by (simp add: first_def)
    have "onlyHighest \<and> 0 < highest \<and> en_priority f < highest" if f: "f \<in> set tasks" "ready (en_task f)" for f
    proof -
      obtain j where j: "j < length tasks" "tasks ! j = f" using f(1) by (auto simp: in_set_conv_nth)
      then show ?thesis using none [of j] rest [of j] f(2) by (cases "j < till") auto
    qed
    then show ?thesis
      unfolding next_eq using False by (auto simp: Cons highest_def)
  qed
qed (simp add: queue_next_def)

section \<open>Properties\<close>

datatype queue_op = QueueEnqueue nat int | QueueRemove nat | QueueResetGeneration

fun queue_run :: "queue_op list \<Rightarrow> enqueued list \<Rightarrow> enqueued list option" where
  "queue_run [] tasks = Some tasks"
| "queue_run (QueueEnqueue t p # ops) tasks = queue_run ops (queue_enqueue tasks t p)"
| "queue_run (QueueRemove t # ops) tasks = queue_run ops (queue_remove tasks t)"
| "queue_run (QueueResetGeneration # ops) tasks = Option.bind (queue_reset tasks) (queue_run ops)"

fun queue_op_ok :: "queue_op \<Rightarrow> bool" where
  "queue_op_ok (QueueEnqueue t p) \<longleftrightarrow> -1 \<le> p"
| "queue_op_ok _ \<longleftrightarrow> True"

lemma queue_run_inv:
  "queue_inv tasks \<Longrightarrow> list_all queue_op_ok ops \<Longrightarrow> \<exists>q. queue_run ops tasks = Some q \<and> queue_inv q"
proof (induction ops arbitrary: tasks)
  case (Cons op ops)
  then show ?case
  proof (cases op)
    case QueueResetGeneration
    then show ?thesis using Cons queue_inv_reset [OF Cons.prems(1)] by auto
  qed (use Cons queue_inv_enqueue queue_inv_remove in auto)
qed simp

text \<open>C16: after any sequence of enqueues (of priority \<open>-1\<close> or more), removals and generation
  resets no assertion has failed and every task is queued once, highest priority first; a task that
  is enqueued, new or moved by its two rotations, comes right after all tasks of a higher priority,
  before all others, whose order does not change.\<close>

theorem download_queue_keeps_priority_order:
  assumes "list_all queue_op_ok ops"
  shows "\<exists>q. queue_run ops [] = Some q \<and> queue_inv q
    \<and> (\<forall>t p. queue_enqueue q t p = filter (\<lambda>e. en_task e \<noteq> t \<and> p < en_priority e) q
          @ \<lparr>en_task = t, en_priority = p\<rparr> # filter (\<lambda>e. en_task e \<noteq> t \<and> en_priority e \<le> p) q)"
proof -
  obtain q where q: "queue_run ops [] = Some q" "queue_inv q"
    using queue_run_inv [OF _ assms, of "[]"] by (auto simp: queue_inv_def)
  have "queue_enqueue q t p = filter (\<lambda>e. en_task e \<noteq> t \<and> p < en_priority e) q
      @ \<lparr>en_task = t, en_priority = p\<rparr> # filter (\<lambda>e. en_task e \<noteq> t \<and> en_priority e \<le> p) q" for t p
  proof -
    let ?r = "queue_remove q t"
    note b = higher_bounds [OF queue_inv_remove [OF q(2)], of p t]
    have "filter (\<lambda>e. p < en_priority e) (higher p ?r @ not_higher p ?r) = higher p ?r"
      "filter (\<lambda>e. en_priority e \<le> p) (higher p ?r @ not_higher p ?r) = not_higher p ?r"
      using b by (auto simp: filter_empty_conv filter_id_conv simp del: higher_split)
    then show ?thesis
      unfolding enqueue_eq [OF q(2)] higher_split by (simp add: queue_remove_def)
  qed
  then show ?thesis using q by blast
qed

lemma download_queue_keeps_priority_order_witness:
  "\<exists>q. queue_run [QueueEnqueue 1 0, QueueEnqueue 2 5, QueueResetGeneration, QueueEnqueue 3 0, QueueEnqueue 2 0] [] = Some q
    \<and> queue_inv q"
  using download_queue_keeps_priority_order
    [of "[QueueEnqueue 1 0, QueueEnqueue 2 5, QueueResetGeneration, QueueEnqueue 3 0, QueueEnqueue 2 0]"]
  by auto

text \<open>C31: the next task is a ready one that no other ready task exceeds in priority; while something
  is already requested and the first task has a positive priority, only tasks of that priority are
  given out, and no task is given out only if none that may be is ready.\<close>

theorem download_queue_next_is_best:
  assumes "queue_inv tasks"
  shows "case queue_next ready tasks onlyHighest of
      Some t \<Rightarrow> ready t \<and> (\<exists>e\<in>set tasks. en_task e = t
        \<and> (\<forall>f\<in>set tasks. ready (en_task f) \<longrightarrow> en_priority f \<le> en_priority e)
        \<and> (onlyHighest \<and> 0 < en_priority (hd tasks) \<longrightarrow> en_priority e = en_priority (hd tasks)))
    | None \<Rightarrow> (\<forall>f\<in>set tasks. ready (en_task f) \<longrightarrow>
        onlyHighest \<and> 0 < en_priority (hd tasks) \<and> en_priority f < en_priority (hd tasks))"
  using queue_next_chosen [OF assms] .

lemma download_queue_next_is_best_witness:
  "queue_next (\<lambda>t. t = 4) [\<lparr>en_task = 3, en_priority = 5\<rparr>, \<lparr>en_task = 4, en_priority = 1\<rparr>] False = Some 4"
  using download_queue_next_is_best [of "[\<lparr>en_task = 3, en_priority = 5\<rparr>, \<lparr>en_task = 4, en_priority = 1\<rparr>]" "\<lambda>t. t = 4" False]
  by (auto simp: queue_inv_def split: option.splits)

end
