(* ===== verification/FileLoader.thy ===== *)
theory FileLoader imports Prelude "HOL-Library.Word" begin

text \<open>
  \<^verbatim>\<open>FileLoader\<close> (\<^verbatim>\<open>storage/file_download\<close>): a file that is put together in
  memory or on disk from the parts that arrive, with the local cache in front of it. The file
  system and the cache are the outside: whether \<^verbatim>\<open>QFile::open\<close> and
  \<^verbatim>\<open>QFile::write\<close> succeed, and the bytes an array or a file gets where it is extended,
  are parameters. Virtual functions, events and calls to other objects are effects that the
  operations return in order. Images, the session and the progress as a fraction are left out.
\<close>

section \<open>State\<close>

datatype failure_reason = NoFailure | FileWriteFailure | OtherFailure

datatype local_status = NotTried | NotFound | Loading | Loaded

datatype to_cache = LoadToFileOnly | LoadToCacheAsWell

datatype from_cloud = LoadFromLocalOnly | LoadFromCloudOrLocal

record file_loader =
  fl_finished :: bool
  fl_cancelled :: bool
  fl_status :: local_status
  fl_filename :: string
  fl_file :: bytes
  fl_open :: bool
  fl_readable :: bool
  fl_to_cache :: to_cache
  fl_from_cloud :: from_cloud
  fl_data :: bytes
  fl_load_size :: int
  fl_full_size :: int
  fl_skipped :: int
  fl_has_location :: bool
  fl_local_loading :: bool
  fl_auto_loading :: bool

datatype file_effect =
    CancelHook
  | StartLoading
  | StartLoadingWithPartial bytes
  | LoadLocal
  | Progress
  | LoaderDone
  | LoaderError failure_reason bool
  | Postprocess
  | WriteLocation string
  | CachePut bytes
  | TaskFinished

text \<open>What the outside answers: may the file be opened, does a write succeed, and what fills the
  gap when an array or a file is extended.\<close>

record file_env =
  fe_open :: bool
  fe_write :: bool
  fe_junk :: "nat \<Rightarrow> 8 word"

definition kMaxFileInMemory :: int where "kMaxFileInMemory = 10 * 1024 * 1024"

text \<open>The bytes of \<^verbatim>\<open>"partial:"\<close>.\<close>

definition partial_prefix :: bytes where
  "partial_prefix = [112, 97, 114, 116, 105, 97, 108, 58]"

definition starts_partial :: "bytes \<Rightarrow> bool" where
  "starts_partial data \<longleftrightarrow> take 8 data = partial_prefix"

section \<open>Operations\<close>

definition file_loader_new :: "string \<Rightarrow> int \<Rightarrow> int \<Rightarrow> bool \<Rightarrow> to_cache \<Rightarrow> from_cloud \<Rightarrow> bool
    \<Rightarrow> file_loader option" where
  "file_loader_new toFile loadSize fullSize hasLocation toCache fromCloud autoLoading =
     (if loadSize \<le> fullSize \<and> (toFile \<noteq> [] \<or> fullSize \<le> kMaxFileInMemory)
      then Some \<lparr>fl_finished = False, fl_cancelled = False, fl_status = NotTried, fl_filename = toFile,
        fl_file = [], fl_open = False, fl_readable = False, fl_to_cache = toCache, fl_from_cloud = fromCloud, fl_data = [],
        fl_load_size = loadSize, fl_full_size = fullSize, fl_skipped = 0, fl_has_location = hasLocation,
        fl_local_loading = False, fl_auto_loading = autoLoading\<rparr>
      else None)"

definition current_offset :: "file_loader \<Rightarrow> int" where
  "current_offset l = (if fl_open l then int (length (fl_file l)) else int (length (fl_data l))) - fl_skipped l"

definition close_file :: "file_loader \<Rightarrow> file_loader" where
  "close_file l = l\<lparr> fl_open := False \<rparr>"

definition file_cancel :: "failure_reason \<Rightarrow> file_loader \<Rightarrow> file_loader \<times> file_effect list" where
  "file_cancel fail l =
     (let started = (0 < current_offset l);
          l = l\<lparr> fl_cancelled := True, fl_finished := True,
                 fl_file := (if fl_open l then [] else fl_file l), fl_open := False, fl_data := [] \<rparr> in
      (l\<lparr> fl_filename := [] \<rparr>,
       [CancelHook, if fail \<noteq> NoFailure then LoaderError fail started else LoaderDone]))"

text \<open>\<^verbatim>\<open>QIODevice::WriteOnly\<close> truncates the file.\<close>

definition try_open :: "file_env \<Rightarrow> file_loader \<Rightarrow> file_loader" where
  "try_open env l = (if fl_open l then l else if fe_open env then l\<lparr> fl_open := True, fl_readable := False, fl_file := [] \<rparr> else l)"

text \<open>Bytes written at a position of an array or a file, which is extended as needed.\<close>

definition extend_to :: "(nat \<Rightarrow> 8 word) \<Rightarrow> nat \<Rightarrow> bytes \<Rightarrow> bytes" where
  "extend_to junk n data = data @ map junk [length data..<n]"

definition write_at :: "(nat \<Rightarrow> 8 word) \<Rightarrow> nat \<Rightarrow> bytes \<Rightarrow> bytes \<Rightarrow> bytes" where
  "write_at junk offset buffer data =
     (let data = extend_to junk offset data in
      take offset data @ buffer @ drop (offset + length buffer) data)"

definition finish_with_bytes :: "file_env \<Rightarrow> bytes \<Rightarrow> file_loader \<Rightarrow> file_loader \<times> file_effect list" where
  "finish_with_bytes env data l =
     (let l = l\<lparr> fl_data := data, fl_status := Loaded \<rparr>;
          save = (fl_filename l \<noteq> [] \<and> fl_to_cache l = LoadToCacheAsWell);
          l = (if save then try_open env l else l) in
      if save \<and> (\<not> fl_open l \<or> \<not> fe_write env) then file_cancel FileWriteFailure l
      else
        let l = (if save then l\<lparr> fl_file := write_at (fe_junk env) 0 data (fl_file l) \<rparr> else l);
            l = l\<lparr> fl_finished := True \<rparr> in
        (close_file l, (if fl_open l then [Postprocess] else []) @ [LoaderDone, TaskFinished]))"

definition set_file_name :: "string \<Rightarrow> file_loader \<Rightarrow> file_loader \<times> bool" where
  "set_file_name fileName l =
     (if fl_to_cache l \<noteq> LoadToCacheAsWell \<or> fl_filename l \<noteq> [] then (l, fileName = [] \<or> fileName = fl_filename l)
      else (l\<lparr> fl_filename := fileName \<rparr>, True))"

definition permit_load_from_cloud :: "file_loader \<Rightarrow> file_loader" where
  "permit_load_from_cloud l = l\<lparr> fl_from_cloud := LoadFromCloudOrLocal \<rparr>"

definition increase_load_size :: "int \<Rightarrow> bool \<Rightarrow> file_loader \<Rightarrow> file_loader option" where
  "increase_load_size sz autoLoading l =
     (if fl_load_size l < sz \<and> sz \<le> fl_full_size l
      then Some (l\<lparr> fl_load_size := sz, fl_auto_loading := autoLoading \<rparr>) else None)"

definition check_for_open :: "file_env \<Rightarrow> file_loader \<Rightarrow> file_loader \<times> bool \<times> file_effect list" where
  "check_for_open env l =
     (if fl_filename l = [] \<or> fl_to_cache l \<noteq> LoadToFileOnly \<or> fl_open l then (l, True, [])
      else
        let l = try_open env l in
        if fl_open l then (l, True, [])
        else let (l, effects) = file_cancel FileWriteFailure l in (l, False, effects))"

text \<open>\<open>hasKey\<close> tells if \<^verbatim>\<open>cacheKey()\<close> is not zero; \<^verbatim>\<open>loadLocal\<close>
  sets the guard and asks the cache, which answers later.\<close>

definition try_load_local :: "bool \<Rightarrow> file_loader \<Rightarrow> file_loader \<times> bool \<times> file_effect list" where
  "try_load_local hasKey l =
     (case fl_status l of
        NotFound \<Rightarrow> (l, False, [])
      | Loaded \<Rightarrow> (l, False, [])
      | Loading \<Rightarrow> (l, True, [])
      | NotTried \<Rightarrow>
          if fl_to_cache l = LoadToCacheAsWell \<and> hasKey
          then (l\<lparr> fl_local_loading := True, fl_status := Loading \<rparr>, True, [LoadLocal, Progress])
          else if fl_local_loading l then (l\<lparr> fl_status := Loading \<rparr>, True, [])
          else (l\<lparr> fl_status := NotFound \<rparr>, False, []))"

definition file_start :: "file_env \<Rightarrow> bool \<Rightarrow> file_loader \<Rightarrow> file_loader \<times> file_effect list" where
  "file_start env hasKey l =
     (if fl_finished l then (l, [])
      else
        let (l, loading, effects) = try_load_local hasKey l in
        if loading then (l, effects)
        else if fl_from_cloud l = LoadFromLocalOnly
        then let (l, more) = file_cancel NoFailure l in (l, effects @ more)
        else let (l, ok, more) = check_for_open env l in
          (l, effects @ more @ (if ok then [StartLoading] else [])))"

definition local_loaded :: "file_env \<Rightarrow> bool \<Rightarrow> bytes \<Rightarrow> file_loader \<Rightarrow> file_loader \<times> file_effect list" where
  "local_loaded env hasKey data l =
     (let l = l\<lparr> fl_local_loading := False \<rparr> in
      if data = [] then file_start env hasKey (l\<lparr> fl_status := NotFound \<rparr>)
      else if starts_partial data \<and> int (length data) < fl_load_size l + 8
      then
        let (l, ok, effects) = check_for_open env (l\<lparr> fl_status := NotFound \<rparr>) in
        (l, effects @ (if ok then [StartLoadingWithPartial data] else []))
      else finish_with_bytes env (if starts_partial data then drop 8 data else data) l)"

text \<open>\<^verbatim>\<open>writeResultPart\<close>; \<open>None\<close> where \<^verbatim>\<open>Expects(!_finished)\<close> fails.\<close>

definition write_result_part :: "file_env \<Rightarrow> int \<Rightarrow> bytes \<Rightarrow> file_loader
    \<Rightarrow> (file_loader \<times> bool \<times> file_effect list) option" where
  "write_result_part env offset buffer l =
     (if fl_finished l then None
      else if buffer = [] then Some (l, True, [])
      else if fl_open l then
        let fsize = int (length (fl_file l));
            l = (if offset < fsize then l\<lparr> fl_skipped := fl_skipped l - int (length buffer) \<rparr>
                 else if fsize < offset then l\<lparr> fl_skipped := fl_skipped l + (offset - fsize) \<rparr>
                 else l) in
        if fe_write env
        then Some (l\<lparr> fl_file := write_at (fe_junk env) (nat offset) buffer (fl_file l) \<rparr>, True, [])
        else let (l, effects) = file_cancel FileWriteFailure l in Some (l, False, effects)
      else
        let n = int (length (fl_data l));
            l = (if n < offset
              then l\<lparr> fl_skipped := fl_skipped l + (offset - n),
                      fl_data := extend_to (fe_junk env) (nat offset) (fl_data l) \<rparr> else l) in
        if offset = int (length (fl_data l)) then Some (l\<lparr> fl_data := fl_data l @ buffer \<rparr>, True, [])
        else
          let l = l\<lparr> fl_skipped := fl_skipped l - int (length buffer) \<rparr>;
              data = (if int (length (fl_data l)) < offset + int (length buffer)
                then extend_to (fe_junk env) (nat offset + length buffer) (fl_data l) else fl_data l) in
          Some (l\<lparr> fl_data := take (nat offset) data @ buffer @ drop (nat offset + length buffer) data \<rparr>, True, []))"

text \<open>A file that is open for writing only is opened again before it is read.\<close>

definition read_loaded_part_back :: "file_env \<Rightarrow> int \<Rightarrow> nat \<Rightarrow> file_loader
    \<Rightarrow> file_loader \<times> bytes \<times> file_effect list" where
  "read_loaded_part_back env offset sz l =
     (if fl_open l then
        if \<not> fl_readable l \<and> \<not> fe_open env
        then let (l, effects) = file_cancel FileWriteFailure (close_file l) in (l, [], effects)
        else
          let l = l\<lparr> fl_readable := True \<rparr>; result = take sz (drop (nat offset) (fl_file l)) in
          (l, if length result = sz then result else [], [])
      else (l, if offset + int sz \<le> int (length (fl_data l)) then take sz (drop (nat offset) (fl_data l)) else [], []))"

definition finalize_result :: "file_env \<Rightarrow> bool \<Rightarrow> file_loader
    \<Rightarrow> (file_loader \<times> bool \<times> file_effect list) option" where
  "finalize_result env hasKey l =
     (if fl_finished l then None
      else
        let save = (fl_filename l \<noteq> [] \<and> fl_to_cache l = LoadToCacheAsWell);
            l = (if save then try_open env l else l) in
        if save \<and> (\<not> fl_open l \<or> \<not> fe_write env)
        then let (l, effects) = file_cancel FileWriteFailure l in Some (l, False, effects)
        else
          let l = (if save then l\<lparr> fl_file := write_at (fe_junk env) 0 (fl_data l) (fl_file l) \<rparr> else l);
              closing = (if fl_open l then [Postprocess] else []);
              l = close_file (l\<lparr> fl_finished := True \<rparr>);
              stored = (if fl_status l = NotFound then
                  (if fl_has_location l \<and> fl_filename l \<noteq> [] then [WriteLocation (fl_filename l)] else [])
                  @ (if fl_to_cache l = LoadToCacheAsWell \<and> int (length (fl_data l)) \<le> kMaxFileInMemory \<and> hasKey
                     then [CachePut (if fl_full_size l = 0 \<or> int (length (fl_data l)) = fl_full_size l
                       then fl_data l else partial_prefix @ fl_data l)] else [])
                else []) in
          Some (l, True, closing @ stored @ [LoaderDone, TaskFinished]))"

section \<open>Putting a file together\<close>

definition contents :: "file_loader \<Rightarrow> bytes" where
  "contents l = (if fl_open l then fl_file l else fl_data l)"

lemma length_extend_to [simp]: "length (extend_to junk n data) = max n (length data)"
  by (simp add: extend_to_def max_def)

lemma extend_to_id: "n \<le> length data \<Longrightarrow> extend_to junk n data = data"
  by (simp add: extend_to_def)

lemma take_extend_to: "take (length data) (extend_to junk n data) = data"
  by (simp add: extend_to_def)

lemma length_write_at [simp]:
  "length (write_at junk n buffer data) = max (n + length buffer) (length data)"
  by (simp add: write_at_def Let_def max_def)

lemma write_at_here: "take (length buffer) (drop n (write_at junk n buffer data)) = buffer"
  by (simp add: write_at_def Let_def max_def)

text \<open>A write leaves alone what it does not overlap.\<close>

lemma write_at_there:
  assumes "m + k \<le> length data" "m + k \<le> n \<or> n + length buffer \<le> m"
  shows "take k (drop m (write_at junk n buffer data)) = take k (drop m data)"
proof (rule nth_equalityI)
  show "length (take k (drop m (write_at junk n buffer data))) = length (take k (drop m data))"
    using assms(1) by (auto simp: min_def max_def)
  fix i assume "i < length (take k (drop m (write_at junk n buffer data)))"
  then have i: "i < k" "m + i < length data" using assms(1) by auto
  have "extend_to junk n data ! (m + i) = data ! (m + i)"
    using i by (simp add: extend_to_def nth_append)
  then have "write_at junk n buffer data ! (m + i) = data ! (m + i)"
    using i assms by (auto simp: write_at_def Let_def nth_append min_def max_def not_less)
  then show "take k (drop m (write_at junk n buffer data)) ! i = take k (drop m data) ! i"
    using i assms(1) by (simp add: max_def)
qed

text \<open>Nothing else changes while parts are written.\<close>

definition same_mode :: "file_loader \<Rightarrow> file_loader \<Rightarrow> bool" where
  "same_mode l l' \<longleftrightarrow> fl_finished l' = fl_finished l \<and> fl_cancelled l' = fl_cancelled l
     \<and> fl_status l' = fl_status l \<and> fl_filename l' = fl_filename l \<and> fl_open l' = fl_open l
     \<and> fl_to_cache l' = fl_to_cache l \<and> fl_from_cloud l' = fl_from_cloud l
     \<and> fl_load_size l' = fl_load_size l \<and> fl_full_size l' = fl_full_size l
     \<and> fl_has_location l' = fl_has_location l
     \<and> (fl_open l \<longrightarrow> fl_data l' = fl_data l) \<and> (\<not> fl_open l \<longrightarrow> fl_file l' = fl_file l)"

lemma write_part_inside:
  assumes "\<not> fl_finished l" "fe_write env" "buffer \<noteq> []" "0 \<le> offset"
    "int (length (contents l)) \<le> offset \<or> offset + int (length buffer) \<le> int (length (contents l))"
  shows "\<exists>l'. write_result_part env offset buffer l = Some (l', True, []) \<and> same_mode l l'
    \<and> contents l' = write_at (fe_junk env) (nat offset) buffer (contents l)
    \<and> current_offset l' = current_offset l + int (length buffer)"
proof (cases "fl_open l")
  case True
  then show ?thesis
    using assms by (auto simp: write_result_part_def contents_def same_mode_def current_offset_def Let_def max_def)
next
  case mem: False
  have len: "int (length buffer) > 0" using assms(3) by simp
  consider "int (length (fl_data l)) \<le> offset" | "offset + int (length buffer) \<le> int (length (fl_data l))"
    using assms(5) mem by (auto simp: contents_def)
  then show ?thesis
  proof cases
    case 1
    have n: "length (fl_data l) \<le> nat offset" using 1 assms(4) by simp
    then have ext: "write_at (fe_junk env) (nat offset) buffer (fl_data l) =
        extend_to (fe_junk env) (nat offset) (fl_data l) @ buffer"
      by (simp add: write_at_def Let_def)
    show ?thesis
    proof (cases "int (length (fl_data l)) = offset")
      case True
      then show ?thesis
        using mem assms ext by (auto simp: write_result_part_def contents_def same_mode_def current_offset_def
            Let_def extend_to_id)
    next
      case False
      then show ?thesis
        using 1 mem assms ext by (auto simp: write_result_part_def contents_def same_mode_def current_offset_def
            Let_def max_def)
    qed
  next
    case 2
    then have "write_at (fe_junk env) (nat offset) buffer (fl_data l) =
        take (nat offset) (fl_data l) @ buffer @ drop (nat offset + length buffer) (fl_data l)"
      using len by (simp add: write_at_def Let_def extend_to_id)
    then show ?thesis
      using 2 len mem assms by (auto simp: write_result_part_def contents_def same_mode_def current_offset_def
          Let_def extend_to_id)
  qed
qed

type_synonym part = "nat \<times> bytes"

definition part_end :: "part \<Rightarrow> nat" where "part_end p = fst p + length (snd p)"

definition apart :: "part \<Rightarrow> part \<Rightarrow> bool" where
  "apart p q \<longleftrightarrow> part_end p \<le> fst q \<or> part_end q \<le> fst p"

text \<open>Parts handed to \<^verbatim>\<open>writeResultPart\<close> in the order they arrive.\<close>

fun feed_parts :: "file_env \<Rightarrow> part list \<Rightarrow> file_loader \<Rightarrow> file_loader option" where
  "feed_parts env [] l = Some l"
| "feed_parts env ((offset, buffer) # ps) l =
     (case write_result_part env (int offset) buffer l of
        Some (l, True, _) \<Rightarrow> feed_parts env ps l
      | _ \<Rightarrow> None)"

text \<open>What the loader holds when some parts have arrived.\<close>

definition holds_parts :: "part list \<Rightarrow> file_loader \<Rightarrow> bool" where
  "holds_parts ps l \<longleftrightarrow> (\<forall>p\<in>set ps. part_end p \<le> length (contents l)
       \<and> take (length (snd p)) (drop (fst p) (contents l)) = snd p)
     \<and> (contents l = [] \<or> (\<exists>p\<in>set ps. part_end p = length (contents l)))
     \<and> current_offset l = int (\<Sum>p\<leftarrow>ps. length (snd p))"

lemma holds_parts_step:
  assumes "holds_parts ps l" "\<not> fl_finished l" "fe_write env" "snd q \<noteq> []" "\<forall>p\<in>set ps. apart p q"
  shows "\<exists>l'. write_result_part env (int (fst q)) (snd q) l = Some (l', True, []) \<and> same_mode l l'
    \<and> holds_parts (ps @ [q]) l'"
proof -
  have place: "length (contents l) \<le> fst q \<or> part_end q \<le> length (contents l)"
  proof (cases "contents l = []")
    case False
    then obtain p where "p \<in> set ps" "part_end p = length (contents l)"
      using assms(1) by (auto simp: holds_parts_def)
    moreover from this have "apart p q" using assms(5) by blast
    moreover have "fst p \<le> part_end p" by (simp add: part_end_def)
    ultimately show ?thesis by (auto simp: apart_def)
  qed simp
  then have "int (length (contents l)) \<le> int (fst q)
      \<or> int (fst q) + int (length (snd q)) \<le> int (length (contents l))"
    by (auto simp: part_end_def)
  from write_part_inside [OF assms(2-4) _ this] obtain l' where
    l': "write_result_part env (int (fst q)) (snd q) l = Some (l', True, [])" "same_mode l l'"
    "contents l' = write_at (fe_junk env) (fst q) (snd q) (contents l)"
    "current_offset l' = current_offset l + int (length (snd q))"
    by auto
  have len: "length (contents l') = max (part_end q) (length (contents l))"
    by (simp add: l'(3) part_end_def)
  have old: "part_end p \<le> length (contents l') \<and> take (length (snd p)) (drop (fst p) (contents l')) = snd p"
    if p: "p \<in> set ps" for p
  proof -
    have "part_end p \<le> length (contents l)" "take (length (snd p)) (drop (fst p) (contents l)) = snd p" "apart p q"
      using assms(1,5) p by (auto simp: holds_parts_def)
    then show ?thesis
      using write_at_there [of "fst p" "length (snd p)" "contents l" "fst q" "snd q"] len
      by (auto simp: l'(3) part_end_def apart_def)
  qed
  have new: "part_end q \<le> length (contents l') \<and> take (length (snd q)) (drop (fst q) (contents l')) = snd q"
    using write_at_here [of "snd q" "fst q"] len by (simp add: l'(3))
  have ends: "\<exists>p\<in>set (ps @ [q]). part_end p = length (contents l')"
  proof (cases "part_end q \<le> length (contents l) \<and> contents l \<noteq> []")
    case True
    then show ?thesis using assms(1) len by (auto simp: holds_parts_def)
  next
    case False
    then have "length (contents l') = part_end q" using len by auto
    then show ?thesis by simp
  qed
  have "holds_parts (ps @ [q]) l'"
    using old new ends assms(1) l'(4) by (auto simp: holds_parts_def)
  then show ?thesis using l'(1,2) by blast
qed

lemma same_mode_trans: "same_mode a b \<Longrightarrow> same_mode b c \<Longrightarrow> same_mode a c"
  by (simp add: same_mode_def)

lemma feed_parts_holds:
  assumes "holds_parts qs l" "\<not> fl_finished l" "fe_write env" "\<forall>p\<in>set ps. snd p \<noteq> []"
    "sorted_wrt apart (qs @ ps)"
  shows "\<exists>l'. feed_parts env ps l = Some l' \<and> same_mode l l' \<and> holds_parts (qs @ ps) l'"
  using assms
proof (induction ps arbitrary: qs l)
  case Nil
  then show ?case by (simp add: same_mode_def)
next
  case (Cons q ps)
  have "\<forall>p\<in>set qs. apart p q" using Cons.prems(5) by (simp add: sorted_wrt_append)
  then obtain l1 where l1: "write_result_part env (int (fst q)) (snd q) l = Some (l1, True, [])" "same_mode l l1"
    "holds_parts (qs @ [q]) l1"
    using holds_parts_step [OF Cons.prems(1-3), of q] Cons.prems(4) by auto
  have "\<not> fl_finished l1"
    using l1(2) Cons.prems(2) by (simp add: same_mode_def)
  then obtain l' where "feed_parts env ps l1 = Some l'" "same_mode l1 l'" "holds_parts ((qs @ [q]) @ ps) l'"
    using Cons.IH [OF l1(3) _ Cons.prems(3)] Cons.prems(4,5) by auto
  then show ?case
    using l1(1,2) same_mode_trans by (cases q) auto
qed

definition part_range :: "part \<Rightarrow> nat set" where "part_range p = {fst p..<part_end p}"

lemma card_part_ranges:
  "sorted_wrt apart ps \<Longrightarrow> card (\<Union>p\<in>set ps. part_range p) = (\<Sum>p\<leftarrow>ps. length (snd p))"
proof (induction ps)
  case (Cons p ps)
  have "part_range p \<inter> part_range q = {}" if "q \<in> set ps" for q
    using Cons.prems that by (auto simp: apart_def part_range_def)
  then have "part_range p \<inter> (\<Union>q\<in>set ps. part_range q) = {}" by blast
  moreover have "finite (\<Union>q\<in>set ps. part_range q)" by (simp add: part_range_def)
  ultimately have "card (\<Union>q\<in>set (p # ps). part_range q) = card (part_range p) + card (\<Union>q\<in>set ps. part_range q)"
    by (simp add: card_Un_disjoint part_range_def)
  then show ?case using Cons by (simp add: part_range_def part_end_def)
qed simp

text \<open>Parts of a file that together are as long as the file leave nothing out.\<close>

lemma parts_cover:
  assumes "sorted_wrt apart ps" "\<forall>p\<in>set ps. part_end p \<le> n" "(\<Sum>p\<leftarrow>ps. length (snd p)) = n" "i < n"
  shows "\<exists>p\<in>set ps. fst p \<le> i \<and> i < part_end p"
proof -
  have sub: "(\<Union>p\<in>set ps. part_range p) \<subseteq> {0..<n}"
    using assms(2) by (fastforce simp: part_range_def)
  have "(\<Union>p\<in>set ps. part_range p) = {0..<n}"
    using card_subset_eq [OF _ sub] card_part_ranges [OF assms(1)] assms(3) by simp
  then have "i \<in> (\<Union>p\<in>set ps. part_range p)" using assms(4) by simp
  then show ?thesis by (auto simp: part_range_def)
qed

lemma holds_all_parts:
  assumes "holds_parts ps l" "sorted_wrt apart ps" "\<forall>p\<in>set ps. part_end p \<le> length c \<and>
      take (length (snd p)) (drop (fst p) c) = snd p" "(\<Sum>p\<leftarrow>ps. length (snd p)) = length c"
  shows "contents l = c"
proof (rule nth_equalityI)
  have cover: "\<exists>p\<in>set ps. fst p \<le> i \<and> i < part_end p" if "i < length c" for i
    using parts_cover [OF assms(2) _ assms(4) that] assms(3) by blast
  have "length (contents l) \<le> length c"
    using assms(1,3) by (auto simp: holds_parts_def)
  moreover have "length c \<le> length (contents l)"
  proof (rule ccontr)
    assume "\<not> length c \<le> length (contents l)"
    then obtain p where "p \<in> set ps" "length (contents l) < part_end p"
      using cover [of "length (contents l)"] by auto
    then show False using assms(1) by (fastforce simp: holds_parts_def)
  qed
  ultimately show len: "length (contents l) = length c" by simp
  fix i assume "i < length (contents l)"
  then have "i < length c" using len by simp
  from cover [OF this] obtain p where p: "p \<in> set ps" "fst p \<le> i" "i < part_end p" by blast
  then obtain k where k: "i = fst p + k" "k < length (snd p)"
    by (metis add_less_cancel_left le_Suc_ex part_end_def)
  have a: "take (length (snd p)) (drop (fst p) (contents l)) = snd p" "part_end p \<le> length (contents l)"
    and b: "take (length (snd p)) (drop (fst p) c) = snd p" "part_end p \<le> length c"
    using assms(1,3) p(1) by (auto simp: holds_parts_def)
  have "contents l ! i = take (length (snd p)) (drop (fst p) (contents l)) ! k"
    using k a(2) by (simp add: part_end_def)
  also have "\<dots> = take (length (snd p)) (drop (fst p) c) ! k" by (simp only: a(1) b(1))
  also have "\<dots> = c ! i" using k b(2) by (simp add: part_end_def)
  finally show "contents l ! i = c ! i" .
qed

section \<open>Properties\<close>

text \<open>C36: the parts of a file that arrive in any order, each once, are put together to the file,
  whether it is built in memory or on disk; and at every moment the offset the loader reports is
  the number of bytes that have arrived, whatever gaps are left.\<close>

theorem file_parts_in_any_order:
  assumes "\<not> fl_finished l" "contents l = []" "fl_skipped l = 0" "fe_write env" "sorted_wrt apart ps"
    "\<forall>p\<in>set ps. snd p \<noteq> [] \<and> part_end p \<le> length c \<and> take (length (snd p)) (drop (fst p) c) = snd p"
    "(\<Sum>p\<leftarrow>ps. length (snd p)) = length c"
  shows "(\<exists>l'. feed_parts env ps l = Some l' \<and> contents l' = c \<and> same_mode l l')
    \<and> (\<forall>n. \<exists>l'. feed_parts env (take n ps) l = Some l'
        \<and> current_offset l' = int (\<Sum>p\<leftarrow>take n ps. length (snd p)))"
proof
  have start: "holds_parts [] l"
    using assms(2,3) by (auto simp: holds_parts_def current_offset_def contents_def split: if_splits)
  obtain l' where l': "feed_parts env ps l = Some l'" "same_mode l l'" "holds_parts ps l'"
    using feed_parts_holds [OF start assms(1,4), of ps] assms(5,6) by auto
  have "contents l' = c"
    using holds_all_parts [OF l'(3) assms(5) _ assms(7)] assms(6) by blast
  then show "\<exists>l'. feed_parts env ps l = Some l' \<and> contents l' = c \<and> same_mode l l'" using l' by blast
  show "\<forall>n. \<exists>l'. feed_parts env (take n ps) l = Some l'
      \<and> current_offset l' = int (\<Sum>p\<leftarrow>take n ps. length (snd p))"
  proof
    fix n
    have "\<forall>p\<in>set (take n ps). snd p \<noteq> []" "sorted_wrt apart (take n ps)"
      using assms(5,6) by (auto simp: sorted_wrt_take dest: in_set_takeD)
    then show "\<exists>l'. feed_parts env (take n ps) l = Some l'
        \<and> current_offset l' = int (\<Sum>p\<leftarrow>take n ps. length (snd p))"
      using feed_parts_holds [OF start assms(1,4), of "take n ps"] by (auto simp: holds_parts_def)
  qed
qed

definition sample_loader :: file_loader where
  "sample_loader = the (file_loader_new [] 5 5 False LoadToCacheAsWell LoadFromCloudOrLocal False)"

definition sample_env :: file_env where
  "sample_env = \<lparr>fe_open = True, fe_write = True, fe_junk = (\<lambda>_. 0)\<rparr>"

lemma file_parts_in_any_order_witness:
  "\<exists>l'. feed_parts sample_env [(4, [5]), (0, [1, 2]), (2, [3, 4])] sample_loader = Some l' \<and> contents l' = [1, 2, 3, 4, 5]"
  using file_parts_in_any_order [of sample_loader sample_env "[(4, [5]), (0, [1, 2]), (2, [3, 4])]" "[1, 2, 3, 4, 5]"]
  by (auto simp: sample_loader_def sample_env_def file_loader_new_def contents_def kMaxFileInMemory_def
      apart_def part_end_def)



end
