(* ===== verification/StreamQueue.thy ===== *)
theory StreamQueue imports FlatSet begin

text \<open>
  \<^verbatim>\<open>media/streaming/media_streaming_loader\<close>: the queue of the offsets a player asked
  for, the last generation first and by offset within a generation, and what makes a loaded part
  valid; and of \<^verbatim>\<open>media_streaming_loader_mtproto\<close> the statistics of the parts, from
  which the speed is estimated. \<^verbatim>\<open>_data\<close> is a \<^verbatim>\<open>flat_set\<close> with its own
  order. Times are \<^typ>\<open>int\<close>, \<open>0\<close> is no time.
\<close>

section \<open>The queue\<close>

datatype queue_entry = QueueEntry (qe_value: int) (qe_priority: int)

definition entry_before :: "queue_entry \<Rightarrow> queue_entry \<Rightarrow> bool" where
  "entry_before a b \<longleftrightarrow>
     (if qe_priority b < qe_priority a then True
      else if qe_priority a < qe_priority b then False
      else qe_value a < qe_value b)"

record stream_queue =
  pq_data :: "queue_entry list"
  pq_priority :: int

definition pq_new :: stream_queue where
  "pq_new = \<lparr>pq_data = [], pq_priority = 0\<rparr>"

definition pq_add :: "int \<Rightarrow> stream_queue \<Rightarrow> bool \<times> stream_queue" where
  "pq_add v q =
     (let i = find_index (\<lambda>e. qe_value e = v) (pq_data q); e = QueueEntry v (pq_priority q) in
      if i = length (pq_data q)
      then (True, q\<lparr> pq_data := fst (fs_insert entry_before (pq_data q) e) \<rparr>)
      else if qe_priority (pq_data q ! i) \<noteq> pq_priority q
      then (True, q\<lparr> pq_data := fst (fs_insert entry_before (erase_at i (pq_data q)) e) \<rparr>)
      else (False, q))"

definition pq_remove :: "int \<Rightarrow> stream_queue \<Rightarrow> bool \<times> stream_queue" where
  "pq_remove v q =
     (let i = find_index (\<lambda>e. qe_value e = v) (pq_data q) in
      if i = length (pq_data q) then (False, q) else (True, q\<lparr> pq_data := erase_at i (pq_data q) \<rparr>))"

definition pq_empty :: "stream_queue \<Rightarrow> bool" where
  "pq_empty q \<longleftrightarrow> pq_data q = []"

definition pq_front :: "stream_queue \<Rightarrow> int option" where
  "pq_front q = (if pq_data q = [] then None else Some (qe_value (hd (pq_data q))))"

definition pq_take :: "stream_queue \<Rightarrow> int option \<times> stream_queue" where
  "pq_take q = (if pq_data q = [] then (None, q)
     else (Some (qe_value (hd (pq_data q))), q\<lparr> pq_data := tl (pq_data q) \<rparr>))"

fun take_range_loop :: "int \<Rightarrow> int \<Rightarrow> queue_entry list \<Rightarrow> int list \<Rightarrow> int list \<times> queue_entry list" where
  "take_range_loop from till [] result = (result, [])"
| "take_range_loop from till (e # es) result =
     (if from \<le> qe_value e \<and> qe_value e < till
      then take_range_loop from till es (fst (fs_insert (<) result (qe_value e)))
      else let (result, es) = take_range_loop from till es result in (result, e # es))"

definition pq_take_range :: "int \<Rightarrow> int \<Rightarrow> stream_queue \<Rightarrow> int list \<times> stream_queue" where
  "pq_take_range from till q =
     (let (result, es) = take_range_loop from till (pq_data q) [] in (result, q\<lparr> pq_data := es \<rparr>))"

definition pq_clear :: "stream_queue \<Rightarrow> stream_queue" where
  "pq_clear q = q\<lparr> pq_data := [] \<rparr>"

definition pq_reset_priorities :: "stream_queue \<Rightarrow> stream_queue" where
  "pq_reset_priorities q = q\<lparr> pq_priority := pq_priority q + 1 \<rparr>"

definition kPartSize :: int where "kPartSize = 128 * 1024"
definition kFailedOffset :: int where "kFailedOffset = -1"

definition part_valid :: "int \<Rightarrow> nat \<Rightarrow> int \<Rightarrow> bool" where
  "part_valid offset n all \<longleftrightarrow> offset \<noteq> kFailedOffset \<and> (int n = kPartSize \<or> offset + int n = all)"

section \<open>Statistics\<close>

record stats_entry =
  st_start :: int
  st_end :: int
  st_offset :: int

definition kCheckStatsInterval :: int where "kCheckStatsInterval = 1000"
definition kInitialStatsWait :: int where "kInitialStatsWait = 5 * 1000"

text \<open>The loop of \<^verbatim>\<open>feedPart\<close>; the result tells if an entry was found.\<close>

fun finish_stats :: "int \<Rightarrow> int \<Rightarrow> stats_entry list \<Rightarrow> bool \<times> stats_entry list" where
  "finish_stats time offset [] = (False, [])"
| "finish_stats time offset (e # es) =
     (if st_offset e = offset \<and> st_start e < time then (True, e\<lparr> st_end := time \<rparr> # es)
      else let (found, es) = finish_stats time offset es in (found, e # es))"

fun erase_old_stats :: "int \<Rightarrow> stats_entry list \<Rightarrow> stats_entry list" where
  "erase_old_stats from [] = []"
| "erase_old_stats from (e # es) =
     (if from \<le> st_start e then e # es
      else if st_end e \<noteq> 0 \<and> st_end e < from then erase_old_stats from es
      else e # erase_old_stats from es)"

text \<open>The loop of \<^verbatim>\<open>checkStats\<close>: until when time was counted, how much, and how many bytes
  were received.\<close>

fun count_stats :: "int \<Rightarrow> stats_entry list \<Rightarrow> int \<Rightarrow> int \<Rightarrow> int \<Rightarrow> int \<times> int" where
  "count_stats time [] countedTill duration received = (duration, received)"
| "count_stats time (e # es) countedTill duration received =
     (let countedTill = (if countedTill < st_start e then st_start e else countedTill);
          till = (if st_end e \<noteq> 0 then st_end e else time);
          (duration, countedTill) =
            (if countedTill < till then (duration + (till - countedTill), till) else (duration, countedTill)) in
      count_stats time es countedTill duration (if st_end e \<noteq> 0 then received + kPartSize else received))"

record speed_estimate =
  se_bytes_per_second :: int
  se_unreliable :: bool

definition check_stats :: "int \<Rightarrow> stats_entry list \<Rightarrow> stats_entry list \<times> speed_estimate option" where
  "check_stats time stats =
     (let stats = erase_old_stats (time - kInitialStatsWait) stats in
      if stats = [] then (stats, None)
      else
        let (duration, received) = count_stats time stats (st_start (hd stats)) 0 0 in
        (stats, if duration \<noteq> 0 then Some
           \<lparr>se_bytes_per_second = max 0 (min (received * 1000 div duration) (64 * 1024 * 1024)),
            se_unreliable = (received < 3 * kPartSize)\<rparr> else None))"

section \<open>The queue as a map\<close>

interpretation by_priority: strict_total entry_before
  by unfold_locales (auto simp: entry_before_def queue_entry.expand split: if_splits)

definition pq_inv :: "stream_queue \<Rightarrow> bool" where
  "pq_inv q \<longleftrightarrow> fs_inv entry_before (pq_data q) \<and> distinct (map qe_value (pq_data q))
     \<and> (\<forall>e\<in>set (pq_data q). qe_priority e \<le> pq_priority q)"

text \<open>The generation in which an offset was last asked for.\<close>

definition pq_map :: "stream_queue \<Rightarrow> int \<Rightarrow> int option" where
  "pq_map q = map_of (map (\<lambda>e. (qe_value e, qe_priority e)) (pq_data q))"

lemma pq_map_Some:
  assumes "pq_inv q"
  shows "pq_map q v = Some p \<longleftrightarrow> QueueEntry v p \<in> set (pq_data q)"
proof -
  have "distinct (map fst (map (\<lambda>e. (qe_value e, qe_priority e)) (pq_data q)))"
    using assms by (simp add: pq_inv_def comp_def)
  from map_of_eq_Some_iff [OF this, of v p]
  have "pq_map q v = Some p \<longleftrightarrow> (\<exists>e\<in>set (pq_data q). v = qe_value e \<and> p = qe_priority e)"
    by (simp add: pq_map_def image_iff)
  also have "\<dots> \<longleftrightarrow> QueueEntry v p \<in> set (pq_data q)"
    by (metis queue_entry.collapse queue_entry.sel)
  finally show ?thesis .
qed

lemma pq_map_eqI:
  assumes "pq_inv q" "\<And>w p. QueueEntry w p \<in> set (pq_data q) \<longleftrightarrow> m w = Some p"
  shows "pq_map q = m"
  using pq_map_Some [OF assms(1)] assms(2) by (metis (no_types) ext option.exhaust)

lemma pq_map_None: "pq_inv q \<Longrightarrow> pq_map q v = None \<longleftrightarrow> (\<forall>e\<in>set (pq_data q). qe_value e \<noteq> v)"
  by (auto simp: pq_map_def map_of_eq_None_iff image_iff)

lemma distinct_values_erase:
  assumes "distinct (map f xs)" "i < length xs"
  shows "set (erase_at i xs) = {x \<in> set xs. f x \<noteq> f (xs ! i)}" "distinct (map f (erase_at i xs))"
proof -
  have xs: "xs = take i xs @ xs ! i # drop (Suc i) xs"
    using assms(2) by (simp add: id_take_nth_drop)
  have other: "\<forall>y\<in>set (take i xs) \<union> set (drop (Suc i) xs). f y \<noteq> f (xs ! i)"
    using distinct_map_other [of f "take i xs" "xs ! i" "drop (Suc i) xs"] assms(1) xs by metis
  have "set xs = insert (xs ! i) (set (take i xs) \<union> set (drop (Suc i) xs))"
    by (subst xs) auto
  then show "set (erase_at i xs) = {x \<in> set xs. f x \<noteq> f (xs ! i)}"
    using other by (auto simp: erase_at_def)
  have "distinct (map f (take i xs @ xs ! i # drop (Suc i) xs))" using assms(1) xs by simp
  then show "distinct (map f (erase_at i xs))" by (simp add: erase_at_def)
qed

lemma pq_insert_inv:
  assumes "fs_inv entry_before data" "distinct (map qe_value data)" "\<forall>e\<in>set data. qe_priority e \<le> p"
    "\<forall>e\<in>set data. qe_value e \<noteq> v"
  defines "ys \<equiv> fst (fs_insert entry_before data (QueueEntry v p))"
  shows "fs_inv entry_before ys \<and> distinct (map qe_value ys) \<and> set ys = insert (QueueEntry v p) (set data)"
proof -
  have ys: "fs_inv entry_before ys" "set ys = insert (QueueEntry v p) (set data)"
    unfolding ys_def using by_priority.fs_insert_keeps by_priority.fs_insert_set assms(1) by blast+
  have "inj_on qe_value (set data)" using assms(2) by (simp add: distinct_map)
  then have "inj_on qe_value (set ys)"
    unfolding ys(2) using assms(4) by (auto simp: inj_on_def)
  then show ?thesis
    using ys by_priority.fs_inv_distinct by (auto simp: distinct_map)
qed

lemma erase_sorted: "fs_inv entry_before xs \<Longrightarrow> fs_inv entry_before (erase_at i xs)"
  by (simp add: fs_inv_def sorted_wrt_erase_at)

lemma pq_add_refines:
  assumes "pq_inv q"
  shows "pq_inv (snd (pq_add v q)) \<and> pq_map (snd (pq_add v q)) = (pq_map q)(v \<mapsto> pq_priority q)
    \<and> fst (pq_add v q) = (pq_map q v \<noteq> Some (pq_priority q))"
proof -
  let ?d = "pq_data q" and ?i = "find_index (\<lambda>e. qe_value e = v) (pq_data q)" and ?p = "pq_priority q"
  have inv: "fs_inv entry_before ?d" "distinct (map qe_value ?d)" "\<forall>e\<in>set ?d. qe_priority e \<le> ?p"
    using assms by (simp_all add: pq_inv_def)
  show ?thesis
  proof (cases "?i = length ?d")
    case True
    then have none: "\<forall>e\<in>set ?d. qe_value e \<noteq> v"
      using find_index_less_iff [of "\<lambda>e. qe_value e = v" ?d] by auto
    note ins = pq_insert_inv [OF inv none]
    have new: "pq_map q v = None" using pq_map_None [OF assms] none by blast
    have "pq_inv (snd (pq_add v q))"
      using ins inv(3) True by (simp add: pq_add_def pq_inv_def)
    moreover from this have "pq_map (snd (pq_add v q)) = (pq_map q)(v \<mapsto> ?p)"
      using ins True new by (intro pq_map_eqI) (auto simp: pq_add_def simp flip: pq_map_Some [OF assms])
    ultimately show ?thesis using True new by (simp add: pq_add_def)
  next
    case False
    then have lt: "?i < length ?d" using find_index_le [of "\<lambda>e. qe_value e = v" ?d] by linarith
    then have v: "qe_value (?d ! ?i) = v" using find_index_nth by blast
    then have at: "pq_map q v = Some (qe_priority (?d ! ?i))"
      using pq_map_Some [OF assms] lt by (metis nth_mem queue_entry.collapse)
    show ?thesis
    proof (cases "qe_priority (?d ! ?i) = ?p")
      case True
      then show ?thesis using False assms at by (simp add: pq_add_def Let_def fun_upd_idem)
    next
      case other: False
      let ?e = "erase_at ?i ?d"
      have er: "set ?e = {x \<in> set ?d. qe_value x \<noteq> v}" "distinct (map qe_value ?e)" "fs_inv entry_before ?e"
        using distinct_values_erase [OF inv(2) lt] v erase_sorted [OF inv(1)] by simp_all
      have "\<forall>e\<in>set ?e. qe_priority e \<le> ?p" "\<forall>e\<in>set ?e. qe_value e \<noteq> v"
        using er(1) inv(3) by simp_all
      note ins = pq_insert_inv [OF er(3,2) this]
      have step: "snd (pq_add v q) = q\<lparr> pq_data := fst (fs_insert entry_before ?e (QueueEntry v ?p)) \<rparr>"
        using False other by (simp add: pq_add_def Let_def)
      have "pq_inv (snd (pq_add v q))"
        using ins inv(3) er(1) unfolding step by (simp add: pq_inv_def)
      moreover from this have "pq_map (snd (pq_add v q)) = (pq_map q)(v \<mapsto> ?p)"
        using ins er(1) unfolding step by (intro pq_map_eqI) (auto simp flip: pq_map_Some [OF assms])
      ultimately show ?thesis using False other at by (simp add: pq_add_def Let_def)
    qed
  qed
qed

lemma pq_remove_refines:
  assumes "pq_inv q"
  shows "pq_inv (snd (pq_remove v q)) \<and> pq_map (snd (pq_remove v q)) = (pq_map q)(v := None)
    \<and> fst (pq_remove v q) = (pq_map q v \<noteq> None)"
proof -
  let ?d = "pq_data q" and ?i = "find_index (\<lambda>e. qe_value e = v) (pq_data q)"
  have inv: "fs_inv entry_before ?d" "distinct (map qe_value ?d)" "\<forall>e\<in>set ?d. qe_priority e \<le> pq_priority q"
    using assms by (simp_all add: pq_inv_def)
  show ?thesis
  proof (cases "?i = length ?d")
    case True
    then have "\<forall>e\<in>set ?d. qe_value e \<noteq> v"
      using find_index_less_iff [of "\<lambda>e. qe_value e = v" ?d] by auto
    then have "pq_map q v = None" using pq_map_None [OF assms] by blast
    then show ?thesis using True assms by (simp add: pq_remove_def fun_upd_idem)
  next
    case False
    then have lt: "?i < length ?d" using find_index_le [of "\<lambda>e. qe_value e = v" ?d] by linarith
    then have v: "qe_value (?d ! ?i) = v" using find_index_nth by blast
    then have at: "pq_map q v \<noteq> None"
      using pq_map_None [OF assms] lt by auto
    have er: "set (erase_at ?i ?d) = {x \<in> set ?d. qe_value x \<noteq> v}" "distinct (map qe_value (erase_at ?i ?d))"
      "fs_inv entry_before (erase_at ?i ?d)"
      using distinct_values_erase [OF inv(2) lt] v erase_sorted [OF inv(1)] by simp_all
    have step: "snd (pq_remove v q) = q\<lparr> pq_data := erase_at ?i ?d \<rparr>"
      using False by (simp add: pq_remove_def Let_def)
    have "pq_inv (snd (pq_remove v q))"
      using er inv(3) unfolding step by (simp add: pq_inv_def)
    moreover from this have "pq_map (snd (pq_remove v q)) = (pq_map q)(v := None)"
      using er(1) unfolding step by (intro pq_map_eqI) (auto simp flip: pq_map_Some [OF assms])
    ultimately show ?thesis using False at by (simp add: pq_remove_def Let_def)
  qed
qed


lemma pq_take_refines:
  assumes "pq_inv q"
  shows "pq_inv (snd (pq_take q)) \<and> (case fst (pq_take q) of
      None \<Rightarrow> pq_map q = Map.empty \<and> snd (pq_take q) = q
    | Some v \<Rightarrow> pq_map (snd (pq_take q)) = (pq_map q)(v := None)
        \<and> (\<exists>p. pq_map q v = Some p \<and> (\<forall>w r. pq_map q w = Some r \<longrightarrow> r < p \<or> (r = p \<and> v \<le> w))))"
proof (cases "pq_data q")
  case Nil
  then show ?thesis using assms by (simp add: pq_take_def pq_map_def)
next
  case (Cons e es)
  have inv: "fs_inv entry_before (e # es)" "distinct (map qe_value (e # es))" "\<forall>x\<in>set (e # es). qe_priority x \<le> pq_priority q"
    using assms by (simp_all add: pq_inv_def Cons)
  have tl: "pq_inv (q\<lparr> pq_data := es \<rparr>)"
    using inv by (simp add: pq_inv_def fs_inv_def)
  have "pq_map (q\<lparr> pq_data := es \<rparr>) = (pq_map q)(qe_value e := None)"
  proof (rule pq_map_eqI [OF tl])
    have "\<forall>x\<in>set es. qe_value x \<noteq> qe_value e" using inv(2) by (auto simp: image_iff)
    then show "QueueEntry w p \<in> set (pq_data (q\<lparr> pq_data := es \<rparr>)) \<longleftrightarrow> ((pq_map q)(qe_value e := None)) w = Some p"
      for w p by (auto simp: pq_map_Some [OF assms] Cons)
  qed
  moreover have "pq_map q (qe_value e) = Some (qe_priority e)"
    by (simp add: pq_map_Some [OF assms] Cons)
  moreover have "r < qe_priority e \<or> (r = qe_priority e \<and> qe_value e \<le> w)" if "pq_map q w = Some r" for w r
  proof -
    have "QueueEntry w r = e \<or> QueueEntry w r \<in> set es"
      using that by (auto simp: pq_map_Some [OF assms] Cons)
    then have "QueueEntry w r = e \<or> entry_before e (QueueEntry w r)"
      using inv(1) by (auto simp: fs_inv_def)
    then show ?thesis by (cases e) (auto simp: entry_before_def split: if_splits)
  qed
  ultimately show ?thesis using tl Cons by (simp add: pq_take_def)
qed

lemma take_range_loop_eq:
  "fs_inv (<) result \<Longrightarrow> fs_inv (<) (fst (take_range_loop from till es result))
    \<and> set (fst (take_range_loop from till es result)) =
        set result \<union> {v \<in> qe_value ` set es. from \<le> v \<and> v < till}
    \<and> snd (take_range_loop from till es result) = filter (\<lambda>e. \<not> (from \<le> qe_value e \<and> qe_value e < till)) es"
proof (induction es arbitrary: result)
  case (Cons e es)
  have "fs_inv (<) (fst (fs_insert (<) result (qe_value e)))"
    "set (fst (fs_insert (<) result (qe_value e))) = insert (qe_value e) (set result)"
    using Cons.prems less_order.fs_insert_keeps less_order.fs_insert_set by blast+
  then show ?case
    using Cons.IH [of "fst (fs_insert (<) result (qe_value e))"] Cons.IH [OF Cons.prems]
    by (auto simp: split_beta Let_def)
qed simp

lemma pq_take_range_refines:
  assumes "pq_inv q"
  shows "pq_inv (snd (pq_take_range from till q))
    \<and> pq_map (snd (pq_take_range from till q)) = pq_map q |` (- {from..<till})
    \<and> sorted_wrt (<) (fst (pq_take_range from till q))
    \<and> set (fst (pq_take_range from till q)) = dom (pq_map q) \<inter> {from..<till}"
proof -
  let ?keep = "\<lambda>e. \<not> (from \<le> qe_value e \<and> qe_value e < till)"
  note loop = take_range_loop_eq [of "[]" "from" till "pq_data q"]
  have step: "snd (pq_take_range from till q) = q\<lparr> pq_data := filter ?keep (pq_data q) \<rparr>"
    using loop by (simp add: pq_take_range_def split_beta fs_inv_def)
  have inv: "pq_inv (snd (pq_take_range from till q))"
    using assms unfolding step by (auto simp: pq_inv_def fs_inv_def sorted_wrt_filter distinct_map_filter)
  have "pq_map (snd (pq_take_range from till q)) = pq_map q |` (- {from..<till})"
    unfolding step by (rule pq_map_eqI [OF inv [unfolded step]])
      (auto simp: restrict_map_def simp flip: pq_map_Some [OF assms])
  moreover have "dom (pq_map q) = qe_value ` set (pq_data q)"
    by (simp add: pq_map_def dom_map_of_conv_image_fst image_image)
  ultimately show ?thesis
    using inv loop by (auto simp: pq_take_range_def split_beta fs_inv_def)
qed

section \<open>The time counted by the statistics\<close>

definition stats_till :: "int \<Rightarrow> stats_entry \<Rightarrow> int" where
  "stats_till time e = (if st_end e \<noteq> 0 then st_end e else time)"

text \<open>The times at which some part was being loaded.\<close>

definition busy_times :: "int \<Rightarrow> stats_entry list \<Rightarrow> int set" where
  "busy_times time es = (\<Union>e\<in>set es. {st_start e..<stats_till time e})"

lemma count_stats_step:
  "(let (duration, countedTill) = (if k < t then (d + (t - k), t) else (d, k)) in
      count_stats time es countedTill duration r) =
    count_stats time es (max k t) (d + int (nat (t - k))) r"
  by (cases "k < t") simp_all

lemma count_stats_duration:
  "sorted_wrt (\<lambda>a b. st_start a \<le> st_start b) es \<Longrightarrow>
    fst (count_stats time es c d r) = d + int (card (\<Union>e\<in>set es. {max c (st_start e)..<stats_till time e}))"
proof (induction es arbitrary: c d r)
  case (Cons e es)
  let ?t = "stats_till time e" and ?c = "max c (st_start e)"
  let ?c2 = "max ?c ?t"
  have later: "\<forall>x\<in>set es. st_start e \<le> st_start x" using Cons.prems by simp
  have fin: "finite (\<Union>x\<in>set es. {max ?c2 (st_start x)..<stats_till time x})" by simp
  have split: "(\<Union>x\<in>set (e # es). {max c (st_start x)..<stats_till time x}) =
      {?c..<?t} \<union> (\<Union>x\<in>set es. {max ?c2 (st_start x)..<stats_till time x})"
    using later by (fastforce simp: max_def split: if_splits)
  have disj: "{?c..<?t} \<inter> (\<Union>x\<in>set es. {max ?c2 (st_start x)..<stats_till time x}) = {}"
    by auto
  have cards: "int (card ({?c..<?t} \<union> (\<Union>x\<in>set es. {max ?c2 (st_start x)..<stats_till time x}))) =
      int (nat (?t - ?c)) + int (card (\<Union>x\<in>set es. {max ?c2 (st_start x)..<stats_till time x}))"
    using card_Un_disjoint [OF _ fin disj] by simp
  have step: "fst (count_stats time (e # es) c d r) =
      fst (count_stats time es ?c2 (d + int (nat (?t - ?c))) (if st_end e \<noteq> 0 then r + kPartSize else r))"
  proof -
    have begun: "(if c < st_start e then st_start e else c) = ?c" by (simp add: max_def)
    have "count_stats time (e # es) c d r =
        (let (duration, countedTill) = (if ?c < ?t then (d + (?t - ?c), ?t) else (d, ?c)) in
         count_stats time es countedTill duration (if st_end e \<noteq> 0 then r + kPartSize else r))"
      unfolding count_stats.simps Let_def begun stats_till_def ..
    then show ?thesis by (simp only: count_stats_step)
  qed
  have sorted: "sorted_wrt (\<lambda>a b. st_start a \<le> st_start b) es" using Cons.prems by simp
  show ?case unfolding step Cons.IH [OF sorted] split cards by (rule add.assoc)
qed simp

lemma count_stats_received:
  "snd (count_stats time es c d r) = r + kPartSize * int (length (filter (\<lambda>e. st_end e \<noteq> 0) es))"
  by (induction es arbitrary: c d r) (simp_all add: Let_def split_beta algebra_simps)

lemma erase_old_sorted: "sorted_wrt R es \<Longrightarrow> sorted_wrt R (erase_old_stats from es)"
proof (induction es)
  case (Cons e es)
  have "set (erase_old_stats from es) \<subseteq> set es"
    by (induction es) auto
  then show ?case using Cons by auto
qed simp

section \<open>Properties\<close>



text \<open>The estimated speed is the bytes of the parts that arrived over the time during which at
  least one part was being loaded, overlaps counted once and pauses not at all, kept between zero
  and 64 megabytes a second; there is no estimate when there was no such time.\<close>

theorem stream_speed_over_busy_time:
  assumes "sorted_wrt (\<lambda>a b. st_start a \<le> st_start b) stats"
  shows "let es = erase_old_stats (time - kInitialStatsWait) stats;
             busy = int (card (busy_times time es));
             received = kPartSize * int (length (filter (\<lambda>e. st_end e \<noteq> 0) es)) in
    check_stats time stats = (es, if es = [] \<or> busy = 0 then None else Some
      \<lparr>se_bytes_per_second = max 0 (min (received * 1000 div busy) (64 * 1024 * 1024)),
       se_unreliable = (received < 3 * kPartSize)\<rparr>)"
proof -
  let ?es = "erase_old_stats (time - kInitialStatsWait) stats"
  have s: "sorted_wrt (\<lambda>a b. st_start a \<le> st_start b) ?es"
    using erase_old_sorted [OF assms] .
  have "(\<Union>e\<in>set ?es. {max (st_start (hd ?es)) (st_start e)..<stats_till time e}) = busy_times time ?es"
  proof -
    have "\<forall>e\<in>set ?es. st_start (hd ?es) \<le> st_start e" using s by (cases ?es) auto
    then show ?thesis unfolding busy_times_def by (simp add: max_absorb2)
  qed
  then have "fst (count_stats time ?es (st_start (hd ?es)) 0 0) = int (card (busy_times time ?es))"
    using count_stats_duration [OF s, of time "st_start (hd ?es)" 0 0] by simp
  moreover have "snd (count_stats time ?es (st_start (hd ?es)) 0 0) =
      kPartSize * int (length (filter (\<lambda>e. st_end e \<noteq> 0) ?es))"
    by (simp add: count_stats_received)
  ultimately show ?thesis
    by (simp add: check_stats_def Let_def split_beta)
qed

lemma stream_speed_over_busy_time_witness:
  "check_stats 4000 [\<lparr>st_start = 1000, st_end = 2000, st_offset = 0\<rparr>, \<lparr>st_start = 1500, st_end = 3000, st_offset = 131072\<rparr>] =
    ([\<lparr>st_start = 1000, st_end = 2000, st_offset = 0\<rparr>, \<lparr>st_start = 1500, st_end = 3000, st_offset = 131072\<rparr>],
     Some \<lparr>se_bytes_per_second = 131072, se_unreliable = True\<rparr>)"
proof -
  have "busy_times 4000 [\<lparr>st_start = 1000, st_end = 2000, st_offset = 0\<rparr>, \<lparr>st_start = 1500, st_end = 3000, st_offset = 131072\<rparr>] =
      {1000..<3000}"
    by (auto simp: busy_times_def stats_till_def)
  then show ?thesis
    using stream_speed_over_busy_time [of "[\<lparr>st_start = 1000, st_end = 2000, st_offset = 0\<rparr>,
        \<lparr>st_start = 1500, st_end = 3000, st_offset = 131072\<rparr>]" 4000]
    by (simp add: kInitialStatsWait_def kPartSize_def Let_def)
qed

end
