(* ===== verification/DownloadBalance.thy ===== *)
theory DownloadBalance imports Prelude begin

text \<open>
  The balance of \<^verbatim>\<open>DownloadManagerMtproto\<close> (\<^verbatim>\<open>storage/download_manager_mtproto\<close>)
  for one data center: how many bytes each session waits for, how much it may wait for, when
  sessions are added and removed. The current time is a parameter; a failed \<^verbatim>\<open>Assert\<close>
  is \<open>None\<close>. Times and amounts are \<^typ>\<open>int\<close>: they stay far below the bounds of
  their types.
\<close>

section \<open>Constants\<close>

definition kDownloadPartSize :: int where "kDownloadPartSize = 128 * 1024"
definition kKillSessionTimeout :: int where "kKillSessionTimeout = 15 * 1000"
definition kStartWaitedInSession :: int where "kStartWaitedInSession = 4 * kDownloadPartSize"
definition kMaxWaitedInSession :: int where "kMaxWaitedInSession = 16 * kDownloadPartSize"
definition kStartSessionsCount :: nat where "kStartSessionsCount = 1"
definition kMaxSessionsCount :: nat where "kMaxSessionsCount = 8"
definition kMaxTrackedSessionRemoves :: int where "kMaxTrackedSessionRemoves = 64"
definition kRetryAddSessionTimeout :: int where "kRetryAddSessionTimeout = 8 * 1000"
definition kRetryAddSessionSuccesses :: int where "kRetryAddSessionSuccesses = 3"
definition kMaxTrackedSuccesses :: int where
  "kMaxTrackedSuccesses = kRetryAddSessionSuccesses * kMaxTrackedSessionRemoves"
definition kRemoveSessionAfterTimeouts :: int where "kRemoveSessionAfterTimeouts = 4"
definition kResetDownloadPrioritiesTimeout :: int where "kResetDownloadPrioritiesTimeout = 200"
definition kBadRequestDurationThreshold :: int where "kBadRequestDurationThreshold = 8 * 1000"

lemmas download_constants = kDownloadPartSize_def kStartWaitedInSession_def kMaxWaitedInSession_def
  kStartSessionsCount_def kMaxSessionsCount_def kMaxTrackedSessionRemoves_def kRetryAddSessionSuccesses_def
  kMaxTrackedSuccesses_def kRemoveSessionAfterTimeouts_def

section \<open>State and operations\<close>

record session_balance =
  bs_requested :: int
  bs_successes :: int
  bs_max_waited :: int

definition session_balance_new :: session_balance where
  "session_balance_new = \<lparr>bs_requested = 0, bs_successes = 0, bs_max_waited = kStartWaitedInSession\<rparr>"

record dc_balance =
  dc_sessions :: "session_balance list"
  dc_last_remove :: int
  dc_remove_index :: int
  dc_remove_times :: int
  dc_timeouts :: int
  dc_total :: int

definition dc_balance_new :: dc_balance where
  "dc_balance_new = \<lparr>dc_sessions = replicate kStartSessionsCount session_balance_new, dc_last_remove = 0,
     dc_remove_index = 0, dc_remove_times = 0, dc_timeouts = 0, dc_total = 0\<rparr>"

text \<open>\<^verbatim>\<open>ranges::min_element\<close>: the first of the least elements.\<close>

fun min_element :: "int list \<Rightarrow> nat" where
  "min_element [] = 0"
| "min_element [x] = 0"
| "min_element (x # xs) = (let j = min_element xs in if x \<le> xs ! j then 0 else Suc j)"

definition session_room :: "session_balance \<Rightarrow> int" where
  "session_room s = (if bs_requested s < bs_max_waited s then bs_requested s else kMaxWaitedInSession)"

text \<open>The lambda \<^verbatim>\<open>bestIndex\<close> of \<^verbatim>\<open>trySendNextPart\<close>.\<close>

definition best_index :: "dc_balance \<Rightarrow> nat option" where
  "best_index dc =
     (let j = min_element (map session_room (dc_sessions dc)); s = dc_sessions dc ! j in
      if bs_requested s + kDownloadPartSize \<le> bs_max_waited s then Some j else None)"

definition choose_session :: "dc_balance \<Rightarrow> nat" where
  "choose_session dc = min_element (map bs_requested (dc_sessions dc))"

text \<open>The counters of \<^verbatim>\<open>changeRequestedAmount\<close>; the result is what the session waits for.\<close>

definition change_requested :: "nat \<Rightarrow> int \<Rightarrow> dc_balance \<Rightarrow> (dc_balance \<times> int) option" where
  "change_requested index delta dc =
     (if index < length (dc_sessions dc) then
        let s = dc_sessions dc ! index; result = bs_requested s + delta in
        Some (dc\<lparr> dc_sessions := (dc_sessions dc)[index := s\<lparr> bs_requested := result \<rparr>],
                  dc_total := dc_total dc + delta \<rparr>, result)
      else None)"

definition sessions_idle :: "dc_balance \<Rightarrow> bool" where
  "sessions_idle dc \<longleftrightarrow> (\<forall>s\<in>set (dc_sessions dc). \<not> 0 < bs_requested s)"

definition forget_successes :: "dc_balance \<Rightarrow> dc_balance" where
  "forget_successes dc = dc\<lparr> dc_sessions := map (\<lambda>s. s\<lparr> bs_successes := 0 \<rparr>) (dc_sessions dc) \<rparr>"

text \<open>A success in all sessions: forgive a timeout or add a session.\<close>

definition reward_sessions :: "int \<Rightarrow> dc_balance \<Rightarrow> dc_balance" where
  "reward_sessions now dc =
     (let dc = forget_successes dc in
      if 0 < dc_timeouts dc then dc\<lparr> dc_timeouts := dc_timeouts dc - 1 \<rparr>
      else if length (dc_sessions dc) = kMaxSessionsCount then dc
      else
        let delay = (dc_remove_times dc + 1) * kRetryAddSessionTimeout in
        if dc_last_remove dc \<noteq> 0 \<and> now < dc_last_remove dc + delay then dc
        else dc\<lparr> dc_sessions := dc_sessions dc @ [session_balance_new] \<rparr>)"

text \<open>What a good request earns its session: more to wait for, and a success.\<close>

definition credit_session :: "int \<Rightarrow> session_balance \<Rightarrow> session_balance" where
  "credit_session amountAtRequestStart d =
     (let d = (if amountAtRequestStart = bs_max_waited d \<and> bs_max_waited d < kMaxWaitedInSession
            then d\<lparr> bs_max_waited := min (bs_max_waited d + kDownloadPartSize) kMaxWaitedInSession \<rparr> else d) in
      d\<lparr> bs_successes := min (bs_successes d + 1) kMaxTrackedSuccesses \<rparr>)"

definition successes_missing :: "dc_balance \<Rightarrow> bool" where
  "successes_missing dc \<longleftrightarrow> list_ex (\<lambda>s. bs_successes s < (dc_remove_times dc + 1) * kRetryAddSessionSuccesses)
     (dc_sessions dc)"

text \<open>The second result of \<^verbatim>\<open>requestSucceeded\<close>: a session time out was posted to the main
  thread.\<close>

definition request_succeeded :: "int \<Rightarrow> nat \<Rightarrow> int \<Rightarrow> int \<Rightarrow> dc_balance \<Rightarrow> (dc_balance \<times> bool) option" where
  "request_succeeded now index amountAtRequestStart timeAtRequestStart dc =
     (if index < length (dc_sessions dc) then
        let d = dc_sessions dc ! index;
            overloaded = (timeAtRequestStart \<le> dc_last_remove dc \<or> bs_max_waited d < amountAtRequestStart);
            duration = now - timeAtRequestStart in
        if overloaded then Some (dc, False)
        else if kBadRequestDurationThreshold \<le> duration then Some (dc, True)
        else
          let dc = dc\<lparr> dc_sessions := (dc_sessions dc)[index := credit_session amountAtRequestStart d] \<rparr> in
          Some (if successes_missing dc then dc else reward_sessions now dc, False)
      else None)"

text \<open>\<^verbatim>\<open>sessionTimedOut\<close>; the second result tells to call \<^verbatim>\<open>removeSession\<close>.\<close>

definition session_timed_out :: "nat \<Rightarrow> dc_balance \<Rightarrow> dc_balance \<times> bool" where
  "session_timed_out index dc =
     (if length (dc_sessions dc) \<le> index then (dc, False)
      else
        let dc = forget_successes dc in
        if length (dc_sessions dc) = kStartSessionsCount then (dc, False)
        else
          let dc = dc\<lparr> dc_timeouts := dc_timeouts dc + 1 \<rparr> in
          if dc_timeouts dc < kRemoveSessionAfterTimeouts then (dc, False)
          else (dc\<lparr> dc_timeouts := 0 \<rparr>, True))"

text \<open>\<^verbatim>\<open>removeSession\<close> before and after its tasks are asked to leave the last session.\<close>

definition removal_amount :: int where
  "removal_amount = kMaxWaitedInSession * int kMaxSessionsCount"

definition remove_session_begin :: "dc_balance \<Rightarrow> (dc_balance \<times> nat) option" where
  "remove_session_begin dc =
     (if kStartSessionsCount < length (dc_sessions dc) then
        let index = length (dc_sessions dc) - 1;
            dc = (if dc_remove_index dc = int index
              then dc\<lparr> dc_remove_times := min (dc_remove_times dc + 1) kMaxTrackedSessionRemoves \<rparr>
              else dc\<lparr> dc_remove_index := int index, dc_remove_times := 1 \<rparr>);
            s = dc_sessions dc ! index in
        Some (dc\<lparr> dc_sessions := (dc_sessions dc)[index := s\<lparr> bs_requested := bs_requested s + removal_amount \<rparr>] \<rparr>,
          index)
      else None)"

definition remove_session_end :: "int \<Rightarrow> dc_balance \<Rightarrow> dc_balance option" where
  "remove_session_end now dc =
     (if dc_sessions dc \<noteq> [] \<and> bs_requested (last (dc_sessions dc)) = removal_amount
      then Some (dc\<lparr> dc_sessions := butlast (dc_sessions dc), dc_last_remove := now \<rparr>)
      else None)"

text \<open>\<^verbatim>\<open>killSessions\<close> for one data center.\<close>

definition kill_balance :: "dc_balance \<Rightarrow> dc_balance option" where
  "kill_balance dc =
     (if dc_total dc = 0 \<and> (\<forall>s\<in>set (dc_sessions dc). bs_requested s = 0)
      then Some (dc_balance_new\<lparr> dc_sessions := map (\<lambda>s. session_balance_new) (dc_sessions dc) \<rparr>)
      else None)"

section \<open>Lemmas\<close>

definition session_ok :: "session_balance \<Rightarrow> bool" where
  "session_ok s \<longleftrightarrow> 0 \<le> bs_successes s \<and> bs_successes s \<le> kMaxTrackedSuccesses
     \<and> kStartWaitedInSession \<le> bs_max_waited s \<and> bs_max_waited s \<le> kMaxWaitedInSession
     \<and> kDownloadPartSize dvd bs_max_waited s"

text \<open>The invariant of the tuning: bounded numbers of sessions, of bytes a session may wait for, of
  removes and of timeouts.\<close>

definition balance_ok :: "dc_balance \<Rightarrow> bool" where
  "balance_ok dc \<longleftrightarrow> kStartSessionsCount \<le> length (dc_sessions dc) \<and> length (dc_sessions dc) \<le> kMaxSessionsCount
     \<and> (\<forall>s\<in>set (dc_sessions dc). session_ok s)
     \<and> 0 \<le> dc_remove_times dc \<and> dc_remove_times dc \<le> kMaxTrackedSessionRemoves
     \<and> 0 \<le> dc_timeouts dc \<and> dc_timeouts dc < kRemoveSessionAfterTimeouts"

lemma min_element_le: "xs \<noteq> [] \<Longrightarrow> min_element xs < length xs \<and> (\<forall>x\<in>set xs. xs ! min_element xs \<le> x)"
  by (induction xs rule: min_element.induct) (auto simp: Let_def)

lemma min_element_first: "i < min_element xs \<Longrightarrow> xs ! min_element xs < xs ! i"
proof (induction xs arbitrary: i rule: min_element.induct)
  case (3 x y ys)
  show ?case
  proof (cases "x \<le> (y # ys) ! min_element (y # ys)")
    case False
    then show ?thesis
      using 3 by (cases i) (auto simp: Let_def)
  qed (use 3 in \<open>simp add: Let_def\<close>)
qed simp_all

lemma session_balance_new_ok [simp]: "session_ok session_balance_new"
  by (simp add: session_ok_def session_balance_new_def download_constants)

lemma balance_new_ok: "balance_ok dc_balance_new"
  by (simp add: balance_ok_def dc_balance_new_def download_constants)

lemma list_update_all: "\<forall>s\<in>set xs. P s \<Longrightarrow> P y \<Longrightarrow> \<forall>s\<in>set (xs[i := y]). P s"
  using set_update_subset_insert by fastforce

lemma balance_ok_update:
  assumes "balance_ok dc" "session_ok d"
  shows "balance_ok (dc\<lparr> dc_sessions := (dc_sessions dc)[i := d] \<rparr>)"
proof -
  have "\<forall>s\<in>set (dc_sessions dc). session_ok s" using assms(1) by (simp add: balance_ok_def)
  then have "\<forall>s\<in>set ((dc_sessions dc)[i := d]). session_ok s" using assms(2) by (rule list_update_all)
  then show ?thesis using assms(1) unfolding balance_ok_def by simp
qed

lemma balance_ok_total [simp]: "balance_ok (dc\<lparr> dc_total := n \<rparr>) = balance_ok dc"
  by (simp add: balance_ok_def)

lemma change_requested_ok [component_inv]:
  assumes "balance_ok dc" "change_requested index delta dc = Some (dc', r)"
  shows "balance_ok dc'"
proof -
  have i: "index < length (dc_sessions dc)" and dc': "dc' = dc\<lparr> dc_sessions := (dc_sessions dc)[index :=
      (dc_sessions dc ! index)\<lparr> bs_requested := bs_requested (dc_sessions dc ! index) + delta \<rparr>],
      dc_total := dc_total dc + delta \<rparr>"
    using assms(2) by (auto simp: change_requested_def Let_def split: if_splits)
  have "session_ok ((dc_sessions dc ! index)\<lparr> bs_requested := r \<rparr>)" for r
    using assms(1) i by (auto simp: balance_ok_def session_ok_def)
  then show ?thesis
    unfolding dc' balance_ok_total by (rule balance_ok_update [OF assms(1)])
qed

lemma forget_successes_ok: "balance_ok dc \<Longrightarrow> balance_ok (forget_successes dc)"
  by (auto simp: balance_ok_def forget_successes_def session_ok_def download_constants)

lemma reward_sessions_ok: "balance_ok dc \<Longrightarrow> balance_ok (reward_sessions now dc)"
  using forget_successes_ok [of dc]
  by (auto simp: reward_sessions_def Let_def balance_ok_def)

lemma credit_session_ok: "session_ok d \<Longrightarrow> session_ok (credit_session amount d)"
  by (auto simp: credit_session_def session_ok_def Let_def min_def kStartWaitedInSession_def kMaxWaitedInSession_def
      kMaxTrackedSuccesses_def kRetryAddSessionSuccesses_def kMaxTrackedSessionRemoves_def kDownloadPartSize_def)

lemma request_succeeded_ok [component_inv]:
  assumes "balance_ok dc" "request_succeeded now index amount start dc = Some (dc', posted)"
  shows "balance_ok dc'"
proof -
  let ?d = "credit_session amount (dc_sessions dc ! index)"
  let ?dc = "dc\<lparr> dc_sessions := (dc_sessions dc)[index := ?d] \<rparr>"
  have i: "index < length (dc_sessions dc)" and res: "dc' = dc \<or> dc' = ?dc \<or> dc' = reward_sessions now ?dc"
    using assms(2) by (auto simp: request_succeeded_def Let_def split: if_splits)
  have "session_ok (dc_sessions dc ! index)" using assms(1) i by (simp add: balance_ok_def)
  then have "session_ok ?d" by (rule credit_session_ok)
  then have "balance_ok ?dc"
    by (rule balance_ok_update [OF assms(1)])
  then show ?thesis
    using res assms(1) reward_sessions_ok by blast
qed

lemma session_timed_out_ok [component_inv]:
  "balance_ok dc \<Longrightarrow> balance_ok (fst (session_timed_out index dc))"
  using forget_successes_ok [of dc]
  by (auto simp: session_timed_out_def Let_def balance_ok_def kRemoveSessionAfterTimeouts_def)

lemma remove_session_begin_ok [component_inv]:
  assumes "balance_ok dc" "remove_session_begin dc = Some (dc', index)"
  shows "balance_ok dc' \<and> index = length (dc_sessions dc') - 1 \<and> 1 < length (dc_sessions dc')"
proof -
  let ?c = "if dc_remove_index dc = int index
      then dc\<lparr> dc_remove_times := min (dc_remove_times dc + 1) kMaxTrackedSessionRemoves \<rparr>
      else dc\<lparr> dc_remove_index := int index, dc_remove_times := 1 \<rparr>"
  let ?s = "(dc_sessions ?c ! index)\<lparr> bs_requested := bs_requested (dc_sessions ?c ! index) + removal_amount \<rparr>"
  have len: "kStartSessionsCount < length (dc_sessions dc)" and i: "index = length (dc_sessions dc) - 1"
    and dc': "dc' = ?c\<lparr> dc_sessions := (dc_sessions ?c)[index := ?s] \<rparr>"
    using assms(2) by (auto simp: remove_session_begin_def Let_def split: if_split_asm)
  have c: "balance_ok ?c" "dc_sessions ?c = dc_sessions dc"
    using assms(1) by (auto simp: balance_ok_def kMaxTrackedSessionRemoves_def)
  have "index < length (dc_sessions dc)" using len i by (simp add: kStartSessionsCount_def)
  then have "session_ok ?s"
    using assms(1) unfolding c(2) by (auto simp: balance_ok_def session_ok_def)
  then have "balance_ok dc'"
    unfolding dc' by (rule balance_ok_update [OF c(1)])
  then show ?thesis
    using len i c(2) by (simp add: dc' kStartSessionsCount_def)
qed

lemma remove_session_end_ok [component_inv]:
  assumes "balance_ok dc" "remove_session_end now dc = Some dc'" "1 < length (dc_sessions dc)"
  shows "balance_ok dc' \<and> length (dc_sessions dc') = length (dc_sessions dc) - 1 \<and> dc_last_remove dc' = now"
proof -
  have "dc' = dc\<lparr> dc_sessions := butlast (dc_sessions dc), dc_last_remove := now \<rparr>"
    using assms(2) by (simp add: remove_session_end_def split: if_splits)
  then show ?thesis
    using assms(1,3) by (auto simp: balance_ok_def kStartSessionsCount_def dest: in_set_butlastD)
qed

lemma kill_balance_ok [component_inv]:
  "balance_ok dc \<Longrightarrow> kill_balance dc = Some dc' \<Longrightarrow> balance_ok dc' \<and> sessions_idle dc'"
  by (auto simp: kill_balance_def balance_ok_def dc_balance_new_def sessions_idle_def session_balance_new_def
      kMaxTrackedSessionRemoves_def kRemoveSessionAfterTimeouts_def session_ok_def kStartWaitedInSession_def
      kMaxWaitedInSession_def kMaxTrackedSuccesses_def kRetryAddSessionSuccesses_def kDownloadPartSize_def
      split: if_splits)

text \<open>Amounts are whole parts.\<close>

definition whole_parts :: "dc_balance \<Rightarrow> bool" where
  "whole_parts dc \<longleftrightarrow> (\<forall>s\<in>set (dc_sessions dc). 0 \<le> bs_requested s \<and> kDownloadPartSize dvd bs_requested s)"

lemma best_index_least:
  assumes "balance_ok dc" "best_index dc = Some j"
  shows "j < length (dc_sessions dc)
    \<and> bs_requested (dc_sessions dc ! j) + kDownloadPartSize \<le> bs_max_waited (dc_sessions dc ! j)
    \<and> (\<forall>s\<in>set (dc_sessions dc). session_room (dc_sessions dc ! j) \<le> session_room s)"
proof -
  have "map session_room (dc_sessions dc) \<noteq> []"
    using assms(1) by (auto simp: balance_ok_def kStartSessionsCount_def)
  from min_element_le [OF this] assms(2) show ?thesis
    by (auto simp: best_index_def Let_def split: if_splits)
qed

lemma best_index_none:
  assumes "balance_ok dc" "whole_parts dc"
  shows "best_index dc = None \<longleftrightarrow> (\<forall>s\<in>set (dc_sessions dc). bs_max_waited s \<le> bs_requested s)"
proof -
  let ?j = "min_element (map session_room (dc_sessions dc))"
  let ?s = "dc_sessions dc ! ?j"
  have "map session_room (dc_sessions dc) \<noteq> []"
    using assms(1) by (auto simp: balance_ok_def kStartSessionsCount_def)
  from min_element_le [OF this] have j: "?s \<in> set (dc_sessions dc)"
    "\<forall>s\<in>set (dc_sessions dc). session_room ?s \<le> session_room s"
    by auto
  have part: "bs_requested s + kDownloadPartSize \<le> bs_max_waited s \<longleftrightarrow> bs_requested s < bs_max_waited s"
    if s: "s \<in> set (dc_sessions dc)" for s
  proof -
    have "kDownloadPartSize dvd bs_requested s" "kDownloadPartSize dvd bs_max_waited s"
      using assms s by (auto simp: balance_ok_def session_ok_def whole_parts_def)
    then obtain a b where ab: "bs_requested s = kDownloadPartSize * a" "bs_max_waited s = kDownloadPartSize * b"
      by (auto elim!: dvdE)
    have "0 < kDownloadPartSize" by (simp add: kDownloadPartSize_def)
    then have "bs_requested s < bs_max_waited s \<longleftrightarrow> a + 1 \<le> b"
      by (simp add: ab add1_zle_eq)
    moreover have "bs_requested s + kDownloadPartSize \<le> bs_max_waited s \<longleftrightarrow> a + 1 \<le> b"
      using \<open>0 < kDownloadPartSize\<close> by (simp add: ab mult_le_cancel_left_pos flip: distrib_left [of _ a 1, simplified])
    ultimately show ?thesis by simp
  qed
  have max: "bs_max_waited s \<le> kMaxWaitedInSession" if "s \<in> set (dc_sessions dc)" for s
    using assms(1) that by (simp add: balance_ok_def session_ok_def)
  have "best_index dc = None \<longleftrightarrow> \<not> bs_requested ?s < bs_max_waited ?s"
    unfolding best_index_def Let_def part [OF j(1)] by simp
  moreover have "bs_max_waited s \<le> bs_requested s" if full: "\<not> bs_requested ?s < bs_max_waited ?s" and s: "s \<in> set (dc_sessions dc)" for s
  proof (rule ccontr)
    assume "\<not> bs_max_waited s \<le> bs_requested s"
    then have "session_room s < kMaxWaitedInSession" using max [OF s] by (simp add: session_room_def)
    moreover have "session_room ?s = kMaxWaitedInSession" using full by (simp add: session_room_def)
    ultimately show False using j(2) s by fastforce
  qed
  ultimately show ?thesis using j(1) by fastforce
qed

section \<open>Properties\<close>

text \<open>C32: the balance of a data center stays within its bounds whatever happens to it: there are
  always between one and eight sessions, each may wait for four to sixteen parts, successes,
  removes and timeouts stay below their caps; and this holds for adding to what a session waits
  for, for a success, for a timeout, for removing the last session and for a kill.\<close>

theorem download_balance_bounded:
  assumes "balance_ok dc"
  shows "(\<forall>index delta dc' r. change_requested index delta dc = Some (dc', r) \<longrightarrow> balance_ok dc')
    \<and> (\<forall>now index amount start dc' posted.
        request_succeeded now index amount start dc = Some (dc', posted) \<longrightarrow> balance_ok dc')
    \<and> (\<forall>index. balance_ok (fst (session_timed_out index dc)))
    \<and> (\<forall>index dc1 now dc2. remove_session_begin dc = Some (dc1, index) \<longrightarrow>
        remove_session_end now dc1 = Some dc2 \<longrightarrow> balance_ok dc2)
    \<and> (\<forall>dc'. kill_balance dc = Some dc' \<longrightarrow> balance_ok dc')"
  using assms by (blast intro: component_inv dest: remove_session_begin_ok remove_session_end_ok kill_balance_ok
      change_requested_ok request_succeeded_ok)

lemma download_balance_bounded_witness:
  "balance_ok dc_balance_new \<and> balance_ok (fst (session_timed_out 0 dc_balance_new))"
  using download_balance_bounded [OF balance_new_ok] balance_new_ok by blast

text \<open>The session a part is sent to is one with room for the part and, of those with room, one
  that waits for the least; there is none exactly when every session waits for all it may.\<close>

theorem download_best_session:
  assumes "balance_ok dc" "whole_parts dc"
  shows "case best_index dc of
      Some j \<Rightarrow> j < length (dc_sessions dc)
        \<and> bs_requested (dc_sessions dc ! j) + kDownloadPartSize \<le> bs_max_waited (dc_sessions dc ! j)
        \<and> (\<forall>s\<in>set (dc_sessions dc). bs_requested s < bs_max_waited s \<longrightarrow>
            bs_requested (dc_sessions dc ! j) \<le> bs_requested s)
    | None \<Rightarrow> (\<forall>s\<in>set (dc_sessions dc). bs_max_waited s \<le> bs_requested s)"
proof (cases "best_index dc")
  case (Some j)
  then show ?thesis
    using best_index_least [OF assms(1) Some]
    by (auto simp: session_room_def kDownloadPartSize_def split: if_splits)
qed (use best_index_none [OF assms] in simp)

lemma download_best_session_witness: "best_index dc_balance_new = Some 0"
  using download_best_session [OF balance_new_ok]
  by (auto simp: whole_parts_def dc_balance_new_def session_balance_new_def download_constants split: option.splits)

text \<open>C33: the number of tracked successes is capped at three times the number of tracked removes,
  while three times one more is asked for: once the last session was removed
  \<^verbatim>\<open>kMaxTrackedSessionRemoves\<close> times in a row, no success ever forgives a timeout or adds
  a session again.\<close>

theorem download_sessions_starve_at_cap:
  assumes "balance_ok dc" "dc_remove_times dc = kMaxTrackedSessionRemoves"
    "request_succeeded now index amount start dc = Some (dc', posted)"
  shows "length (dc_sessions dc') = length (dc_sessions dc) \<and> dc_timeouts dc' = dc_timeouts dc
    \<and> dc_remove_times dc' = kMaxTrackedSessionRemoves"
proof -
  let ?d = "credit_session amount (dc_sessions dc ! index)"
  let ?dc = "dc\<lparr> dc_sessions := (dc_sessions dc)[index := ?d] \<rparr>"
  have i: "index < length (dc_sessions dc)"
    using assms(3) by (auto simp: request_succeeded_def split: if_splits)
  have "session_ok ?d"
    using assms(1) i by (intro credit_session_ok) (simp add: balance_ok_def)
  then have "bs_successes ?d < (kMaxTrackedSessionRemoves + 1) * kRetryAddSessionSuccesses"
    by (simp add: session_ok_def kMaxTrackedSuccesses_def kMaxTrackedSessionRemoves_def kRetryAddSessionSuccesses_def)
  moreover have "?d \<in> set ((dc_sessions dc)[index := ?d])"
    using i by (simp add: set_update_memI)
  ultimately have "successes_missing ?dc"
    unfolding successes_missing_def list_ex_iff using assms(2) by auto
  then have "dc' = dc \<or> dc' = ?dc"
    using assms(3) by (auto simp: request_succeeded_def Let_def split: if_splits)
  then show ?thesis using assms(2) by auto
qed

lemma download_sessions_starve_at_cap_witness:
  "\<exists>dc'. request_succeeded 1000 0 0 500 (dc_balance_new\<lparr> dc_remove_times := 64 \<rparr>) = Some (dc', False)
    \<and> length (dc_sessions dc') = 1 \<and> dc_timeouts dc' = 0"
proof -
  have ok: "balance_ok (dc_balance_new\<lparr> dc_remove_times := 64 \<rparr>)"
    using balance_new_ok by (simp add: balance_ok_def kMaxTrackedSessionRemoves_def)
  obtain dc' where dc': "request_succeeded 1000 0 0 500 (dc_balance_new\<lparr> dc_remove_times := 64 \<rparr>) = Some (dc', False)"
    by (simp add: request_succeeded_def dc_balance_new_def session_balance_new_def download_constants
        kBadRequestDurationThreshold_def Let_def)
  show ?thesis
    using download_sessions_starve_at_cap [OF ok _ dc'] dc'
    by (simp add: kMaxTrackedSessionRemoves_def dc_balance_new_def kStartSessionsCount_def)
qed

end
