(* ===== verification/DownloadClients.thy ===== *)
theory DownloadClients imports FileLoader StreamQueue DownloadBalance FlatMap begin

text \<open>
  The two kinds of \<^verbatim>\<open>DownloadMtprotoTask\<close>: \<^verbatim>\<open>mtpFileLoader\<close>
  (\<^verbatim>\<open>storage/file_download_mtproto\<close>), which loads the parts of a file one after
  another, and \<^verbatim>\<open>LoaderMtproto\<close> (\<^verbatim>\<open>media/streaming/media_streaming_loader_mtproto\<close>),
  which loads the parts a player asks for. Here is what they keep themselves; the requests they
  share with their base class are in \<open>Download\<close>.
\<close>

section \<open>mtpFileLoader\<close>

record mtp_loader =
  mt_file :: file_loader
  mt_last_complete :: bool
  mt_next_offset :: int

definition mtp_loader_new :: "file_loader \<Rightarrow> mtp_loader" where
  "mtp_loader_new l = \<lparr>mt_file = l, mt_last_complete = False, mt_next_offset = 0\<rparr>"

definition mtp_ready :: "bool \<Rightarrow> mtp_loader \<Rightarrow> bool" where
  "mtp_ready haveSent m \<longleftrightarrow> \<not> fl_finished (mt_file m) \<and> \<not> mt_last_complete m
     \<and> (fl_full_size (mt_file m) \<noteq> 0 \<or> \<not> haveSent)
     \<and> (fl_full_size (mt_file m) = 0 \<or> mt_next_offset m < fl_load_size (mt_file m))"

definition mtp_take :: "mtp_loader \<Rightarrow> int \<times> mtp_loader" where
  "mtp_take m = (mt_next_offset m, m\<lparr> mt_next_offset := mt_next_offset m + kDownloadPartSize \<rparr>)"

text \<open>The part of \<^verbatim>\<open>feedPart\<close> after the bytes are written: is the load complete?\<close>

definition mtp_fed :: "bytes \<Rightarrow> mtp_loader \<Rightarrow> mtp_loader" where
  "mtp_fed buffer m =
     (if buffer = [] \<or> length buffer mod 1024 \<noteq> 0 then m\<lparr> mt_last_complete := True \<rparr> else m)"

definition mtp_complete :: "bool \<Rightarrow> mtp_loader \<Rightarrow> bool" where
  "mtp_complete haveSent m \<longleftrightarrow> \<not> haveSent \<and> (mt_last_complete m
     \<or> (fl_full_size (mt_file m) \<noteq> 0 \<and> fl_load_size (mt_file m) \<le> mt_next_offset m))"

text \<open>\<^verbatim>\<open>setWebFileSizeHook\<close>; \<open>None\<close> tells to cancel.\<close>

definition mtp_set_web_size :: "int \<Rightarrow> mtp_loader \<Rightarrow> mtp_loader option" where
  "mtp_set_web_size n m =
     (let l = mt_file m in
      if fl_full_size l = 0 \<or> fl_full_size l = n
      then Some (m\<lparr> mt_file := l\<lparr> fl_full_size := n, fl_load_size := n \<rparr> \<rparr>)
      else None)"

text \<open>What \<^verbatim>\<open>startLoadingWithPartial\<close> uses of the cached bytes.\<close>

definition partial_use :: "bytes \<Rightarrow> nat" where
  "partial_use data = (length data - 8) div nat kDownloadPartSize * nat kDownloadPartSize"

section \<open>LoaderMtproto\<close>

record stream_loader =
  sm_size :: int
  sm_priority :: int
  sm_requested :: stream_queue
  sm_stats :: "stats_entry list"
  sm_first_start :: int
  sm_stats_timer :: "int option"

definition stream_loader_new :: "int \<Rightarrow> stream_loader" where
  "stream_loader_new n = \<lparr>sm_size = n, sm_priority = 0, sm_requested = pq_new, sm_stats = [],
     sm_first_start = 0, sm_stats_timer = None\<rparr>"

definition stream_take :: "int \<Rightarrow> stream_loader \<Rightarrow> (int \<times> stream_loader) option" where
  "stream_take now s =
     (case pq_take (sm_requested s) of
        (None, _) \<Rightarrow> None
      | (Some offset, q) \<Rightarrow> Some (offset, s\<lparr> sm_requested := q,
          sm_first_start := (if sm_first_start s = 0 then now else sm_first_start s),
          sm_stats := sm_stats s @ [\<lparr>st_start = now, st_end = 0, st_offset = offset\<rparr>] \<rparr>))"

definition stream_fed :: "int \<Rightarrow> int \<Rightarrow> stream_loader \<Rightarrow> stream_loader" where
  "stream_fed now offset s =
     (let (found, stats) = finish_stats now offset (sm_stats s);
          s = s\<lparr> sm_stats := stats \<rparr> in
      if found \<and> sm_stats_timer s = None
      then s\<lparr> sm_stats_timer := Some (max (now + kCheckStatsInterval) (sm_first_start s + kInitialStatsWait)) \<rparr>
      else s)"

definition stream_check_stats :: "int \<Rightarrow> stream_loader \<Rightarrow> stream_loader \<times> speed_estimate option" where
  "stream_check_stats now s =
     (let (stats, estimate) = check_stats now (sm_stats s) in
      (s\<lparr> sm_stats := stats, sm_stats_timer := None \<rparr>, estimate))"

section \<open>Either of them\<close>

datatype client = FileClient mtp_loader | StreamClient stream_loader

definition client_ready :: "bool \<Rightarrow> client \<Rightarrow> bool" where
  "client_ready haveSent c = (case c of
     FileClient m \<Rightarrow> mtp_ready haveSent m
   | StreamClient s \<Rightarrow> \<not> pq_empty (sm_requested s))"

text \<open>\<^verbatim>\<open>takeNextRequestOffset\<close>; \<open>None\<close> where \<^verbatim>\<open>Expects\<close> or
  \<^verbatim>\<open>Assert\<close> fails.\<close>

definition client_take :: "int \<Rightarrow> bool \<Rightarrow> client \<Rightarrow> (int \<times> client) option" where
  "client_take now haveSent c = (case c of
     FileClient m \<Rightarrow> if mtp_ready haveSent m
       then let (offset, m) = mtp_take m in Some (offset, FileClient m) else None
   | StreamClient s \<Rightarrow> map_option (\<lambda>(offset, s). (offset, StreamClient s)) (stream_take now s))"

lemma client_take_ready: "client_ready haveSent c \<Longrightarrow> \<exists>offset c'. client_take now haveSent c = Some (offset, c')"
  by (auto simp: client_ready_def client_take_def mtp_take_def stream_take_def pq_take_def pq_empty_def
      split: client.splits)

end
