(* ===== verification/Download.thy ===== *)
theory Download imports DownloadQueue DownloadClients "HOL-Library.Monad_Syntax" begin

text \<open>
  \<^verbatim>\<open>DownloadManagerMtproto\<close> and the requests of its \<^verbatim>\<open>DownloadMtprotoTask\<close>s
  (\<^verbatim>\<open>storage/download_manager_mtproto\<close>): which task sends its next part in which
  session, what was sent and what every session waits for. A task is its position in
  \<open>dl_tasks\<close>. A request sent, cancelled or a session killed is an entry of the log, a call
  posted to the main thread an entry of \<open>dl_posted\<close>, a timer the time it fires at. The
  current time is a parameter and stands still during an operation. \<open>None\<close> is a failed
  \<^verbatim>\<open>Assert\<close>, \<^verbatim>\<open>Expects\<close> or \<^verbatim>\<open>Ensures\<close>. Request ids are
  a counter, as in the sender.
\<close>

section \<open>State\<close>

record request_data =
  rq_offset :: int
  rq_session :: nat
  rq_amount :: int
  rq_sent :: int

text \<open>The location decides the method; a \<^verbatim>\<open>StorageFileLocation\<close> has a file reference.\<close>

datatype file_location = StorageFile bytes | WebFile | GeoPoint | AudioAlbumThumb

datatype request_kind = GetFile | GetWebFile | GetCdnFile | GetCdnFileHashes | ReuploadCdnFile

record task =
  tk_dc :: int
  tk_location :: file_location
  tk_client :: client
  tk_sent :: "(nat \<times> request_data) list"
  tk_by_offset :: "(int \<times> nat) list"
  tk_cdn_dc :: int
  tk_cdn_token :: bytes
  tk_cdn_key :: bytes
  tk_cdn_iv :: bytes
  tk_cdn_hashes :: "(int \<times> int \<times> bytes) list"
  tk_unchecked :: "(int \<times> request_data \<times> bytes) list"
  tk_hash_request :: nat

text \<open>\<^verbatim>\<open>MTP::CTRState\<close>.\<close>

definition kKeySize :: nat where "kKeySize = 32"
definition kIvecSize :: nat where "kIvecSize = 16"

definition task_new :: "int \<Rightarrow> file_location \<Rightarrow> client \<Rightarrow> task" where
  "task_new dc loc c = \<lparr>tk_dc = dc, tk_location = loc, tk_client = c, tk_sent = [], tk_by_offset = [],
     tk_cdn_dc = 0, tk_cdn_token = [], tk_cdn_key = [], tk_cdn_iv = [], tk_cdn_hashes = [],
     tk_unchecked = [], tk_hash_request = 0\<rparr>"

datatype outgoing =
    Sent nat request_kind int nat int
  | Cancelled nat
  | SessionKilled int nat
  | SessionStopped int nat
  | FileEvent nat file_effect
  | PartEvent nat int bytes
  | PartFailed nat
  | SpeedEvent nat speed_estimate
  | RefreshReference nat nat bytes

datatype posted = TimedOut int nat | MoreHashes nat

record download =
  dl_tasks :: "task list"
  dl_balance :: "int \<Rightarrow> dc_balance option"
  dl_queues :: "(int \<times> enqueued list) list"
  dl_kill_when :: "(int \<times> int) list"
  dl_kill_timer :: "int option"
  dl_reset_timer :: "int option"
  dl_last_id :: nat
  dl_posted :: "posted list"
  dl_log :: "outgoing list"

definition download_new :: download where
  "download_new = \<lparr>dl_tasks = [], dl_balance = Map.empty, dl_queues = [], dl_kill_when = [],
     dl_kill_timer = None, dl_reset_timer = None, dl_last_id = 0, dl_posted = [], dl_log = []\<rparr>"

definition the_task :: "nat \<Rightarrow> download \<Rightarrow> task" where
  "the_task t st = dl_tasks st ! t"

definition set_task :: "nat \<Rightarrow> (task \<Rightarrow> task) \<Rightarrow> download \<Rightarrow> download" where
  "set_task t f st = st\<lparr> dl_tasks := (dl_tasks st)[t := f (dl_tasks st ! t)] \<rparr>"

definition add_log :: "outgoing list \<Rightarrow> download \<Rightarrow> download" where
  "add_log es st = st\<lparr> dl_log := dl_log st @ es \<rparr>"

definition post :: "posted \<Rightarrow> download \<Rightarrow> download" where
  "post p st = st\<lparr> dl_posted := dl_posted st @ [p] \<rparr>"

definition queue_of :: "int \<Rightarrow> download \<Rightarrow> enqueued list" where
  "queue_of dc st = (case map_of (dl_queues st) dc of Some q \<Rightarrow> q | None \<Rightarrow> [])"

definition put_queue :: "int \<Rightarrow> enqueued list \<Rightarrow> download \<Rightarrow> download" where
  "put_queue dc q st = st\<lparr> dl_queues := fst (fm_insert_or_assign (dl_queues st) dc q) \<rparr>"

definition haveSentRequests :: "task \<Rightarrow> bool" where
  "haveSentRequests k \<longleftrightarrow> tk_sent k \<noteq> [] \<or> tk_unchecked k \<noteq> []"

definition haveSentRequestForOffset :: "int \<Rightarrow> task \<Rightarrow> bool" where
  "haveSentRequestForOffset offset k \<longleftrightarrow> fmm_contains (tk_by_offset k) offset \<or> fmm_contains (tk_unchecked k) offset"

definition task_ready :: "task \<Rightarrow> bool" where
  "task_ready k = client_ready (haveSentRequests k) (tk_client k)"

section \<open>What the sessions wait for\<close>

definition kill_sessions_schedule :: "int \<Rightarrow> int \<Rightarrow> download \<Rightarrow> download" where
  "kill_sessions_schedule now dc st = st\<lparr>
     dl_kill_when := (if fmm_contains (dl_kill_when st) dc then dl_kill_when st
       else fst (fm_emplace (dl_kill_when st) dc (now + kKillSessionTimeout))),
     dl_kill_timer := (if dl_kill_timer st = None then Some (now + kKillSessionTimeout + 5)
       else dl_kill_timer st) \<rparr>"

definition kill_sessions_cancel :: "int \<Rightarrow> download \<Rightarrow> download" where
  "kill_sessions_cancel dc st =
     (let left = fst (fm_remove (dl_kill_when st) dc) in
      st\<lparr> dl_kill_when := left, dl_kill_timer := (if left = [] then None else dl_kill_timer st) \<rparr>)"

definition changeRequestedAmount :: "int \<Rightarrow> int \<Rightarrow> nat \<Rightarrow> int \<Rightarrow> download \<Rightarrow> (download \<times> int) option" where
  "changeRequestedAmount now dc index delta st = do {
     b \<leftarrow> dl_balance st dc;
     (b, result) \<leftarrow> change_requested index delta b;
     let st = st\<lparr> dl_balance := (dl_balance st)(dc \<mapsto> b) \<rparr> in
     Some (if 0 < delta then kill_sessions_cancel dc st
           else if sessions_idle b then kill_sessions_schedule now dc st
           else st, result) }"

definition requestSucceeded :: "int \<Rightarrow> int \<Rightarrow> nat \<Rightarrow> int \<Rightarrow> int \<Rightarrow> download \<Rightarrow> download option" where
  "requestSucceeded now dc index amount start st = do {
     b \<leftarrow> dl_balance st dc;
     (b, timedOut) \<leftarrow> request_succeeded now index amount start b;
     let st = st\<lparr> dl_balance := (dl_balance st)(dc \<mapsto> b) \<rparr> in
     Some (if timedOut then post (TimedOut dc index) st else st) }"

definition chooseSessionIndex :: "int \<Rightarrow> download \<Rightarrow> nat option" where
  "chooseSessionIndex dc st = map_option choose_session (dl_balance st dc)"

section \<open>Requests of a task\<close>

text \<open>\<^verbatim>\<open>sendRequest\<close>: the method and the data center it goes to.\<close>

definition part_kind :: "task \<Rightarrow> request_kind" where
  "part_kind k = (if tk_cdn_dc k \<noteq> 0 then GetCdnFile
     else case tk_location k of StorageFile _ \<Rightarrow> GetFile | _ \<Rightarrow> GetWebFile)"

definition send_api :: "request_kind \<Rightarrow> int \<Rightarrow> request_data \<Rightarrow> download \<Rightarrow> nat \<times> download" where
  "send_api kind dc rd st =
     (let i = Suc (dl_last_id st) in
      (i, add_log [Sent i kind dc (rq_session rd) (rq_offset rd)] (st\<lparr> dl_last_id := i \<rparr>)))"

definition sendRequest :: "nat \<Rightarrow> request_data \<Rightarrow> download \<Rightarrow> nat \<times> download" where
  "sendRequest t rd st =
     (let k = the_task t st in
      send_api (part_kind k) (if tk_cdn_dc k \<noteq> 0 then tk_cdn_dc k else tk_dc k) rd st)"

definition placeSentRequest :: "int \<Rightarrow> nat \<Rightarrow> nat \<Rightarrow> request_data \<Rightarrow> download \<Rightarrow> download option" where
  "placeSentRequest now t i rd st = do {
     (st, amount) \<leftarrow> changeRequestedAmount now (tk_dc (the_task t st)) (rq_session rd) kDownloadPartSize st;
     let k = the_task t st;
     let (sent, _, ok1) = fm_emplace (tk_sent k) i (rd\<lparr> rq_amount := amount, rq_sent := now \<rparr>);
     let (by_offset, _, ok2) = fm_emplace (tk_by_offset k) (rq_offset rd) i;
     if ok1 \<and> ok2
     then Some (set_task t (\<lambda>k. k\<lparr> tk_sent := sent, tk_by_offset := by_offset \<rparr>) st)
     else None }"

definition makeRequest :: "int \<Rightarrow> nat \<Rightarrow> request_data \<Rightarrow> download \<Rightarrow> download option" where
  "makeRequest now t rd st = (let (i, st) = sendRequest t rd st in placeSentRequest now t i rd st)"

datatype finish_reason = Success | Redirect | Cancel

definition finishSentRequest :: "int \<Rightarrow> nat \<Rightarrow> nat \<Rightarrow> finish_reason \<Rightarrow> download
    \<Rightarrow> (request_data \<times> download) option" where
  "finishSentRequest now t i reason st = do {
     let k = the_task t st;
     rd \<leftarrow> map_of (tk_sent k) i;
     let st = set_task t (\<lambda>k. if tk_hash_request k = i then k\<lparr> tk_hash_request := 0 \<rparr> else k) st;
     (st, _) \<leftarrow> changeRequestedAmount now (tk_dc k) (rq_session rd) (- kDownloadPartSize) st;
     let st = set_task t (\<lambda>k. k\<lparr> tk_sent := fst (fm_remove (tk_sent k) i),
         tk_by_offset := fst (fm_remove (tk_by_offset k) (rq_offset rd)) \<rparr>) st;
     st \<leftarrow> (if reason = Success
       then requestSucceeded now (tk_dc k) (rq_session rd) (rq_amount rd) (rq_sent rd) st else Some st);
     if snd (fm_remove (tk_by_offset k) (rq_offset rd)) then Some (rd, st) else None }"

definition cancelRequest :: "int \<Rightarrow> nat \<Rightarrow> nat \<Rightarrow> download \<Rightarrow> download option" where
  "cancelRequest now t i st = do {
     let hashes = (tk_hash_request (the_task t st) = i);
     (_, st) \<leftarrow> finishSentRequest now t i Cancel (add_log [Cancelled i] st);
     Some (if hashes \<and> tk_unchecked (the_task t st) \<noteq> [] then post (MoreHashes t) st else st) }"

text \<open>The loop of \<^verbatim>\<open>cancelAllRequests\<close> cancels the first request until there is none:
  it goes through the ids in order.\<close>

fun cancel_requests :: "int \<Rightarrow> nat \<Rightarrow> nat list \<Rightarrow> download \<Rightarrow> download option" where
  "cancel_requests now t [] st = Some st"
| "cancel_requests now t (i # is) st = do { st \<leftarrow> cancelRequest now t i st; cancel_requests now t is st }"

definition cancelAllRequests :: "int \<Rightarrow> nat \<Rightarrow> download \<Rightarrow> download option" where
  "cancelAllRequests now t st = do {
     st \<leftarrow> cancel_requests now t (map fst (tk_sent (the_task t st))) st;
     Some (set_task t (\<lambda>k. k\<lparr> tk_unchecked := [] \<rparr>) st) }"

definition cancelRequestForOffset :: "int \<Rightarrow> nat \<Rightarrow> int \<Rightarrow> download \<Rightarrow> download option" where
  "cancelRequestForOffset now t offset st = do {
     st \<leftarrow> (case map_of (tk_by_offset (the_task t st)) offset of
         Some i \<Rightarrow> cancelRequest now t i st
       | None \<Rightarrow> Some st);
     Some (set_task t (\<lambda>k. k\<lparr> tk_unchecked := fst (fm_remove (tk_unchecked k) offset) \<rparr>) st) }"

definition loadPart :: "int \<Rightarrow> nat \<Rightarrow> nat \<Rightarrow> download \<Rightarrow> download option" where
  "loadPart now t session st = do {
     let k = the_task t st;
     (offset, c) \<leftarrow> client_take now (haveSentRequests k) (tk_client k);
     makeRequest now t \<lparr>rq_offset = offset, rq_session = session, rq_amount = 0, rq_sent = 0\<rparr>
       (set_task t (\<lambda>k. k\<lparr> tk_client := c \<rparr>) st) }"

section \<open>The manager\<close>

definition trySendNextPart :: "int \<Rightarrow> int \<Rightarrow> download \<Rightarrow> (bool \<times> download) option" where
  "trySendNextPart now dc st =
     (let b = (case dl_balance st dc of Some b \<Rightarrow> b | None \<Rightarrow> dc_balance_new);
          st = st\<lparr> dl_balance := (dl_balance st)(dc \<mapsto> b) \<rparr> in
      case best_index b of
        None \<Rightarrow> Some (False, st)
      | Some j \<Rightarrow>
          (case queue_next (\<lambda>t. task_ready (the_task t st)) (queue_of dc st) (0 < dc_total b) of
             None \<Rightarrow> Some (False, st)
           | Some t \<Rightarrow> do { st \<leftarrow> loadPart now t j st; Some (True, st) }))"

text \<open>\<^verbatim>\<open>while (trySendNextPart(dcId, queue)) {}\<close>.\<close>

partial_function (option) checkSendNext :: "int \<Rightarrow> int \<Rightarrow> download \<Rightarrow> download option" where
  "checkSendNext now dc st = do {
     (sent, st) \<leftarrow> trySendNextPart now dc st;
     if sent then checkSendNext now dc st else Some st }"

declare checkSendNext.simps [code]

definition dm_enqueue :: "int \<Rightarrow> nat \<Rightarrow> int \<Rightarrow> download \<Rightarrow> download option" where
  "dm_enqueue now t priority st =
     (let dc = tk_dc (the_task t st);
          st = put_queue dc (queue_enqueue (queue_of dc st) t priority) st;
          st = (if dl_reset_timer st = None
            then st\<lparr> dl_reset_timer := Some (now + kResetDownloadPrioritiesTimeout) \<rparr> else st) in
      checkSendNext now dc st)"

definition dm_remove :: "int \<Rightarrow> nat \<Rightarrow> download \<Rightarrow> download option" where
  "dm_remove now t st =
     (let dc = tk_dc (the_task t st) in
      checkSendNext now dc (put_queue dc (queue_remove (queue_of dc st) t) st))"

fun reset_queues :: "(int \<times> enqueued list) list \<Rightarrow> (int \<times> enqueued list) list option" where
  "reset_queues [] = Some []"
| "reset_queues ((dc, q) # qs) = do { q \<leftarrow> queue_reset q; qs \<leftarrow> reset_queues qs; Some ((dc, q) # qs) }"

definition dm_resetGeneration :: "download \<Rightarrow> download option" where
  "dm_resetGeneration st = do {
     qs \<leftarrow> reset_queues (dl_queues st);
     Some (st\<lparr> dl_reset_timer := None, dl_queues := qs \<rparr>) }"

fun check_all :: "int \<Rightarrow> int list \<Rightarrow> download \<Rightarrow> download option" where
  "check_all now [] st = Some st"
| "check_all now (dc # dcs) st = do {
     st \<leftarrow> (if queue_of dc st = [] then Some st else checkSendNext now dc st);
     check_all now dcs st }"

definition checkSendNext_all :: "int \<Rightarrow> download \<Rightarrow> download option" where
  "checkSendNext_all now st = check_all now (map fst (dl_queues st)) st"

subsection \<open>Removing a session\<close>

definition move_unchecked :: "nat \<Rightarrow> nat \<Rightarrow> task \<Rightarrow> task" where
  "move_unchecked old new k = k\<lparr> tk_unchecked := map (\<lambda>(offset, rd, bytes).
     (offset, if rq_session rd = old then rd\<lparr> rq_session := new \<rparr> else rd, bytes)) (tk_unchecked k) \<rparr>"

text \<open>\<^verbatim>\<open>newIndex\<close> is asked for for every unchecked part, but does not change on the way.\<close>

definition redirect_unchecked :: "nat \<Rightarrow> nat \<Rightarrow> download \<Rightarrow> download option" where
  "redirect_unchecked t session st =
     (if \<exists>(offset, rd, bytes)\<in>set (tk_unchecked (the_task t st)). rq_session rd = session
      then do {
        new \<leftarrow> chooseSessionIndex (tk_dc (the_task t st)) st;
        if new < session then Some (set_task t (move_unchecked session new) st) else None }
      else Some st)"

fun redirect_requests :: "int \<Rightarrow> nat \<Rightarrow> nat \<Rightarrow> (nat \<times> int) list \<Rightarrow> download \<Rightarrow> download option" where
  "redirect_requests now t session [] st = Some st"
| "redirect_requests now t session ((i, offset) # rs) st = do {
     let needMakeRequest = (i \<noteq> tk_hash_request (the_task t st));
     st \<leftarrow> cancelRequest now t i st;
     st \<leftarrow> (if needMakeRequest then do {
         new \<leftarrow> chooseSessionIndex (tk_dc (the_task t st)) st;
         if new < session
         then makeRequest now t \<lparr>rq_offset = offset, rq_session = new, rq_amount = 0, rq_sent = 0\<rparr> st
         else None }
       else Some st);
     redirect_requests now t session rs st }"

definition task_removeSession :: "int \<Rightarrow> nat \<Rightarrow> nat \<Rightarrow> download \<Rightarrow> download option" where
  "task_removeSession now t session st = do {
     let rs = map (\<lambda>(i, rd). (i, rq_offset rd))
       (filter (\<lambda>(i, rd). rq_session rd = session) (tk_sent (the_task t st)));
     st \<leftarrow> redirect_unchecked t session st;
     redirect_requests now t session rs st }"

fun queue_removeSession :: "int \<Rightarrow> nat \<Rightarrow> enqueued list \<Rightarrow> download \<Rightarrow> download option" where
  "queue_removeSession now session [] st = Some st"
| "queue_removeSession now session (e # es) st = do {
     st \<leftarrow> task_removeSession now (en_task e) session st;
     queue_removeSession now session es st }"

definition dm_removeSession :: "int \<Rightarrow> int \<Rightarrow> download \<Rightarrow> download option" where
  "dm_removeSession now dc st = do {
     (b, index) \<leftarrow> remove_session_begin (case dl_balance st dc of Some b \<Rightarrow> b | None \<Rightarrow> dc_balance_new);
     st \<leftarrow> queue_removeSession now index (queue_of dc st) (st\<lparr> dl_balance := (dl_balance st)(dc \<mapsto> b) \<rparr>);
     b \<leftarrow> dl_balance st dc;
     b \<leftarrow> remove_session_end now b;
     Some (add_log [SessionKilled dc index] (st\<lparr> dl_balance := (dl_balance st)(dc \<mapsto> b) \<rparr>)) }"

definition dm_sessionTimedOut :: "int \<Rightarrow> int \<Rightarrow> nat \<Rightarrow> download \<Rightarrow> download option" where
  "dm_sessionTimedOut now dc index st =
     (case dl_balance st dc of
        None \<Rightarrow> Some st
      | Some b \<Rightarrow>
          let (b, remove) = session_timed_out index b;
              st = st\<lparr> dl_balance := (dl_balance st)(dc \<mapsto> b) \<rparr> in
          if remove then dm_removeSession now dc st else Some st)"

subsection \<open>Killing idle sessions\<close>

definition kill_dc :: "int \<Rightarrow> download \<Rightarrow> download option" where
  "kill_dc dc st =
     (case dl_balance st dc of
        None \<Rightarrow> Some st
      | Some b \<Rightarrow> do {
          b' \<leftarrow> kill_balance b;
          Some (add_log (map (SessionStopped dc) [0..<length (dc_sessions b)])
            (st\<lparr> dl_balance := (dl_balance st)(dc \<mapsto> b') \<rparr>)) })"

text \<open>The loop over \<^verbatim>\<open>_killSessionsWhen\<close>: what is due is killed and erased; the result
  is what remains and the time until the next.\<close>

fun kill_due :: "int \<Rightarrow> (int \<times> int) list \<Rightarrow> int \<Rightarrow> download \<Rightarrow> ((int \<times> int) list \<times> int \<times> download) option" where
  "kill_due now [] left st = Some ([], left, st)"
| "kill_due now ((dc, due) # rest) left st =
     (if due \<le> now then do { st \<leftarrow> kill_dc dc st; kill_due now rest left st }
      else do {
        (kept, left, st) \<leftarrow> kill_due now rest (if due - now < left then due - now else left) st;
        Some ((dc, due) # kept, left, st) })"

definition dm_killSessions :: "int \<Rightarrow> download \<Rightarrow> download option" where
  "dm_killSessions now st = do {
     (kept, left, st) \<leftarrow> kill_due now (dl_kill_when st) kKillSessionTimeout st;
     Some (st\<lparr> dl_kill_when := kept, dl_kill_timer := (if kept = [] then None else Some (now + left)) \<rparr>) }"

end
