(* ===== verification/DownloadInv.thy ===== *)
theory DownloadInv imports Download begin

text \<open>
  What holds of the download manager between its operations: every session waits for one part per
  request that is out in it, the two indices of a task's requests agree, no offset is requested
  twice, and a data center whose sessions are to be killed has no request out.
\<close>

section \<open>Vectors as multisets\<close>

lemma fm_insert_mset:
  "fm_inv xs \<Longrightarrow> map_of xs k = None \<Longrightarrow> mset (fst (fm_insert xs (k, v))) = add_mset (k, v) (mset xs)"
  by (cases rule: fm_split_cases [of xs k]) (auto simp: key_split_insert key_split_map_of)

lemma fm_remove_mset:
  "fm_inv xs \<Longrightarrow> map_of xs k = Some v \<Longrightarrow> mset xs = add_mset (k, v) (mset (fst (fm_remove xs k)))"
  by (cases rule: fm_split_cases [of xs k]) (auto simp: fm_remove_def key_split_remove key_split_map_of)

lemma sum_list_swap:
  "t < length ks \<Longrightarrow> (\<Sum>k\<leftarrow>ks[t := k']. f k) = (\<Sum>k\<leftarrow>ks. f k) + f k' - (f (ks ! t) :: int)"
  by (induction ks arbitrary: t) (auto split: nat.splits)

lemma sum_list_zero_iff: "(\<And>k. 0 \<le> f k) \<Longrightarrow> (\<Sum>k\<leftarrow>ks. f k) = (0 :: int) \<longleftrightarrow> (\<forall>k\<in>set ks. f k = 0)"
proof (induction ks)
  case (Cons a ks)
  have "0 \<le> (\<Sum>k\<leftarrow>ks. f k)" using Cons.prems by (intro sum_list_nonneg) auto
  then show ?case using Cons by (simp add: add_nonneg_eq_0_iff)
qed simp

section \<open>The invariant\<close>

definition sent_count :: "nat \<Rightarrow> task \<Rightarrow> int" where
  "sent_count j k = int (size (filter_mset (\<lambda>p. rq_session (snd p) = j) (mset (tk_sent k))))"

definition sent_all :: "task \<Rightarrow> int" where
  "sent_all k = int (size (mset (tk_sent k)))"

definition load_of :: "(task \<Rightarrow> int) \<Rightarrow> int \<Rightarrow> task list \<Rightarrow> int" where
  "load_of f dc ks = (\<Sum>k\<leftarrow>ks. if tk_dc k = dc then f k else 0)"

definition sessions_below :: "nat \<Rightarrow> task \<Rightarrow> bool" where
  "sessions_below n k \<longleftrightarrow> (\<forall>p\<in>set (tk_sent k). rq_session (snd p) < n)
     \<and> (\<forall>p\<in>set (tk_unchecked k). rq_session (fst (snd p)) < n)"

text \<open>The balance of a data center counts the requests of its tasks; \<open>ex\<close> is what
  \<^verbatim>\<open>removeSession\<close> adds to the session it clears.\<close>

definition dc_counts :: "(nat \<Rightarrow> int) \<Rightarrow> dc_balance \<Rightarrow> int \<Rightarrow> task list \<Rightarrow> bool" where
  "dc_counts ex b dc ks \<longleftrightarrow> balance_ok b
     \<and> (\<forall>j<length (dc_sessions b). bs_requested (dc_sessions b ! j) = kDownloadPartSize * load_of (sent_count j) dc ks + ex j)
     \<and> dc_total b = kDownloadPartSize * load_of sent_all dc ks
     \<and> (\<forall>k\<in>set ks. tk_dc k = dc \<longrightarrow> sessions_below (length (dc_sessions b)) k)"

definition accounts :: "(int \<Rightarrow> nat \<Rightarrow> int) \<Rightarrow> (int \<Rightarrow> dc_balance option) \<Rightarrow> task list \<Rightarrow> bool" where
  "accounts ex bal ks \<longleftrightarrow> (\<forall>dc. case bal dc of
       None \<Rightarrow> \<forall>k\<in>set ks. tk_dc k = dc \<longrightarrow> tk_sent k = [] \<and> tk_unchecked k = []
     | Some b \<Rightarrow> dc_counts (ex dc) b dc ks)"

definition fresh_offset :: "int \<Rightarrow> client \<Rightarrow> bool" where
  "fresh_offset off c \<longleftrightarrow> (case c of
     FileClient m \<Rightarrow> mt_next_offset m \<le> off
   | StreamClient s \<Rightarrow> off \<in> qe_value ` set (pq_data (sm_requested s)))"

definition client_inv :: "client \<Rightarrow> bool" where
  "client_inv c \<longleftrightarrow> (case c of FileClient m \<Rightarrow> True | StreamClient s \<Rightarrow> pq_inv (sm_requested s) \<and> -1 \<le> sm_priority s)"

text \<open>\<^verbatim>\<open>_requestByOffset\<close> is the inverse of \<^verbatim>\<open>_sentRequests\<close>.\<close>

definition indices_agree :: "(nat \<Rightarrow> request_data option) \<Rightarrow> (int \<Rightarrow> nat option) \<Rightarrow> bool" where
  "indices_agree sent by_offset \<longleftrightarrow>
     (\<forall>off i. by_offset off = Some i \<longleftrightarrow> (\<exists>rd. sent i = Some rd \<and> rq_offset rd = off))"

definition client_done :: "client \<Rightarrow> bool" where
  "client_done c \<longleftrightarrow> (case c of FileClient m \<Rightarrow> fl_finished (mt_file m) | StreamClient s \<Rightarrow> False)"

text \<open>An unchecked part is not out as well, unless for its hash, and there is one only while the task
  loads from a CDN. A finished file has nothing out.\<close>

definition task_inv :: "nat \<Rightarrow> task \<Rightarrow> bool" where
  "task_inv n k \<longleftrightarrow> fm_inv (tk_sent k) \<and> fm_inv (tk_by_offset k) \<and> fm_inv (tk_unchecked k)
     \<and> indices_agree (map_of (tk_sent k)) (map_of (tk_by_offset k))
     \<and> (\<forall>i. map_of (tk_sent k) i \<noteq> None \<longrightarrow> 0 < i \<and> i \<le> n)
     \<and> client_inv (tk_client k)
     \<and> (\<forall>off. map_of (tk_by_offset k) off \<noteq> None \<or> map_of (tk_unchecked k) off \<noteq> None \<longrightarrow> \<not> fresh_offset off (tk_client k))
     \<and> (\<forall>off. map_of (tk_unchecked k) off \<noteq> None \<longrightarrow>
          map_of (tk_by_offset k) off = None \<or> map_of (tk_by_offset k) off = Some (tk_hash_request k))
     \<and> (tk_cdn_dc k \<noteq> 0 \<longrightarrow> length (tk_cdn_key k) = kKeySize \<and> length (tk_cdn_iv k) = kIvecSize)
     \<and> (client_done (tk_client k) \<longrightarrow> \<not> haveSentRequests k)
     \<and> (\<forall>p\<in>set (tk_unchecked k). rq_offset (fst (snd p)) = fst p)
     \<and> (tk_cdn_dc k = 0 \<longrightarrow> tk_unchecked k = [])"

definition queues_inv :: "(int \<times> enqueued list) list \<Rightarrow> task list \<Rightarrow> bool" where
  "queues_inv qs ks \<longleftrightarrow> fm_inv qs \<and> (\<forall>(dc, q)\<in>set qs. queue_inv q
     \<and> (\<forall>e\<in>set q. en_task e < length ks \<and> tk_dc (ks ! en_task e) = dc))"

definition kill_inv :: "(int \<times> int) list \<Rightarrow> task list \<Rightarrow> bool" where
  "kill_inv whens ks \<longleftrightarrow> fm_inv whens
     \<and> (\<forall>k\<in>set ks. map_of whens (tk_dc k) \<noteq> None \<longrightarrow> tk_sent k = [])"

text \<open>A task with requests or unchecked parts waits in the queue.\<close>

definition all_queued :: "download \<Rightarrow> bool" where
  "all_queued st \<longleftrightarrow> (\<forall>t<length (dl_tasks st). haveSentRequests (the_task t st) \<longrightarrow>
     t \<in> en_task ` set (queue_of (tk_dc (the_task t st)) st))"

definition dl_inv :: "(int \<Rightarrow> nat \<Rightarrow> int) \<Rightarrow> download \<Rightarrow> bool" where
  "dl_inv ex st \<longleftrightarrow> (\<forall>k\<in>set (dl_tasks st). task_inv (dl_last_id st) k)
     \<and> accounts ex (dl_balance st) (dl_tasks st)
     \<and> queues_inv (dl_queues st) (dl_tasks st) \<and> kill_inv (dl_kill_when st) (dl_tasks st) \<and> all_queued st"

section \<open>One request more or less\<close>

lemma load_of_swap:
  assumes "t < length ks" "tk_dc k' = tk_dc (ks ! t)"
  shows "load_of f dc (ks[t := k']) = load_of f dc ks + (if dc = tk_dc k' then f k' - f (ks ! t) else 0)"
  unfolding load_of_def sum_list_swap [OF assms(1)] using assms(2) by simp

definition bump :: "nat \<Rightarrow> int \<Rightarrow> dc_balance \<Rightarrow> dc_balance" where
  "bump j d b = b\<lparr> dc_sessions := (dc_sessions b)[j := (dc_sessions b ! j)
       \<lparr> bs_requested := bs_requested (dc_sessions b ! j) + d \<rparr>], dc_total := dc_total b + d \<rparr>"

lemma change_requested_eq: "j < length (dc_sessions b) \<Longrightarrow>
    change_requested j d b = Some (bump j d b, bs_requested (dc_sessions b ! j) + d)"
  by (simp add: change_requested_def bump_def Let_def)

lemma bump_ok: "balance_ok b \<Longrightarrow> j < length (dc_sessions b) \<Longrightarrow> balance_ok (bump j d b)"
  using change_requested_ok [OF _ change_requested_eq] by blast

lemma bump_simps [simp]: "length (dc_sessions (bump j d b)) = length (dc_sessions b)"
  "dc_total (bump j d b) = dc_total b + d"
  by (simp_all add: bump_def)

lemma bump_nth: "i < length (dc_sessions b) \<Longrightarrow> bs_requested (dc_sessions (bump j d b) ! i) =
    bs_requested (dc_sessions b ! i) + (if i = j then d else 0)"
  by (auto simp: bump_def nth_list_update)

lemma set_update_cases: "t < length ks \<Longrightarrow> k \<in> set (ks[t := k']) \<Longrightarrow> k = k' \<or> k \<in> set ks"
  using set_update_subset_insert by fastforce

text \<open>A task \<open>k'\<close> with \<open>n\<close> requests more in session \<open>j\<close>, a balance
  changed by as many parts.\<close>

lemma dc_counts_bump:
  assumes "dc_counts ex b dc ks" "t < length ks" "tk_dc (ks ! t) = dc" "tk_dc k' = dc" "j < length (dc_sessions b)"
    and "\<And>i. sent_count i k' = sent_count i (ks ! t) + (if i = j then n else 0)"
    and "sent_all k' = sent_all (ks ! t) + n" "sessions_below (length (dc_sessions b)) k'"
  shows "dc_counts ex (bump j (kDownloadPartSize * n) b) dc (ks[t := k'])"
proof -
  have swap: "load_of f dc (ks[t := k']) = load_of f dc ks + (f k' - f (ks ! t))" for f
    using load_of_swap [OF assms(2), of k' f dc] assms(3,4) by simp
  have "sessions_below (length (dc_sessions b)) k" if "k \<in> set (ks[t := k'])" "tk_dc k = dc" for k
    using set_update_cases [OF assms(2) that(1)] that(2) assms(1,8) by (auto simp: dc_counts_def)
  moreover have "balance_ok (bump j (kDownloadPartSize * n) b)"
    using assms(1,5) bump_ok by (simp add: dc_counts_def)
  ultimately show ?thesis
    using assms(1,6,7) unfolding dc_counts_def swap bump_simps by (simp add: bump_nth distrib_left)
qed

lemma dc_counts_other:
  assumes "dc_counts ex b dc ks" "t < length ks" "tk_dc (ks ! t) \<noteq> dc" "tk_dc k' = tk_dc (ks ! t)"
  shows "dc_counts ex b dc (ks[t := k'])"
proof -
  have "load_of f dc (ks[t := k']) = load_of f dc ks" for f
    using load_of_swap [OF assms(2,4), of f dc] assms(3,4) by auto
  moreover have "sessions_below (length (dc_sessions b)) k" if "k \<in> set (ks[t := k'])" "tk_dc k = dc" for k
    using set_update_cases [OF assms(2) that(1)] that(2) assms(1,3,4) by (auto simp: dc_counts_def)
  ultimately show ?thesis using assms(1) by (simp add: dc_counts_def)
qed

lemma accounts_update:
  assumes "accounts ex bal ks" "t < length ks" "tk_dc (ks ! t) = dc" "tk_dc k' = dc"
    and "dc_counts (ex dc) b' dc (ks[t := k'])"
  shows "accounts ex (bal(dc \<mapsto> b')) (ks[t := k'])"
  unfolding accounts_def
proof
  fix dc'
  show "case (bal(dc \<mapsto> b')) dc' of
      None \<Rightarrow> \<forall>k\<in>set (ks[t := k']). tk_dc k = dc' \<longrightarrow> tk_sent k = [] \<and> tk_unchecked k = []
    | Some b \<Rightarrow> dc_counts (ex dc') b dc' (ks[t := k'])"
  proof (cases "dc' = dc")
    case False
    then have ne: "tk_dc (ks ! t) \<noteq> dc'" "tk_dc k' = tk_dc (ks ! t)" using assms(3,4) by auto
    show ?thesis
    proof (cases "bal dc'")
      case None
      then have "\<forall>k\<in>set ks. tk_dc k = dc' \<longrightarrow> tk_sent k = [] \<and> tk_unchecked k = []"
        using assms(1) by (auto simp: accounts_def dest: spec [of _ dc'])
      then show ?thesis
        using None False assms(4) set_update_cases [OF assms(2)] by fastforce
    next
      case (Some b)
      then have "dc_counts (ex dc') b dc' ks"
        using assms(1) by (auto simp: accounts_def dest: spec [of _ dc'])
      from dc_counts_other [OF this assms(2) ne] show ?thesis using Some False by simp
    qed
  qed (simp add: assms(5))
qed

section \<open>Placing and finishing a request\<close>

definition put_request :: "nat \<Rightarrow> request_data \<Rightarrow> task \<Rightarrow> task" where
  "put_request i rd k = k\<lparr> tk_sent := fst (fm_insert (tk_sent k) (i, rd)),
     tk_by_offset := fst (fm_insert (tk_by_offset k) (rq_offset rd, i)) \<rparr>"

definition take_request :: "nat \<Rightarrow> request_data \<Rightarrow> task \<Rightarrow> task" where
  "take_request i rd k = k\<lparr> tk_hash_request := (if tk_hash_request k = i then 0 else tk_hash_request k),
     tk_sent := fst (fm_remove (tk_sent k) i), tk_by_offset := fst (fm_remove (tk_by_offset k) (rq_offset rd)) \<rparr>"

lemma indices_agreeD:
  assumes "indices_agree s p"
  shows "p off = Some i \<Longrightarrow> \<exists>rd. s i = Some rd \<and> rq_offset rd = off"
    "s i = Some rd \<Longrightarrow> p (rq_offset rd) = Some i"
  using assms by (auto simp: indices_agree_def)

lemma indices_put:
  assumes "indices_agree s p" "s i = None" "p (rq_offset rd) = None"
  shows "indices_agree (s(i \<mapsto> rd)) (p(rq_offset rd \<mapsto> i))"
  unfolding indices_agree_def
proof (intro allI)
  fix off i'
  show "(p(rq_offset rd \<mapsto> i)) off = Some i' \<longleftrightarrow> (\<exists>rd'. (s(i \<mapsto> rd)) i' = Some rd' \<and> rq_offset rd' = off)"
    using assms(2,3) by (cases "i' = i"; cases "off = rq_offset rd") (auto dest: indices_agreeD [OF assms(1)])
qed

lemma indices_take:
  assumes "indices_agree s p" "s i = Some rd"
  shows "indices_agree (s(i := None)) (p(rq_offset rd := None))"
  unfolding indices_agree_def
proof (intro allI)
  fix off i'
  show "(p(rq_offset rd := None)) off = Some i' \<longleftrightarrow> (\<exists>rd'. (s(i := None)) i' = Some rd' \<and> rq_offset rd' = off)"
    using assms(2) indices_agreeD(2) [OF assms] by (cases "i' = i"; cases "off = rq_offset rd") (auto dest: indices_agreeD [OF assms(1)])
qed

lemma task_invD:
  assumes "task_inv n k"
  shows "fm_inv (tk_sent k)" "fm_inv (tk_by_offset k)" "fm_inv (tk_unchecked k)"
    "indices_agree (map_of (tk_sent k)) (map_of (tk_by_offset k))" "client_inv (tk_client k)"
    "map_of (tk_sent k) i \<noteq> None \<Longrightarrow> 0 < i \<and> i \<le> n"
    "map_of (tk_by_offset k) off \<noteq> None \<or> map_of (tk_unchecked k) off \<noteq> None \<Longrightarrow> \<not> fresh_offset off (tk_client k)"
    "map_of (tk_unchecked k) off \<noteq> None \<Longrightarrow>
      map_of (tk_by_offset k) off = None \<or> map_of (tk_by_offset k) off = Some (tk_hash_request k)"
    "tk_cdn_dc k \<noteq> 0 \<Longrightarrow> length (tk_cdn_key k) = kKeySize \<and> length (tk_cdn_iv k) = kIvecSize"
    "client_done (tk_client k) \<Longrightarrow> \<not> haveSentRequests k"
    "\<forall>p\<in>set (tk_unchecked k). rq_offset (fst (snd p)) = fst p" "tk_cdn_dc k = 0 \<Longrightarrow> tk_unchecked k = []"
  using assms unfolding task_inv_def by blast+

lemma put_request_inv:
  assumes "task_inv n k" "map_of (tk_sent k) i = None" "map_of (tk_by_offset k) (rq_offset rd) = None"
    "0 < i" "i \<le> n" "\<not> fresh_offset (rq_offset rd) (tk_client k)"
    "map_of (tk_unchecked k) (rq_offset rd) = None \<or> tk_hash_request k = i" "\<not> client_done (tk_client k)"
  shows "task_inv n (put_request i rd k)"
proof -
  note inv = task_invD [OF assms(1)]
  have "map_of (tk_sent (put_request i rd k)) = (map_of (tk_sent k))(i \<mapsto> rd)"
    "map_of (tk_by_offset (put_request i rd k)) = (map_of (tk_by_offset k))(rq_offset rd \<mapsto> i)"
    using assms(2,3) by (simp_all add: put_request_def fm_insert_map inv)
  moreover have "fm_inv (tk_sent (put_request i rd k))" "fm_inv (tk_by_offset (put_request i rd k))"
    "tk_unchecked (put_request i rd k) = tk_unchecked k" "tk_client (put_request i rd k) = tk_client k"
    "tk_cdn_dc (put_request i rd k) = tk_cdn_dc k" "tk_cdn_key (put_request i rd k) = tk_cdn_key k"
    "tk_cdn_iv (put_request i rd k) = tk_cdn_iv k" "tk_hash_request (put_request i rd k) = tk_hash_request k"
    by (simp_all add: put_request_def fm_insert_inv inv)
  ultimately show ?thesis
    using inv(3,5-9,11,12) assms(4-8) indices_put [OF inv(4) assms(2,3)] unfolding task_inv_def by auto
qed

lemma take_request_inv:
  assumes "task_inv n k" "map_of (tk_sent k) i = Some rd"
  shows "task_inv n (take_request i rd k)" "haveSentRequests (take_request i rd k) \<Longrightarrow> haveSentRequests k"
proof -
  note inv = task_invD [OF assms(1)]
  have m: "map_of (tk_sent (take_request i rd k)) = (map_of (tk_sent k))(i := None)"
    "map_of (tk_by_offset (take_request i rd k)) = (map_of (tk_by_offset k))(rq_offset rd := None)"
    by (simp_all add: take_request_def fm_remove_map inv)
  have fm: "fm_inv (tk_sent (take_request i rd k))" "fm_inv (tk_by_offset (take_request i rd k))"
    by (simp_all add: take_request_def fm_remove_inv inv)
  have same: "tk_unchecked (take_request i rd k) = tk_unchecked k" "tk_client (take_request i rd k) = tk_client k"
    "tk_cdn_dc (take_request i rd k) = tk_cdn_dc k" "tk_cdn_key (take_request i rd k) = tk_cdn_key k"
    "tk_cdn_iv (take_request i rd k) = tk_cdn_iv k"
    "tk_hash_request (take_request i rd k) = (if tk_hash_request k = i then 0 else tk_hash_request k)"
    by (simp_all add: take_request_def)
  have out: "haveSentRequests k" using assms(2) by (auto simp: haveSentRequests_def)
  show "haveSentRequests (take_request i rd k) \<Longrightarrow> haveSentRequests k" by (rule out)
  have "map_of (tk_by_offset (take_request i rd k)) off = None
      \<or> map_of (tk_by_offset (take_request i rd k)) off = Some (tk_hash_request (take_request i rd k))"
    if "map_of (tk_unchecked k) off \<noteq> None" for off
  proof (cases "map_of (tk_by_offset k) off = Some i")
    case True
    then have "off = rq_offset rd" using indices_agreeD(1) [OF inv(4) True] assms(2) by auto
    then show ?thesis by (simp add: m)
  next
    case False
    then show ?thesis using inv(8) [OF that] by (auto simp: m same)
  qed
  then show "task_inv n (take_request i rd k)"
    using inv(3,5-7,9-12) indices_take [OF inv(4) assms(2)] fm out unfolding task_inv_def same m by auto
qed

lemma request_dc [simp]: "tk_dc (put_request i rd k) = tk_dc k" "tk_dc (take_request i rd k) = tk_dc k"
  by (simp_all add: put_request_def take_request_def)

lemma put_request_counts:
  assumes "fm_inv (tk_sent k)" "map_of (tk_sent k) i = None"
  shows "sent_count j (put_request i rd k) = sent_count j k + (if j = rq_session rd then 1 else 0)"
    and "sent_all (put_request i rd k) = sent_all k + 1"
    and "sessions_below n (put_request i rd k) \<longleftrightarrow> sessions_below n k \<and> rq_session rd < n"
proof -
  have m: "mset (tk_sent (put_request i rd k)) = add_mset (i, rd) (mset (tk_sent k))"
    using fm_insert_mset [OF assms] by (simp add: put_request_def)
  show "sent_count j (put_request i rd k) = sent_count j k + (if j = rq_session rd then 1 else 0)"
    "sent_all (put_request i rd k) = sent_all k + 1"
    by (simp_all add: sent_count_def sent_all_def m)
  have "set (tk_sent (put_request i rd k)) = insert (i, rd) (set (tk_sent k))"
    using arg_cong [OF m, of set_mset] by simp
  then show "sessions_below n (put_request i rd k) \<longleftrightarrow> sessions_below n k \<and> rq_session rd < n"
    by (auto simp: sessions_below_def put_request_def)
qed

lemma take_request_counts:
  assumes "fm_inv (tk_sent k)" "map_of (tk_sent k) i = Some rd"
  shows "sent_count j (take_request i rd k) = sent_count j k + (if j = rq_session rd then -1 else 0)"
    and "sent_all (take_request i rd k) = sent_all k + -1"
    and "sessions_below n k \<Longrightarrow> sessions_below n (take_request i rd k) \<and> rq_session rd < n"
proof -
  have m: "mset (tk_sent k) = add_mset (i, rd) (mset (tk_sent (take_request i rd k)))"
    using fm_remove_mset [OF assms] by (simp add: take_request_def)
  show "sent_count j (take_request i rd k) = sent_count j k + (if j = rq_session rd then -1 else 0)"
    "sent_all (take_request i rd k) = sent_all k + -1"
    by (simp_all add: sent_count_def sent_all_def m)
  have "set (tk_sent k) = insert (i, rd) (set (tk_sent (take_request i rd k)))"
    using arg_cong [OF m, of set_mset] by simp
  then show "sessions_below n k \<Longrightarrow> sessions_below n (take_request i rd k) \<and> rq_session rd < n"
    by (auto simp: sessions_below_def take_request_def)
qed

lemma kill_simps [simp]: "dl_tasks (kill_sessions_cancel dc st) = dl_tasks st"
  "dl_tasks (kill_sessions_schedule now dc st) = dl_tasks st"
  "dl_balance (kill_sessions_cancel dc st) = dl_balance st"
  "dl_balance (kill_sessions_schedule now dc st) = dl_balance st"
  "dl_queues (kill_sessions_cancel dc st) = dl_queues st"
  "dl_queues (kill_sessions_schedule now dc st) = dl_queues st"
  "dl_last_id (kill_sessions_cancel dc st) = dl_last_id st"
  "dl_last_id (kill_sessions_schedule now dc st) = dl_last_id st"
  by (simp_all add: kill_sessions_cancel_def kill_sessions_schedule_def Let_def)

lemma set_task_simps [simp]: "dl_tasks (set_task t f st) = (dl_tasks st)[t := f (dl_tasks st ! t)]"
  "dl_balance (set_task t f st) = dl_balance st" "dl_queues (set_task t f st) = dl_queues st"
  "dl_last_id (set_task t f st) = dl_last_id st" "dl_kill_when (set_task t f st) = dl_kill_when st"
  by (simp_all add: set_task_def)

lemma log_simps [simp]: "dl_tasks (add_log es st) = dl_tasks st" "dl_balance (add_log es st) = dl_balance st"
  "dl_queues (add_log es st) = dl_queues st" "dl_last_id (add_log es st) = dl_last_id st"
  "dl_kill_when (add_log es st) = dl_kill_when st"
  "dl_tasks (post p st) = dl_tasks st" "dl_balance (post p st) = dl_balance st"
  "dl_queues (post p st) = dl_queues st" "dl_last_id (post p st) = dl_last_id st"
  "dl_kill_when (post p st) = dl_kill_when st"
  by (simp_all add: add_log_def post_def)

text \<open>Both operations, once the asserts in them hold.\<close>

lemma placeSentRequest_eq:
  assumes "task_inv n (the_task t st)" "dl_balance st (tk_dc (the_task t st)) = Some b"
    "rq_session rd < length (dc_sessions b)" "map_of (tk_sent (the_task t st)) i = None"
    "map_of (tk_by_offset (the_task t st)) (rq_offset rd) = None"
  shows "placeSentRequest now t i rd st = Some (set_task t (put_request i (rd\<lparr>
      rq_amount := bs_requested (dc_sessions b ! rq_session rd) + kDownloadPartSize, rq_sent := now \<rparr>))
    (kill_sessions_cancel (tk_dc (the_task t st))
      (st\<lparr> dl_balance := (dl_balance st)(tk_dc (the_task t st) \<mapsto> bump (rq_session rd) kDownloadPartSize b) \<rparr>)))"
proof -
  note inv = task_invD(1,2) [OF assms(1)]
  obtain s x where s: "fm_insert (tk_sent (the_task t st)) (i, rd\<lparr>
      rq_amount := bs_requested (dc_sessions b ! rq_session rd) + kDownloadPartSize, rq_sent := now \<rparr>) = (s, x, True)"
    using fm_insert_fresh [OF inv(1), of i] assms(4) by (metis prod.collapse)
  obtain p y where p: "fm_insert (tk_by_offset (the_task t st)) (rq_offset rd, i) = (p, y, True)"
    using fm_insert_fresh [OF inv(2), of "rq_offset rd" i] assms(5) by (metis prod.collapse)
  have task: "the_task t (kill_sessions_cancel dc (st\<lparr> dl_balance := bal \<rparr>)) = the_task t st" for dc bal
    by (simp add: the_task_def)
  have "0 < kDownloadPartSize" by (simp add: kDownloadPartSize_def)
  then have cr: "changeRequestedAmount now (tk_dc (the_task t st)) (rq_session rd) kDownloadPartSize st =
      Some (kill_sessions_cancel (tk_dc (the_task t st)) (st\<lparr> dl_balance := (dl_balance st)
        (tk_dc (the_task t st) \<mapsto> bump (rq_session rd) kDownloadPartSize b) \<rparr>),
        bs_requested (dc_sessions b ! rq_session rd) + kDownloadPartSize)"
    by (simp add: changeRequestedAmount_def assms(2) change_requested_eq [OF assms(3)])
  show ?thesis
    unfolding placeSentRequest_def cr bind.bind_lunit prod.case Let_def task fm_emplace_def s p
    using s p by (simp add: set_task_def put_request_def the_task_def)
qed

text \<open>What is left of \<^verbatim>\<open>finishSentRequest\<close> after its asserts.\<close>

definition after_finish :: "int \<Rightarrow> int \<Rightarrow> dc_balance \<Rightarrow> download \<Rightarrow> download" where
  "after_finish now dc b st =
     (let st = st\<lparr> dl_balance := (dl_balance st)(dc \<mapsto> b) \<rparr> in
      if sessions_idle b then kill_sessions_schedule now dc st else st)"

lemma finishSentRequest_eq:
  fixes now :: int
  assumes "task_inv n (the_task t st)" "t < length (dl_tasks st)" "dl_balance st (tk_dc (the_task t st)) = Some b"
    "map_of (tk_sent (the_task t st)) i = Some rd" "rq_session rd < length (dc_sessions b)"
  defines "b1 \<equiv> bump (rq_session rd) (- kDownloadPartSize) b"
  defines "st1 \<equiv> set_task t (take_request i rd) (after_finish now (tk_dc (the_task t st)) b1 st)"
  shows "finishSentRequest now t i reason st =
    (if reason = Success
     then map_option (\<lambda>st. (rd, st)) (requestSucceeded now (tk_dc (the_task t st)) (rq_session rd) (rq_amount rd) (rq_sent rd) st1)
     else Some (rd, st1))"
proof -
  have found: "snd (fm_remove (tk_by_offset (the_task t st)) (rq_offset rd))"
    using fm_remove_hit [OF task_invD(2) [OF assms(1)]] indices_agreeD(2) [OF task_invD(4) [OF assms(1)] assms(4)]
    by simp
  have neg: "\<not> 0 < - kDownloadPartSize" by (simp add: kDownloadPartSize_def)
  let ?hash = "\<lambda>k. if tk_hash_request k = i then k\<lparr> tk_hash_request := 0 \<rparr> else k"
  let ?sent = "\<lambda>k. k\<lparr> tk_sent := fst (fm_remove (tk_sent k) i),
    tk_by_offset := fst (fm_remove (tk_by_offset k) (rq_offset rd)) \<rparr>"
  have cr: "changeRequestedAmount now (tk_dc (the_task t st)) (rq_session rd) (- kDownloadPartSize) (set_task t ?hash st)
      = Some (set_task t ?hash (after_finish now (tk_dc (the_task t st)) b1 st),
        bs_requested (dc_sessions b ! rq_session rd) + - kDownloadPartSize)"
    using neg unfolding changeRequestedAmount_def set_task_simps assms(3)
    by (simp add: change_requested_eq [OF assms(5)] b1_def after_finish_def Let_def set_task_def
        kill_sessions_schedule_def)
  have st1: "set_task t ?sent (set_task t ?hash (after_finish now (tk_dc (the_task t st)) b1 st)) = st1"
    using assms(2) by (simp add: st1_def set_task_def take_request_def the_task_def after_finish_def Let_def)
  show ?thesis
    unfolding finishSentRequest_def Let_def assms(4) bind.bind_lunit cr prod.case st1
    using found by (cases "requestSucceeded now (tk_dc (the_task t st)) (rq_session rd) (rq_amount rd) (rq_sent rd) st1") simp_all
qed

section \<open>The invariant is kept\<close>

lemma sent_count_nonneg [simp]: "0 \<le> sent_count j k" "0 \<le> sent_all k"
  by (simp_all add: sent_count_def sent_all_def)

lemma load_of_zero: "(\<And>k. 0 \<le> f k) \<Longrightarrow> load_of f dc ks = 0 \<longleftrightarrow> (\<forall>k\<in>set ks. tk_dc k = dc \<longrightarrow> f k = 0)"
  unfolding load_of_def by (subst sum_list_zero_iff) auto

lemma load_of_nonneg: "(\<And>k. 0 \<le> f k) \<Longrightarrow> 0 \<le> load_of f dc ks"
  unfolding load_of_def by (intro sum_list_nonneg) auto

lemma sent_all_zero: "sent_all k = 0 \<longleftrightarrow> tk_sent k = []"
  by (simp add: sent_all_def)

lemma sent_count_zero: "sent_count j k = 0 \<longleftrightarrow> (\<forall>p\<in>set (tk_sent k). rq_session (snd p) \<noteq> j)"
  by (simp add: sent_count_def Ball_def del: split_paired_All)

lemma idle_no_requests:
  assumes "dc_counts ex b dc ks" "\<And>j. 0 \<le> ex j" "sessions_idle b"
  shows "\<forall>k\<in>set ks. tk_dc k = dc \<longrightarrow> tk_sent k = []"
proof (intro ballI impI)
  fix k assume k: "k \<in> set ks" "tk_dc k = dc"
  have zero: "load_of (sent_count j) dc ks = 0" if "j < length (dc_sessions b)" for j
  proof -
    have "\<not> 0 < bs_requested (dc_sessions b ! j)" using assms(3) that by (simp add: sessions_idle_def)
    moreover have "bs_requested (dc_sessions b ! j) = kDownloadPartSize * load_of (sent_count j) dc ks + ex j"
      using assms(1) that by (simp add: dc_counts_def)
    ultimately show ?thesis
      using load_of_nonneg [of "sent_count j" dc ks] assms(2) [of j] by (simp add: kDownloadPartSize_def)
  qed
  have "rq_session (snd p) < length (dc_sessions b)" if "p \<in> set (tk_sent k)" for p
    using assms(1) k that by (simp add: dc_counts_def sessions_below_def)
  moreover have "rq_session (snd p) \<noteq> j" if "p \<in> set (tk_sent k)" "j < length (dc_sessions b)" for p j
    using zero [OF that(2)] k that(1) by (simp add: load_of_zero sent_count_zero)
  ultimately show "tk_sent k = []" by (metis list.set_sel(1))
qed

lemma idle_total:
  assumes "dc_counts ex b dc ks"
  shows "dc_total b = 0 \<longleftrightarrow> (\<forall>k\<in>set ks. tk_dc k = dc \<longrightarrow> tk_sent k = [])"
  using assms by (simp add: dc_counts_def load_of_zero sent_all_zero kDownloadPartSize_def)

lemma task_inv_mono: "task_inv n k \<Longrightarrow> n \<le> m \<Longrightarrow> task_inv m k"
  unfolding task_inv_def by (meson le_trans)

lemma queues_inv_update:
  "queues_inv qs ks \<Longrightarrow> t < length ks \<Longrightarrow> tk_dc k' = tk_dc (ks ! t) \<Longrightarrow> queues_inv qs (ks[t := k'])"
  unfolding queues_inv_def by (auto simp: nth_list_update split: prod.splits)

lemma kill_inv_cancel:
  assumes "kill_inv (dl_kill_when st) ks" "t < length ks" "tk_dc k' = dc"
  shows "kill_inv (dl_kill_when (kill_sessions_cancel dc st)) (ks[t := k'])"
proof -
  have "fm_inv (dl_kill_when st)" using assms(1) by (simp add: kill_inv_def)
  then have "map_of (dl_kill_when (kill_sessions_cancel dc st)) = (map_of (dl_kill_when st))(dc := None)"
    "fm_inv (dl_kill_when (kill_sessions_cancel dc st))"
    by (simp_all add: kill_sessions_cancel_def Let_def fm_remove_map fm_remove_inv)
  then show ?thesis
    using assms set_update_cases [OF assms(2)] by (fastforce simp: kill_inv_def)
qed

lemma kill_inv_schedule:
  assumes "kill_inv (dl_kill_when st) ks" "t < length ks" "tk_dc (ks ! t) = dc" "tk_dc k' = dc"
    and "\<forall>k\<in>set (ks[t := k']). tk_dc k = dc \<longrightarrow> tk_sent k = []"
  shows "kill_inv (dl_kill_when (kill_sessions_schedule now dc st)) (ks[t := k'])"
proof -
  let ?w = "dl_kill_when (kill_sessions_schedule now dc st)"
  have inv: "fm_inv (dl_kill_when st)" using assms(1) by (simp add: kill_inv_def)
  then have "fm_inv ?w"
    by (simp add: kill_sessions_schedule_def fm_emplace_def fm_insert_inv)
  moreover have "map_of ?w c = map_of (dl_kill_when st) c" if "c \<noteq> dc" for c
    using inv that by (simp add: kill_sessions_schedule_def fm_emplace_def fm_insert_map)
  ultimately show ?thesis
    using assms set_update_cases [OF assms(2)] unfolding kill_inv_def by metis
qed

lemma all_queued_update:
  assumes "all_queued st" "t < length (dl_tasks st)" "dl_tasks st' = (dl_tasks st)[t := k']"
    "dl_queues st' = dl_queues st" "haveSentRequests k' \<Longrightarrow> t \<in> en_task ` set (queue_of (tk_dc k') st)"
  shows "all_queued st'"
proof -
  have "queue_of dc st' = queue_of dc st" for dc by (simp add: queue_of_def assms(4))
  moreover have "the_task u st' = (if u = t then k' else the_task u st)" if "u < length (dl_tasks st)" for u
    using that assms(2,3) by (simp add: the_task_def)
  ultimately show ?thesis using assms(1,5) unfolding all_queued_def by (simp add: assms(3))
qed

lemma dl_inv_update:
  assumes "dl_inv ex st" "t < length (dl_tasks st)" "tk_dc (the_task t st) = dc" "tk_dc k' = dc"
    and "dl_tasks st' = (dl_tasks st)[t := k']" "dl_balance st' = (dl_balance st)(dc \<mapsto> b')"
    and "dl_queues st' = dl_queues st" "dl_last_id st \<le> dl_last_id st'"
    and "task_inv (dl_last_id st') k'" "dc_counts (ex dc) b' dc ((dl_tasks st)[t := k'])"
    and "kill_inv (dl_kill_when st') ((dl_tasks st)[t := k'])"
    and "haveSentRequests k' \<Longrightarrow> t \<in> en_task ` set (queue_of dc st)"
  shows "dl_inv ex st'"
proof -
  have dc: "tk_dc (dl_tasks st ! t) = dc" using assms(3) by (simp add: the_task_def)
  have inv: "\<forall>k\<in>set (dl_tasks st). task_inv (dl_last_id st) k" "accounts ex (dl_balance st) (dl_tasks st)"
    "queues_inv (dl_queues st) (dl_tasks st)"
    using assms(1) by (simp_all add: dl_inv_def)
  have "\<forall>k\<in>set (dl_tasks st'). task_inv (dl_last_id st') k"
    using inv(1) assms(8,9) set_update_cases [OF assms(2)] task_inv_mono unfolding assms(5) by blast
  moreover have "accounts ex (dl_balance st') (dl_tasks st')"
    unfolding assms(5,6) using accounts_update [OF inv(2) assms(2) dc assms(4,10)] .
  moreover have "queues_inv (dl_queues st') (dl_tasks st')"
    unfolding assms(5,7) using inv(3) assms(2,4) dc by (intro queues_inv_update) simp_all
  moreover have "all_queued st'"
    using assms(1) by (intro all_queued_update [OF _ assms(2,5,7)]) (simp_all add: dl_inv_def assms(4,12))
  ultimately show ?thesis
    using assms(5,11) by (simp add: dl_inv_def)
qed

lemma dl_invD:
  assumes "dl_inv ex st" "t < length (dl_tasks st)"
  shows "task_inv (dl_last_id st) (the_task t st)"
    "dl_balance st (tk_dc (the_task t st)) = Some b \<Longrightarrow>
      dc_counts (ex (tk_dc (the_task t st))) b (tk_dc (the_task t st)) (dl_tasks st)
      \<and> sessions_below (length (dc_sessions b)) (the_task t st)"
    "kill_inv (dl_kill_when st) (dl_tasks st)"
    "haveSentRequests (the_task t st) \<Longrightarrow> t \<in> en_task ` set (queue_of (tk_dc (the_task t st)) st)"
proof -
  have mem: "the_task t st \<in> set (dl_tasks st)" using assms(2) by (simp add: the_task_def)
  then show "task_inv (dl_last_id st) (the_task t st)" "kill_inv (dl_kill_when st) (dl_tasks st)"
    "haveSentRequests (the_task t st) \<Longrightarrow> t \<in> en_task ` set (queue_of (tk_dc (the_task t st)) st)"
    using assms by (simp_all add: dl_inv_def all_queued_def)
  assume "dl_balance st (tk_dc (the_task t st)) = Some b"
  then have "dc_counts (ex (tk_dc (the_task t st))) b (tk_dc (the_task t st)) (dl_tasks st)"
    using assms(1) by (auto simp: dl_inv_def accounts_def dest: spec [of _ "tk_dc (the_task t st)"])
  with mem show "dc_counts (ex (tk_dc (the_task t st))) b (tk_dc (the_task t st)) (dl_tasks st)
      \<and> sessions_below (length (dc_sessions b)) (the_task t st)"
    by (simp add: dc_counts_def)
qed

text \<open>What an operation on the requests of a task leaves alone.\<close>

definition same_but :: "nat \<Rightarrow> download \<Rightarrow> download \<Rightarrow> bool" where
  "same_but t st st' \<longleftrightarrow> length (dl_tasks st') = length (dl_tasks st)
     \<and> (\<forall>u. u \<noteq> t \<longrightarrow> the_task u st' = the_task u st)
     \<and> tk_dc (the_task t st') = tk_dc (the_task t st) \<and> tk_client (the_task t st') = tk_client (the_task t st)
     \<and> tk_location (the_task t st') = tk_location (the_task t st)
     \<and> dl_queues st' = dl_queues st \<and> dl_reset_timer st' = dl_reset_timer st
     \<and> (\<forall>dc. dc \<noteq> tk_dc (the_task t st) \<longrightarrow> dl_balance st' dc = dl_balance st dc)
     \<and> dl_last_id st \<le> dl_last_id st'"

lemma same_but_refl [simp]: "same_but t st st"
  by (simp add: same_but_def)

lemma same_but_trans [trans]: "same_but t st st1 \<Longrightarrow> same_but t st1 st2 \<Longrightarrow> same_but t st st2"
  by (simp add: same_but_def)

lemma place_inv:
  assumes "dl_inv ex st" "t < length (dl_tasks st)" "dl_balance st (tk_dc (the_task t st)) = Some b"
    "rq_session rd < length (dc_sessions b)" "map_of (tk_sent (the_task t st)) i = None" "0 < i" "i \<le> dl_last_id st"
    "map_of (tk_by_offset (the_task t st)) (rq_offset rd) = None"
    "\<not> fresh_offset (rq_offset rd) (tk_client (the_task t st))"
    "map_of (tk_unchecked (the_task t st)) (rq_offset rd) = None \<or> tk_hash_request (the_task t st) = i"
    "\<not> client_done (tk_client (the_task t st))" "t \<in> en_task ` set (queue_of (tk_dc (the_task t st)) st)"
  shows "\<exists>st' rd'. placeSentRequest now t i rd st = Some st' \<and> dl_inv ex st' \<and> same_but t st st'
    \<and> rq_offset rd' = rq_offset rd \<and> rq_session rd' = rq_session rd
    \<and> the_task t st' = put_request i rd' (the_task t st)
    \<and> dl_balance st' (tk_dc (the_task t st)) = Some (bump (rq_session rd) kDownloadPartSize b)"
proof -
  let ?k = "the_task t st"
  let ?dc = "tk_dc ?k"
  define rd' where "rd' = rd\<lparr> rq_amount := bs_requested (dc_sessions b ! rq_session rd) + kDownloadPartSize, rq_sent := now \<rparr>"
  define st' where "st' = set_task t (put_request i rd') (kill_sessions_cancel ?dc
    (st\<lparr> dl_balance := (dl_balance st)(?dc \<mapsto> bump (rq_session rd) kDownloadPartSize b) \<rparr>))"
  have rd': "rq_offset rd' = rq_offset rd" "rq_session rd' = rq_session rd" by (simp_all add: rd'_def)
  note inv = dl_invD [OF assms(1,2)]
  have k: "dl_tasks st ! t = ?k" by (simp add: the_task_def)
  have eq: "placeSentRequest now t i rd st = Some st'"
    unfolding st'_def rd'_def by (rule placeSentRequest_eq [OF inv(1) assms(3,4,5,8)])
  have put: "task_inv (dl_last_id st) (put_request i rd' ?k)"
    using put_request_inv [OF inv(1) assms(5), of rd'] assms(6-11) by (simp add: rd')
  note counts = put_request_counts [OF task_invD(1) [OF inv(1)] assms(5), where rd = rd', unfolded rd']
  have "dc_counts (ex ?dc) (bump (rq_session rd) (kDownloadPartSize * 1) b) ?dc ((dl_tasks st)[t := put_request i rd' ?k])"
    using inv(2) [OF assms(3)] assms(2,4) counts by (intro dc_counts_bump) (simp_all add: k)
  moreover have "kill_inv (dl_kill_when (kill_sessions_cancel ?dc st)) ((dl_tasks st)[t := put_request i rd' ?k])"
    using inv(3) assms(2) by (intro kill_inv_cancel) simp_all
  moreover have "dl_kill_when st' = dl_kill_when (kill_sessions_cancel ?dc st)"
    by (simp add: st'_def kill_sessions_cancel_def Let_def)
  ultimately have "dl_inv ex st'"
    using put assms(12) by (intro dl_inv_update [OF assms(1,2) refl, where k' = "put_request i rd' ?k"])
      (simp_all add: st'_def k)
  moreover have "same_but t st st'"
    using assms(2) by (auto simp: same_but_def st'_def the_task_def put_request_def kill_sessions_cancel_def
        set_task_def Let_def)
  moreover have "the_task t st' = put_request i rd' ?k"
    using assms(2) by (simp add: st'_def the_task_def)
  ultimately show ?thesis using eq rd' by (auto simp: st'_def)
qed

lemma reward_requested: "dc_total (reward_sessions now b) = dc_total b
    \<and> (map bs_requested (dc_sessions (reward_sessions now b)) = map bs_requested (dc_sessions b)
      \<or> map bs_requested (dc_sessions (reward_sessions now b)) = map bs_requested (dc_sessions b) @ [0])"
  by (auto simp: reward_sessions_def forget_successes_def Let_def comp_def session_balance_new_def)

lemma credit_requested: "bs_requested (credit_session amount d) = bs_requested d"
  by (simp add: credit_session_def Let_def)

lemma request_succeeded_requested:
  assumes "request_succeeded now index amount start b = Some (b', p)"
  shows "dc_total b' = dc_total b \<and> (map bs_requested (dc_sessions b') = map bs_requested (dc_sessions b)
    \<or> map bs_requested (dc_sessions b') = map bs_requested (dc_sessions b) @ [0])"
proof -
  let ?b = "b\<lparr> dc_sessions := (dc_sessions b)[index := credit_session amount (dc_sessions b ! index)] \<rparr>"
  have "map bs_requested (dc_sessions ?b) = map bs_requested (dc_sessions b)" "dc_total ?b = dc_total b"
    by (simp_all add: map_update credit_requested flip: nth_map)
      (metis list_update_id nth_map list_update_beyond length_map linorder_not_less)
  moreover have "b' = b \<or> b' = ?b \<or> b' = reward_sessions now ?b"
    using assms by (auto simp: request_succeeded_def Let_def split: if_splits)
  ultimately show ?thesis using reward_requested [of now ?b] by auto
qed

lemma dc_counts_requested:
  assumes "dc_counts ex b dc ks" "balance_ok b'" "dc_total b' = dc_total b"
    and "map bs_requested (dc_sessions b') = map bs_requested (dc_sessions b)
      \<or> map bs_requested (dc_sessions b') = map bs_requested (dc_sessions b) @ [0] \<and> ex (length (dc_sessions b)) = 0"
  shows "dc_counts ex b' dc ks"
proof (cases "length (dc_sessions b') = length (dc_sessions b)")
  case True
  then have same: "map bs_requested (dc_sessions b') = map bs_requested (dc_sessions b)"
    using assms(4) by (metis length_append_singleton length_map n_not_Suc_n)
  then have "bs_requested (dc_sessions b' ! j) = bs_requested (dc_sessions b ! j)" if "j < length (dc_sessions b)" for j
    using that True by (metis nth_map)
  then show ?thesis using assms(1-3) True by (simp add: dc_counts_def)
next
  case False
  then have more: "map bs_requested (dc_sessions b') = map bs_requested (dc_sessions b) @ [0]"
    and ex: "ex (length (dc_sessions b)) = 0"
    using assms(4) by (metis length_map)+
  have len: "length (dc_sessions b') = Suc (length (dc_sessions b))"
    using arg_cong [OF more, of length] by simp
  have nth: "bs_requested (dc_sessions b' ! j) = (if j < length (dc_sessions b) then bs_requested (dc_sessions b ! j) else 0)"
    if "j < Suc (length (dc_sessions b))" for j
    using that arg_cong [OF more, of "\<lambda>xs. xs ! j"] len by (auto simp: nth_append)
  have below: "sessions_below (length (dc_sessions b)) k" if "k \<in> set ks" "tk_dc k = dc" for k
    using assms(1) that by (simp add: dc_counts_def)
  then have "sent_count (length (dc_sessions b)) k = 0" if "k \<in> set ks" "tk_dc k = dc" for k
    using that unfolding sent_count_zero sessions_below_def by (metis nat_neq_iff)
  then have "load_of (sent_count (length (dc_sessions b))) dc ks = 0"
    by (simp add: load_of_zero)
  then have "bs_requested (dc_sessions b' ! j) = kDownloadPartSize * load_of (sent_count j) dc ks + ex j"
    if "j < length (dc_sessions b')" for j
    using that nth [of j] assms(1) ex by (cases "j < length (dc_sessions b)") (auto simp: dc_counts_def len less_Suc_eq)
  moreover have "sessions_below (length (dc_sessions b')) k" if "k \<in> set ks" "tk_dc k = dc" for k
    using below [OF that] by (force simp: sessions_below_def len intro: less_SucI)
  ultimately show ?thesis using assms(1-3) by (simp add: dc_counts_def)
qed

lemma requests_have_balance:
  assumes "dl_inv ex st" "t < length (dl_tasks st)" "map_of (tk_sent (the_task t st)) i = Some rd"
  obtains b where "dl_balance st (tk_dc (the_task t st)) = Some b" "rq_session rd < length (dc_sessions b)"
proof -
  have mem: "the_task t st \<in> set (dl_tasks st)" using assms(2) by (simp add: the_task_def)
  have rd: "(i, rd) \<in> set (tk_sent (the_task t st))" using map_of_SomeD [OF assms(3)] .
  show ?thesis
  proof (cases "dl_balance st (tk_dc (the_task t st))")
    case None
    then show ?thesis
      using assms(1) mem rd by (force simp: dl_inv_def accounts_def dest: spec [of _ "tk_dc (the_task t st)"])
  next
    case (Some b)
    then show ?thesis
      using that dl_invD(2) [OF assms(1,2) Some] rd by (force simp: sessions_below_def)
  qed
qed

lemma after_finish_simps [simp]: "dl_tasks (after_finish now dc b st) = dl_tasks st"
  "dl_balance (after_finish now dc b st) = (dl_balance st)(dc \<mapsto> b)"
  "dl_queues (after_finish now dc b st) = dl_queues st" "dl_last_id (after_finish now dc b st) = dl_last_id st"
  "dl_reset_timer (after_finish now dc b st) = dl_reset_timer st"
  by (auto simp: after_finish_def Let_def kill_sessions_schedule_def)

lemma requestSucceeded_inv:
  assumes "dl_inv ex st" "dl_balance st dc = Some b" "session < length (dc_sessions b)" "\<forall>j. ex dc j = 0"
  shows "\<exists>st' b'. requestSucceeded now dc session amount start st = Some st' \<and> dl_inv ex st'
    \<and> dl_tasks st' = dl_tasks st \<and> dl_queues st' = dl_queues st \<and> dl_last_id st' = dl_last_id st
    \<and> dl_reset_timer st' = dl_reset_timer st
    \<and> dl_balance st' = (dl_balance st)(dc \<mapsto> b') \<and> length (dc_sessions b) \<le> length (dc_sessions b')"
proof -
  obtain b' p where b': "request_succeeded now session amount start b = Some (b', p)"
    using assms(3) by (cases "request_succeeded now session amount start b")
      (auto simp: request_succeeded_def Let_def split: if_split_asm)
  define st' where "st' = (if p then post (TimedOut dc session) else (\<lambda>st. st)) (st\<lparr> dl_balance := (dl_balance st)(dc \<mapsto> b') \<rparr>)"
  have counts: "dc_counts (ex dc) b dc (dl_tasks st)"
    using assms(1,2) by (auto simp: dl_inv_def accounts_def dest: spec [of _ dc])
  have "balance_ok b'" using counts b' request_succeeded_ok by (simp add: dc_counts_def) blast
  then have "dc_counts (ex dc) b' dc (dl_tasks st)"
    using dc_counts_requested [OF counts] request_succeeded_requested [OF b'] assms(4) by blast
  then have "accounts ex ((dl_balance st)(dc \<mapsto> b')) (dl_tasks st)"
    using assms(1) by (auto simp: dl_inv_def accounts_def)
  then have "dl_inv ex st'"
    using assms(1) by (simp add: dl_inv_def st'_def all_queued_def the_task_def queue_of_def)
  moreover have "length (dc_sessions b) \<le> length (dc_sessions b')"
    using request_succeeded_requested [OF b'] by (metis length_append_singleton length_map le_refl le_SucI)
  moreover have "requestSucceeded now dc session amount start st = Some st'"
    by (simp add: requestSucceeded_def assms(2) b' st'_def)
  ultimately show ?thesis by (auto simp: st'_def post_def)
qed

lemma finish_inv:
  assumes "dl_inv ex st" "t < length (dl_tasks st)" "map_of (tk_sent (the_task t st)) i = Some rd"
    "\<forall>dc j. 0 \<le> ex dc j" "reason = Success \<longrightarrow> (\<forall>j. ex (tk_dc (the_task t st)) j = 0)"
    "dl_balance st (tk_dc (the_task t st)) = Some b"
  shows "\<exists>st' b'. finishSentRequest now t i reason st = Some (rd, st') \<and> dl_inv ex st' \<and> same_but t st st'
    \<and> the_task t st' = take_request i rd (the_task t st)
    \<and> dl_balance st' (tk_dc (the_task t st)) = Some b' \<and> length (dc_sessions b) \<le> length (dc_sessions b')
    \<and> (reason \<noteq> Success \<longrightarrow> b' = bump (rq_session rd) (- kDownloadPartSize) b)"
proof -
  let ?k = "the_task t st"
  let ?dc = "tk_dc ?k"
  obtain j: "rq_session rd < length (dc_sessions b)"
    using requests_have_balance [OF assms(1-3)] assms(6) by auto
  define b1 where "b1 = bump (rq_session rd) (- kDownloadPartSize) b"
  define st1 where "st1 = set_task t (take_request i rd) (after_finish now ?dc b1 st)"
  note inv = dl_invD [OF assms(1,2)]
  have k: "dl_tasks st ! t = ?k" by (simp add: the_task_def)
  note counts = take_request_counts [OF task_invD(1) [OF inv(1)] assms(3)]
  have b1: "dc_counts (ex ?dc) b1 ?dc ((dl_tasks st)[t := take_request i rd ?k])"
    using dc_counts_bump [of "ex ?dc" b ?dc "dl_tasks st" t "take_request i rd ?k" "rq_session rd" "-1"]
      inv(2) [OF assms(6)] assms(2) j counts by (simp add: k b1_def)
  have tasks: "\<forall>k\<in>set ((dl_tasks st)[t := take_request i rd ?k]). tk_dc k = ?dc \<longrightarrow> tk_sent k = []" if "sessions_idle b1"
    using idle_no_requests [OF b1] assms(4) that by blast
  have none: "map_of (dl_kill_when st) ?dc = None"
    using inv(3) assms(2,3) by (force simp: kill_inv_def the_task_def)
  have "kill_inv (dl_kill_when st1) ((dl_tasks st)[t := take_request i rd ?k])"
  proof (cases "sessions_idle b1")
    case True
    then have "dl_kill_when st1 = dl_kill_when (kill_sessions_schedule now ?dc st)"
      by (simp add: st1_def after_finish_def Let_def kill_sessions_schedule_def)
    then show ?thesis
      using kill_inv_schedule [OF inv(3) assms(2), of ?dc "take_request i rd ?k" now] tasks [OF True]
      by (simp only: k request_dc)
  next
    case False
    then show ?thesis
      using inv(3) none set_update_cases [OF assms(2)]
      by (fastforce simp: kill_inv_def st1_def after_finish_def)
  qed
  then have inv1: "dl_inv ex st1"
    using b1 take_request_inv [OF inv(1) assms(3)] inv(4)
    by (intro dl_inv_update [OF assms(1,2) refl, where k' = "take_request i rd ?k" and b' = b1])
      (simp_all add: st1_def k)
  have same1: "same_but t st st1" and task1: "the_task t st1 = take_request i rd ?k"
    using assms(2) by (auto simp: same_but_def st1_def the_task_def take_request_def set_task_def)
  have bal1: "dl_balance st1 ?dc = Some b1" and len: "length (dc_sessions b1) = length (dc_sessions b)"
    by (simp_all add: st1_def b1_def)
  note eq = finishSentRequest_eq [OF inv(1) assms(2,6,3) j, folded b1_def, of now reason, folded st1_def]
  show ?thesis
  proof (cases "reason = Success")
    case True
    obtain st' b' where st': "requestSucceeded now ?dc (rq_session rd) (rq_amount rd) (rq_sent rd) st1 = Some st'"
      "dl_inv ex st'" "dl_tasks st' = dl_tasks st1" "dl_queues st' = dl_queues st1" "dl_last_id st' = dl_last_id st1"
      "dl_reset_timer st' = dl_reset_timer st1"
      "dl_balance st' = (dl_balance st1)(?dc \<mapsto> b')" "length (dc_sessions b1) \<le> length (dc_sessions b')"
      using requestSucceeded_inv [OF inv1 bal1, of "rq_session rd" now "rq_amount rd" "rq_sent rd"] j len assms(5) True
      by auto
    have "same_but t st st'"
      using same1 st'(3-7) by (simp add: same_but_def the_task_def)
    moreover have "the_task t st' = take_request i rd ?k"
      using task1 st'(3) by (simp add: the_task_def)
    ultimately show ?thesis
      using eq st' len True by (auto intro!: exI [of _ st'])
  next
    case False
    then show ?thesis
      using eq inv1 same1 task1 bal1 len b1_def by auto
  qed
qed

end
