(* ===== verification/DownloadSend.thy ===== *)
theory DownloadSend imports DownloadInv begin

text \<open>
  The operations of the download manager from a state that satisfies the invariant of
  \<open>DownloadInv\<close>: no assert fails, the invariant holds again, and the loop that sends parts
  ends with nothing left to send.
\<close>

section \<open>Making and cancelling a request\<close>

lemma all_queued_simps [simp]: "all_queued (st\<lparr> dl_balance := bal \<rparr>) = all_queued st"
  "all_queued (st\<lparr> dl_kill_when := w \<rparr>) = all_queued st" "all_queued (st\<lparr> dl_kill_timer := x \<rparr>) = all_queued st"
  "all_queued (st\<lparr> dl_reset_timer := x \<rparr>) = all_queued st" "all_queued (st\<lparr> dl_posted := ps \<rparr>) = all_queued st"
  "all_queued (add_log es st) = all_queued st"
  by (simp_all add: all_queued_def the_task_def queue_of_def add_log_def)

lemma sessions_below_0: "sessions_below 0 k \<longleftrightarrow> tk_sent k = [] \<and> tk_unchecked k = []"
  unfolding sessions_below_def by (metis less_nat_zero_code list.set_sel(1) empty_iff list.set(1))

lemma task_below:
  assumes "dl_inv ex st" "t < length (dl_tasks st)"
  shows "case dl_balance st (tk_dc (the_task t st)) of None \<Rightarrow> sessions_below 0 (the_task t st)
    | Some b \<Rightarrow> sessions_below (length (dc_sessions b)) (the_task t st)"
proof (cases "dl_balance st (tk_dc (the_task t st))")
  case None
  moreover have "the_task t st \<in> set (dl_tasks st)" using assms(2) by (simp add: the_task_def)
  ultimately show ?thesis
    using assms(1) by (auto simp: dl_inv_def accounts_def sessions_below_0 dest: spec [of _ "tk_dc (the_task t st)"])
qed (use dl_invD(2) [OF assms] in auto)

lemma dl_inv_task:
  assumes "dl_inv ex st" "t < length (dl_tasks st)" "tk_dc k' = tk_dc (the_task t st)"
    "tk_sent k' = tk_sent (the_task t st)" "task_inv (dl_last_id st) k'"
    and "case dl_balance st (tk_dc k') of None \<Rightarrow> sessions_below 0 k' | Some b \<Rightarrow> sessions_below (length (dc_sessions b)) k'"
    and "haveSentRequests k' \<Longrightarrow> haveSentRequests (the_task t st)"
    and st': "dl_tasks st' = (dl_tasks st)[t := k']" "dl_balance st' = dl_balance st" "dl_queues st' = dl_queues st"
      "dl_last_id st' = dl_last_id st" "dl_kill_when st' = dl_kill_when st"
  shows "dl_inv ex st'"
proof -
  let ?k = "the_task t st"
  have k: "dl_tasks st ! t = ?k" "?k \<in> set (dl_tasks st)" using assms(2) by (simp_all add: the_task_def)
  have inv: "\<forall>k\<in>set (dl_tasks st). task_inv (dl_last_id st) k" "accounts ex (dl_balance st) (dl_tasks st)"
    "queues_inv (dl_queues st) (dl_tasks st)" "kill_inv (dl_kill_when st) (dl_tasks st)"
    using assms(1) by (simp_all add: dl_inv_def)
  have count: "sent_count j k' = sent_count j ?k" "sent_all k' = sent_all ?k" for j
    using assms(4) by (simp_all add: sent_count_def sent_all_def)
  have load: "load_of (sent_count j) dc ((dl_tasks st)[t := k']) = load_of (sent_count j) dc (dl_tasks st)"
    "load_of sent_all dc ((dl_tasks st)[t := k']) = load_of sent_all dc (dl_tasks st)" for j dc
    using load_of_swap [OF assms(2), of k' "sent_count j" dc] load_of_swap [OF assms(2), of k' sent_all dc]
      assms(3) count by (simp_all add: k)
  have "accounts ex (dl_balance st) ((dl_tasks st)[t := k'])"
    unfolding accounts_def
  proof
    fix dc
    show "case dl_balance st dc of
        None \<Rightarrow> \<forall>k\<in>set ((dl_tasks st)[t := k']). tk_dc k = dc \<longrightarrow> tk_sent k = [] \<and> tk_unchecked k = []
      | Some b \<Rightarrow> dc_counts (ex dc) b dc ((dl_tasks st)[t := k'])"
    proof (cases "dl_balance st dc")
      case None
      then have "\<forall>k\<in>set (dl_tasks st). tk_dc k = dc \<longrightarrow> tk_sent k = [] \<and> tk_unchecked k = []"
        using inv(2) by (auto simp: accounts_def dest: spec [of _ dc])
      moreover have "tk_dc k' = dc \<longrightarrow> tk_sent k' = [] \<and> tk_unchecked k' = []"
        using assms(6) None by (auto simp: sessions_below_0)
      ultimately show ?thesis using None set_update_cases [OF assms(2)] by fastforce
    next
      case (Some b)
      then have "dc_counts (ex dc) b dc (dl_tasks st)"
        using inv(2) by (auto simp: accounts_def dest: spec [of _ dc])
      moreover have "tk_dc k' = dc \<longrightarrow> sessions_below (length (dc_sessions b)) k'"
        using assms(6) Some by auto
      ultimately have "dc_counts (ex dc) b dc ((dl_tasks st)[t := k'])"
        using set_update_cases [OF assms(2)] unfolding dc_counts_def load by metis
      then show ?thesis using Some by simp
    qed
  qed
  moreover have "\<forall>k\<in>set ((dl_tasks st)[t := k']). task_inv (dl_last_id st) k"
    using inv(1) assms(5) set_update_cases [OF assms(2)] by blast
  moreover have "queues_inv (dl_queues st) ((dl_tasks st)[t := k'])"
    using inv(3) assms(2,3) by (intro queues_inv_update) (simp_all add: k)
  moreover have "kill_inv (dl_kill_when st) ((dl_tasks st)[t := k'])"
    using inv(4) assms(3,4) k(2) set_update_cases [OF assms(2)] unfolding kill_inv_def by metis
  moreover have "all_queued st'"
    using assms(1,3,7) dl_invD(4) [OF assms(1,2)]
    by (intro all_queued_update [OF _ assms(2) st'(1,3)]) (simp_all add: dl_inv_def)
  ultimately show ?thesis unfolding dl_inv_def st' by blast
qed

lemma send_simps [simp]: "fst (send_api kind dc rd st) = Suc (dl_last_id st)"
  "fst (sendRequest t rd st) = Suc (dl_last_id st)"
  "dl_tasks (snd (sendRequest t rd st)) = dl_tasks st" "dl_balance (snd (sendRequest t rd st)) = dl_balance st"
  "dl_queues (snd (sendRequest t rd st)) = dl_queues st" "dl_last_id (snd (sendRequest t rd st)) = Suc (dl_last_id st)"
  "dl_kill_when (snd (sendRequest t rd st)) = dl_kill_when st"
  "dl_reset_timer (snd (sendRequest t rd st)) = dl_reset_timer st"
  by (simp_all add: send_api_def sendRequest_def Let_def add_log_def)

lemma dl_inv_later:
  assumes "dl_inv ex st" "dl_tasks st' = dl_tasks st" "dl_balance st' = dl_balance st"
    "dl_queues st' = dl_queues st" "dl_kill_when st' = dl_kill_when st" "dl_last_id st \<le> dl_last_id st'"
  shows "dl_inv ex st'"
proof -
  have "all_queued st'" using assms by (simp add: dl_inv_def all_queued_def the_task_def queue_of_def)
  then show ?thesis using assms task_inv_mono unfolding dl_inv_def by metis
qed

lemma make_inv:
  assumes "dl_inv ex st" "t < length (dl_tasks st)" "dl_balance st (tk_dc (the_task t st)) = Some b"
    "rq_session rd < length (dc_sessions b)" "map_of (tk_by_offset (the_task t st)) (rq_offset rd) = None"
    "\<not> fresh_offset (rq_offset rd) (tk_client (the_task t st))"
    "map_of (tk_unchecked (the_task t st)) (rq_offset rd) = None"
    "\<not> client_done (tk_client (the_task t st))" "t \<in> en_task ` set (queue_of (tk_dc (the_task t st)) st)"
  shows "\<exists>st' rd' i. makeRequest now t rd st = Some st' \<and> dl_inv ex st' \<and> same_but t st st'
    \<and> dl_last_id st < i \<and> rq_offset rd' = rq_offset rd \<and> rq_session rd' = rq_session rd
    \<and> the_task t st' = put_request i rd' (the_task t st)
    \<and> dl_balance st' (tk_dc (the_task t st)) = Some (bump (rq_session rd) kDownloadPartSize b)"
proof -
  define st1 where "st1 = snd (sendRequest t rd st)"
  have st1: "the_task u st1 = the_task u st" "dl_last_id st1 = Suc (dl_last_id st)" "dl_tasks st1 = dl_tasks st"
    "dl_balance st1 = dl_balance st" "queue_of dc st1 = queue_of dc st" for u dc
    by (simp_all add: st1_def the_task_def queue_of_def)
  have "dl_inv ex st1"
    using assms(1) by (rule dl_inv_later) (simp_all add: st1_def)
  moreover have "map_of (tk_sent (the_task t st)) (Suc (dl_last_id st)) = None"
    using task_invD(6) [OF dl_invD(1) [OF assms(1,2)], of "Suc (dl_last_id st)"] by force
  ultimately obtain st' rd' where st': "placeSentRequest now t (Suc (dl_last_id st)) rd st1 = Some st'"
    "dl_inv ex st'" "same_but t st1 st'" "rq_offset rd' = rq_offset rd" "rq_session rd' = rq_session rd"
    "the_task t st' = put_request (Suc (dl_last_id st)) rd' (the_task t st)"
    "dl_balance st' (tk_dc (the_task t st)) = Some (bump (rq_session rd) kDownloadPartSize b)"
    using place_inv [of ex st1 t b rd "Suc (dl_last_id st)" now] assms(2-9) by (auto simp: st1)
  have "same_but t st st1"
    by (simp add: same_but_def st1) (simp add: st1_def)
  then have "same_but t st st'" using st'(3) by (rule same_but_trans)
  moreover have "makeRequest now t rd st = Some st'"
    using st'(1) by (simp add: makeRequest_def split_beta st1_def)
  ultimately show ?thesis using st' by blast
qed

lemma cancel_inv:
  assumes "dl_inv ex st" "t < length (dl_tasks st)" "map_of (tk_sent (the_task t st)) i = Some rd"
    "\<forall>dc j. 0 \<le> ex dc j" "dl_balance st (tk_dc (the_task t st)) = Some b"
  shows "\<exists>st'. cancelRequest now t i st = Some st' \<and> dl_inv ex st' \<and> same_but t st st'
    \<and> the_task t st' = take_request i rd (the_task t st)
    \<and> dl_balance st' (tk_dc (the_task t st)) = Some (bump (rq_session rd) (- kDownloadPartSize) b)"
proof -
  let ?st = "add_log [Cancelled i] st"
  have task: "the_task u ?st = the_task u st" for u by (simp add: the_task_def)
  have "dl_inv ex ?st" using assms(1) by (rule dl_inv_later) simp_all
  then obtain st1 where st1: "finishSentRequest now t i Cancel ?st = Some (rd, st1)" "dl_inv ex st1" "same_but t ?st st1"
    "the_task t st1 = take_request i rd (the_task t st)"
    "dl_balance st1 (tk_dc (the_task t st)) = Some (bump (rq_session rd) (- kDownloadPartSize) b)"
    using finish_inv [of ex ?st t i rd Cancel b now] assms(2-5) by (auto simp: task)
  have same: "same_but t st st1" using st1(3) by (simp add: same_but_def task) (simp add: add_log_def)
  define st' where "st' = (if tk_hash_request (the_task t st) = i \<and> tk_unchecked (the_task t st1) \<noteq> []
    then post (MoreHashes t) st1 else st1)"
  have "cancelRequest now t i st = Some st'"
    using st1(1) by (simp add: cancelRequest_def st'_def Let_def)
  moreover have "dl_inv ex st'"
    using st1(2) by (rule dl_inv_later) (simp_all add: st'_def)
  moreover have "the_task u st' = the_task u st1" "dl_balance st' = dl_balance st1" for u
    by (simp_all add: st'_def the_task_def)
  moreover have "same_but t st st'"
    using same by (simp add: same_but_def calculation(3)) (simp add: st'_def post_def)
  ultimately show ?thesis using st1(4,5) by simp
qed

lemma take_first_request:
  assumes "fm_inv ((i, rd) # xs)"
  shows "fst (fm_remove ((i, rd) # xs) i) = xs"
proof -
  have "key_split i [] xs" using assms by (auto simp: key_split_def fm_inv_Cons)
  from key_split_remove(1) [OF this, of rd] show ?thesis by (simp add: fm_remove_def)
qed

text \<open>Requests are cancelled one by one; \<open>take_all\<close> is what is left of the task.\<close>

lemma cancel_requests_inv:
  assumes "dl_inv ex st" "t < length (dl_tasks st)" "map fst (tk_sent (the_task t st)) = is" "\<forall>dc j. 0 \<le> ex dc j"
  shows "\<exists>st'. cancel_requests now t is st = Some st' \<and> dl_inv ex st' \<and> same_but t st st'
    \<and> tk_sent (the_task t st') = [] \<and> tk_unchecked (the_task t st') = tk_unchecked (the_task t st)"
  using assms(1-3)
proof (induction "is" arbitrary: st)
  case (Cons i "is")
  obtain rd xs where sent: "tk_sent (the_task t st) = (i, rd) # xs" "map fst xs = is"
    using Cons.prems(3) by (cases "tk_sent (the_task t st)") auto
  then have i: "map_of (tk_sent (the_task t st)) i = Some rd" by simp
  obtain b where b: "dl_balance st (tk_dc (the_task t st)) = Some b"
    using requests_have_balance [OF Cons.prems(1,2) i] by blast
  obtain st1 where st1: "cancelRequest now t i st = Some st1" "dl_inv ex st1" "same_but t st st1"
    "the_task t st1 = take_request i rd (the_task t st)"
    using cancel_inv [OF Cons.prems(1,2) i assms(4) b] by blast
  have "fm_inv (tk_sent (the_task t st))" using dl_invD(1) [OF Cons.prems(1,2)] by (rule task_invD(1))
  then have "tk_sent (the_task t st1) = xs"
    using take_first_request [of i rd xs] sent by (simp add: st1(4) take_request_def)
  then obtain st' where st': "cancel_requests now t is st1 = Some st'" "dl_inv ex st'" "same_but t st1 st'"
    "tk_sent (the_task t st') = []" "tk_unchecked (the_task t st') = tk_unchecked (the_task t st1)"
    using Cons.IH [OF st1(2)] Cons.prems(2) st1(3) sent(2) by (auto simp: same_but_def)
  have "same_but t st st'" using st1(3) st'(3) by (rule same_but_trans)
  moreover have "tk_unchecked (the_task t st1) = tk_unchecked (the_task t st)"
    by (simp add: st1(4) take_request_def)
  ultimately show ?case using st1(1) st' by auto
qed simp

lemma set_task_nth: "t < length (dl_tasks st) \<Longrightarrow> the_task t (set_task t f st) = f (the_task t st)"
  "u \<noteq> t \<Longrightarrow> the_task u (set_task t f st) = the_task u st"
  by (simp_all add: the_task_def)

lemma same_but_set_task:
  "t < length (dl_tasks st) \<Longrightarrow> tk_dc (f (the_task t st)) = tk_dc (the_task t st) \<Longrightarrow>
    tk_client (f (the_task t st)) = tk_client (the_task t st) \<Longrightarrow>
    tk_location (f (the_task t st)) = tk_location (the_task t st) \<Longrightarrow> same_but t st (set_task t f st)"
  by (auto simp: same_but_def set_task_nth) (simp_all add: set_task_def)

text \<open>A smaller set of unchecked parts.\<close>

lemma unchecked_inv:
  assumes "dl_inv ex st" "t < length (dl_tasks st)" "fm_inv us" "set us \<subseteq> set (tk_unchecked (the_task t st))"
  shows "dl_inv ex (set_task t (\<lambda>k. k\<lparr> tk_unchecked := us \<rparr>) st)"
proof (rule dl_inv_task [OF assms(1,2), where k' = "(the_task t st)\<lparr> tk_unchecked := us \<rparr>"])
  note inv = dl_invD(1) [OF assms(1,2)]
  have "map_of (tk_unchecked (the_task t st)) off \<noteq> None" if "map_of us off \<noteq> None" for off
    using that assms(4) unfolding map_of_eq_None_iff by (force simp: map_of_eq_None_iff)
  moreover have fewer: "haveSentRequests ((the_task t st)\<lparr> tk_unchecked := us \<rparr>) \<Longrightarrow> haveSentRequests (the_task t st)"
    using assms(4) by (auto simp: haveSentRequests_def)
  moreover have "\<forall>p\<in>set us. rq_offset (fst (snd p)) = fst p" "tk_unchecked (the_task t st) = [] \<Longrightarrow> us = []"
    using assms(4) task_invD(11) [OF inv] by auto
  ultimately show "task_inv (dl_last_id st) ((the_task t st)\<lparr> tk_unchecked := us \<rparr>)"
    using task_invD [OF inv] assms(3) unfolding task_inv_def by (simp del: not_None_eq) blast
  show "haveSentRequests ((the_task t st)\<lparr> tk_unchecked := us \<rparr>) \<Longrightarrow> haveSentRequests (the_task t st)"
    by (rule fewer)
  have below: "sessions_below n (the_task t st) \<Longrightarrow> sessions_below n ((the_task t st)\<lparr> tk_unchecked := us \<rparr>)" for n
    using assms(4) by (auto simp: sessions_below_def)
  show "case dl_balance st (tk_dc ((the_task t st)\<lparr>tk_unchecked := us\<rparr>)) of
      None \<Rightarrow> sessions_below 0 ((the_task t st)\<lparr>tk_unchecked := us\<rparr>)
    | Some b \<Rightarrow> sessions_below (length (dc_sessions b)) ((the_task t st)\<lparr>tk_unchecked := us\<rparr>)"
    using task_below [OF assms(1,2)] below by (simp split: option.splits)
qed (simp_all add: the_task_def)

lemma cancelAll_inv:
  assumes "dl_inv ex st" "t < length (dl_tasks st)" "\<forall>dc j. 0 \<le> ex dc j"
  shows "\<exists>st'. cancelAllRequests now t st = Some st' \<and> dl_inv ex st' \<and> same_but t st st'
    \<and> \<not> haveSentRequests (the_task t st')"
proof -
  obtain st1 where st1: "cancel_requests now t (map fst (tk_sent (the_task t st))) st = Some st1" "dl_inv ex st1"
    "same_but t st st1" "tk_sent (the_task t st1) = []"
    using cancel_requests_inv [OF assms(1,2) refl assms(3)] by blast
  have t: "t < length (dl_tasks st1)" using st1(3) assms(2) by (simp add: same_but_def)
  have "dl_inv ex (set_task t (\<lambda>k. k\<lparr> tk_unchecked := [] \<rparr>) st1)"
    by (rule unchecked_inv [OF st1(2) t]) simp_all
  moreover have "same_but t st (set_task t (\<lambda>k. k\<lparr> tk_unchecked := [] \<rparr>) st1)"
    using st1(3) same_but_set_task [OF t] by (rule same_but_trans) simp_all
  ultimately show ?thesis
    using st1(1,4) t by (simp add: cancelAllRequests_def haveSentRequests_def set_task_nth)
qed

lemma cancelForOffset_inv:
  assumes "dl_inv ex st" "t < length (dl_tasks st)" "\<forall>dc j. 0 \<le> ex dc j"
  shows "\<exists>st'. cancelRequestForOffset now t off st = Some st' \<and> dl_inv ex st' \<and> same_but t st st'
    \<and> \<not> haveSentRequestForOffset off (the_task t st')"
proof -
  note inv = dl_invD(1) [OF assms(1,2)]
  obtain st1 where st1: "(case map_of (tk_by_offset (the_task t st)) off of
      Some i \<Rightarrow> cancelRequest now t i st | None \<Rightarrow> Some st) = Some st1" "dl_inv ex st1" "same_but t st st1"
    "map_of (tk_by_offset (the_task t st1)) off = None"
  proof (cases "map_of (tk_by_offset (the_task t st)) off")
    case None
    then show ?thesis using that [of st] assms(1) by simp
  next
    case (Some i)
    then obtain rd where rd: "map_of (tk_sent (the_task t st)) i = Some rd" "rq_offset rd = off"
      using indices_agreeD(1) [OF task_invD(4) [OF inv]] by blast
    obtain b where b: "dl_balance st (tk_dc (the_task t st)) = Some b"
      using requests_have_balance [OF assms(1,2) rd(1)] by blast
    obtain st1 where "cancelRequest now t i st = Some st1" "dl_inv ex st1" "same_but t st st1"
      "the_task t st1 = take_request i rd (the_task t st)"
      using cancel_inv [OF assms(1,2) rd(1) assms(3) b] by blast
    then show ?thesis
      using that [of st1] Some rd(2) fm_remove_map [OF task_invD(2) [OF inv]] by (simp add: take_request_def)
  qed
  have t: "t < length (dl_tasks st1)" using st1(3) assms(2) by (simp add: same_but_def)
  let ?us = "fst (fm_remove (tk_unchecked (the_task t st1)) off)"
  note inv1 = dl_invD(1) [OF st1(2) t]
  have "set ?us \<subseteq> set (tk_unchecked (the_task t st1))"
    using fm_remove_mset [OF task_invD(3) [OF inv1], of off] fm_remove_map [OF task_invD(3) [OF inv1], of off]
    by (cases rule: fm_split_cases [OF task_invD(3) [OF inv1], of off])
      (auto simp: fm_remove_def key_split_remove)
  then have "dl_inv ex (set_task t (\<lambda>k. k\<lparr> tk_unchecked := ?us \<rparr>) st1)"
    by (intro unchecked_inv [OF st1(2) t]) (simp_all add: fm_remove_inv task_invD(3) [OF inv1])
  moreover have "set_task t (\<lambda>k. k\<lparr> tk_unchecked := fst (fm_remove (tk_unchecked k) off) \<rparr>) st1 =
      set_task t (\<lambda>k. k\<lparr> tk_unchecked := ?us \<rparr>) st1"
    by (simp add: set_task_def the_task_def)
  moreover have "same_but t st (set_task t (\<lambda>k. k\<lparr> tk_unchecked := ?us \<rparr>) st1)"
    using st1(3) same_but_set_task [OF t] by (rule same_but_trans) simp_all
  moreover have "\<not> haveSentRequestForOffset off (the_task t (set_task t (\<lambda>k. k\<lparr> tk_unchecked := ?us \<rparr>) st1))"
    using st1(4) t by (simp add: set_task_nth haveSentRequestForOffset_def fm_contains_dom [OF task_invD(2) [OF inv1]]
        fm_contains_dom [OF fm_remove_inv [OF task_invD(3) [OF inv1]]] fm_remove_map [OF task_invD(3) [OF inv1]])
  ultimately show ?thesis
    using st1(1) by (simp add: cancelRequestForOffset_def)
qed

section \<open>Sending parts\<close>

lemma pq_take_fresh:
  assumes "pq_inv q" "pq_take q = (Some off, q')"
  shows "pq_inv q' \<and> off \<in> qe_value ` set (pq_data q)
    \<and> qe_value ` set (pq_data q') \<subseteq> qe_value ` set (pq_data q) - {off}"
proof -
  obtain e es where q: "pq_data q = e # es" "off = qe_value e" "q' = q\<lparr> pq_data := es \<rparr>"
    using assms(2) by (cases "pq_data q") (auto simp: pq_take_def)
  then show ?thesis using assms(1) by (auto simp: pq_inv_def fs_inv_def)
qed

lemma client_take_fresh:
  assumes "client_inv c" "client_take now sent c = Some (off, c')"
  shows "client_inv c' \<and> fresh_offset off c \<and> (\<forall>off'. fresh_offset off' c' \<longrightarrow> off' \<noteq> off \<and> fresh_offset off' c)"
proof (cases c)
  case (FileClient m)
  then show ?thesis
    using assms by (auto simp: client_take_def mtp_take_def fresh_offset_def client_inv_def kDownloadPartSize_def
        split: if_splits)
next
  case (StreamClient s)
  obtain s' where s': "stream_take now s = Some (off, s')" "c' = StreamClient s'"
    using assms(2) by (auto simp: StreamClient client_take_def)
  obtain q' where q': "pq_take (sm_requested s) = (Some off, q')" "sm_requested s' = q'" "sm_priority s' = sm_priority s"
    using s'(1) by (auto simp: stream_take_def split: prod.splits option.splits)
  have inv: "pq_inv (sm_requested s)" "-1 \<le> sm_priority s" using assms(1) by (simp_all add: StreamClient client_inv_def)
  show ?thesis
    using pq_take_fresh [OF inv(1) q'(1)] inv(2) q'(2,3) unfolding fresh_offset_def client_inv_def StreamClient s'(2)
    by (simp, blast)
qed

lemma loadPart_inv:
  assumes "dl_inv ex st" "t < length (dl_tasks st)" "dl_balance st (tk_dc (the_task t st)) = Some b"
    "j < length (dc_sessions b)" "task_ready (the_task t st)" "t \<in> en_task ` set (queue_of (tk_dc (the_task t st)) st)"
  shows "\<exists>st'. loadPart now t j st = Some st' \<and> dl_inv ex st' \<and> dl_queues st' = dl_queues st
    \<and> length (dl_tasks st') = length (dl_tasks st) \<and> (\<forall>u. u \<noteq> t \<longrightarrow> the_task u st' = the_task u st)
    \<and> tk_dc (the_task t st') = tk_dc (the_task t st) \<and> dl_reset_timer st' = dl_reset_timer st
    \<and> (\<forall>dc. dc \<noteq> tk_dc (the_task t st) \<longrightarrow> dl_balance st' dc = dl_balance st dc)
    \<and> dl_balance st' (tk_dc (the_task t st)) = Some (bump j kDownloadPartSize b)"
proof -
  let ?k = "the_task t st"
  note inv = dl_invD(1) [OF assms(1,2)]
  obtain off c where c: "client_take now (haveSentRequests ?k) (tk_client ?k) = Some (off, c)"
    using client_take_ready assms(5) unfolding task_ready_def by blast
  note fresh = client_take_fresh [OF task_invD(5) [OF inv] c]
  have running: "\<not> client_done c"
    using assms(5) c by (auto simp: task_ready_def client_ready_def client_take_def mtp_take_def mtp_ready_def client_done_def
        split: client.splits if_splits)
  define st1 where "st1 = set_task t (\<lambda>k. k\<lparr> tk_client := c \<rparr>) st"
  have task1: "the_task t st1 = ?k\<lparr> tk_client := c \<rparr>" using assms(2) by (simp add: st1_def set_task_nth)
  have none: "map_of (tk_by_offset ?k) off = None" "map_of (tk_unchecked ?k) off = None"
    using task_invD(7) [OF inv, of off] fresh by fastforce+
  have ready: "\<not> client_done (tk_client ?k)"
    using assms(5) by (auto simp: task_ready_def client_ready_def mtp_ready_def client_done_def split: client.splits)
  have "task_inv (dl_last_id st) (?k\<lparr> tk_client := c \<rparr>)"
    using inv fresh running unfolding task_inv_def by (auto simp: haveSentRequests_def)
  moreover have "sessions_below (length (dc_sessions b)) (?k\<lparr> tk_client := c \<rparr>)"
    using dl_invD(2) [OF assms(1-3)] by (simp add: sessions_below_def)
  ultimately have inv1: "dl_inv ex st1"
    using assms(3) by (intro dl_inv_task [OF assms(1,2), where k' = "?k\<lparr> tk_client := c \<rparr>"])
      (simp_all add: st1_def the_task_def haveSentRequests_def)
  let ?rd = "\<lparr>rq_offset = off, rq_session = j, rq_amount = 0, rq_sent = 0\<rparr>"
  obtain st' where st': "makeRequest now t ?rd st1 = Some st'" "dl_inv ex st'" "same_but t st1 st'"
    "dl_balance st' (tk_dc ?k) = Some (bump j kDownloadPartSize b)"
  proof -
    have pre: "t < length (dl_tasks st1)" "dl_balance st1 (tk_dc (the_task t st1)) = Some b"
      "t \<in> en_task ` set (queue_of (tk_dc (the_task t st1)) st1)"
      using assms(2,3,6) by (simp_all add: task1) (simp_all add: st1_def queue_of_def)
    show ?thesis
      using that make_inv [OF inv1 pre(1,2), of ?rd now] pre(3) assms(4) none fresh running by (auto simp: task1)
  qed
  have "loadPart now t j st = Some st'"
    using st'(1) by (simp add: loadPart_def c st1_def Let_def)
  moreover have "dl_queues st1 = dl_queues st" "length (dl_tasks st1) = length (dl_tasks st)"
    "dl_reset_timer st1 = dl_reset_timer st" "dl_balance st1 = dl_balance st" "tk_dc (the_task t st1) = tk_dc ?k"
    by (simp_all add: task1) (simp_all add: st1_def set_task_def)
  moreover have "the_task u st1 = the_task u st" if "u \<noteq> t" for u using that by (simp add: st1_def set_task_nth)
  ultimately show ?thesis
    using st'(2-4) by (simp add: same_but_def)
qed

text \<open>The room of a data center: what its sessions may still wait for.\<close>

definition dc_room :: "dc_balance \<Rightarrow> nat" where
  "dc_room b = (\<Sum>s\<leftarrow>dc_sessions b. nat (bs_max_waited s - bs_requested s))"

lemma sum_list_less_update:
  "j < length xs \<Longrightarrow> f y < f (xs ! j) \<Longrightarrow> (\<Sum>x\<leftarrow>xs[j := y]. f x) < (\<Sum>x\<leftarrow>xs. f x :: nat)"
  by (induction xs arbitrary: j) (auto split: nat.splits)

lemma room_shrinks:
  assumes "j < length (dc_sessions b)"
    "bs_requested (dc_sessions b ! j) + kDownloadPartSize \<le> bs_max_waited (dc_sessions b ! j)"
  shows "dc_room (bump j kDownloadPartSize b) < dc_room b"
proof -
  have "0 < kDownloadPartSize" by (simp add: kDownloadPartSize_def)
  then show ?thesis
    using assms unfolding dc_room_def bump_def by (simp add: sum_list_less_update)
qed

text \<open>Nothing is left to send: every session waits for all it may, or no task of the queue that
  may be taken is ready.\<close>

definition nothing_to_send :: "int \<Rightarrow> download \<Rightarrow> bool" where
  "nothing_to_send dc st \<longleftrightarrow> (\<exists>b. dl_balance st dc = Some b \<and> (best_index b = None
     \<or> queue_next (\<lambda>t. task_ready (the_task t st)) (queue_of dc st) (0 < dc_total b) = None))"

definition balance_at :: "int \<Rightarrow> download \<Rightarrow> dc_balance" where
  "balance_at dc st = (case dl_balance st dc of Some b \<Rightarrow> b | None \<Rightarrow> dc_balance_new)"

definition no_extra :: "int \<Rightarrow> nat \<Rightarrow> int" where
  "no_extra dc j = 0"

lemma queue_of_inv:
  assumes "queues_inv (dl_queues st) ks"
  shows "queue_inv (queue_of dc st) \<and> (\<forall>e\<in>set (queue_of dc st). en_task e < length ks \<and> tk_dc (ks ! en_task e) = dc)"
proof (cases "map_of (dl_queues st) dc")
  case None
  then show ?thesis by (simp add: queue_of_def queue_inv_def)
next
  case (Some q)
  then show ?thesis
    using assms map_of_SomeD [OF Some] unfolding queues_inv_def by (auto simp: queue_of_def)
qed

lemma balance_created:
  assumes "dl_inv no_extra st"
  shows "dl_inv no_extra (st\<lparr> dl_balance := (dl_balance st)(dc \<mapsto> balance_at dc st) \<rparr>)"
    and "balance_ok (balance_at dc st)"
proof -
  have "dc_counts (no_extra dc) (balance_at dc st) dc (dl_tasks st)"
  proof (cases "dl_balance st dc")
    case None
    then have empty: "\<forall>k\<in>set (dl_tasks st). tk_dc k = dc \<longrightarrow> tk_sent k = [] \<and> tk_unchecked k = []"
      using assms by (auto simp: dl_inv_def accounts_def dest: spec [of _ dc])
    then have "load_of f dc (dl_tasks st) = 0" if "\<And>k. tk_sent k = [] \<Longrightarrow> f k = 0" "\<And>k. 0 \<le> f k" for f
      using that by (simp add: load_of_zero)
    then have "load_of (sent_count j) dc (dl_tasks st) = 0" "load_of sent_all dc (dl_tasks st) = 0" for j
      by (simp_all add: sent_count_def sent_all_def)
    moreover have "sessions_below n k" if "k \<in> set (dl_tasks st)" "tk_dc k = dc" for k n
      using empty that by (simp add: sessions_below_def)
    ultimately show ?thesis
      using None balance_new_ok by (simp add: dc_counts_def balance_at_def no_extra_def dc_balance_new_def
          session_balance_new_def kStartSessionsCount_def)
  next
    case (Some b)
    then show ?thesis
      using assms by (auto simp: dl_inv_def accounts_def balance_at_def dest: spec [of _ dc])
  qed
  then show "dl_inv no_extra (st\<lparr> dl_balance := (dl_balance st)(dc \<mapsto> balance_at dc st) \<rparr>)"
    "balance_ok (balance_at dc st)"
    using assms by (auto simp: dl_inv_def accounts_def dc_counts_def)
qed

text \<open>What sending parts to a data center leaves alone.\<close>

definition queues_kept :: "int \<Rightarrow> download \<Rightarrow> download \<Rightarrow> bool" where
  "queues_kept dc st st' \<longleftrightarrow> dl_queues st' = dl_queues st \<and> length (dl_tasks st') = length (dl_tasks st)
     \<and> (\<forall>u. tk_dc (the_task u st') = tk_dc (the_task u st))
     \<and> (\<forall>u. u \<notin> en_task ` set (queue_of dc st) \<longrightarrow> the_task u st' = the_task u st)"

lemma queues_kept_trans: "queues_kept dc st st1 \<Longrightarrow> queues_kept dc st1 st2 \<Longrightarrow> queues_kept dc st st2"
  by (simp add: queues_kept_def queue_of_def)

lemma trySend_inv:
  assumes "dl_inv no_extra st"
  shows "\<exists>sent st' b. trySendNextPart now dc st = Some (sent, st') \<and> dl_inv no_extra st'
    \<and> queues_kept dc st st'
    \<and> dl_reset_timer st' = dl_reset_timer st \<and> dl_balance st' dc = Some b
    \<and> (\<forall>dc'. dc' \<noteq> dc \<longrightarrow> dl_balance st' dc' = dl_balance st dc')
    \<and> (if sent then dc_room b < dc_room (balance_at dc st) else nothing_to_send dc st')"
proof -
  let ?b = "balance_at dc st"
  define st1 where "st1 = st\<lparr> dl_balance := (dl_balance st)(dc \<mapsto> ?b) \<rparr>"
  note st1 = balance_created [OF assms, of dc, folded st1_def]
  have same: "the_task u st1 = the_task u st" "queue_of c st1 = queue_of c st" "dl_queues st1 = dl_queues st"
    "dl_tasks st1 = dl_tasks st" "dl_reset_timer st1 = dl_reset_timer st" "dl_balance st1 dc = Some ?b" for u c
    by (simp_all add: st1_def the_task_def queue_of_def)
  let ?next = "queue_next (\<lambda>t. task_ready (the_task t st1)) (queue_of dc st1) (0 < dc_total ?b)"
  have eq: "trySendNextPart now dc st = (case best_index ?b of None \<Rightarrow> Some (False, st1)
    | Some j \<Rightarrow> (case ?next of None \<Rightarrow> Some (False, st1) | Some t \<Rightarrow> do { st \<leftarrow> loadPart now t j st1; Some (True, st) }))"
    unfolding trySendNextPart_def balance_at_def [symmetric] Let_def st1_def ..
  show ?thesis
  proof (cases "best_index ?b = None \<or> ?next = None")
    case True
    then have "trySendNextPart now dc st = Some (False, st1)" using eq by (auto split: option.splits)
    moreover have "nothing_to_send dc st1" unfolding nothing_to_send_def using True same(6) by blast
    moreover have "dl_balance st1 dc' = dl_balance st dc'" if "dc' \<noteq> dc" for dc' using that by (simp add: st1_def)
    ultimately show ?thesis using st1(1) same(1,3-6) by (intro exI [of _ False] exI [of _ st1] exI [of _ ?b]) (simp add: queues_kept_def)
  next
    case False
    then obtain j t where j: "best_index ?b = Some j" and t: "?next = Some t" by auto
    have "queue_inv (queue_of dc st)" and tasks: "\<forall>e\<in>set (queue_of dc st). en_task e < length (dl_tasks st)
        \<and> tk_dc (dl_tasks st ! en_task e) = dc"
      using queue_of_inv [of st "dl_tasks st" dc] assms by (simp_all add: dl_inv_def)
    then have next_ready: "task_ready (the_task t st1) \<and> (\<exists>e\<in>set (queue_of dc st). en_task e = t)"
      using queue_next_chosen [of "queue_of dc st1" "\<lambda>t. task_ready (the_task t st1)" "0 < dc_total ?b"] t
      by (auto simp: same)
    then have queued: "t \<in> en_task ` set (queue_of dc st)" by auto
    from next_ready tasks have ready: "task_ready (the_task t st1)" "t < length (dl_tasks st1)" "tk_dc (the_task t st1) = dc"
      by (auto simp: same the_task_def)
    note best = best_index_least [OF st1(2) j]
    obtain st' where st': "loadPart now t j st1 = Some st'" "dl_inv no_extra st'" "dl_queues st' = dl_queues st1"
      "length (dl_tasks st') = length (dl_tasks st1)" "\<forall>u. u \<noteq> t \<longrightarrow> the_task u st' = the_task u st1"
      "tk_dc (the_task t st') = tk_dc (the_task t st1)" "dl_reset_timer st' = dl_reset_timer st1"
      "\<forall>dc'. dc' \<noteq> dc \<longrightarrow> dl_balance st' dc' = dl_balance st1 dc'"
      "dl_balance st' dc = Some (bump j kDownloadPartSize ?b)"
      using loadPart_inv [OF st1(1) ready(2), of ?b j now] ready best queued by (auto simp: same)
    moreover have "queues_kept dc st st'"
      using st'(3-6) same(1,3,4) queued unfolding queues_kept_def by metis
    moreover have "dc_room (bump j kDownloadPartSize ?b) < dc_room ?b"
      using best by (intro room_shrinks) auto
    moreover have "trySendNextPart now dc st = Some (True, st')"
      using eq j t st'(1) by simp
    moreover have "dl_balance st1 dc' = dl_balance st dc'" if "dc' \<noteq> dc" for dc' using that by (simp add: st1_def)
    ultimately show ?thesis
      using same(5) by (intro exI [of _ True] exI [of _ st'] exI [of _ "bump j kDownloadPartSize ?b"]) simp
  qed
qed

lemma checkSendNext_inv:
  assumes "dl_inv no_extra st"
  shows "\<exists>st'. checkSendNext now dc st = Some st' \<and> dl_inv no_extra st'
    \<and> queues_kept dc st st'
    \<and> dl_reset_timer st' = dl_reset_timer st
    \<and> (\<forall>dc'. dc' \<noteq> dc \<longrightarrow> dl_balance st' dc' = dl_balance st dc') \<and> nothing_to_send dc st'"
  using assms
proof (induction "dc_room (balance_at dc st)" arbitrary: st rule: less_induct)
  case less
  obtain sent st1 b where st1: "trySendNextPart now dc st = Some (sent, st1)" "dl_inv no_extra st1"
    "queues_kept dc st st1" "dl_reset_timer st1 = dl_reset_timer st" "dl_balance st1 dc = Some b"
    "\<forall>dc'. dc' \<noteq> dc \<longrightarrow> dl_balance st1 dc' = dl_balance st dc'"
    "if sent then dc_room b < dc_room (balance_at dc st) else nothing_to_send dc st1"
    using trySend_inv [OF less.prems] by blast
  have step: "checkSendNext now dc st = (if sent then checkSendNext now dc st1 else Some st1)"
    by (subst checkSendNext.simps) (simp add: st1(1))
  show ?case
  proof (cases sent)
    case True
    then have "dc_room (balance_at dc st1) < dc_room (balance_at dc st)"
      using st1(5,7) by (simp add: balance_at_def)
    from less.hyps [OF this st1(2)] show ?thesis
      using step True st1(3,4,6) queues_kept_trans [OF st1(3)] by (auto simp del: split_paired_Ex)
  next
    case False
    then show ?thesis using step st1 by auto
  qed
qed

end
