(* ===== verification/DownloadOps.thy ===== *)
theory DownloadOps imports DownloadSend begin

text \<open>
  The operations on the queues and on the sessions of the download manager, from a state that
  satisfies the invariant: enqueueing and removing a task, the next generation, the removal of a
  session with the redirection of its requests, and the kill of idle sessions.
\<close>

section \<open>Queues\<close>

lemma fm_mem_iff: "fm_inv xs \<Longrightarrow> (k, v) \<in> set xs \<longleftrightarrow> map_of xs k = Some v"
  by (simp add: fm_inv_distinct)

lemma queues_inv_iff:
  "queues_inv qs ks \<longleftrightarrow> fm_inv qs \<and> (\<forall>dc q. map_of qs dc = Some q \<longrightarrow> queue_inv q
     \<and> (\<forall>e\<in>set q. en_task e < length ks \<and> tk_dc (ks ! en_task e) = dc))"
proof (cases "fm_inv qs")
  case True
  have "(\<forall>(dc, q)\<in>set qs. P dc q) \<longleftrightarrow> (\<forall>dc q. map_of qs dc = Some q \<longrightarrow> P dc q)" for P
    unfolding fm_mem_iff [OF True, symmetric] by auto
  then show ?thesis by (simp add: queues_inv_def)
qed (simp add: queues_inv_def)

lemma put_queue_inv:
  assumes "queues_inv (dl_queues st) ks" "queue_inv q" "\<forall>e\<in>set q. en_task e < length ks \<and> tk_dc (ks ! en_task e) = dc"
  shows "queues_inv (dl_queues (put_queue dc q st)) ks" "queue_of dc (put_queue dc q st) = q"
    "dc' \<noteq> dc \<Longrightarrow> queue_of dc' (put_queue dc q st) = queue_of dc' st"
proof -
  have inv: "fm_inv (dl_queues st)" using assms(1) by (simp add: queues_inv_def)
  have m: "fm_inv (dl_queues (put_queue dc q st))"
    "map_of (dl_queues (put_queue dc q st)) = (map_of (dl_queues st))(dc \<mapsto> q)"
    using inv by (simp_all add: put_queue_def fm_insert_or_assign_inv fm_insert_or_assign_map)
  show "queue_of dc (put_queue dc q st) = q" "dc' \<noteq> dc \<Longrightarrow> queue_of dc' (put_queue dc q st) = queue_of dc' st"
    by (simp_all add: queue_of_def m(2))
  show "queues_inv (dl_queues (put_queue dc q st)) ks"
    using assms m(1) unfolding queues_inv_iff m(2) by (metis fun_upd_apply option.inject)
qed

lemma put_queue_dl_inv:
  assumes "dl_inv ex st" "queue_inv q" "\<forall>e\<in>set q. en_task e < length (dl_tasks st) \<and> tk_dc (dl_tasks st ! en_task e) = dc"
    and "\<And>t. t \<in> en_task ` set (queue_of dc st) \<Longrightarrow> haveSentRequests (the_task t st) \<Longrightarrow> t \<in> en_task ` set q"
  shows "dl_inv ex (put_queue dc q st)"
proof -
  have "dl_tasks (put_queue dc q st) = dl_tasks st" "dl_balance (put_queue dc q st) = dl_balance st"
    "dl_last_id (put_queue dc q st) = dl_last_id st" "dl_kill_when (put_queue dc q st) = dl_kill_when st"
    by (simp_all add: put_queue_def)
  moreover have "all_queued (put_queue dc q st)"
    unfolding all_queued_def
  proof (intro allI impI)
    fix u assume u: "u < length (dl_tasks (put_queue dc q st))" "haveSentRequests (the_task u (put_queue dc q st))"
    have same: "the_task u (put_queue dc q st) = the_task u st" by (simp add: the_task_def put_queue_def)
    have "u \<in> en_task ` set (queue_of (tk_dc (the_task u st)) st)"
      using assms(1) u same by (simp add: dl_inv_def all_queued_def put_queue_def)
    then show "u \<in> en_task ` set (queue_of (tk_dc (the_task u (put_queue dc q st))) (put_queue dc q st))"
      using assms u(2) put_queue_inv(2,3) [of st "dl_tasks st" q dc] unfolding same
      by (cases "tk_dc (the_task u st) = dc") (auto simp: dl_inv_def)
  qed
  ultimately show ?thesis using assms put_queue_inv(1) [of st "dl_tasks st" q dc] by (simp add: dl_inv_def)
qed


lemma set_queue_enqueue:
  assumes "queue_inv q"
  shows "en_task ` set (queue_enqueue q task p) = insert task (en_task ` set q)"
proof -
  have "set (higher p (queue_remove q task)) \<union> set (not_higher p (queue_remove q task)) = set (queue_remove q task)"
    by (metis higher_split set_append)
  then show ?thesis
    unfolding enqueue_eq [OF assms] by (auto simp: queue_remove_def)
qed

lemma queue_tasks_good:
  assumes "dl_inv ex st"
  shows "queue_inv (queue_of dc st)"
    "u \<in> en_task ` set (queue_of dc st) \<Longrightarrow> u < length (dl_tasks st) \<and> tk_dc (the_task u st) = dc"
  using queue_of_inv [of st "dl_tasks st" dc] assms by (auto simp: dl_inv_def the_task_def)

lemma enqueue_inv:
  assumes "dl_inv no_extra st" "t < length (dl_tasks st)" "-1 \<le> p"
  shows "\<exists>st'. dm_enqueue now t p st = Some st' \<and> dl_inv no_extra st'
    \<and> length (dl_tasks st') = length (dl_tasks st) \<and> (\<forall>u. tk_dc (the_task u st') = tk_dc (the_task u st))
    \<and> en_task ` set (queue_of (tk_dc (the_task t st)) st') = insert t (en_task ` set (queue_of (tk_dc (the_task t st)) st))
    \<and> nothing_to_send (tk_dc (the_task t st)) st'"
proof -
  let ?dc = "tk_dc (the_task t st)"
  let ?q = "queue_enqueue (queue_of ?dc st) t p"
  note good = queue_tasks_good [OF assms(1), where dc = ?dc]
  have set: "en_task ` set ?q = insert t (en_task ` set (queue_of ?dc st))"
    by (rule set_queue_enqueue [OF good(1)])
  then have mem: "en_task e < length (dl_tasks st) \<and> tk_dc (dl_tasks st ! en_task e) = ?dc" if "e \<in> set ?q" for e
  proof -
    have "en_task e \<in> insert t (en_task ` set (queue_of ?dc st))" using that set by blast
    then show ?thesis using good(2) [of "en_task e"] assms(2) by (auto simp: the_task_def)
  qed
  define st1 where "st1 = (let st1 = put_queue ?dc ?q st in
    if dl_reset_timer st1 = None then st1\<lparr> dl_reset_timer := Some (now + kResetDownloadPrioritiesTimeout) \<rparr> else st1)"
  have "dl_inv no_extra (put_queue ?dc ?q st)"
    using mem set queue_inv_enqueue [OF good(1) assms(3)] by (intro put_queue_dl_inv [OF assms(1)]) auto
  then have inv1: "dl_inv no_extra st1"
    by (rule dl_inv_later) (simp_all add: st1_def Let_def)
  have same: "queue_of ?dc st1 = ?q" "dl_tasks st1 = dl_tasks st"
    using put_queue_inv(2) [of st "dl_tasks st" ?q ?dc] mem queue_inv_enqueue [OF good(1) assms(3)] assms(1)
    by (auto simp: st1_def Let_def queue_of_def put_queue_def dl_inv_def)
  have eq: "dm_enqueue now t p st = checkSendNext now ?dc st1"
    by (simp add: dm_enqueue_def st1_def Let_def)
  obtain st' where st': "checkSendNext now ?dc st1 = Some st'" "dl_inv no_extra st'" "queues_kept ?dc st1 st'" "nothing_to_send ?dc st'"
    using checkSendNext_inv [OF inv1] by blast
  moreover have "queue_of ?dc st' = ?q" using st'(3) same(1) by (simp add: queue_of_def queues_kept_def)
  ultimately show ?thesis using eq set same(2) by (simp add: queues_kept_def the_task_def)
qed

lemma remove_inv:
  assumes "dl_inv no_extra st" "\<not> haveSentRequests (the_task t st)"
  shows "\<exists>st'. dm_remove now t st = Some st' \<and> dl_inv no_extra st'
    \<and> length (dl_tasks st') = length (dl_tasks st) \<and> (\<forall>u. tk_dc (the_task u st') = tk_dc (the_task u st))
    \<and> the_task t st' = the_task t st
    \<and> en_task ` set (queue_of (tk_dc (the_task t st)) st') = en_task ` set (queue_of (tk_dc (the_task t st)) st) - {t}
    \<and> nothing_to_send (tk_dc (the_task t st)) st'"
proof -
  let ?dc = "tk_dc (the_task t st)"
  let ?q = "queue_remove (queue_of ?dc st) t"
  note good = queue_tasks_good [OF assms(1), where dc = ?dc]
  have set: "en_task ` set ?q = en_task ` set (queue_of ?dc st) - {t}" by (auto simp: queue_remove_def)
  have mem: "en_task e < length (dl_tasks st) \<and> tk_dc (dl_tasks st ! en_task e) = ?dc" if "e \<in> set ?q" for e
    using that good(2) [of "en_task e"] by (auto simp: the_task_def queue_remove_def)
  have inv1: "dl_inv no_extra (put_queue ?dc ?q st)"
    using mem set assms(2) queue_inv_remove [OF good(1)] by (intro put_queue_dl_inv [OF assms(1)]) auto
  have same: "queue_of ?dc (put_queue ?dc ?q st) = ?q" "dl_tasks (put_queue ?dc ?q st) = dl_tasks st"
    using put_queue_inv(2) [of st "dl_tasks st" ?q ?dc] mem queue_inv_remove [OF good(1)] assms(1)
    by (auto simp: put_queue_def dl_inv_def)
  obtain st' where st': "checkSendNext now ?dc (put_queue ?dc ?q st) = Some st'" "dl_inv no_extra st'"
    "queues_kept ?dc (put_queue ?dc ?q st) st'" "nothing_to_send ?dc st'"
    using checkSendNext_inv [OF inv1] by blast
  moreover have "queue_of ?dc st' = ?q" using st'(3) same(1) by (simp add: queue_of_def queues_kept_def)
  moreover have "t \<notin> en_task ` set ?q" by (auto simp: queue_remove_def)
  ultimately show ?thesis using set same by (simp add: dm_remove_def queues_kept_def the_task_def)
qed

lemma reset_queues_inv:
  "\<forall>(dc, q)\<in>set qs. queue_inv q \<Longrightarrow> \<exists>qs'. reset_queues qs = Some qs' \<and> map fst qs' = map fst qs
     \<and> (\<forall>(dc, q')\<in>set qs'. queue_inv q' \<and> (\<exists>q. (dc, q) \<in> set qs \<and> queue_reset q = Some q'))"
proof (induction qs)
  case (Cons p qs)
  obtain dc q where p: "p = (dc, q)" by (cases p)
  obtain q' where "queue_reset q = Some q'" "queue_inv q'"
    using queue_inv_reset [of q] Cons.prems p by auto
  moreover obtain qs' where "reset_queues qs = Some qs'" "map fst qs' = map fst qs"
    "\<forall>(dc, q')\<in>set qs'. queue_inv q' \<and> (\<exists>q. (dc, q) \<in> set qs \<and> queue_reset q = Some q')"
    using Cons by auto
  ultimately show ?case by (fastforce simp: p)
qed simp

lemma queue_reset_tasks: "queue_reset q = Some q' \<Longrightarrow> map en_task q' = map en_task q"
proof -
  have "reset_from es = Some es' \<Longrightarrow> map en_task es' = map en_task es" for es es'
    by (induction es arbitrary: es') (auto split: if_splits)
  then have "reset_from (drop n q) = Some es \<Longrightarrow> map en_task (take n q @ es) = map en_task q" for n es
    by (metis append_take_drop_id map_append)
  then show "queue_reset q = Some q' \<Longrightarrow> map en_task q' = map en_task q"
    by (auto simp: queue_reset_def Let_def)
qed

lemma reset_queues_of:
  "reset_queues qs = Some qs' \<Longrightarrow> case map_of qs dc of None \<Rightarrow> map_of qs' dc = None
     | Some q \<Rightarrow> \<exists>q'. map_of qs' dc = Some q' \<and> en_task ` set q' = en_task ` set q"
proof (induction qs arbitrary: qs')
  case (Cons p qs)
  obtain c q where p: "p = (c, q)" by (cases p)
  obtain q' qs'' where q': "queue_reset q = Some q'" "reset_queues qs = Some qs''" "qs' = (c, q') # qs''"
    using Cons.prems by (auto simp: p split: Option.bind_splits)
  then show ?case
    using Cons.IH [OF q'(2)] arg_cong [OF queue_reset_tasks [OF q'(1)], of set] q'(3)
    by (auto simp: p split: option.splits)
qed simp

lemma resetGeneration_inv:
  assumes "dl_inv ex st"
  shows "\<exists>st'. dm_resetGeneration st = Some st' \<and> dl_inv ex st' \<and> dl_tasks st' = dl_tasks st"
proof -
  have good: "queues_inv (dl_queues st) (dl_tasks st)" using assms by (simp add: dl_inv_def)
  then have all: "\<forall>(dc, q)\<in>set (dl_queues st). queue_inv q" by (auto simp: queues_inv_def)
  from reset_queues_inv [OF this] obtain qs' where qs': "reset_queues (dl_queues st) = Some qs'"
    "map fst qs' = map fst (dl_queues st)"
    "\<forall>(dc, q')\<in>set qs'. queue_inv q' \<and> (\<exists>q. (dc, q) \<in> set (dl_queues st) \<and> queue_reset q = Some q')"
    by blast
  have tasks: "en_task e < length (dl_tasks st) \<and> tk_dc (dl_tasks st ! en_task e) = dc"
    if e: "(dc, q') \<in> set qs'" "e \<in> set q'" for dc q' e
  proof -
    obtain q where q: "(dc, q) \<in> set (dl_queues st)" "queue_reset q = Some q'" using qs'(3) e(1) by blast
    have "en_task ` set q' = en_task ` set q"
      using arg_cong [OF queue_reset_tasks [OF q(2)], of set] by simp
    then obtain f where "f \<in> set q" "en_task f = en_task e" using e(2) by (metis imageE imageI)
    then show ?thesis using good q(1) unfolding queues_inv_def by fastforce
  qed
  have "fm_inv qs'" using good qs'(2) by (simp add: queues_inv_def fm_inv_def)
  then have "queues_inv qs' (dl_tasks st)"
    using qs'(3) tasks unfolding queues_inv_def by fast
  moreover have "all_queued (st\<lparr> dl_reset_timer := None, dl_queues := qs' \<rparr>)"
  proof -
    have "en_task ` set (queue_of dc (st\<lparr> dl_reset_timer := None, dl_queues := qs' \<rparr>)) = en_task ` set (queue_of dc st)" for dc
      using reset_queues_of [OF qs'(1), of dc] by (auto simp: queue_of_def split: option.splits)
    then show ?thesis using assms by (simp add: dl_inv_def all_queued_def the_task_def)
  qed
  ultimately have "dl_inv ex (st\<lparr> dl_reset_timer := None, dl_queues := qs' \<rparr>)"
    using assms by (simp add: dl_inv_def)
  then show ?thesis using qs'(1) by (simp add: dm_resetGeneration_def)
qed

lemma check_all_inv:
  "dl_inv no_extra st \<Longrightarrow> \<exists>st'. check_all now dcs st = Some st' \<and> dl_inv no_extra st'
     \<and> dl_queues st' = dl_queues st \<and> length (dl_tasks st') = length (dl_tasks st)"
proof (induction dcs arbitrary: st)
  case (Cons dc dcs)
  obtain st1 where st1: "(if queue_of dc st = [] then Some st else checkSendNext now dc st) = Some st1"
    "dl_inv no_extra st1" "dl_queues st1 = dl_queues st" "length (dl_tasks st1) = length (dl_tasks st)"
    using checkSendNext_inv [OF Cons.prems, of now dc] Cons.prems
    by (cases "queue_of dc st = []") (auto simp: queues_kept_def)
  obtain st' where "check_all now dcs st1 = Some st'" "dl_inv no_extra st'" "dl_queues st' = dl_queues st1"
    "length (dl_tasks st') = length (dl_tasks st1)"
    using Cons.IH [OF st1(2)] by blast
  then show ?case using st1 unfolding check_all.simps st1(1) by simp
qed simp

section \<open>Removing a session\<close>

text \<open>While a session is cleared it waits for the removal amount on top of its requests, so the
  least loaded session is another one.\<close>

definition removal_extra :: "int \<Rightarrow> nat \<Rightarrow> int \<Rightarrow> nat \<Rightarrow> int" where
  "removal_extra dc index = (\<lambda>dc' j. if dc' = dc \<and> j = index then removal_amount else 0)"

lemma removal_extra_nonneg: "\<forall>dc' j. 0 \<le> removal_extra dc index dc' j"
  by (simp add: removal_extra_def removal_amount_def kMaxWaitedInSession_def kMaxSessionsCount_def kDownloadPartSize_def)

lemma load_count_le: "load_of (sent_count j) dc ks \<le> load_of sent_all dc ks"
proof -
  have "sent_count j k \<le> sent_all k" for k
    unfolding sent_count_def sent_all_def of_nat_le_iff by (rule size_filter_mset_lesseq)
  then show ?thesis unfolding load_of_def by (intro sum_list_mono) simp
qed

lemma choose_other:
  assumes "dc_counts (removal_extra dc index dc) b dc ks" "length (dc_sessions b) = Suc index" "0 < index"
    "dc_total b \<le> removal_amount"
  shows "choose_session b < index"
proof (rule ccontr)
  assume not: "\<not> choose_session b < index"
  let ?r = "map bs_requested (dc_sessions b)"
  have len: "length ?r = Suc index" using assms(2) by simp
  then have "min_element ?r < length ?r" using min_element_le [of ?r] by fastforce
  then have min: "min_element ?r = index" using not len by (simp add: choose_session_def)
  have load: "bs_requested (dc_sessions b ! j) = kDownloadPartSize * load_of (sent_count j) dc ks
      + removal_extra dc index dc j" if "j \<le> index" for j
    using assms(1,2) that by (simp add: dc_counts_def)
  have "?r ! index < ?r ! 0" using min_element_first [of 0 ?r] min assms(3) by simp
  then have "bs_requested (dc_sessions b ! index) < bs_requested (dc_sessions b ! 0)"
    using assms(2,3) by (simp add: nth_map)
  moreover have "bs_requested (dc_sessions b ! index) \<ge> removal_amount"
    using load [of index] load_of_nonneg [of "sent_count index" dc ks]
    by (simp add: removal_extra_def kDownloadPartSize_def)
  moreover have "bs_requested (dc_sessions b ! 0) = kDownloadPartSize * load_of (sent_count 0) dc ks"
    using load [of 0] assms(3) by (simp add: removal_extra_def)
  moreover have "kDownloadPartSize * load_of (sent_count 0) dc ks \<le> dc_total b"
    using assms(1) load_count_le [of 0 dc ks] by (simp add: dc_counts_def kDownloadPartSize_def)
  ultimately show False using assms(4) by linarith
qed

text \<open>The state between the steps of the removal of session \<open>index\<close>.\<close>

definition removing :: "int \<Rightarrow> nat \<Rightarrow> download \<Rightarrow> bool" where
  "removing dc index st \<longleftrightarrow> dl_inv (removal_extra dc index) st \<and> (\<exists>b. dl_balance st dc = Some b
     \<and> length (dc_sessions b) = Suc index \<and> dc_total b \<le> removal_amount) \<and> 0 < index"

lemma removing_choose:
  assumes "removing dc index st"
  shows "\<exists>new. chooseSessionIndex dc st = Some new \<and> new < index"
proof -
  obtain b where b: "dl_balance st dc = Some b" "length (dc_sessions b) = Suc index" "dc_total b \<le> removal_amount"
    and inv: "dl_inv (removal_extra dc index) st" "0 < index"
    using assms by (auto simp: removing_def)
  have "dc_counts (removal_extra dc index dc) b dc (dl_tasks st)"
    using inv(1) b(1) by (auto simp: dl_inv_def accounts_def dest: spec [of _ dc])
  from choose_other [OF this b(2) inv(2) b(3)] show ?thesis
    using b(1) by (simp add: chooseSessionIndex_def)
qed

text \<open>The requests of a task in session \<open>index\<close>.\<close>

definition requests_in :: "nat \<Rightarrow> task \<Rightarrow> (nat \<times> int) set" where
  "requests_in index k = {(i, off). \<exists>rd. map_of (tk_sent k) i = Some rd \<and> rq_session rd = index \<and> rq_offset rd = off}"

lemma redirect_requests_inv:
  assumes "removing dc index st" "t < length (dl_tasks st)" "tk_dc (the_task t st) = dc"
    "requests_in index (the_task t st) = set rs" "distinct (map fst rs)"
    "rs \<noteq> [] \<Longrightarrow> t \<in> en_task ` set (queue_of dc st)"
  shows "\<exists>st'. redirect_requests now t index rs st = Some st' \<and> removing dc index st' \<and> same_but t st st'
    \<and> requests_in index (the_task t st') = {} \<and> tk_unchecked (the_task t st') = tk_unchecked (the_task t st)"
  using assms
proof (induction rs arbitrary: st)
  case (Cons r rs)
  obtain i off where r: "r = (i, off)" by (cases r)
  let ?k = "the_task t st"
  have inv: "dl_inv (removal_extra dc index) st" using Cons.prems(1) by (simp add: removing_def)
  note task = dl_invD(1) [OF inv Cons.prems(2)]
  have "(i, off) \<in> requests_in index ?k" using Cons.prems(4) by (simp add: r)
  then obtain rd where rd: "map_of (tk_sent ?k) i = Some rd" "rq_session rd = index" "rq_offset rd = off"
    by (auto simp: requests_in_def)
  obtain b where b: "dl_balance st dc = Some b" "length (dc_sessions b) = Suc index" "dc_total b \<le> removal_amount"
    using Cons.prems(1) by (auto simp: removing_def)
  obtain st1 where st1: "cancelRequest now t i st = Some st1" "dl_inv (removal_extra dc index) st1" "same_but t st st1"
    "the_task t st1 = take_request i rd ?k" "dl_balance st1 dc = Some (bump index (- kDownloadPartSize) b)"
    using cancel_inv [OF inv Cons.prems(2) rd(1) removal_extra_nonneg, of b now] b(1) Cons.prems(3) rd(2) by auto
  have total: "dc_total b - kDownloadPartSize \<le> removal_amount" using b(3) by (simp add: kDownloadPartSize_def)
  then have rem1: "removing dc index st1"
    using st1(2,5) b(2) Cons.prems(1) by (simp add: removing_def)
  have t1: "t < length (dl_tasks st1)" using st1(3) Cons.prems(2) by (simp add: same_but_def)
  have sent1: "map_of (tk_sent (the_task t st1)) = (map_of (tk_sent ?k))(i := None)"
    "map_of (tk_by_offset (the_task t st1)) = (map_of (tk_by_offset ?k))(off := None)"
    using fm_remove_map [OF task_invD(1) [OF task]] fm_remove_map [OF task_invD(2) [OF task]] rd(3)
    by (simp_all add: st1(4) take_request_def)
  have i: "i \<notin> fst ` set rs" using Cons.prems(5) by (simp add: r)
  have "requests_in index (the_task t st1) = requests_in index ?k - {(i, off)}"
    using rd by (auto simp: requests_in_def sent1 split: if_splits)
  also have "\<dots> = set rs" using Cons.prems(4) i by (force simp: r)
  finally have req1: "requests_in index (the_task t st1) = set rs" .
  have un1: "tk_unchecked (the_task t st1) = tk_unchecked ?k" by (simp add: st1(4) take_request_def)
  obtain new where new: "chooseSessionIndex dc st1 = Some new" "new < index"
    using removing_choose [OF rem1] by blast
  let ?make = "i \<noteq> tk_hash_request ?k"
  have "\<exists>st2. (if ?make then do {
         new \<leftarrow> chooseSessionIndex (tk_dc (the_task t st1)) st1;
         if new < index
         then makeRequest now t \<lparr>rq_offset = off, rq_session = new, rq_amount = 0, rq_sent = 0\<rparr> st1
         else None } else Some st1) = Some st2 \<and> removing dc index st2 \<and> same_but t st1 st2
       \<and> requests_in index (the_task t st2) = set rs \<and> tk_unchecked (the_task t st2) = tk_unchecked ?k"
  proof (cases ?make)
    case True
    let ?rd = "\<lparr>rq_offset = off, rq_session = new, rq_amount = 0, rq_sent = 0\<rparr>"
    have dc1: "tk_dc (the_task t st1) = dc" using Cons.prems(3) by (simp add: st1(4))
    have "map_of (tk_by_offset ?k) off \<noteq> None"
      using indices_agreeD(2) [OF task_invD(4) [OF task] rd(1)] rd(3) by simp
    then have fresh: "\<not> fresh_offset off (tk_client (the_task t st1))"
      using task_invD(7) [OF task] by (simp add: st1(4) take_request_def)
    have "map_of (tk_unchecked (the_task t st1)) off = None"
      using task_invD(8) [OF task, of off] indices_agreeD(2) [OF task_invD(4) [OF task] rd(1)] rd(3) True
      by (cases "map_of (tk_unchecked ?k) off") (auto simp: un1)
    moreover have "\<not> client_done (tk_client (the_task t st1))"
      using task_invD(10) [OF task] rd(1) by (auto simp: st1(4) take_request_def haveSentRequests_def)
    moreover have "t \<in> en_task ` set (queue_of dc st1)"
      using Cons.prems(6) st1(3) by (simp add: same_but_def queue_of_def)
    ultimately obtain st2 rd' i' where st2: "makeRequest now t ?rd st1 = Some st2" "dl_inv (removal_extra dc index) st2"
      "same_but t st1 st2" "dl_last_id st1 < i'" "rq_session rd' = new"
      "the_task t st2 = put_request i' rd' (the_task t st1)"
      "dl_balance st2 dc = Some (bump new kDownloadPartSize (bump index (- kDownloadPartSize) b))"
      using make_inv [OF st1(2) t1, of "bump index (- kDownloadPartSize) b" ?rd now] dc1 st1(5) new(2) b(2) fresh
      by (auto simp: sent1)
    have "removing dc index st2"
      using st2(2,7) b(2,3) Cons.prems(1) by (simp add: removing_def)
    moreover have "map_of (tk_sent (the_task t st1)) i' = None"
      using task_invD(6) [OF dl_invD(1) [OF st1(2) t1], of i'] st2(4) by (cases "map_of (tk_sent (the_task t st1)) i'") auto
    then have "map_of (tk_sent (the_task t st2)) = (map_of (tk_sent (the_task t st1)))(i' \<mapsto> rd')"
      using fm_insert_map [OF task_invD(1) [OF dl_invD(1) [OF st1(2) t1]]] by (simp add: st2(6) put_request_def)
    then have "requests_in index (the_task t st2) = requests_in index (the_task t st1)"
      using \<open>map_of (tk_sent (the_task t st1)) i' = None\<close> st2(5) new(2) by (auto simp: requests_in_def split: if_splits)
    moreover have "tk_unchecked (the_task t st2) = tk_unchecked ?k" using un1 by (simp add: st2(6) put_request_def)
    ultimately show ?thesis using True st2(1,3) req1 by (simp add: dc1 new)
  next
    case False
    then show ?thesis using rem1 req1 un1 by simp
  qed
  then obtain st2 where st2: "(if ?make then do {
         new \<leftarrow> chooseSessionIndex (tk_dc (the_task t st1)) st1;
         if new < index
         then makeRequest now t \<lparr>rq_offset = off, rq_session = new, rq_amount = 0, rq_sent = 0\<rparr> st1
         else None } else Some st1) = Some st2" "removing dc index st2" "same_but t st1 st2"
       "requests_in index (the_task t st2) = set rs" "tk_unchecked (the_task t st2) = tk_unchecked ?k"
    by blast
  have t2: "t < length (dl_tasks st2)" "tk_dc (the_task t st2) = dc"
    using st2(3) t1 Cons.prems(3) by (simp_all add: same_but_def st1(4))
  obtain st' where st': "redirect_requests now t index rs st2 = Some st'" "removing dc index st'" "same_but t st2 st'"
    "requests_in index (the_task t st') = {}" "tk_unchecked (the_task t st') = tk_unchecked (the_task t st2)"
    using Cons.IH [OF st2(2) t2 st2(4)] Cons.prems(5,6) st1(3) st2(3) by (auto simp: r same_but_def queue_of_def)
  have "same_but t st st'" using same_but_trans [OF st1(3) same_but_trans [OF st2(3) st'(3)]] .
  then show ?case using st1(1) st2(1,5) st' by (simp add: r Let_def)
qed simp

lemma removing_task:
  assumes "removing dc index st" "t < length (dl_tasks st)" "tk_dc (the_task t st) = dc"
  shows "dl_inv (removal_extra dc index) st" "sessions_below (Suc index) (the_task t st)"
proof -
  obtain b where b: "dl_balance st dc = Some b" "length (dc_sessions b) = Suc index"
    and inv: "dl_inv (removal_extra dc index) st"
    using assms(1) by (auto simp: removing_def)
  then show "dl_inv (removal_extra dc index) st" by blast
  show "sessions_below (Suc index) (the_task t st)"
    using dl_invD(2) [OF inv assms(2), of b] assms(3) b by simp
qed

lemma move_unchecked_keys: "map fst (tk_unchecked (move_unchecked old new k)) = map fst (tk_unchecked k)"
  by (simp add: move_unchecked_def comp_def split_beta)

lemma redirect_unchecked_inv:
  assumes "removing dc index st" "t < length (dl_tasks st)" "tk_dc (the_task t st) = dc"
  shows "\<exists>st'. redirect_unchecked t index st = Some st' \<and> removing dc index st' \<and> same_but t st st'
    \<and> tk_sent (the_task t st') = tk_sent (the_task t st)
    \<and> (\<forall>p\<in>set (tk_unchecked (the_task t st')). rq_session (fst (snd p)) < index)"
proof (cases "\<exists>(offset, rd, bytes)\<in>set (tk_unchecked (the_task t st)). rq_session rd = index")
  case True
  let ?k = "the_task t st"
  obtain new where new: "chooseSessionIndex dc st = Some new" "new < index"
    using removing_choose [OF assms(1)] by blast
  let ?m = "move_unchecked index new ?k"
  let ?st = "set_task t (move_unchecked index new) st"
  note inv = removing_task [OF assms]
  note task = dl_invD(1) [OF inv(1) assms(2)]
  have keys: "map_of (tk_unchecked ?m) off \<noteq> None \<longleftrightarrow> map_of (tk_unchecked ?k) off \<noteq> None" for off
    using arg_cong [OF move_unchecked_keys [of index new ?k], of set] by (simp add: map_of_eq_None_iff)
  have same: "tk_sent ?m = tk_sent ?k" "tk_by_offset ?m = tk_by_offset ?k" "tk_client ?m = tk_client ?k"
    "tk_dc ?m = tk_dc ?k" "tk_location ?m = tk_location ?k" "tk_hash_request ?m = tk_hash_request ?k"
    "tk_cdn_dc ?m = tk_cdn_dc ?k" "tk_cdn_key ?m = tk_cdn_key ?k" "tk_cdn_iv ?m = tk_cdn_iv ?k"
    by (simp_all add: move_unchecked_def)
  have sent_m: "haveSentRequests ?m = haveSentRequests ?k"
    by (simp add: haveSentRequests_def move_unchecked_def)
  have "fm_inv (tk_unchecked ?m)"
    using task_invD(3) [OF task] by (simp add: fm_inv_def move_unchecked_keys)
  moreover have "\<forall>p\<in>set (tk_unchecked ?m). rq_offset (fst (snd p)) = fst p" "tk_unchecked ?m = [] \<longleftrightarrow> tk_unchecked ?k = []"
    using task_invD(11) [OF task] by (auto simp: move_unchecked_def)
  ultimately have "task_inv (dl_last_id st) ?m"
    using task unfolding task_inv_def same keys sent_m by blast
  moreover have below: "rq_session (fst (snd p)) < index" if "p \<in> set (tk_unchecked ?m)" for p
  proof -
    obtain off rd bytes where "(off, rd, bytes) \<in> set (tk_unchecked ?k)"
      "p = (off, if rq_session rd = index then rd\<lparr> rq_session := new \<rparr> else rd, bytes)"
      using \<open>p \<in> set (tk_unchecked ?m)\<close> by (auto simp: move_unchecked_def)
    moreover from this(1) have "rq_session rd < Suc index"
      using inv(2) by (fastforce simp: sessions_below_def)
    ultimately show ?thesis using new(2) by auto
  qed
  obtain b where b: "dl_balance st dc = Some b" "length (dc_sessions b) = Suc index"
    using assms(1) by (auto simp: removing_def)
  have "sessions_below (Suc index) ?m"
    using inv(2) below by (auto simp: sessions_below_def same intro: less_SucI)
  ultimately have "dl_inv (removal_extra dc index) ?st"
    using b assms(3) same by (intro dl_inv_task [OF inv(1) assms(2), where k' = ?m])
      (use sent_m in \<open>simp_all add: the_task_def\<close>)
  then have "removing dc index ?st"
    using assms(1) by (simp add: removing_def)
  moreover have "same_but t st ?st"
    using assms(2) same by (intro same_but_set_task) simp_all
  moreover have "redirect_unchecked t index st = Some ?st"
    using True new assms(3) by (simp add: redirect_unchecked_def)
  ultimately show ?thesis using below assms(2) same(1) by (auto simp: set_task_nth)
next
  case False
  have "rq_session (fst (snd p)) < index" if "p \<in> set (tk_unchecked (the_task t st))" for p
    using removing_task(2) [OF assms] False that by (force simp: sessions_below_def less_Suc_eq)
  then show ?thesis using assms(1) False by (simp add: redirect_unchecked_def)
qed

lemma task_removeSession_inv:
  assumes "removing dc index st" "t < length (dl_tasks st)" "tk_dc (the_task t st) = dc"
    "t \<in> en_task ` set (queue_of dc st)"
  shows "\<exists>st'. task_removeSession now t index st = Some st' \<and> removing dc index st' \<and> same_but t st st'
    \<and> sessions_below index (the_task t st')"
proof -
  let ?rs = "map (\<lambda>(i, rd). (i, rq_offset rd)) (filter (\<lambda>(i, rd). rq_session rd = index) (tk_sent (the_task t st)))"
  obtain st1 where st1: "redirect_unchecked t index st = Some st1" "removing dc index st1" "same_but t st st1"
    "tk_sent (the_task t st1) = tk_sent (the_task t st)"
    "\<forall>p\<in>set (tk_unchecked (the_task t st1)). rq_session (fst (snd p)) < index"
    using redirect_unchecked_inv [OF assms(1-3)] by blast
  have queued: "t \<in> en_task ` set (queue_of dc st1)" using st1(3) assms(4) by (simp add: same_but_def queue_of_def)
  have t1: "t < length (dl_tasks st1)" "tk_dc (the_task t st1) = dc"
    using st1(3) assms(2,3) by (simp_all add: same_but_def)
  have fm: "fm_inv (tk_sent (the_task t st1))"
    using dl_invD(1) [OF removing_task(1) [OF st1(2) t1] t1(1)] by (rule task_invD(1))
  have "requests_in index (the_task t st1) = set ?rs"
    unfolding requests_in_def fm_mem_iff [OF fm [unfolded st1(4)], symmetric] st1(4) by (auto simp: image_iff)
  moreover have "distinct (map fst ?rs)"
    using fm_inv_distinct [OF fm] unfolding st1(4) by (simp add: comp_def split_beta distinct_map_filter)
  ultimately obtain st' where st': "redirect_requests now t index ?rs st1 = Some st'" "removing dc index st'"
    "same_but t st1 st'" "requests_in index (the_task t st') = {}" "tk_unchecked (the_task t st') = tk_unchecked (the_task t st1)"
    using redirect_requests_inv [OF st1(2) t1] queued by blast
  have t': "t < length (dl_tasks st')" "tk_dc (the_task t st') = dc"
    using st'(3) t1 by (simp_all add: same_but_def)
  have fm': "fm_inv (tk_sent (the_task t st'))"
    using dl_invD(1) [OF removing_task(1) [OF st'(2) t'] t'(1)] by (rule task_invD(1))
  have "rq_session (snd p) \<noteq> index" if "p \<in> set (tk_sent (the_task t st'))" for p
    using st'(4) that fm_mem_iff [OF fm', of "fst p" "snd p"] by (auto simp: requests_in_def)
  then have "sessions_below index (the_task t st')"
    using removing_task(2) [OF st'(2) t'] st1(5) st'(5) unfolding sessions_below_def
    by (metis less_Suc_eq)
  then show ?thesis
    using st1(1) st'(1,2) same_but_trans [OF st1(3) st'(3)] by (simp add: task_removeSession_def Let_def)
qed

lemma queue_removeSession_inv:
  assumes "removing dc index st" "distinct (map en_task q)"
    "\<forall>e\<in>set q. en_task e < length (dl_tasks st) \<and> tk_dc (the_task (en_task e) st) = dc
      \<and> en_task e \<in> en_task ` set (queue_of dc st)"
  shows "\<exists>st'. queue_removeSession now index q st = Some st' \<and> removing dc index st'
    \<and> length (dl_tasks st') = length (dl_tasks st) \<and> dl_queues st' = dl_queues st
    \<and> dl_reset_timer st' = dl_reset_timer st
    \<and> (\<forall>e\<in>set q. sessions_below index (the_task (en_task e) st'))
    \<and> (\<forall>u. u \<notin> en_task ` set q \<longrightarrow> the_task u st' = the_task u st)"
  using assms
proof (induction q arbitrary: st)
  case (Cons e q)
  obtain st1 where st1: "task_removeSession now (en_task e) index st = Some st1" "removing dc index st1"
    "same_but (en_task e) st st1" "sessions_below index (the_task (en_task e) st1)"
    using task_removeSession_inv [OF Cons.prems(1), of "en_task e"] Cons.prems(3) by auto
  have e: "en_task e \<notin> en_task ` set q" "distinct (map en_task q)" using Cons.prems(2) by auto
  have tasks: "en_task f < length (dl_tasks st1) \<and> tk_dc (the_task (en_task f) st1) = dc
      \<and> en_task f \<in> en_task ` set (queue_of dc st1)" if "f \<in> set q" for f
  proof -
    have "en_task f \<noteq> en_task e" using e(1) that by (metis imageI)
    then show ?thesis using st1(3) Cons.prems(3) that by (simp add: same_but_def queue_of_def)
  qed
  obtain st' where st': "queue_removeSession now index q st1 = Some st'" "removing dc index st'"
    "length (dl_tasks st') = length (dl_tasks st1)" "dl_queues st' = dl_queues st1"
    "dl_reset_timer st' = dl_reset_timer st1"
    "\<forall>e\<in>set q. sessions_below index (the_task (en_task e) st')"
    "\<forall>u. u \<notin> en_task ` set q \<longrightarrow> the_task u st' = the_task u st1"
    using Cons.IH [OF st1(2) e(2)] tasks by blast
  have "the_task (en_task e) st' = the_task (en_task e) st1" using st'(7) e(1) by blast
  moreover have "the_task u st' = the_task u st" if "u \<noteq> en_task e" "u \<notin> en_task ` set q" for u
    using st'(7) st1(3) that by (simp add: same_but_def)
  moreover have "length (dl_tasks st1) = length (dl_tasks st)" "dl_queues st1 = dl_queues st"
    "dl_reset_timer st1 = dl_reset_timer st"
    using st1(3) by (simp_all add: same_but_def)
  ultimately show ?case using st1(1,4) st' by auto
qed auto

lemma accounts_set:
  assumes "accounts ex bal ks" "dc_counts (ex' dc) b dc ks" "\<And>c. c \<noteq> dc \<Longrightarrow> ex' c = ex c"
  shows "accounts ex' (bal(dc \<mapsto> b)) ks"
  unfolding accounts_def
proof
  fix c
  show "case (bal(dc \<mapsto> b)) c of None \<Rightarrow> \<forall>k\<in>set ks. tk_dc k = c \<longrightarrow> tk_sent k = [] \<and> tk_unchecked k = []
      | Some b \<Rightarrow> dc_counts (ex' c) b c ks"
    using assms(1) [unfolded accounts_def, rule_format, of c] assms(2) assms(3) [of c] by (cases "c = dc"; cases "bal c") simp_all
qed

lemma remove_begin_counts:
  assumes "dc_counts (no_extra dc) b dc ks" "remove_session_begin b = Some (b1, index)"
  shows "dc_counts (removal_extra dc index dc) b1 dc ks" "length (dc_sessions b1) = Suc index"
    "length (dc_sessions b) = Suc index" "0 < index" "dc_total b1 = dc_total b"
proof -
  have ok: "balance_ok b1" "index = length (dc_sessions b1) - 1" "1 < length (dc_sessions b1)"
    using remove_session_begin_ok [OF _ assms(2)] assms(1) by (simp_all add: dc_counts_def)
  have b1: "length (dc_sessions b1) = length (dc_sessions b)" "dc_total b1 = dc_total b"
    "\<And>j. j < length (dc_sessions b) \<Longrightarrow> bs_requested (dc_sessions b1 ! j) =
      bs_requested (dc_sessions b ! j) + (if j = index then removal_amount else 0)"
    using assms(2) by (auto simp: remove_session_begin_def Let_def nth_list_update split: if_splits)
  show "length (dc_sessions b1) = Suc index" "0 < index" "dc_total b1 = dc_total b"
    "length (dc_sessions b) = Suc index"
    using ok b1 by auto
  show "dc_counts (removal_extra dc index dc) b1 dc ks"
    using assms(1) ok(1) b1 by (auto simp: dc_counts_def no_extra_def removal_extra_def)
qed

lemma remove_end_counts:
  assumes "dc_counts (removal_extra dc index dc) b dc ks" "length (dc_sessions b) = Suc index" "0 < index"
    "\<forall>k\<in>set ks. tk_dc k = dc \<longrightarrow> sessions_below index k"
  shows "\<exists>b'. remove_session_end now b = Some b' \<and> dc_counts (no_extra dc) b' dc ks \<and> length (dc_sessions b') = index"
proof -
  have "sent_count index k = 0" if "k \<in> set ks" "tk_dc k = dc" for k
    using assms(4) that unfolding sent_count_zero sessions_below_def by (metis nat_neq_iff)
  then have "load_of (sent_count index) dc ks = 0" by (simp add: load_of_zero)
  then have last: "bs_requested (last (dc_sessions b)) = removal_amount"
    using assms(1,2) by (cases "dc_sessions b = []") (simp_all add: last_conv_nth dc_counts_def removal_extra_def)
  let ?b' = "b\<lparr> dc_sessions := butlast (dc_sessions b), dc_last_remove := now \<rparr>"
  have eq: "remove_session_end now b = Some ?b'"
    using last assms(2) by (auto simp: remove_session_end_def)
  moreover have "balance_ok ?b'"
    using remove_session_end_ok [OF _ eq] assms(1-3) by (simp add: dc_counts_def)
  moreover have "dc_counts (no_extra dc) ?b' dc ks"
    using assms(1,2,4) calculation(2) by (auto simp: dc_counts_def no_extra_def removal_extra_def nth_butlast)
  ultimately show ?thesis using assms(2) by auto
qed

lemma removeSession_inv:
  assumes "dl_inv no_extra st" "dl_balance st dc = Some b" "kStartSessionsCount < length (dc_sessions b)"
    "dc_total b \<le> removal_amount"
  shows "\<exists>st' b'. dm_removeSession now dc st = Some st' \<and> dl_inv no_extra st' \<and> dl_balance st' dc = Some b'
    \<and> Suc (length (dc_sessions b')) = length (dc_sessions b) \<and> length (dl_tasks st') = length (dl_tasks st)
    \<and> dl_queues st' = dl_queues st"
proof -
  obtain b1 index where b1: "remove_session_begin b = Some (b1, index)"
    using assms(3) by (auto simp: remove_session_begin_def Let_def)
  have counts: "dc_counts (no_extra dc) b dc (dl_tasks st)"
    using assms(1,2) by (auto simp: dl_inv_def accounts_def dest: spec [of _ dc])
  note begun = remove_begin_counts [OF counts b1]
  define st1 where "st1 = st\<lparr> dl_balance := (dl_balance st)(dc \<mapsto> b1) \<rparr>"
  have st1: "the_task u st1 = the_task u st" "queue_of dc st1 = queue_of dc st" for u
    by (simp_all add: st1_def the_task_def queue_of_def)
  have "dl_inv (removal_extra dc index) st1"
  proof -
    have "accounts no_extra (dl_balance st) (dl_tasks st)" using assms(1) by (simp add: dl_inv_def)
    then have "accounts (removal_extra dc index) ((dl_balance st)(dc \<mapsto> b1)) (dl_tasks st)"
      using begun(1) by (rule accounts_set) (auto simp: removal_extra_def no_extra_def)
    then show ?thesis using assms(1) by (simp add: dl_inv_def st1_def)
  qed
  then have rem1: "removing dc index st1"
    using begun assms(4) by (simp add: removing_def) (simp add: st1_def)
  note good = queue_tasks_good [OF assms(1), where dc = dc]
  have "distinct (map en_task (queue_of dc st))" using good(1) by (simp add: queue_inv_def)
  moreover have "\<forall>e\<in>set (queue_of dc st). en_task e < length (dl_tasks st1) \<and> tk_dc (the_task (en_task e) st1) = dc
      \<and> en_task e \<in> en_task ` set (queue_of dc st1)"
    using good(2) by (auto simp: st1) (auto simp: st1_def)
  ultimately obtain st2 where st2: "queue_removeSession now index (queue_of dc st) st1 = Some st2" "removing dc index st2"
    "length (dl_tasks st2) = length (dl_tasks st1)" "dl_queues st2 = dl_queues st1"
    "\<forall>e\<in>set (queue_of dc st). sessions_below index (the_task (en_task e) st2)"
    "\<forall>u. u \<notin> en_task ` set (queue_of dc st) \<longrightarrow> the_task u st2 = the_task u st1"
    using queue_removeSession_inv [OF rem1] by blast
  obtain b2 where b2: "dl_balance st2 dc = Some b2" "length (dc_sessions b2) = Suc index"
    and inv2: "dl_inv (removal_extra dc index) st2"
    using st2(2) by (auto simp: removing_def)
  have below: "sessions_below index (the_task u st2)" if u: "u < length (dl_tasks st2)" "tk_dc (the_task u st2) = dc" for u
  proof (cases "u \<in> en_task ` set (queue_of dc st)")
    case True
    then show ?thesis using st2(5) by auto
  next
    case False
    then have same: "the_task u st2 = the_task u st" using st2(6) by (simp add: st1)
    have "u < length (dl_tasks st)" using u(1) st2(3) by (simp add: st1_def)
    then have "\<not> haveSentRequests (the_task u st)"
      using assms(1) u(2) False same by (auto simp: dl_inv_def all_queued_def)
    then show ?thesis by (simp add: same haveSentRequests_def sessions_below_def)
  qed
  have "\<forall>k\<in>set (dl_tasks st2). tk_dc k = dc \<longrightarrow> sessions_below index k"
    using below by (auto simp: the_task_def in_set_conv_nth)
  moreover have "dc_counts (removal_extra dc index dc) b2 dc (dl_tasks st2)"
    using inv2 b2(1) by (auto simp: dl_inv_def accounts_def dest: spec [of _ dc])
  ultimately obtain b' where b': "remove_session_end now b2 = Some b'" "dc_counts (no_extra dc) b' dc (dl_tasks st2)"
    "length (dc_sessions b') = index"
    using remove_end_counts b2(2) begun(4) by blast
  define st' where "st' = add_log [SessionKilled dc index] (st2\<lparr> dl_balance := (dl_balance st2)(dc \<mapsto> b') \<rparr>)"
  have "accounts (removal_extra dc index) (dl_balance st2) (dl_tasks st2)" using inv2 by (simp add: dl_inv_def)
  then have "accounts no_extra ((dl_balance st2)(dc \<mapsto> b')) (dl_tasks st2)"
    using b'(2) by (rule accounts_set) (auto simp: removal_extra_def no_extra_def)
  then have "dl_inv no_extra st'" using inv2 by (simp add: dl_inv_def st'_def)
  moreover have "dm_removeSession now dc st = Some st'"
    using st2(1) b2(1) b'(1) b1 by (simp add: dm_removeSession_def assms(2) st1_def [symmetric] st'_def)
  moreover have "length (dl_tasks st') = length (dl_tasks st)" "dl_queues st' = dl_queues st" "dl_balance st' dc = Some b'"
    using st2(3,4) by (simp_all add: st'_def st1_def)
  ultimately show ?thesis using b'(3) begun(3) by auto
qed

lemma sessionTimedOut_inv:
  assumes "dl_inv no_extra st" "dc_total (balance_at dc st) \<le> removal_amount"
  shows "\<exists>st'. dm_sessionTimedOut now dc index st = Some st' \<and> dl_inv no_extra st'
    \<and> length (dl_tasks st') = length (dl_tasks st) \<and> dl_queues st' = dl_queues st"
proof (cases "dl_balance st dc")
  case None
  then show ?thesis using assms(1) by (simp add: dm_sessionTimedOut_def)
next
  case (Some b)
  obtain b1 remove where b1: "session_timed_out index b = (b1, remove)" by (cases "session_timed_out index b")
  have same: "map bs_requested (dc_sessions b1) = map bs_requested (dc_sessions b)" "dc_total b1 = dc_total b"
    and more: "remove \<Longrightarrow> kStartSessionsCount < length (dc_sessions b1) \<or> length (dc_sessions b1) = 0"
    using b1 by (auto simp: session_timed_out_def forget_successes_def Let_def comp_def kStartSessionsCount_def
        split: if_splits)
  have counts: "dc_counts (no_extra dc) b dc (dl_tasks st)"
    using assms(1) Some by (auto simp: dl_inv_def accounts_def dest: spec [of _ dc])
  moreover have "balance_ok b1"
    using session_timed_out_ok [of b index] counts b1 by (simp add: dc_counts_def)
  ultimately have counts1: "dc_counts (no_extra dc) b1 dc (dl_tasks st)"
    using dc_counts_requested same by blast
  define st1 where "st1 = st\<lparr> dl_balance := (dl_balance st)(dc \<mapsto> b1) \<rparr>"
  have "accounts no_extra ((dl_balance st)(dc \<mapsto> b1)) (dl_tasks st)"
    using assms(1) counts1 by (auto simp: dl_inv_def accounts_def)
  then have inv1: "dl_inv no_extra st1"
    using assms(1) by (simp add: dl_inv_def st1_def)
  have eq: "dm_sessionTimedOut now dc index st = (if remove then dm_removeSession now dc st1 else Some st1)"
    using Some b1 by (simp add: dm_sessionTimedOut_def st1_def)
  show ?thesis
  proof (cases remove)
    case True
    have "kStartSessionsCount < length (dc_sessions b1)"
      using more [OF True] counts1 by (auto simp: dc_counts_def balance_ok_def kStartSessionsCount_def)
    moreover have "dc_total b1 \<le> removal_amount" using assms(2) Some same(2) by (simp add: balance_at_def)
    ultimately obtain st' where "dm_removeSession now dc st1 = Some st'" "dl_inv no_extra st'"
      "length (dl_tasks st') = length (dl_tasks st1)" "dl_queues st' = dl_queues st1"
      using removeSession_inv [OF inv1, of dc b1 now] by (auto simp: st1_def)
    then show ?thesis using eq True by (simp add: st1_def)
  next
    case False
    then show ?thesis using eq inv1 by (simp add: st1_def)
  qed
qed

section \<open>Killing idle sessions\<close>

lemma kill_dc_inv:
  assumes "dl_inv no_extra st" "\<forall>k\<in>set (dl_tasks st). tk_dc k = dc \<longrightarrow> tk_sent k = []"
  shows "\<exists>st'. kill_dc dc st = Some st' \<and> dl_inv no_extra st' \<and> dl_tasks st' = dl_tasks st
    \<and> dl_queues st' = dl_queues st \<and> dl_kill_when st' = dl_kill_when st"
proof (cases "dl_balance st dc")
  case None
  then show ?thesis using assms(1) by (simp add: kill_dc_def)
next
  case (Some b)
  have counts: "dc_counts (no_extra dc) b dc (dl_tasks st)"
    using assms(1) Some by (auto simp: dl_inv_def accounts_def dest: spec [of _ dc])
  have "dc_total b = 0" using idle_total [OF counts] assms(2) by blast
  have zero: "load_of (sent_count j) dc (dl_tasks st) = 0" for j
    using assms(2) by (simp add: load_of_zero sent_count_zero)
  then have "\<forall>s\<in>set (dc_sessions b). bs_requested s = 0"
    using counts by (auto simp: dc_counts_def no_extra_def in_set_conv_nth)
  then obtain b' where b': "kill_balance b = Some b'"
    "b' = dc_balance_new\<lparr> dc_sessions := map (\<lambda>s. session_balance_new) (dc_sessions b) \<rparr>"
    using \<open>dc_total b = 0\<close> by (simp add: kill_balance_def)
  have "balance_ok b'" using kill_balance_ok [OF _ b'(1)] counts by (simp add: dc_counts_def)
  then have "dc_counts (no_extra dc) b' dc (dl_tasks st)"
    using counts zero \<open>dc_total b = 0\<close>
    by (simp add: dc_counts_def b'(2) no_extra_def session_balance_new_def dc_balance_new_def)
  moreover have "accounts no_extra (dl_balance st) (dl_tasks st)" using assms(1) by (simp add: dl_inv_def)
  ultimately have "accounts no_extra ((dl_balance st)(dc \<mapsto> b')) (dl_tasks st)"
    using accounts_set by blast
  then show ?thesis
    using assms(1) b'(1) by (simp add: kill_dc_def Some dl_inv_def)
qed

lemma kill_due_inv:
  assumes "dl_inv no_extra st" "\<forall>(dc, due)\<in>set whens. \<forall>k\<in>set (dl_tasks st). tk_dc k = dc \<longrightarrow> tk_sent k = []"
  shows "\<exists>left' st'. kill_due now whens left st = Some (filter (\<lambda>p. now < snd p) whens, left', st')
    \<and> dl_inv no_extra st' \<and> dl_tasks st' = dl_tasks st \<and> dl_queues st' = dl_queues st \<and> dl_kill_when st' = dl_kill_when st"
  using assms
proof (induction whens arbitrary: left st)
  case (Cons p whens)
  obtain dc due where p: "p = (dc, due)" by (cases p)
  show ?case
  proof (cases "due \<le> now")
    case True
    obtain st1 where st1: "kill_dc dc st = Some st1" "dl_inv no_extra st1" "dl_tasks st1 = dl_tasks st"
      "dl_queues st1 = dl_queues st" "dl_kill_when st1 = dl_kill_when st"
      using kill_dc_inv [OF Cons.prems(1), of dc] Cons.prems(2) by (auto simp: p)
    then show ?thesis
      using Cons.IH [OF st1(2), of left] Cons.prems(2) True by (auto simp: p)
  next
    case False
    then show ?thesis
      using Cons.IH [OF Cons.prems(1), of "if due - now < left then due - now else left"] Cons.prems(2)
      by (auto simp: p)
  qed
qed simp

lemma killSessions_inv:
  assumes "dl_inv no_extra st"
  shows "\<exists>st'. dm_killSessions now st = Some st' \<and> dl_inv no_extra st' \<and> dl_tasks st' = dl_tasks st
    \<and> dl_queues st' = dl_queues st \<and> dl_kill_when st' = filter (\<lambda>p. now < snd p) (dl_kill_when st)
    \<and> (dl_kill_timer st' = None) = (dl_kill_when st' = [])"
proof -
  have kill: "kill_inv (dl_kill_when st) (dl_tasks st)" using assms by (simp add: dl_inv_def)
  then have fm: "fm_inv (dl_kill_when st)" by (simp add: kill_inv_def)
  have "\<forall>(dc, due)\<in>set (dl_kill_when st). \<forall>k\<in>set (dl_tasks st). tk_dc k = dc \<longrightarrow> tk_sent k = []"
    using kill fm_mem_iff [OF fm] by (auto simp: kill_inv_def)
  from kill_due_inv [OF assms this, of now kKillSessionTimeout] obtain left' st1 where st1:
    "kill_due now (dl_kill_when st) kKillSessionTimeout st = Some (filter (\<lambda>p. now < snd p) (dl_kill_when st), left', st1)"
    "dl_inv no_extra st1" "dl_tasks st1 = dl_tasks st" "dl_queues st1 = dl_queues st" by blast
  let ?kept = "filter (\<lambda>p. now < snd p) (dl_kill_when st)"
  have fm': "fm_inv ?kept" using fm by (simp add: fm_inv_def sorted_wrt_map sorted_wrt_filter)
  then have "map_of (dl_kill_when st) dc \<noteq> None" if "map_of ?kept dc \<noteq> None" for dc
    using that fm_mem_iff [OF fm] fm_mem_iff [OF fm'] by fastforce
  then have "kill_inv ?kept (dl_tasks st)" using kill fm' unfolding kill_inv_def by blast
  then have "dl_inv no_extra (st1\<lparr> dl_kill_when := ?kept, dl_kill_timer := (if ?kept = [] then None else Some (now + left')) \<rparr>)"
    using st1(2,3) by (simp add: dl_inv_def)
  moreover have "dm_killSessions now st = Some (st1\<lparr> dl_kill_when := ?kept,
      dl_kill_timer := (if ?kept = [] then None else Some (now + left')) \<rparr>)"
    by (simp add: dm_killSessions_def st1(1))
  ultimately show ?thesis using st1(3,4) by simp
qed

end
