(* ===== verification/DownloadParts.thy ===== *)
theory DownloadParts imports Download begin

text \<open>
  The answers to the requests of a download task, and what its two kinds of client do with them:
  the rest of \<^verbatim>\<open>DownloadMtprotoTask\<close> (\<^verbatim>\<open>storage/download_manager_mtproto\<close>),
  \<^verbatim>\<open>mtpFileLoader\<close> (\<^verbatim>\<open>storage/file_download_mtproto\<close>) and
  \<^verbatim>\<open>LoaderMtproto\<close> (\<^verbatim>\<open>media/streaming/media_streaming_loader_mtproto\<close>).
  SHA-256 and AES in counter mode are OpenSSL's: parameters. A task is not destroyed by a listener
  while it handles an answer. What the file system and the cache answer is a \<open>file_env\<close>.
\<close>

section \<open>What the server answers\<close>

datatype file_hash = FileHash (fh_offset: int) (fh_limit: int) (fh_hash: bytes)

datatype file_result = FileBytes bytes | CdnRedirect int bytes bytes bytes "file_hash list"

datatype web_result = WebBytes int bytes

datatype cdn_result = ReuploadNeeded bytes | CdnBytes bytes

record mtp_error =
  me_code :: int
  me_type :: string

definition starts_with :: "string \<Rightarrow> string \<Rightarrow> bool" where
  "starts_with prefix s \<longleftrightarrow> take (length prefix) s = prefix"

definition IsFloodError :: "mtp_error \<Rightarrow> bool" where
  "IsFloodError e \<longleftrightarrow> starts_with ''FLOOD_WAIT_'' (me_type e) \<or> starts_with ''FLOOD_PREMIUM_WAIT_'' (me_type e)"

definition IsTemporaryError :: "mtp_error \<Rightarrow> bool" where
  "IsTemporaryError e \<longleftrightarrow> me_code e < 0 \<or> 500 \<le> me_code e \<or> IsFloodError e"

definition IsDefaultHandledError :: "mtp_error \<Rightarrow> bool" where
  "IsDefaultHandledError e = IsTemporaryError e"

record outside =
  ou_env :: file_env
  ou_has_key :: bool
  ou_sha256 :: "bytes \<Rightarrow> bytes"
  ou_aes_ctr :: "bytes \<Rightarrow> bytes \<Rightarrow> bytes \<Rightarrow> bytes"

section \<open>The clients\<close>

definition set_file :: "nat \<Rightarrow> file_loader \<Rightarrow> download \<Rightarrow> download" where
  "set_file t l st = set_task t (\<lambda>k. case tk_client k of
     FileClient m \<Rightarrow> k\<lparr> tk_client := FileClient (m\<lparr> mt_file := l \<rparr>) \<rparr> | StreamClient s \<Rightarrow> k) st"

text \<open>What a \<^verbatim>\<open>FileLoader\<close> operation did, in its order: \<^verbatim>\<open>cancelHook\<close>
  and \<^verbatim>\<open>startLoading\<close> of \<^verbatim>\<open>mtpFileLoader\<close>, everything else is told to the outside.\<close>

fun run_effects :: "int \<Rightarrow> nat \<Rightarrow> file_effect list \<Rightarrow> download \<Rightarrow> download option" where
  "run_effects now t [] st = Some st"
| "run_effects now t (e # es) st = do {
     st \<leftarrow> (case e of
         CancelHook \<Rightarrow> cancelAllRequests now t st
       | StartLoading \<Rightarrow> dm_enqueue now t 0 st
       | _ \<Rightarrow> Some (add_log [FileEvent t e] st));
     run_effects now t es st }"

text \<open>\<^verbatim>\<open>cancelHook\<close> comes first, before the loader is marked as finished.\<close>

definition apply_file :: "int \<Rightarrow> nat \<Rightarrow> file_loader \<Rightarrow> file_effect list \<Rightarrow> download \<Rightarrow> download option" where
  "apply_file now t l es st = (case es of
     CancelHook # es \<Rightarrow> do { st \<leftarrow> cancelAllRequests now t st; run_effects now t es (set_file t l st) }
   | _ \<Rightarrow> run_effects now t es (set_file t l st))"

definition file_fed :: "outside \<Rightarrow> int \<Rightarrow> nat \<Rightarrow> bytes \<Rightarrow> mtp_loader \<Rightarrow> download \<Rightarrow> (bool \<times> download) option" where
  "file_fed out now t buffer m st =
     (let m = mtp_fed buffer m;
          st = set_task t (\<lambda>k. k\<lparr> tk_client := FileClient m \<rparr>) st in
      if mtp_complete (haveSentRequests (the_task t st)) m
      then do {
        st \<leftarrow> dm_remove now t st;
        (l, ok, es) \<leftarrow> finalize_result (ou_env out) (ou_has_key out) (mt_file m);
        st \<leftarrow> apply_file now t l es st;
        Some (ok, st) }
      else Some (True, add_log [FileEvent t Progress] st))"

definition feedPart :: "outside \<Rightarrow> int \<Rightarrow> nat \<Rightarrow> int \<Rightarrow> bytes \<Rightarrow> download \<Rightarrow> (bool \<times> download) option" where
  "feedPart out now t offset buffer st = (case tk_client (the_task t st) of
     FileClient m \<Rightarrow> do {
       (l, ok, es) \<leftarrow> write_result_part (ou_env out) offset buffer (mt_file m);
       st \<leftarrow> apply_file now t l es st;
       if ok then file_fed out now t buffer (m\<lparr> mt_file := l \<rparr>) st else Some (False, st) }
   | StreamClient s \<Rightarrow> Some (True, add_log [PartEvent t offset buffer]
       (set_task t (\<lambda>k. k\<lparr> tk_client := StreamClient (stream_fed now offset s) \<rparr>) st)))"

definition cancelOnFail :: "int \<Rightarrow> nat \<Rightarrow> download \<Rightarrow> download option" where
  "cancelOnFail now t st = (case tk_client (the_task t st) of
     FileClient m \<Rightarrow> let (l, es) = file_cancel OtherFailure (mt_file m) in apply_file now t l es st
   | StreamClient s \<Rightarrow> Some (add_log [PartFailed t] st))"

definition setWebFileSizeHook :: "int \<Rightarrow> nat \<Rightarrow> int \<Rightarrow> download \<Rightarrow> (bool \<times> download) option" where
  "setWebFileSizeHook now t n st = (case tk_client (the_task t st) of
     FileClient m \<Rightarrow> (case mtp_set_web_size n m of
         Some m \<Rightarrow> Some (True, set_task t (\<lambda>k. k\<lparr> tk_client := FileClient m \<rparr>) st)
       | None \<Rightarrow> do { st \<leftarrow> cancelOnFail now t st; Some (False, st) })
   | StreamClient s \<Rightarrow> Some (True, st))"

section \<open>CDN\<close>

fun addCdnHashes :: "file_hash list \<Rightarrow> (int \<times> int \<times> bytes) list \<Rightarrow> (int \<times> int \<times> bytes) list" where
  "addCdnHashes [] known = known"
| "addCdnHashes (h # hs) known = addCdnHashes hs (fst (fm_emplace known (fh_offset h) (fh_limit h, fh_hash h)))"

definition add_hashes :: "nat \<Rightarrow> file_hash list \<Rightarrow> download \<Rightarrow> download" where
  "add_hashes t hs st = set_task t (\<lambda>k. k\<lparr> tk_cdn_hashes := addCdnHashes hs (tk_cdn_hashes k) \<rparr>) st"

datatype cdn_hash_check = NoHash | Invalid | Good

definition checkCdnFileHash :: "(bytes \<Rightarrow> bytes) \<Rightarrow> int \<Rightarrow> bytes \<Rightarrow> task \<Rightarrow> cdn_hash_check" where
  "checkCdnFileHash sha256 offset buffer k = (case map_of (tk_cdn_hashes k) offset of
     None \<Rightarrow> NoHash
   | Some (_, hash) \<Rightarrow> if sha256 buffer \<noteq> hash then Invalid else Good)"

definition requestMoreCdnFileHashes :: "int \<Rightarrow> nat \<Rightarrow> download \<Rightarrow> download option" where
  "requestMoreCdnFileHashes now t st =
     (let k = the_task t st in
      if tk_hash_request k \<noteq> 0 \<or> tk_unchecked k = [] then Some st
      else
        let rd = fst (snd (hd (tk_unchecked k)));
            (i, st) = send_api GetCdnFileHashes (tk_dc k) rd st in
        placeSentRequest now t i rd (set_task t (\<lambda>k. k\<lparr> tk_hash_request := i \<rparr>) st))"

text \<open>The requests that are out are cancelled and finished, to be made again.\<close>

fun finish_all :: "int \<Rightarrow> nat \<Rightarrow> nat list \<Rightarrow> download \<Rightarrow> (request_data list \<times> download) option" where
  "finish_all now t [] st = Some ([], st)"
| "finish_all now t (i # is) st = do {
     (rd, st) \<leftarrow> finishSentRequest now t i Redirect (add_log [Cancelled i] st);
     (rds, st) \<leftarrow> finish_all now t is st;
     Some (rd # rds, st) }"

fun make_all :: "int \<Rightarrow> nat \<Rightarrow> request_data list \<Rightarrow> download \<Rightarrow> download option" where
  "make_all now t [] st = Some st"
| "make_all now t (rd # rds) st = do { st \<leftarrow> makeRequest now t rd st; make_all now t rds st }"

definition changeCDNParams :: "int \<Rightarrow> nat \<Rightarrow> request_data \<Rightarrow> int \<Rightarrow> bytes \<Rightarrow> bytes \<Rightarrow> bytes \<Rightarrow> file_hash list
    \<Rightarrow> download \<Rightarrow> download option" where
  "changeCDNParams now t rd dc token encryptionKey encryptionIV hashes st =
     (if dc \<noteq> 0 \<and> (length encryptionKey \<noteq> kKeySize \<or> length encryptionIV \<noteq> kIvecSize)
      then cancelOnFail now t st
      else
        let k = the_task t st;
            resendAllRequests = (tk_cdn_dc k \<noteq> dc \<or> tk_cdn_token k \<noteq> token
              \<or> tk_cdn_key k \<noteq> encryptionKey \<or> tk_cdn_iv k \<noteq> encryptionIV);
            st = set_task t (\<lambda>k. k\<lparr> tk_cdn_dc := dc, tk_cdn_token := token, tk_cdn_key := encryptionKey,
              tk_cdn_iv := encryptionIV \<rparr>) st;
            st = add_hashes t hashes st in
        do {
          st \<leftarrow> (if resendAllRequests \<and> tk_sent (the_task t st) \<noteq> []
            then do {
              (rds, st) \<leftarrow> finish_all now t (map fst (tk_sent (the_task t st))) st;
              make_all now t rds st }
            else Some st);
          makeRequest now t rd st })"

text \<open>The counter block of the part at an offset: the initial vector with its last four bytes
  replaced by the index of the part's first block.\<close>

definition counter_block :: "bytes \<Rightarrow> int \<Rightarrow> bytes" where
  "counter_block iv offset =
     (let c = word_of_int (offset div 16) :: 32 word in
      take 12 iv @ [ucast (drop_bit 24 c), ucast (drop_bit 16 c), ucast (drop_bit 8 c), ucast c])"

definition cdnPartLoaded :: "outside \<Rightarrow> int \<Rightarrow> nat \<Rightarrow> cdn_result \<Rightarrow> nat \<Rightarrow> download \<Rightarrow> download option" where
  "cdnPartLoaded out now t result i st = (case result of
     ReuploadNeeded request_token \<Rightarrow> do {
       (rd, st) \<leftarrow> finishSentRequest now t i Redirect st;
       let (i, st) = send_api ReuploadCdnFile (tk_dc (the_task t st)) rd st in
       placeSentRequest now t i rd st }
   | CdnBytes data \<Rightarrow> do {
       (rd, st) \<leftarrow> finishSentRequest now t i Success st;
       let k = the_task t st in
       if length (tk_cdn_key k) = kKeySize \<and> length (tk_cdn_iv k) = kIvecSize
       then
         let buffer = ou_aes_ctr out (tk_cdn_key k) (counter_block (tk_cdn_iv k) (rq_offset rd)) data in
         do {
           st \<leftarrow> (case checkCdnFileHash (ou_sha256 out) (rq_offset rd) buffer k of
               NoHash \<Rightarrow> requestMoreCdnFileHashes now t (set_task t
                 (\<lambda>k. k\<lparr> tk_unchecked := fst (fm_emplace (tk_unchecked k) (rq_offset rd) (rd, buffer)) \<rparr>) st)
             | Invalid \<Rightarrow> cancelOnFail now t st
             | Good \<Rightarrow> do { (_, st) \<leftarrow> feedPart out now t (rq_offset rd) buffer st; Some st });
           checkSendNext now (tk_dc k) st }
       else None })"

definition reuploadDone :: "int \<Rightarrow> nat \<Rightarrow> file_hash list \<Rightarrow> nat \<Rightarrow> download \<Rightarrow> download option" where
  "reuploadDone now t hashes i st = do {
     (rd, st) \<leftarrow> finishSentRequest now t i Redirect st;
     makeRequest now t rd (add_hashes t hashes st) }"

text \<open>The loop of \<^verbatim>\<open>getCdnFileHashesDone\<close> over the unchecked parts: \<open>None\<close> in the
  first result is a \<^verbatim>\<open>return\<close> from inside it, otherwise \<^verbatim>\<open>someMoreChecked\<close>.\<close>

fun check_unchecked :: "outside \<Rightarrow> int \<Rightarrow> nat \<Rightarrow> (int \<times> request_data \<times> bytes) list \<Rightarrow> bool \<Rightarrow> download
    \<Rightarrow> (bool option \<times> download) option" where
  "check_unchecked out now t [] some st = Some (Some some, st)"
| "check_unchecked out now t ((offset, rd, buffer) # us) some st =
     (case checkCdnFileHash (ou_sha256 out) offset buffer (the_task t st) of
        NoHash \<Rightarrow> check_unchecked out now t us some st
      | Invalid \<Rightarrow> do { st \<leftarrow> cancelOnFail now t st; Some (None, st) }
      | Good \<Rightarrow> do {
          (ok, st) \<leftarrow> feedPart out now t offset buffer
            (set_task t (\<lambda>k. k\<lparr> tk_unchecked := fst (fm_remove (tk_unchecked k) offset) \<rparr>) st);
          if ok then check_unchecked out now t us True st else Some (None, st) })"

definition getCdnFileHashesDone :: "outside \<Rightarrow> int \<Rightarrow> nat \<Rightarrow> file_hash list \<Rightarrow> nat \<Rightarrow> download \<Rightarrow> download option" where
  "getCdnFileHashesDone out now t hashes i st =
     (if tk_hash_request (the_task t st) = i
      then do {
        (rd, st) \<leftarrow> finishSentRequest now t i Redirect st;
        let st = add_hashes t hashes st;
        (some, st) \<leftarrow> check_unchecked out now t (tk_unchecked (the_task t st)) False st;
        case some of
          None \<Rightarrow> Some st
        | Some False \<Rightarrow> cancelOnFail now t st
        | Some True \<Rightarrow> requestMoreCdnFileHashes now t st }
      else None)"

section \<open>Parts and failures\<close>

definition normalPartLoaded :: "outside \<Rightarrow> int \<Rightarrow> nat \<Rightarrow> file_result \<Rightarrow> nat \<Rightarrow> download \<Rightarrow> download option" where
  "normalPartLoaded out now t result i st = do {
     (rd, st) \<leftarrow> finishSentRequest now t i Success st;
     let dc = tk_dc (the_task t st);
     st \<leftarrow> (case result of
         CdnRedirect cdn token key iv hashes \<Rightarrow> changeCDNParams now t rd cdn token key iv hashes st
       | FileBytes data \<Rightarrow> do { (_, st) \<leftarrow> feedPart out now t (rq_offset rd) data st; Some st });
     checkSendNext now dc st }"

definition webPartLoaded :: "outside \<Rightarrow> int \<Rightarrow> nat \<Rightarrow> web_result \<Rightarrow> nat \<Rightarrow> download \<Rightarrow> download option" where
  "webPartLoaded out now t result i st = do {
     (rd, st) \<leftarrow> finishSentRequest now t i Success st;
     let dc = tk_dc (the_task t st);
     st \<leftarrow> (case result of WebBytes n data \<Rightarrow> do {
         (ok, st) \<leftarrow> setWebFileSizeHook now t n st;
         if ok then do { (_, st) \<leftarrow> feedPart out now t (rq_offset rd) data st; Some st } else Some st });
     checkSendNext now dc st }"

text \<open>The result of a failure handler tells if it handled the error.\<close>

definition partFailed :: "int \<Rightarrow> nat \<Rightarrow> mtp_error \<Rightarrow> download \<Rightarrow> (bool \<times> download) option" where
  "partFailed now t error st =
     (if IsDefaultHandledError error then Some (False, st)
      else do { st \<leftarrow> cancelOnFail now t st; Some (True, st) })"

definition normalPartFailed :: "int \<Rightarrow> nat \<Rightarrow> bytes \<Rightarrow> mtp_error \<Rightarrow> nat \<Rightarrow> download \<Rightarrow> (bool \<times> download) option" where
  "normalPartFailed now t fileReference error i st =
     (if IsDefaultHandledError error then Some (False, st)
      else if me_code error = 400 \<and> starts_with ''FILE_REFERENCE_'' (me_type error)
      then Some (True, add_log [RefreshReference t i fileReference] st)
      else partFailed now t error st)"

definition cdnPartFailed :: "int \<Rightarrow> nat \<Rightarrow> mtp_error \<Rightarrow> nat \<Rightarrow> download \<Rightarrow> (bool \<times> download) option" where
  "cdnPartFailed now t error i st =
     (if IsDefaultHandledError error then Some (False, st)
      else if me_type error = ''FILE_TOKEN_INVALID'' \<or> me_type error = ''REQUEST_TOKEN_INVALID''
      then do {
        (rd, st) \<leftarrow> finishSentRequest now t i Redirect st;
        st \<leftarrow> changeCDNParams now t rd 0 [] [] [] [] st;
        Some (True, st) }
      else partFailed now t error st)"

text \<open>\<open>found\<close> is the reference the update has for the location, empty when it has none.\<close>

definition refreshFileReferenceFrom :: "int \<Rightarrow> nat \<Rightarrow> bytes \<Rightarrow> nat \<Rightarrow> bytes \<Rightarrow> download \<Rightarrow> download option" where
  "refreshFileReferenceFrom now t found i current st = (case tk_location (the_task t st) of
     StorageFile reference \<Rightarrow>
       let reference = (if found = [] then reference else found);
           st = set_task t (\<lambda>k. k\<lparr> tk_location := StorageFile reference \<rparr>) st in
       if reference = current then cancelOnFail now t st
       else if map_of (tk_sent (the_task t st)) i \<noteq> None
       then do { (rd, st) \<leftarrow> finishSentRequest now t i Redirect st; makeRequest now t rd st }
       else Some st
   | _ \<Rightarrow> cancelOnFail now t st)"

section \<open>Commands of the clients\<close>

text \<open>\<^verbatim>\<open>mtpFileLoader\<close>: \<open>feed\<close> is \<^verbatim>\<open>startLoadingWithPartial\<close>, called
  by \<^verbatim>\<open>localLoaded\<close> last.\<close>

definition startLoadingWithPartial :: "outside \<Rightarrow> int \<Rightarrow> nat \<Rightarrow> bytes \<Rightarrow> download \<Rightarrow> download option" where
  "startLoadingWithPartial out now t data st =
     (let use = partial_use data in
      if \<not> starts_partial data then None
      else do {
        st \<leftarrow> (if 0 < use
          then do {
            (_, st) \<leftarrow> feedPart out now t 0 (take use (drop 8 data)) (set_task t (\<lambda>k. case tk_client k of
                FileClient m \<Rightarrow> k\<lparr> tk_client := FileClient (m\<lparr> mt_next_offset := int use \<rparr>) \<rparr>
              | StreamClient s \<Rightarrow> k) st);
            Some st }
          else Some st);
        dm_enqueue now t 0 st })"

fun run_local :: "outside \<Rightarrow> int \<Rightarrow> nat \<Rightarrow> file_effect list \<Rightarrow> download \<Rightarrow> download option" where
  "run_local out now t [] st = Some st"
| "run_local out now t (e # es) st = do {
     st \<leftarrow> (case e of
         StartLoadingWithPartial data \<Rightarrow> startLoadingWithPartial out now t data st
       | _ \<Rightarrow> run_effects now t [e] st);
     run_local out now t es st }"

definition file_command :: "outside \<Rightarrow> int \<Rightarrow> nat \<Rightarrow> (file_loader \<Rightarrow> file_loader \<times> file_effect list)
    \<Rightarrow> download \<Rightarrow> download option" where
  "file_command out now t f st = (case tk_client (the_task t st) of
     FileClient m \<Rightarrow> (case f (mt_file m) of
         (l, CancelHook # es) \<Rightarrow> apply_file now t l (CancelHook # es) st
       | (l, es) \<Rightarrow> run_local out now t es (set_file t l st))
   | StreamClient s \<Rightarrow> None)"

definition loader_start :: "outside \<Rightarrow> int \<Rightarrow> nat \<Rightarrow> download \<Rightarrow> download option" where
  "loader_start out now t = file_command out now t (file_start (ou_env out) (ou_has_key out))"

definition loader_local_loaded :: "outside \<Rightarrow> int \<Rightarrow> nat \<Rightarrow> bytes \<Rightarrow> download \<Rightarrow> download option" where
  "loader_local_loaded out now t data = file_command out now t (local_loaded (ou_env out) (ou_has_key out) data)"

definition loader_cancel :: "outside \<Rightarrow> int \<Rightarrow> nat \<Rightarrow> download \<Rightarrow> download option" where
  "loader_cancel out now t = file_command out now t (file_cancel NoFailure)"

definition task_destroy :: "outside \<Rightarrow> int \<Rightarrow> nat \<Rightarrow> download \<Rightarrow> download option" where
  "task_destroy out now t st = do {
     st \<leftarrow> (case tk_client (the_task t st) of
         FileClient m \<Rightarrow> if fl_finished (mt_file m) then Some st else loader_cancel out now t st
       | StreamClient s \<Rightarrow> Some st);
     st \<leftarrow> cancelAllRequests now t st;
     dm_remove now t st }"

text \<open>\<^verbatim>\<open>LoaderMtproto\<close>: its commands run on the main thread.\<close>

definition with_stream :: "nat \<Rightarrow> (stream_loader \<Rightarrow> stream_loader) \<Rightarrow> download \<Rightarrow> download" where
  "with_stream t f st = set_task t (\<lambda>k. case tk_client k of
     StreamClient s \<Rightarrow> k\<lparr> tk_client := StreamClient (f s) \<rparr> | FileClient m \<Rightarrow> k) st"

definition stream_cancel_offset :: "int \<Rightarrow> nat \<Rightarrow> int \<Rightarrow> download \<Rightarrow> download option" where
  "stream_cancel_offset now t offset st =
     (if haveSentRequestForOffset offset (the_task t st)
      then do {
        st \<leftarrow> cancelRequestForOffset now t offset st;
        case tk_client (the_task t st) of
          StreamClient s \<Rightarrow> if pq_empty (sm_requested s) then Some st else dm_enqueue now t (sm_priority s) st
        | FileClient m \<Rightarrow> None }
      else Some (with_stream t (\<lambda>s. s\<lparr> sm_requested := snd (pq_remove offset (sm_requested s)) \<rparr>) st))"

text \<open>\<open>have\<close> is what an attached downloader has read of the part.\<close>

definition stream_load :: "int \<Rightarrow> nat \<Rightarrow> bytes \<Rightarrow> int \<Rightarrow> download \<Rightarrow> download option" where
  "stream_load now t have_part offset st = (case tk_client (the_task t st) of
     FileClient m \<Rightarrow> None
   | StreamClient s \<Rightarrow>
       if have_part \<noteq> [] then do {
         st \<leftarrow> stream_cancel_offset now t offset st;
         Some (add_log [PartEvent t offset have_part] st) }
       else if haveSentRequestForOffset offset (the_task t st) then Some st
       else
         let (added, q) = pq_add offset (sm_requested s);
             st = with_stream t (\<lambda>s. s\<lparr> sm_requested := q \<rparr>) st in
         if added then dm_enqueue now t (sm_priority s) st else Some st)"

definition stream_stop :: "int \<Rightarrow> nat \<Rightarrow> download \<Rightarrow> download option" where
  "stream_stop now t st = do {
     st \<leftarrow> cancelAllRequests now t st;
     dm_remove now t (with_stream t (\<lambda>s. s\<lparr> sm_requested := pq_clear (sm_requested s) \<rparr>) st) }"

definition stream_try_remove :: "int \<Rightarrow> nat \<Rightarrow> download \<Rightarrow> download option" where
  "stream_try_remove now t st = (case tk_client (the_task t st) of
     FileClient m \<Rightarrow> None
   | StreamClient s \<Rightarrow> if pq_empty (sm_requested s) \<and> \<not> haveSentRequests (the_task t st)
       then dm_remove now t st else Some st)"

definition stream_reset_priorities :: "nat \<Rightarrow> download \<Rightarrow> download" where
  "stream_reset_priorities t = with_stream t (\<lambda>s. s\<lparr> sm_requested := pq_reset_priorities (sm_requested s) \<rparr>)"

definition stream_set_priority :: "int \<Rightarrow> nat \<Rightarrow> int \<Rightarrow> download \<Rightarrow> download option" where
  "stream_set_priority now t p st = (case tk_client (the_task t st) of
     FileClient m \<Rightarrow> None
   | StreamClient s \<Rightarrow> if sm_priority s = p then Some st
       else
         let st = with_stream t (\<lambda>s. s\<lparr> sm_priority := p \<rparr>) st in
         if haveSentRequests (the_task t st) then dm_enqueue now t p st else Some st)"

definition stream_stats_timer :: "int \<Rightarrow> nat \<Rightarrow> download \<Rightarrow> download" where
  "stream_stats_timer now t st = (case tk_client (the_task t st) of
     FileClient m \<Rightarrow> st
   | StreamClient s \<Rightarrow> let (s, estimate) = stream_check_stats now s in
       add_log (case estimate of Some e \<Rightarrow> [SpeedEvent t e] | None \<Rightarrow> []) (with_stream t (\<lambda>_. s) st))"

text \<open>A call posted to the main thread.\<close>

definition run_posted :: "int \<Rightarrow> download \<Rightarrow> download option" where
  "run_posted now st = (case dl_posted st of
     [] \<Rightarrow> Some st
   | p # ps \<Rightarrow> (let st = st\<lparr> dl_posted := ps \<rparr> in case p of
       TimedOut dc index \<Rightarrow> dm_sessionTimedOut now dc index st
     | MoreHashes t \<Rightarrow> requestMoreCdnFileHashes now t st))"

end
