(* ===== verification/DownloadRun.thy ===== *)
theory DownloadRun imports DownloadOps DownloadParts begin

text \<open>
  The answers and the commands of \<open>DownloadParts\<close> from a state that satisfies the
  invariant of \<open>DownloadInv\<close>, and the run of a download manager: no assert fails, and every
  session waits for exactly the requests that are out in it.
\<close>

section \<open>Clients\<close>

text \<open>The tasks keep their data center and the kind of their client.\<close>

definition is_file :: "client \<Rightarrow> bool" where
  "is_file c \<longleftrightarrow> (case c of FileClient m \<Rightarrow> True | StreamClient s \<Rightarrow> False)"

definition kept :: "download \<Rightarrow> download \<Rightarrow> bool" where
  "kept st st' \<longleftrightarrow> length (dl_tasks st') = length (dl_tasks st)
     \<and> (\<forall>u. tk_dc (the_task u st') = tk_dc (the_task u st))"

lemma kept_refl [simp]: "kept st st"
  by (simp add: kept_def)

lemma kept_trans [trans]: "kept st st1 \<Longrightarrow> kept st1 st2 \<Longrightarrow> kept st st2"
  by (simp add: kept_def)

lemma same_but_kept: "same_but t st st' \<Longrightarrow> kept st st'"
  unfolding same_but_def kept_def by metis

lemma no_extra_nonneg: "\<forall>dc j. 0 \<le> no_extra dc j"
  by (simp add: no_extra_def)

lemma kept_set_task: "tk_dc (f (the_task t st)) = tk_dc (the_task t st) \<Longrightarrow> kept st (set_task t f st)"
  unfolding kept_def by (metis length_list_update list_update_beyond nth_list_update_eq nth_list_update_neq
      set_task_simps(1) the_task_def linorder_not_less)

lemma client_inv_update:
  assumes "dl_inv no_extra st" "t < length (dl_tasks st)" "client_inv c"
    "\<And>off. fresh_offset off c \<Longrightarrow> \<not> fresh_offset off (tk_client (the_task t st)) \<Longrightarrow>
       \<not> haveSentRequestForOffset off (the_task t st)"
    "client_done c \<Longrightarrow> \<not> haveSentRequests (the_task t st)"
    "dl_tasks st' = (dl_tasks st)[t := (the_task t st)\<lparr> tk_client := c \<rparr>]" "dl_balance st' = dl_balance st"
    "dl_queues st' = dl_queues st" "dl_last_id st' = dl_last_id st" "dl_kill_when st' = dl_kill_when st"
  shows "dl_inv no_extra st'"
proof (rule dl_inv_task [OF assms(1,2), where k' = "(the_task t st)\<lparr> tk_client := c \<rparr>"])
  let ?k = "the_task t st"
  note inv = dl_invD(1) [OF assms(1,2)]
  have "\<not> fresh_offset off c" if "map_of (tk_by_offset ?k) off \<noteq> None \<or> map_of (tk_unchecked ?k) off \<noteq> None" for off
    using assms(4) [of off] task_invD(7) [OF inv that] that
    by (auto simp: haveSentRequestForOffset_def fm_contains_dom [OF task_invD(2) [OF inv]] fm_contains_dom [OF task_invD(3) [OF inv]])
  moreover have "haveSentRequests (?k\<lparr> tk_client := c \<rparr>) = haveSentRequests ?k" by (simp add: haveSentRequests_def)
  ultimately show "task_inv (dl_last_id st) (?k\<lparr> tk_client := c \<rparr>)"
    using task_invD [OF inv] assms(3,5) unfolding task_inv_def by (simp del: not_None_eq)
  have below: "sessions_below n (?k\<lparr> tk_client := c \<rparr>) = sessions_below n ?k" for n by (simp add: sessions_below_def)
  show "case dl_balance st (tk_dc (?k\<lparr> tk_client := c \<rparr>)) of None \<Rightarrow> sessions_below 0 (?k\<lparr> tk_client := c \<rparr>)
      | Some b \<Rightarrow> sessions_below (length (dc_sessions b)) (?k\<lparr> tk_client := c \<rparr>)"
    using task_below [OF assms(1,2)] by (simp add: below split: option.splits)
  show "haveSentRequests (?k\<lparr> tk_client := c \<rparr>) \<Longrightarrow> haveSentRequests ?k" by (simp add: haveSentRequests_def)
qed (use assms(6-) in simp_all)

lemma set_file_eq:
  assumes "tk_client (the_task t st) = FileClient m" "t < length (dl_tasks st)"
  shows "the_task t (set_file t l st) = (the_task t st)\<lparr> tk_client := FileClient (m\<lparr> mt_file := l \<rparr>) \<rparr>"
    "dl_tasks (set_file t l st) = (dl_tasks st)[t := (the_task t st)\<lparr> tk_client := FileClient (m\<lparr> mt_file := l \<rparr>) \<rparr>]"
    "kept st (set_file t l st)"
  using assms by (auto simp: set_file_def set_task_nth kept_def the_task_def nth_list_update set_task_def)

lemma set_file_simps [simp]: "dl_balance (set_file t l st) = dl_balance st" "dl_queues (set_file t l st) = dl_queues st"
  "dl_last_id (set_file t l st) = dl_last_id st" "dl_kill_when (set_file t l st) = dl_kill_when st"
  by (simp_all add: set_file_def)

lemma set_file_inv:
  assumes "dl_inv no_extra st" "t < length (dl_tasks st)" "tk_client (the_task t st) = FileClient m"
    "fl_finished l \<Longrightarrow> \<not> haveSentRequests (the_task t st)"
  shows "dl_inv no_extra (set_file t l st)"
  by (rule client_inv_update [OF assms(1,2), where c = "FileClient (m\<lparr> mt_file := l \<rparr>)"])
    (use assms(3,4) in \<open>simp_all add: set_file_eq(2) [OF assms(3,2)] client_inv_def fresh_offset_def client_done_def\<close>)

lemma run_effects_inv:
  "dl_inv no_extra st \<Longrightarrow> t < length (dl_tasks st) \<Longrightarrow>
    \<exists>st'. run_effects now t es st = Some st' \<and> dl_inv no_extra st' \<and> kept st st'"
proof (induction es arbitrary: st)
  case (Cons e es)
  obtain st1 where st1: "(case e of CancelHook \<Rightarrow> cancelAllRequests now t st | StartLoading \<Rightarrow> dm_enqueue now t 0 st
      | _ \<Rightarrow> Some (add_log [FileEvent t e] st)) = Some st1" "dl_inv no_extra st1" "kept st st1"
  proof -
    have log: "dl_inv no_extra (add_log [FileEvent t e] st)" "kept st (add_log [FileEvent t e] st)"
      using dl_inv_later [OF Cons.prems(1), of "add_log [FileEvent t e] st"] by (simp_all add: kept_def the_task_def)
    obtain sc where sc: "cancelAllRequests now t st = Some sc" "dl_inv no_extra sc" "same_but t st sc"
      using cancelAll_inv [OF Cons.prems no_extra_nonneg] by blast
    obtain sq where sq: "dm_enqueue now t 0 st = Some sq" "dl_inv no_extra sq" "kept st sq"
      using enqueue_inv [OF Cons.prems, of 0 now] by (auto simp: kept_def)
    show ?thesis
      using that [of sc] that [of sq] that [of "add_log [FileEvent t e] st"] sc(1,2) same_but_kept [OF sc(3)] sq log
      by (cases e) simp_all
  qed
  have "t < length (dl_tasks st1)" using Cons.prems(2) st1(3) by (simp add: kept_def)
  from Cons.IH [OF st1(2) this] show ?case using st1(1,3) kept_trans by (simp del: not_None_eq) blast
qed simp

lemma apply_file_inv:
  assumes "dl_inv no_extra st" "t < length (dl_tasks st)" "tk_client (the_task t st) = FileClient m"
    "fl_finished l \<Longrightarrow> \<not> haveSentRequests (the_task t st) \<or> (\<exists>es'. es = CancelHook # es')"
  shows "\<exists>st'. apply_file now t l es st = Some st' \<and> dl_inv no_extra st' \<and> kept st st'"
proof (cases "\<exists>es'. es = CancelHook # es'")
  case True
  then obtain es' where es: "es = CancelHook # es'" by blast
  obtain st1 where st1: "cancelAllRequests now t st = Some st1" "dl_inv no_extra st1" "same_but t st st1"
    "\<not> haveSentRequests (the_task t st1)"
    using cancelAll_inv [OF assms(1,2) no_extra_nonneg] by blast
  have t1: "t < length (dl_tasks st1)" and m1: "tk_client (the_task t st1) = FileClient m"
    using assms(2,3) st1(3) by (simp_all add: same_but_def)
  have inv2: "dl_inv no_extra (set_file t l st1)" by (rule set_file_inv [OF st1(2) t1 m1]) (simp add: st1(4))
  have t2: "t < length (dl_tasks (set_file t l st1))" using t1 by (simp add: set_file_eq(2) [OF m1 t1])
  obtain st' where "run_effects now t es' (set_file t l st1) = Some st'" "dl_inv no_extra st'" "kept (set_file t l st1) st'"
    using run_effects_inv [OF inv2 t2] by blast
  moreover have "kept st st'"
    using kept_trans [OF same_but_kept [OF st1(3)] kept_trans [OF set_file_eq(3) [OF m1 t1] calculation(3)]] .
  ultimately show ?thesis using st1(1) by (simp add: es apply_file_def)
next
  case False
  then have eq: "apply_file now t l es st = run_effects now t es (set_file t l st)"
    by (auto simp: apply_file_def split: list.splits file_effect.splits)
  have inv2: "dl_inv no_extra (set_file t l st)"
    using assms(4) False by (intro set_file_inv [OF assms(1-3)]) blast
  have t2: "t < length (dl_tasks (set_file t l st))" using assms(2) by (simp add: set_file_eq(2) [OF assms(3,2)])
  show ?thesis
    unfolding eq using run_effects_inv [OF inv2 t2] kept_trans [OF set_file_eq(3) [OF assms(3,2)]] by blast
qed

lemma file_cancel_effects: "\<exists>es. snd (file_cancel fail l) = CancelHook # es" "fl_finished (fst (file_cancel fail l))"
  by (simp_all add: file_cancel_def Let_def)

lemma cancelOnFail_inv:
  assumes "dl_inv no_extra st" "t < length (dl_tasks st)"
  shows "\<exists>st'. cancelOnFail now t st = Some st' \<and> dl_inv no_extra st' \<and> kept st st'"
proof (cases "tk_client (the_task t st)")
  case (FileClient m)
  then show ?thesis
    using apply_file_inv [OF assms FileClient, of "fst (file_cancel OtherFailure (mt_file m))"
        "snd (file_cancel OtherFailure (mt_file m))" now] file_cancel_effects(1) [of OtherFailure "mt_file m"]
    by (simp add: cancelOnFail_def split_beta)
next
  case (StreamClient s)
  have "dl_inv no_extra (add_log [PartFailed t] st)" using assms(1) by (rule dl_inv_later) simp_all
  then show ?thesis using StreamClient by (simp add: cancelOnFail_def kept_def the_task_def)
qed

lemma write_result_part_cases:
  assumes "\<not> fl_finished l"
  obtains l' where "write_result_part env off buf l = Some (l', True, [])" "\<not> fl_finished l'"
  | l' es where "write_result_part env off buf l = Some (l', False, CancelHook # es)"
proof (cases "buf = []")
  case True
  then show ?thesis using that(1) [of l] assms by (simp add: write_result_part_def)
next
  case False
  show ?thesis
  proof (cases "fl_open l")
    case True
    define l1 where "l1 = (if off < int (length (fl_file l)) then l\<lparr> fl_skipped := fl_skipped l - int (length buf) \<rparr>
      else if int (length (fl_file l)) < off then l\<lparr> fl_skipped := fl_skipped l + (off - int (length (fl_file l))) \<rparr> else l)"
    have l1: "\<not> fl_finished l1" "write_result_part env off buf l = (if fe_write env
        then Some (l1\<lparr> fl_file := write_at (fe_junk env) (nat off) buf (fl_file l1) \<rparr>, True, [])
        else let (l, effects) = file_cancel FileWriteFailure l1 in Some (l, False, effects))"
      using assms False True by (simp_all add: l1_def write_result_part_def Let_def)
    show ?thesis
    proof (cases "fe_write env")
      case True
      then show ?thesis
        using that(1) [of "l1\<lparr> fl_file := write_at (fe_junk env) (nat off) buf (fl_file l1) \<rparr>"] l1 by simp
    next
      case False
      then show ?thesis using that(2) l1(2) by (simp add: file_cancel_def Let_def)
    qed
  next
    case closed: False
    have "\<exists>l'. write_result_part env off buf l = Some (l', True, []) \<and> fl_finished l' = fl_finished l"
      using assms False closed by (simp add: write_result_part_def Let_def)
    then show ?thesis using that(1) assms by auto
  qed
qed

lemma finalize_result_cases:
  assumes "\<not> fl_finished l"
  shows "\<exists>l' ok es. finalize_result env key l = Some (l', ok, es)"
  using assms by (cases "finalize_result env key l")
    (auto simp: finalize_result_def file_cancel_def Let_def split: if_splits)

lemma finalize_result_True:
  assumes "finalize_result env key l = Some (l', True, es)"
  shows "CancelHook \<notin> set es \<and> StartLoading \<notin> set es"
  using assms by (auto simp: finalize_result_def file_cancel_def Let_def split: if_splits)

lemma run_effects_log:
  "CancelHook \<notin> set es \<Longrightarrow> StartLoading \<notin> set es \<Longrightarrow>
    run_effects now t es st = Some (add_log (map (FileEvent t) es) st)"
proof (induction es arbitrary: st)
  case (Cons e es)
  then show ?case by (cases e) (simp_all add: add_log_def)
qed (simp add: add_log_def)

lemma apply_file_log:
  assumes "CancelHook \<notin> set es" "StartLoading \<notin> set es"
  shows "apply_file now t l es st = Some (add_log (map (FileEvent t) es) (set_file t l st))"
  using assms run_effects_log [OF assms] by (auto simp: apply_file_def split: list.splits file_effect.splits)

lemma feedPart_inv:
  assumes "dl_inv no_extra st" "t < length (dl_tasks st)" "\<not> client_done (tk_client (the_task t st))"
  shows "\<exists>ok st'. feedPart out now t off buf st = Some (ok, st') \<and> dl_inv no_extra st' \<and> kept st st'
    \<and> (ok \<longrightarrow> tk_unchecked (the_task t st') = tk_unchecked (the_task t st))"
proof (cases "tk_client (the_task t st)")
  case (StreamClient s)
  let ?st = "set_task t (\<lambda>k. k\<lparr> tk_client := StreamClient (stream_fed now off s) \<rparr>) st"
  have same: "sm_requested (stream_fed now off s) = sm_requested s" "sm_priority (stream_fed now off s) = sm_priority s"
    by (simp_all add: stream_fed_def Let_def split_beta)
  have "dl_inv no_extra ?st"
    by (rule client_inv_update [OF assms(1,2), where c = "StreamClient (stream_fed now off s)"])
      (use task_invD(5) [OF dl_invD(1) [OF assms(1,2)]] in
        \<open>simp_all add: client_inv_def fresh_offset_def client_done_def StreamClient same flip: the_task_def\<close>)
  then have "dl_inv no_extra (add_log [PartEvent t off buf] ?st)" by (rule dl_inv_later) simp_all
  moreover have "kept st (add_log [PartEvent t off buf] ?st)"
    using kept_set_task [of "\<lambda>k. k\<lparr> tk_client := StreamClient (stream_fed now off s) \<rparr>" t st]
    by (simp add: kept_def the_task_def)
  moreover have "tk_unchecked (the_task t (add_log [PartEvent t off buf] ?st)) = tk_unchecked (the_task t st)"
    using assms(2) by (simp add: the_task_def)
  ultimately show ?thesis using StreamClient by (auto simp: feedPart_def)
next
  case (FileClient m)
  have m: "\<not> fl_finished (mt_file m)" using assms(3) FileClient by (simp add: client_done_def)
  from m show ?thesis
  proof (cases rule: write_result_part_cases [where env = "ou_env out" and off = off and buf = buf])
    case (2 l es)
    obtain st' where "apply_file now t l (CancelHook # es) st = Some st'" "dl_inv no_extra st'" "kept st st'"
      using apply_file_inv [OF assms(1,2) FileClient] by blast
    then show ?thesis using 2 FileClient by (auto simp: feedPart_def)
  next
    case (1 l)
    define m1 where "m1 = mtp_fed buf (m\<lparr> mt_file := l \<rparr>)"
    have m1: "mt_file m1 = l" "mt_next_offset m1 = mt_next_offset m" by (simp_all add: m1_def mtp_fed_def)
    define st1 where "st1 = set_task t (\<lambda>k. k\<lparr> tk_client := FileClient m1 \<rparr>) (set_file t l st)"
    have tasks1: "dl_tasks st1 = (dl_tasks st)[t := (the_task t st)\<lparr> tk_client := FileClient m1 \<rparr>]"
      using assms(2) by (simp add: st1_def set_file_eq(2) [OF FileClient assms(2)])
    have inv1: "dl_inv no_extra st1"
      by (rule client_inv_update [OF assms(1,2), where c = "FileClient m1"])
        (use FileClient 1(2) in \<open>simp_all add: tasks1 client_inv_def fresh_offset_def client_done_def m1\<close>,
          simp_all add: st1_def set_file_def)
    have t1: "t < length (dl_tasks st1)" using assms(2) by (simp add: tasks1)
    have task1: "the_task t st1 = (the_task t st)\<lparr> tk_client := FileClient m1 \<rparr>"
      using assms(2) by (simp add: the_task_def tasks1)
    have "kept (set_file t l st) st1"
      unfolding st1_def by (rule kept_set_task) (simp add: set_file_eq(1) [OF FileClient assms(2)])
    then have kept1: "kept st st1" by (rule kept_trans [OF set_file_eq(3) [OF FileClient assms(2)]])
    have fed: "feedPart out now t off buf st = (if mtp_complete (haveSentRequests (the_task t st1)) m1
      then do {
        st \<leftarrow> dm_remove now t st1;
        (l, ok, es) \<leftarrow> finalize_result (ou_env out) (ou_has_key out) l;
        st \<leftarrow> apply_file now t l es st;
        Some (ok, st) }
      else Some (True, add_log [FileEvent t Progress] st1))"
      using 1(1) FileClient by (simp add: feedPart_def apply_file_def file_fed_def m1_def [symmetric] st1_def m1(1) Let_def)
    show ?thesis
    proof (cases "mtp_complete (haveSentRequests (the_task t st1)) m1")
      case False
      have "dl_inv no_extra (add_log [FileEvent t Progress] st1)" using inv1 by (rule dl_inv_later) simp_all
      moreover have "kept st (add_log [FileEvent t Progress] st1)" using kept1 by (simp add: kept_def the_task_def)
      moreover have "tk_unchecked (the_task t (add_log [FileEvent t Progress] st1)) = tk_unchecked (the_task t st1)"
        by (simp add: the_task_def)
      ultimately show ?thesis using fed False task1 by auto
    next
      case True
      then have idle: "\<not> haveSentRequests (the_task t st1)" by (simp add: mtp_complete_def)
      obtain st2 where st2: "dm_remove now t st1 = Some st2" "dl_inv no_extra st2" "the_task t st2 = the_task t st1"
        "length (dl_tasks st2) = length (dl_tasks st1)" "\<forall>u. tk_dc (the_task u st2) = tk_dc (the_task u st1)"
        using remove_inv [OF inv1 idle] by blast
      obtain l2 ok es where fin: "finalize_result (ou_env out) (ou_has_key out) l = Some (l2, ok, es)"
        using finalize_result_cases [OF 1(2)] by blast
      have "tk_client (the_task t st2) = FileClient m1" by (simp add: st2(3) task1)
      moreover have t2: "t < length (dl_tasks st2)" using t1 st2(4) by simp
      ultimately obtain st' where st': "apply_file now t l2 es st2 = Some st'" "dl_inv no_extra st'" "kept st2 st'"
        using apply_file_inv [OF st2(2), of t m1 l2 es now] st2(3) idle by auto
      have "tk_unchecked (the_task t st') = tk_unchecked (the_task t st)" if ok
      proof -
        have "st' = add_log (map (FileEvent t) es) (set_file t l2 st2)"
          using st'(1) finalize_result_True fin that apply_file_log [of es now t l2 st2] by simp
        then have "the_task t st' = the_task t (set_file t l2 st2)" by (simp add: the_task_def)
        then show ?thesis
          using set_file_eq(1) [OF \<open>tk_client (the_task t st2) = FileClient m1\<close> t2] by (simp add: st2(3) task1)
      qed
      moreover have "kept st1 st2" using st2(4,5) by (simp add: kept_def)
      ultimately show ?thesis
        using fed True st2(1) fin st' kept_trans [OF kept1 kept_trans] by auto
    qed
  qed
qed

section \<open>Answers\<close>

lemma task_sessions:
  assumes "dl_inv ex st" "t < length (dl_tasks st)" "haveSentRequests (the_task t st)"
  obtains b where "dl_balance st (tk_dc (the_task t st)) = Some b" "sessions_below (length (dc_sessions b)) (the_task t st)"
  using task_below [OF assms(1,2)] assms(3) that by (auto simp: sessions_below_0 haveSentRequests_def split: option.splits)

lemma send_api_inv:
  assumes "dl_inv ex st"
  shows "dl_inv ex (snd (send_api kind dc rd st))" "the_task u (snd (send_api kind dc rd st)) = the_task u st"
    "dl_tasks (snd (send_api kind dc rd st)) = dl_tasks st" "dl_balance (snd (send_api kind dc rd st)) = dl_balance st"
    "queue_of c (snd (send_api kind dc rd st)) = queue_of c st"
    "dl_last_id (snd (send_api kind dc rd st)) = Suc (dl_last_id st)"
  by (rule dl_inv_later [OF assms]) (simp_all add: send_api_def Let_def the_task_def queue_of_def add_log_def)

lemma requestMore_inv:
  assumes "dl_inv no_extra st" "t < length (dl_tasks st)"
  shows "\<exists>st'. requestMoreCdnFileHashes now t st = Some st' \<and> dl_inv no_extra st' \<and> kept st st'"
proof (cases "tk_hash_request (the_task t st) \<noteq> 0 \<or> tk_unchecked (the_task t st) = []")
  case True
  then show ?thesis using assms(1) by (simp add: requestMoreCdnFileHashes_def Let_def)
next
  case False
  let ?k = "the_task t st"
  obtain off rd buf us where us: "tk_unchecked ?k = (off, rd, buf) # us"
    using False by (metis list.exhaust prod_cases3)
  note task = dl_invD(1) [OF assms]
  have sent: "haveSentRequests ?k" using us by (simp add: haveSentRequests_def)
  obtain b where b: "dl_balance st (tk_dc ?k) = Some b" "sessions_below (length (dc_sessions b)) ?k"
    using task_sessions [OF assms sent] by blast
  have rd: "rq_offset rd = off" "rq_session rd < length (dc_sessions b)"
    using task_invD(11) [OF task] b(2) by (simp_all add: us sessions_below_def)
  define st1 where "st1 = snd (send_api GetCdnFileHashes (tk_dc ?k) rd st)"
  note api = send_api_inv [OF assms(1), where kind = GetCdnFileHashes and dc = "tk_dc ?k" and rd = rd, folded st1_def]
  let ?i = "Suc (dl_last_id st)"
  define st2 where "st2 = set_task t (\<lambda>k. k\<lparr> tk_hash_request := ?i \<rparr>) st1"
  have task2: "the_task t st2 = ?k\<lparr> tk_hash_request := ?i \<rparr>"
    using assms(2) by (simp add: st2_def set_task_nth api)
  have offs: "map_of (tk_by_offset ?k) o1 = None" if "map_of (tk_unchecked ?k) o1 \<noteq> None" for o1
  proof (rule ccontr)
    assume "map_of (tk_by_offset ?k) o1 \<noteq> None"
    then have "map_of (tk_by_offset ?k) o1 = Some 0" using task_invD(8) [OF task that] False by auto
    then have "map_of (tk_sent ?k) 0 \<noteq> None" using indices_agreeD(1) [OF task_invD(4) [OF task]] by auto
    then show False using task_invD(6) [OF task, of 0] by simp
  qed
  have "task_inv ?i ?k" using task_inv_mono [OF task] by simp
  then have "task_inv ?i (?k\<lparr> tk_hash_request := ?i \<rparr>)"
    using offs unfolding task_inv_def by (simp add: haveSentRequests_def)
  moreover have "case dl_balance st1 (tk_dc (?k\<lparr> tk_hash_request := ?i \<rparr>)) of None \<Rightarrow> sessions_below 0 (?k\<lparr> tk_hash_request := ?i \<rparr>)
      | Some b \<Rightarrow> sessions_below (length (dc_sessions b)) (?k\<lparr> tk_hash_request := ?i \<rparr>)"
    using b by (simp add: api sessions_below_def)
  ultimately have inv2: "dl_inv no_extra st2"
    using assms(2) by (intro dl_inv_task [OF api(1), where k' = "?k\<lparr> tk_hash_request := ?i \<rparr>"])
      (simp_all add: api st2_def haveSentRequests_def the_task_def)
  have pre: "t < length (dl_tasks st2)" "dl_balance st2 (tk_dc ?k) = Some b" "dl_last_id st2 = ?i"
    "t \<in> en_task ` set (queue_of (tk_dc ?k) st2)"
  proof -
    show "t < length (dl_tasks st2)" "dl_balance st2 (tk_dc ?k) = Some b" "dl_last_id st2 = ?i"
      using assms(2) b(1) by (simp_all add: st2_def api)
    have "queue_of (tk_dc ?k) st2 = queue_of (tk_dc ?k) st"
      using api(5) [where c = "tk_dc ?k"] by (simp add: st2_def queue_of_def)
    then show "t \<in> en_task ` set (queue_of (tk_dc ?k) st2)" using dl_invD(4) [OF assms sent] by simp
  qed
  have fresh: "\<not> fresh_offset off (tk_client ?k)" using task_invD(7) [OF task, of off] by (simp add: us)
  have run: "\<not> client_done (tk_client ?k)" using task_invD(10) [OF task] sent by blast
  have new: "map_of (tk_sent ?k) ?i = None" using task_invD(6) [OF task, of ?i] by (cases "map_of (tk_sent ?k) ?i") auto
  obtain st' where "placeSentRequest now t ?i rd st2 = Some st'" "dl_inv no_extra st'" "same_but t st2 st'"
    using place_inv [OF inv2 pre(1), of b rd ?i now] pre(2-4) rd fresh run new offs [of off]
    by (auto simp: task2 us)
  moreover have "kept st st2"
    using kept_set_task [of "\<lambda>k. k\<lparr> tk_hash_request := ?i \<rparr>" t st1] api(2,3) by (simp add: st2_def kept_def)
  moreover have "requestMoreCdnFileHashes now t st = placeSentRequest now t ?i rd st2"
    using False api(6) by (simp add: requestMoreCdnFileHashes_def us Let_def split_beta st2_def st1_def)
  ultimately show ?thesis using kept_trans same_but_kept by metis
qed

text \<open>What is known of a request that was finished: it may be made again.\<close>

definition remake :: "nat \<Rightarrow> request_data \<Rightarrow> download \<Rightarrow> bool" where
  "remake t rd st \<longleftrightarrow> (\<exists>b. dl_balance st (tk_dc (the_task t st)) = Some b \<and> rq_session rd < length (dc_sessions b))
     \<and> map_of (tk_by_offset (the_task t st)) (rq_offset rd) = None
     \<and> \<not> fresh_offset (rq_offset rd) (tk_client (the_task t st)) \<and> \<not> client_done (tk_client (the_task t st))
     \<and> t \<in> en_task ` set (queue_of (tk_dc (the_task t st)) st)"

lemma make_remake:
  assumes "dl_inv no_extra st" "t < length (dl_tasks st)" "remake t rd st"
    "map_of (tk_unchecked (the_task t st)) (rq_offset rd) = None"
  shows "\<exists>st' rd' i. makeRequest now t rd st = Some st' \<and> dl_inv no_extra st' \<and> same_but t st st'
    \<and> the_task t st' = put_request i rd' (the_task t st) \<and> rq_offset rd' = rq_offset rd
    \<and> (\<forall>rd2. rq_offset rd2 \<noteq> rq_offset rd \<longrightarrow> remake t rd2 st \<longrightarrow> remake t rd2 st')"
proof -
  obtain b where b: "dl_balance st (tk_dc (the_task t st)) = Some b" "rq_session rd < length (dc_sessions b)"
    using assms(3) by (auto simp: remake_def)
  obtain st' rd' i where st': "makeRequest now t rd st = Some st'" "dl_inv no_extra st'" "same_but t st st'"
    "rq_offset rd' = rq_offset rd" "the_task t st' = put_request i rd' (the_task t st)"
    "dl_balance st' (tk_dc (the_task t st)) = Some (bump (rq_session rd) kDownloadPartSize b)"
    using make_inv [OF assms(1,2) b, of now] assms(3,4) by (auto simp: remake_def)
  have "map_of (tk_by_offset (the_task t st')) = (map_of (tk_by_offset (the_task t st)))(rq_offset rd \<mapsto> i)"
    using fm_insert_map [OF task_invD(2) [OF dl_invD(1) [OF assms(1,2)]]] assms(3) st'(4)
    by (simp add: st'(5) put_request_def remake_def)
  then have "remake t rd2 st'" if "rq_offset rd2 \<noteq> rq_offset rd" "remake t rd2 st" for rd2
    using that b st'(3,6) by (auto simp: remake_def same_but_def queue_of_def)
  then show ?thesis using st' by blast
qed

lemma finish_remake:
  assumes "dl_inv no_extra st" "t < length (dl_tasks st)" "map_of (tk_sent (the_task t st)) i = Some rd"
  shows "\<exists>st'. finishSentRequest now t i reason st = Some (rd, st') \<and> dl_inv no_extra st' \<and> same_but t st st'
    \<and> the_task t st' = take_request i rd (the_task t st) \<and> remake t rd st'
    \<and> (\<forall>rd2. remake t rd2 st \<longrightarrow> remake t rd2 st')
    \<and> (i \<noteq> tk_hash_request (the_task t st) \<longrightarrow> map_of (tk_unchecked (the_task t st')) (rq_offset rd) = None)"
proof -
  let ?k = "the_task t st"
  note task = dl_invD(1) [OF assms(1,2)]
  obtain b where b: "dl_balance st (tk_dc ?k) = Some b" "rq_session rd < length (dc_sessions b)"
    using requests_have_balance [OF assms] by blast
  obtain st' b' where st': "finishSentRequest now t i reason st = Some (rd, st')" "dl_inv no_extra st'" "same_but t st st'"
    "the_task t st' = take_request i rd ?k" "dl_balance st' (tk_dc ?k) = Some b'"
    "length (dc_sessions b) \<le> length (dc_sessions b')"
    using finish_inv [OF assms no_extra_nonneg _ b(1), of reason now] no_extra_def by metis
  have sent: "haveSentRequests ?k" using assms(3) by (auto simp: haveSentRequests_def)
  have off: "map_of (tk_by_offset ?k) (rq_offset rd) = Some i" using indices_agreeD(2) [OF task_invD(4) [OF task] assms(3)] .
  have index: "map_of (tk_by_offset (the_task t st')) = (map_of (tk_by_offset ?k))(rq_offset rd := None)"
    using fm_remove_map [OF task_invD(2) [OF task]] by (simp add: st'(4) take_request_def)
  have same: "tk_client (the_task t st') = tk_client ?k" "tk_dc (the_task t st') = tk_dc ?k"
    "queue_of c st' = queue_of c st" "tk_unchecked (the_task t st') = tk_unchecked ?k" for c
    using st'(3) by (simp_all add: same_but_def queue_of_def) (simp add: st'(4) take_request_def)
  have "remake t rd st'"
    using b st'(5,6) index task_invD(7) [OF task, of "rq_offset rd"] task_invD(10) [OF task] sent off dl_invD(4) [OF assms(1,2) sent]
    by (auto simp: remake_def same)
  moreover have "remake t rd2 st'" if "remake t rd2 st" for rd2
    using that b st'(5,6) unfolding remake_def same index by auto
  moreover have "map_of (tk_unchecked (the_task t st')) (rq_offset rd) = None" if "i \<noteq> tk_hash_request ?k"
    using task_invD(8) [OF task, of "rq_offset rd"] off that by (cases "map_of (tk_unchecked ?k) (rq_offset rd)") (auto simp: same)
  ultimately show ?thesis using st'(1-4) by blast
qed

lemma logged_inv: "dl_inv ex st \<Longrightarrow> dl_inv ex (add_log es st)" "the_task u (add_log es st) = the_task u st"
  "same_but t st (add_log es st)" "remake t rd (add_log es st) = remake t rd st"
  by (rule dl_inv_later) (simp_all add: the_task_def same_but_def remake_def queue_of_def, simp_all add: add_log_def)

lemma finish_all_inv:
  assumes "dl_inv no_extra st" "t < length (dl_tasks st)" "map fst (tk_sent (the_task t st)) = is"
  shows "\<exists>st'. finish_all now t is st = Some (map snd (tk_sent (the_task t st)), st') \<and> dl_inv no_extra st'
    \<and> same_but t st st' \<and> tk_unchecked (the_task t st') = tk_unchecked (the_task t st)
    \<and> (\<forall>rd\<in>snd ` set (tk_sent (the_task t st)). remake t rd st')
    \<and> (\<forall>rd. remake t rd st \<longrightarrow> remake t rd st')"
  using assms
proof (induction "is" arbitrary: st)
  case (Cons i "is")
  obtain rd xs where sent: "tk_sent (the_task t st) = (i, rd) # xs" "map fst xs = is"
    using Cons.prems(3) by (cases "tk_sent (the_task t st)") auto
  let ?st = "add_log [Cancelled i] st"
  have inv: "dl_inv no_extra ?st" and t: "t < length (dl_tasks ?st)"
    and i: "map_of (tk_sent (the_task t ?st)) i = Some rd"
    using Cons.prems(1,2) sent by (simp_all add: logged_inv)
  obtain st1 where st1: "finishSentRequest now t i Redirect ?st = Some (rd, st1)" "dl_inv no_extra st1"
    "same_but t ?st st1" "the_task t st1 = take_request i rd (the_task t ?st)" "remake t rd st1"
    "\<forall>rd2. remake t rd2 ?st \<longrightarrow> remake t rd2 st1"
    using finish_remake [OF inv t i] by blast
  have same: "same_but t st st1" using logged_inv(3) st1(3) by (rule same_but_trans)
  have "fm_inv (tk_sent (the_task t st))" using dl_invD(1) [OF Cons.prems(1,2)] by (rule task_invD(1))
  then have xs: "tk_sent (the_task t st1) = xs"
    using take_first_request [of i rd xs] sent by (simp add: st1(4) take_request_def logged_inv)
  have un: "tk_unchecked (the_task t st1) = tk_unchecked (the_task t st)"
    by (simp add: st1(4) take_request_def logged_inv)
  have t1: "t < length (dl_tasks st1)" using same Cons.prems(2) by (simp add: same_but_def)
  obtain st' where st': "finish_all now t is st1 = Some (map snd xs, st')" "dl_inv no_extra st'" "same_but t st1 st'"
    "tk_unchecked (the_task t st') = tk_unchecked (the_task t st1)"
    "\<forall>rd\<in>snd ` set xs. remake t rd st'" "\<forall>rd. remake t rd st1 \<longrightarrow> remake t rd st'"
    using Cons.IH [OF st1(2) t1] xs sent(2) by auto
  have "same_but t st st'" using same st'(3) by (rule same_but_trans)
  then show ?case using st1 st' un sent by (auto simp: logged_inv)
qed auto

lemma make_all_inv:
  assumes "dl_inv no_extra st" "t < length (dl_tasks st)" "distinct (map rq_offset rds)"
    "\<forall>rd\<in>set rds. remake t rd st" "tk_unchecked (the_task t st) = []"
  shows "\<exists>st'. make_all now t rds st = Some st' \<and> dl_inv no_extra st' \<and> same_but t st st'
    \<and> tk_unchecked (the_task t st') = []
    \<and> (\<forall>rd. rq_offset rd \<notin> rq_offset ` set rds \<longrightarrow> remake t rd st \<longrightarrow> remake t rd st')"
  using assms
proof (induction rds arbitrary: st)
  case (Cons rd rds)
  have un: "map_of (tk_unchecked (the_task t st)) (rq_offset rd) = None" using Cons.prems(5) by simp
  obtain st1 rd' i where st1: "makeRequest now t rd st = Some st1" "dl_inv no_extra st1" "same_but t st st1"
    "the_task t st1 = put_request i rd' (the_task t st)"
    "\<forall>rd2. rq_offset rd2 \<noteq> rq_offset rd \<longrightarrow> remake t rd2 st \<longrightarrow> remake t rd2 st1"
    using make_remake [OF Cons.prems(1,2) _ un] Cons.prems(4) by (metis list.set_intros(1))
  have t1: "t < length (dl_tasks st1)" using st1(3) Cons.prems(2) by (simp add: same_but_def)
  have un1: "tk_unchecked (the_task t st1) = []" using Cons.prems(5) by (simp add: st1(4) put_request_def)
  have "rq_offset rd2 \<noteq> rq_offset rd" if "rd2 \<in> set rds" for rd2
    using that Cons.prems(3) by (metis distinct.simps(2) image_eqI list.set_map list.simps(9))
  then have "\<forall>rd2\<in>set rds. remake t rd2 st1" using st1(5) Cons.prems(4) by simp
  from Cons.IH [OF st1(2) t1 _ this un1] Cons.prems(3) obtain st' where st': "make_all now t rds st1 = Some st'"
    "dl_inv no_extra st'" "same_but t st1 st'" "tk_unchecked (the_task t st') = []"
    "\<forall>rd. rq_offset rd \<notin> rq_offset ` set rds \<longrightarrow> remake t rd st1 \<longrightarrow> remake t rd st'" by auto
  have "same_but t st st'" using st1(3) st'(3) by (rule same_but_trans)
  then show ?case using st1(1,5) st' by auto
qed auto

lemma sent_offsets_distinct:
  assumes "task_inv n k"
  shows "distinct (map rq_offset (map snd (tk_sent k)))"
proof -
  note inv = task_invD [OF assms]
  have keys: "distinct (map fst (tk_sent k))" using fm_inv_distinct [OF inv(1)] .
  have "inj_on (\<lambda>p. rq_offset (snd p)) (set (tk_sent k))"
  proof (rule inj_onI)
    fix p q assume p: "p \<in> set (tk_sent k)" "q \<in> set (tk_sent k)" "rq_offset (snd p) = rq_offset (snd q)"
    then have "map_of (tk_sent k) (fst p) = Some (snd p)" "map_of (tk_sent k) (fst q) = Some (snd q)"
      using keys by simp_all
    then show "p = q"
      using indices_agreeD(2) [OF inv(4)] p(3) by (metis option.inject prod.collapse)
  qed
  then show ?thesis using keys by (simp add: distinct_map comp_def)
qed

lemma add_hashes_inv:
  assumes "dl_inv no_extra st" "t < length (dl_tasks st)"
  shows "dl_inv no_extra (add_hashes t hs st)"
    "the_task t (add_hashes t hs st) = (the_task t st)\<lparr> tk_cdn_hashes := addCdnHashes hs (tk_cdn_hashes (the_task t st)) \<rparr>"
    "kept st (add_hashes t hs st)" "length (dl_tasks (add_hashes t hs st)) = length (dl_tasks st)"
    "remake t rd (add_hashes t hs st) = remake t rd st"
proof -
  let ?k = "(the_task t st)\<lparr> tk_cdn_hashes := addCdnHashes hs (tk_cdn_hashes (the_task t st)) \<rparr>"
  show k: "the_task t (add_hashes t hs st) = ?k" "length (dl_tasks (add_hashes t hs st)) = length (dl_tasks st)"
    using assms(2) by (simp_all add: add_hashes_def set_task_nth)
  show "kept st (add_hashes t hs st)" unfolding add_hashes_def by (rule kept_set_task) simp
  have "task_inv (dl_last_id st) ?k"
    using dl_invD(1) [OF assms] unfolding task_inv_def by (simp add: haveSentRequests_def)
  moreover have below: "sessions_below n ?k = sessions_below n (the_task t st)" for n by (simp add: sessions_below_def)
  ultimately show "dl_inv no_extra (add_hashes t hs st)"
    using task_below [OF assms] by (intro dl_inv_task [OF assms, where k' = ?k]) (simp_all add: add_hashes_def haveSentRequests_def the_task_def cong: option.case_cong)
  show "remake t rd (add_hashes t hs st) = remake t rd st"
    unfolding remake_def k by (simp add: add_hashes_def queue_of_def)
qed

lemma changeCDN_inv:
  assumes "dl_inv no_extra st" "t < length (dl_tasks st)" "remake t rd st" "tk_unchecked (the_task t st) = []"
  shows "\<exists>st'. changeCDNParams now t rd dc token key iv hs st = Some st' \<and> dl_inv no_extra st' \<and> kept st st'"
proof (cases "dc \<noteq> 0 \<and> (length key \<noteq> kKeySize \<or> length iv \<noteq> kIvecSize)")
  case True
  then show ?thesis using cancelOnFail_inv [OF assms(1,2)] by (simp add: changeCDNParams_def)
next
  case False
  let ?k = "the_task t st"
  let ?f = "\<lambda>k. k\<lparr> tk_cdn_dc := dc, tk_cdn_token := token, tk_cdn_key := key, tk_cdn_iv := iv \<rparr>"
  define st1 where "st1 = set_task t ?f st"
  have task1: "the_task t st1 = ?f ?k" "length (dl_tasks st1) = length (dl_tasks st)"
    using assms(2) by (simp_all add: st1_def set_task_nth)
  have "task_inv (dl_last_id st) (?f ?k)"
    using dl_invD(1) [OF assms(1,2)] False assms(4) unfolding task_inv_def by (auto simp: haveSentRequests_def)
  moreover have below: "sessions_below n (?f ?k) = sessions_below n ?k" for n by (simp add: sessions_below_def)
  ultimately have inv1: "dl_inv no_extra st1"
    using task_below [OF assms(1,2)]
    by (intro dl_inv_task [OF assms(1,2), where k' = "?f ?k"])
      (simp_all add: st1_def haveSentRequests_def the_task_def cong: option.case_cong)
  have rem1: "remake t rd st1"
    using assms(3) task1 by (simp add: remake_def) (simp add: st1_def queue_of_def)
  have kept1: "kept st st1" unfolding st1_def by (rule kept_set_task) simp
  define st2 where "st2 = add_hashes t hs st1"
  have t1: "t < length (dl_tasks st1)" using assms(2) task1(2) by simp
  note hashes = add_hashes_inv [OF inv1 t1, where hs = hs, folded st2_def]
  have t2: "t < length (dl_tasks st2)" using t1 hashes(4) by simp
  have un2: "tk_unchecked (the_task t st2) = []" using assms(4) by (simp add: hashes(2) task1)
  have rem2: "remake t rd st2" using hashes(5) rem1 by simp
  have off: "rq_offset rd \<notin> rq_offset ` snd ` set (tk_sent (the_task t st2))"
  proof
    assume "rq_offset rd \<in> rq_offset ` snd ` set (tk_sent (the_task t st2))"
    then obtain i rd2 where "(i, rd2) \<in> set (tk_sent (the_task t st2))" "rq_offset rd2 = rq_offset rd" by auto
    moreover note inv2 = dl_invD(1) [OF hashes(1) t2]
    ultimately have "map_of (tk_by_offset (the_task t st2)) (rq_offset rd) = Some i"
      using indices_agreeD(2) [OF task_invD(4) [OF inv2], of i rd2] fm_inv_distinct [OF task_invD(1) [OF inv2]] by simp
    then show False using rem2 by (simp add: remake_def)
  qed
  define resend where "resend \<longleftrightarrow> (tk_cdn_dc ?k \<noteq> dc \<or> tk_cdn_token ?k \<noteq> token \<or> tk_cdn_key ?k \<noteq> key \<or> tk_cdn_iv ?k \<noteq> iv)"
  have eq: "changeCDNParams now t rd dc token key iv hs st = do {
      st \<leftarrow> (if resend \<and> tk_sent (the_task t st2) \<noteq> []
        then do {
          (rds, st) \<leftarrow> finish_all now t (map fst (tk_sent (the_task t st2))) st2;
          make_all now t rds st }
        else Some st2);
      makeRequest now t rd st }"
    unfolding changeCDNParams_def if_not_P [OF False] by (simp only: Let_def st2_def st1_def resend_def)
  obtain st3 where st3: "(if resend \<and> tk_sent (the_task t st2) \<noteq> []
      then do {
        (rds, st) \<leftarrow> finish_all now t (map fst (tk_sent (the_task t st2))) st2;
        make_all now t rds st }
      else Some st2) = Some st3" "dl_inv no_extra st3" "same_but t st2 st3" "remake t rd st3"
    "tk_unchecked (the_task t st3) = []"
  proof (cases "resend \<and> tk_sent (the_task t st2) \<noteq> []")
    case True
    obtain sf where sf: "finish_all now t (map fst (tk_sent (the_task t st2))) st2 = Some (map snd (tk_sent (the_task t st2)), sf)"
      "dl_inv no_extra sf" "same_but t st2 sf" "tk_unchecked (the_task t sf) = []"
      "\<forall>rd\<in>snd ` set (tk_sent (the_task t st2)). remake t rd sf" "remake t rd sf"
      using finish_all_inv [OF hashes(1) t2 refl, of now, unfolded un2] rem2 by blast
    have "t < length (dl_tasks sf)" using sf(3) t2 by (simp add: same_but_def)
    from make_all_inv [OF sf(2) this sent_offsets_distinct [OF dl_invD(1) [OF hashes(1) t2]] _ sf(4), of now] sf(5)
    obtain sm where sm: "make_all now t (map snd (tk_sent (the_task t st2))) sf = Some sm" "dl_inv no_extra sm"
      "same_but t sf sm" "tk_unchecked (the_task t sm) = []"
      "\<forall>rd. rq_offset rd \<notin> rq_offset ` set (map snd (tk_sent (the_task t st2))) \<longrightarrow> remake t rd sf \<longrightarrow> remake t rd sm"
      by auto
    have "remake t rd sm" using sm(5) off sf(6) by simp
    then show ?thesis
      using that [of sm] True sf(1) sm(1,2,4) same_but_trans [OF sf(3) sm(3)] by simp
  next
    case False
    then show ?thesis using that [of st2] hashes(1) rem2 un2 by simp
  qed
  have "t < length (dl_tasks st3)" using st3(3) t2 by (simp add: same_but_def)
  from make_remake [OF st3(2) this st3(4)] st3(5) obtain st' where
    "makeRequest now t rd st3 = Some st'" "dl_inv no_extra st'" "same_but t st3 st'" by auto
  moreover have "kept st st'"
    using kept1 kept_trans [OF kept_trans [OF hashes(3) same_but_kept [OF st3(3)]] same_but_kept [OF calculation(3)]]
    by (rule kept_trans)
  ultimately show ?thesis unfolding eq st3(1) by simp
qed

lemma checkSendNext_kept:
  assumes "dl_inv no_extra st"
  shows "\<exists>st'. checkSendNext now dc st = Some st' \<and> dl_inv no_extra st' \<and> kept st st'"
  using checkSendNext_inv [OF assms, of now dc] by (auto simp: queues_kept_def kept_def)

lemma normalPartLoaded_inv:
  assumes "dl_inv no_extra st" "t < length (dl_tasks st)" "map_of (tk_sent (the_task t st)) i = Some rd"
    "tk_cdn_dc (the_task t st) = 0"
  shows "\<exists>st'. normalPartLoaded out now t result i st = Some st' \<and> dl_inv no_extra st' \<and> kept st st'"
proof -
  obtain st1 where st1: "finishSentRequest now t i Success st = Some (rd, st1)" "dl_inv no_extra st1" "same_but t st st1"
    "the_task t st1 = take_request i rd (the_task t st)" "remake t rd st1"
    using finish_remake [OF assms(1-3)] by blast
  have t1: "t < length (dl_tasks st1)" using st1(3) assms(2) by (simp add: same_but_def)
  have un: "tk_unchecked (the_task t st1) = []"
    using task_invD(12) [OF dl_invD(1) [OF assms(1,2)] assms(4)] by (simp add: st1(4) take_request_def)
  have run: "\<not> client_done (tk_client (the_task t st1))" using st1(5) by (simp add: remake_def)
  obtain st2 where st2: "(case result of
         CdnRedirect cdn token key iv hashes \<Rightarrow> changeCDNParams now t rd cdn token key iv hashes st1
       | FileBytes data \<Rightarrow> do { (_, st) \<leftarrow> feedPart out now t (rq_offset rd) data st1; Some st }) = Some st2"
    "dl_inv no_extra st2" "kept st1 st2"
  proof (cases result)
    case (FileBytes data)
    then show ?thesis using that feedPart_inv [OF st1(2) t1 run, of out now "rq_offset rd" data] by auto
  next
    case (CdnRedirect cdn token key iv hs)
    then show ?thesis using that changeCDN_inv [OF st1(2) t1 st1(5) un] by fastforce
  qed
  obtain st' where st': "checkSendNext now (tk_dc (the_task t st1)) st2 = Some st'" "dl_inv no_extra st'" "kept st2 st'"
    using checkSendNext_kept [OF st2(2)] by blast
  have "normalPartLoaded out now t result i st = Some st'"
    unfolding normalPartLoaded_def st1(1) bind.bind_lunit prod.case Let_def st2(1) st'(1) ..
  moreover have "kept st st'" using kept_trans [OF same_but_kept [OF st1(3)] kept_trans [OF st2(3) st'(3)]] .
  ultimately show ?thesis using st'(2) by blast
qed

lemma setWebFileSize_inv:
  assumes "dl_inv no_extra st" "t < length (dl_tasks st)" "\<not> client_done (tk_client (the_task t st))"
  shows "\<exists>ok st'. setWebFileSizeHook now t n st = Some (ok, st') \<and> dl_inv no_extra st' \<and> kept st st'
    \<and> (ok \<longrightarrow> \<not> client_done (tk_client (the_task t st')))"
proof (cases "tk_client (the_task t st)")
  case (StreamClient s)
  then show ?thesis using assms by (auto simp: setWebFileSizeHook_def)
next
  case (FileClient m)
  show ?thesis
  proof (cases "mtp_set_web_size n m")
    case None
    then show ?thesis using cancelOnFail_inv [OF assms(1,2), of now] FileClient by (auto simp: setWebFileSizeHook_def)
  next
    case (Some m')
    then have m': "fl_finished (mt_file m') = fl_finished (mt_file m)" "mt_next_offset m' = mt_next_offset m"
      by (auto simp: mtp_set_web_size_def Let_def split: if_splits)
    let ?st = "set_task t (\<lambda>k. k\<lparr> tk_client := FileClient m' \<rparr>) st"
    have "dl_inv no_extra ?st"
      by (rule client_inv_update [OF assms(1,2), where c = "FileClient m'"])
        (use assms(3) FileClient m' in \<open>simp_all add: client_inv_def fresh_offset_def client_done_def flip: the_task_def\<close>)
    moreover have "kept st ?st" by (rule kept_set_task) simp
    moreover have "\<not> client_done (tk_client (the_task t ?st))"
      using assms(2,3) FileClient m' by (simp add: set_task_nth client_done_def)
    ultimately show ?thesis using Some FileClient by (auto simp: setWebFileSizeHook_def)
  qed
qed

lemma webPartLoaded_inv:
  assumes "dl_inv no_extra st" "t < length (dl_tasks st)" "map_of (tk_sent (the_task t st)) i = Some rd"
  shows "\<exists>st'. webPartLoaded out now t result i st = Some st' \<and> dl_inv no_extra st' \<and> kept st st'"
proof -
  obtain n data where r: "result = WebBytes n data" by (cases result)
  obtain st1 where st1: "finishSentRequest now t i Success st = Some (rd, st1)" "dl_inv no_extra st1" "same_but t st st1"
    "remake t rd st1"
    using finish_remake [OF assms] by blast
  have t1: "t < length (dl_tasks st1)" using st1(3) assms(2) by (simp add: same_but_def)
  have run: "\<not> client_done (tk_client (the_task t st1))" using st1(4) by (simp add: remake_def)
  obtain ok st2 where st2: "setWebFileSizeHook now t n st1 = Some (ok, st2)" "dl_inv no_extra st2" "kept st1 st2"
    "ok \<longrightarrow> \<not> client_done (tk_client (the_task t st2))"
    using setWebFileSize_inv [OF st1(2) t1 run] by blast
  have t2: "t < length (dl_tasks st2)" using st2(3) t1 by (simp add: kept_def)
  obtain st3 where st3: "(if ok then do { (_, st) \<leftarrow> feedPart out now t (rq_offset rd) data st2; Some st } else Some st2) = Some st3"
    "dl_inv no_extra st3" "kept st2 st3"
  proof (cases ok)
    case True
    then show ?thesis using that feedPart_inv [OF st2(2) t2, of out now "rq_offset rd" data] st2(4) by auto
  qed (use that st2(2) in auto)
  obtain st' where st': "checkSendNext now (tk_dc (the_task t st1)) st3 = Some st'" "dl_inv no_extra st'" "kept st3 st'"
    using checkSendNext_kept [OF st3(2)] by blast
  have "webPartLoaded out now t result i st = Some st'"
    using st3(1) st'(1) by (simp add: webPartLoaded_def st1(1) r st2(1) Let_def)
  moreover have "kept st st'"
    using kept_trans [OF same_but_kept [OF st1(3)] kept_trans [OF st2(3) kept_trans [OF st3(3) st'(3)]]] .
  ultimately show ?thesis using st'(2) by blast
qed

lemma partFailed_inv:
  assumes "dl_inv no_extra st" "t < length (dl_tasks st)"
  shows "\<exists>handled st'. partFailed now t error st = Some (handled, st') \<and> dl_inv no_extra st' \<and> kept st st'"
  using cancelOnFail_inv [OF assms, of now] assms(1) by (auto simp: partFailed_def)

lemma normalPartFailed_inv:
  assumes "dl_inv no_extra st" "t < length (dl_tasks st)"
  shows "\<exists>handled st'. normalPartFailed now t ref error i st = Some (handled, st') \<and> dl_inv no_extra st' \<and> kept st st'"
  using partFailed_inv [OF assms, of now error] logged_inv(1) [OF assms(1)] assms(1)
  by (auto simp: normalPartFailed_def kept_def logged_inv)

lemma remade_inv:
  assumes "dl_inv no_extra st" "t < length (dl_tasks st)" "map_of (tk_sent (the_task t st)) i = Some rd"
    "i \<noteq> tk_hash_request (the_task t st)"
  shows "\<exists>st'. do { (rd, st) \<leftarrow> finishSentRequest now t i Redirect st; makeRequest now t rd (add_hashes t hs st) } = Some st'
      \<and> dl_inv no_extra st' \<and> kept st st'"
    "\<exists>st'. do { (rd, st) \<leftarrow> finishSentRequest now t i Redirect st; makeRequest now t rd st } = Some st'
      \<and> dl_inv no_extra st' \<and> kept st st'"
proof -
  obtain st1 where st1: "finishSentRequest now t i Redirect st = Some (rd, st1)" "dl_inv no_extra st1" "same_but t st st1"
    "remake t rd st1" "map_of (tk_unchecked (the_task t st1)) (rq_offset rd) = None"
    using finish_remake [OF assms(1-3)] assms(4) by blast
  have t1: "t < length (dl_tasks st1)" using st1(3) assms(2) by (simp add: same_but_def)
  note hashes = add_hashes_inv [OF st1(2) t1, where hs = hs]
  have "t < length (dl_tasks (add_hashes t hs st1))" using t1 hashes(4) by simp
  from make_remake [OF hashes(1) this, of rd now] hashes(2,5) st1(4,5) obtain st' where
    st': "makeRequest now t rd (add_hashes t hs st1) = Some st'" "dl_inv no_extra st'" "same_but t (add_hashes t hs st1) st'" by auto
  then have "kept st st'" using kept_trans [OF same_but_kept [OF st1(3)] kept_trans [OF hashes(3) same_but_kept]] by blast
  then show "\<exists>st'. do { (rd, st) \<leftarrow> finishSentRequest now t i Redirect st; makeRequest now t rd (add_hashes t hs st) } = Some st'
      \<and> dl_inv no_extra st' \<and> kept st st'"
    using st1(1) st' by simp
  from make_remake [OF st1(2) t1 st1(4,5), of now] obtain st' where
    st': "makeRequest now t rd st1 = Some st'" "dl_inv no_extra st'" "same_but t st1 st'" by auto
  then have "kept st st'" using kept_trans [OF same_but_kept [OF st1(3)] same_but_kept] by blast
  then show "\<exists>st'. do { (rd, st) \<leftarrow> finishSentRequest now t i Redirect st; makeRequest now t rd st } = Some st'
      \<and> dl_inv no_extra st' \<and> kept st st'"
    using st1(1) st' by simp
qed

lemma reuploadDone_inv:
  assumes "dl_inv no_extra st" "t < length (dl_tasks st)" "map_of (tk_sent (the_task t st)) i = Some rd"
    "i \<noteq> tk_hash_request (the_task t st)"
  shows "\<exists>st'. reuploadDone now t hs i st = Some st' \<and> dl_inv no_extra st' \<and> kept st st'"
  unfolding reuploadDone_def by (rule remade_inv(1) [OF assms])

lemma cdnPartFailed_inv:
  assumes "dl_inv no_extra st" "t < length (dl_tasks st)" "map_of (tk_sent (the_task t st)) i = Some rd"
    "me_type error = ''FILE_TOKEN_INVALID'' \<or> me_type error = ''REQUEST_TOKEN_INVALID'' \<Longrightarrow> tk_unchecked (the_task t st) = []"
  shows "\<exists>handled st'. cdnPartFailed now t error i st = Some (handled, st') \<and> dl_inv no_extra st' \<and> kept st st'"
proof (cases "\<not> IsDefaultHandledError error \<and> (me_type error = ''FILE_TOKEN_INVALID'' \<or> me_type error = ''REQUEST_TOKEN_INVALID'')")
  case False
  then show ?thesis using partFailed_inv [OF assms(1,2), of now error] assms(1) by (auto simp: cdnPartFailed_def)
next
  case True
  obtain st1 where st1: "finishSentRequest now t i Redirect st = Some (rd, st1)" "dl_inv no_extra st1" "same_but t st st1"
    "the_task t st1 = take_request i rd (the_task t st)" "remake t rd st1"
    using finish_remake [OF assms(1-3)] by blast
  have t1: "t < length (dl_tasks st1)" using st1(3) assms(2) by (simp add: same_but_def)
  have un: "tk_unchecked (the_task t st1) = []" using True assms(4) by (simp add: st1(4) take_request_def)
  obtain st' where st': "changeCDNParams now t rd 0 [] [] [] [] st1 = Some st'" "dl_inv no_extra st'" "kept st1 st'"
    using changeCDN_inv [OF st1(2) t1 st1(5) un] by blast
  then show ?thesis
    using True st1(1) kept_trans [OF same_but_kept [OF st1(3)]] by (auto simp: cdnPartFailed_def)
qed

lemma location_inv:
  assumes "dl_inv no_extra st" "t < length (dl_tasks st)"
  shows "dl_inv no_extra (set_task t (\<lambda>k. k\<lparr> tk_location := loc \<rparr>) st)"
proof -
  have "task_inv (dl_last_id st) ((the_task t st)\<lparr> tk_location := loc \<rparr>)"
    using dl_invD(1) [OF assms] unfolding task_inv_def by (simp add: haveSentRequests_def)
  moreover have "sessions_below n ((the_task t st)\<lparr> tk_location := loc \<rparr>) = sessions_below n (the_task t st)" for n
    by (simp add: sessions_below_def)
  ultimately show ?thesis
    using task_below [OF assms] by (intro dl_inv_task [OF assms, where k' = "(the_task t st)\<lparr> tk_location := loc \<rparr>"])
      (simp_all add: haveSentRequests_def the_task_def cong: option.case_cong)
qed

lemma refreshFileReference_inv:
  assumes "dl_inv no_extra st" "t < length (dl_tasks st)" "i \<noteq> tk_hash_request (the_task t st)"
  shows "\<exists>st'. refreshFileReferenceFrom now t found i current st = Some st' \<and> dl_inv no_extra st' \<and> kept st st'"
proof (cases "tk_location (the_task t st)")
  case (StorageFile ref)
  let ?ref = "if found = [] then ref else found"
  let ?st = "set_task t (\<lambda>k. k\<lparr> tk_location := StorageFile ?ref \<rparr>) st"
  have inv: "dl_inv no_extra ?st" by (rule location_inv [OF assms(1,2)])
  have t: "t < length (dl_tasks ?st)" using assms(2) by simp
  have kept: "kept st ?st" by (rule kept_set_task) simp
  have eq: "refreshFileReferenceFrom now t found i current st = (if ?ref = current then cancelOnFail now t ?st
      else if map_of (tk_sent (the_task t ?st)) i \<noteq> None
      then do { (rd, st) \<leftarrow> finishSentRequest now t i Redirect ?st; makeRequest now t rd st } else Some ?st)"
    by (simp add: refreshFileReferenceFrom_def StorageFile Let_def)
  show ?thesis
  proof (cases "map_of (tk_sent (the_task t ?st)) i")
    case None
    then show ?thesis unfolding eq using cancelOnFail_inv [OF inv t, of now] inv kept kept_trans [OF kept] by auto
  next
    case (Some rd)
    have "i \<noteq> tk_hash_request (the_task t ?st)" using assms(2,3) by (simp add: set_task_nth)
    from remade_inv(2) [OF inv t Some this, of now] show ?thesis
      unfolding eq using Some cancelOnFail_inv [OF inv t, of now] kept_trans [OF kept] by (cases "?ref = current") auto
  qed
qed (use cancelOnFail_inv [OF assms(1,2), of now] in \<open>simp_all add: refreshFileReferenceFrom_def\<close>)

lemma reuploadNeeded_inv:
  assumes "dl_inv no_extra st" "t < length (dl_tasks st)" "map_of (tk_sent (the_task t st)) i = Some rd"
    "i \<noteq> tk_hash_request (the_task t st)"
  shows "\<exists>st'. cdnPartLoaded out now t (ReuploadNeeded token) i st = Some st' \<and> dl_inv no_extra st' \<and> kept st st'"
proof -
  obtain st1 where st1: "finishSentRequest now t i Redirect st = Some (rd, st1)" "dl_inv no_extra st1" "same_but t st st1"
    "remake t rd st1" "map_of (tk_unchecked (the_task t st1)) (rq_offset rd) = None"
    using finish_remake [OF assms(1-3)] assms(4) by blast
  have t1: "t < length (dl_tasks st1)" using st1(3) assms(2) by (simp add: same_but_def)
  let ?st = "snd (send_api ReuploadCdnFile (tk_dc (the_task t st1)) rd st1)"
  let ?i = "Suc (dl_last_id st1)"
  note api = send_api_inv [OF st1(2), where kind = ReuploadCdnFile and dc = "tk_dc (the_task t st1)" and rd = rd]
  obtain b where b: "dl_balance st1 (tk_dc (the_task t st1)) = Some b" "rq_session rd < length (dc_sessions b)"
    using st1(4) by (auto simp: remake_def)
  have new: "map_of (tk_sent (the_task t st1)) ?i = None"
    using task_invD(6) [OF dl_invD(1) [OF st1(2) t1], of ?i] by (cases "map_of (tk_sent (the_task t st1)) ?i") auto
  obtain st' where st': "placeSentRequest now t ?i rd ?st = Some st'" "dl_inv no_extra st'" "same_but t ?st st'"
    using place_inv [OF api(1), of t b rd ?i now] t1 b st1(4,5) new by (auto simp: api remake_def)
  have "kept st1 ?st" by (simp add: kept_def api)
  then have "kept st st'" using kept_trans [OF same_but_kept [OF st1(3)] kept_trans [OF _ same_but_kept [OF st'(3)]]] by blast
  then show ?thesis using st1(1) st'(1,2) by (simp add: cdnPartLoaded_def split_beta)
qed

lemma unchecked_added:
  assumes "dl_inv no_extra st" "t < length (dl_tasks st)" "remake t rd st" "tk_cdn_dc (the_task t st) \<noteq> 0"
  shows "dl_inv no_extra (set_task t (\<lambda>k. k\<lparr> tk_unchecked := fst (fm_emplace (tk_unchecked k) (rq_offset rd) (rd, buf)) \<rparr>) st)"
    (is "dl_inv _ (set_task t ?f st)")
proof -
  let ?k = "the_task t st"
  note inv = dl_invD(1) [OF assms(1,2)]
  let ?us = "fst (fm_insert (tk_unchecked ?k) (rq_offset rd, rd, buf))"
  note fm = task_invD(3) [OF inv]
  obtain b where b: "dl_balance st (tk_dc ?k) = Some b" "rq_session rd < length (dc_sessions b)"
    using assms(3) by (auto simp: remake_def)
  have us: "map_of ?us = (if map_of (tk_unchecked ?k) (rq_offset rd) = None
      then (map_of (tk_unchecked ?k))(rq_offset rd \<mapsto> (rd, buf)) else map_of (tk_unchecked ?k))" "fm_inv ?us"
    using fm_insert_map [OF fm, of "rq_offset rd" "(rd, buf)"] fm by (simp_all add: fm_insert_inv)
  have set: "set ?us \<subseteq> insert (rq_offset rd, rd, buf) (set (tk_unchecked ?k))"
    using us by (cases rule: fm_split_cases [OF fm, of "rq_offset rd"]) (auto simp: key_split_insert)
  have fk: "?f ?k = ?k\<lparr> tk_unchecked := ?us \<rparr>" by (simp add: fm_emplace_def)
  have off: "map_of (tk_by_offset ?k) (rq_offset rd) = None" "\<not> fresh_offset (rq_offset rd) (tk_client ?k)"
    "\<not> client_done (tk_client ?k)"
    using assms(3) by (simp_all add: remake_def)
  have task: "task_inv (dl_last_id (set_task t ?f st)) (?f ?k)"
    unfolding fk using task_invD [OF inv] us set off assms(4) unfolding task_inv_def
    by (auto split: if_splits)
  have counts: "sent_count j (?f ?k) = sent_count j ?k + (if j = rq_session rd then 0 else 0)"
    "sent_all (?f ?k) = sent_all ?k + 0" for j
    by (simp_all add: sent_count_def sent_all_def)
  have "sessions_below (length (dc_sessions b)) (?f ?k)"
    using dl_invD(2) [OF assms(1,2) b(1)] set b(2) unfolding fk by (auto simp: sessions_below_def)
  then have "dc_counts (no_extra (tk_dc ?k)) (bump (rq_session rd) (kDownloadPartSize * 0) b) (tk_dc ?k) ((dl_tasks st)[t := ?f ?k])"
    using dl_invD(2) [OF assms(1,2) b(1)] assms(2) b(2) counts
    by (intro dc_counts_bump) (simp_all add: the_task_def)
  moreover have "bump (rq_session rd) 0 b = b" by (simp add: bump_def)
  ultimately have counted: "dc_counts (no_extra (tk_dc ?k)) b (tk_dc ?k) ((dl_tasks st)[t := ?f ?k])" by simp
  have balance: "dl_balance (set_task t ?f st) = (dl_balance st)(tk_dc ?k \<mapsto> b)" using b(1) by (simp add: fun_upd_idem)
  have "kill_inv (dl_kill_when st) (dl_tasks st)" by (rule dl_invD(3) [OF assms(1,2)])
  moreover have "tk_sent (?f ?k) = tk_sent ?k" "tk_dc (?f ?k) = tk_dc ?k" "?k \<in> set (dl_tasks st)"
    using assms(2) by (simp_all add: the_task_def)
  ultimately have kill: "kill_inv (dl_kill_when (set_task t ?f st)) ((dl_tasks st)[t := ?f ?k])"
    using set_update_cases [OF assms(2)] unfolding kill_inv_def set_task_simps by metis
  have "t \<in> en_task ` set (queue_of (tk_dc ?k) st)" using assms(3) by (simp add: remake_def)
  then show ?thesis
    using task counted balance kill by (intro dl_inv_update [OF assms(1,2) refl, where k' = "?f ?k" and b' = b])
      (simp_all add: the_task_def)
qed

lemma cdnPartLoaded_inv:
  assumes "dl_inv no_extra st" "t < length (dl_tasks st)" "map_of (tk_sent (the_task t st)) i = Some rd"
    "i \<noteq> tk_hash_request (the_task t st)" "tk_cdn_dc (the_task t st) \<noteq> 0"
  shows "\<exists>st'. cdnPartLoaded out now t result i st = Some st' \<and> dl_inv no_extra st' \<and> kept st st'"
proof (cases result)
  case (ReuploadNeeded token)
  then show ?thesis using reuploadNeeded_inv [OF assms(1-4)] by simp
next
  case (CdnBytes data)
  obtain st1 where st1: "finishSentRequest now t i Success st = Some (rd, st1)" "dl_inv no_extra st1" "same_but t st st1"
    "the_task t st1 = take_request i rd (the_task t st)" "remake t rd st1"
    using finish_remake [OF assms(1-3)] by blast
  have t1: "t < length (dl_tasks st1)" using st1(3) assms(2) by (simp add: same_but_def)
  let ?k = "the_task t st1"
  have cdn: "tk_cdn_dc ?k \<noteq> 0" using assms(5) by (simp add: st1(4) take_request_def)
  have len: "length (tk_cdn_key ?k) = kKeySize" "length (tk_cdn_iv ?k) = kIvecSize"
    using task_invD(9) [OF dl_invD(1) [OF st1(2) t1] cdn] by auto
  have run: "\<not> client_done (tk_client ?k)" using st1(5) by (simp add: remake_def)
  define buf where "buf = ou_aes_ctr out (tk_cdn_key ?k) (counter_block (tk_cdn_iv ?k) (rq_offset rd)) data"
  let ?st = "set_task t (\<lambda>k. k\<lparr> tk_unchecked := fst (fm_emplace (tk_unchecked k) (rq_offset rd) (rd, buf)) \<rparr>) st1"
  have inv2: "dl_inv no_extra ?st" by (rule unchecked_added [OF st1(2) t1 st1(5) cdn])
  have t2: "t < length (dl_tasks ?st)" using t1 by simp
  have kept2: "kept st1 ?st" by (rule kept_set_task) simp
  obtain st2 where st2: "(case checkCdnFileHash (ou_sha256 out) (rq_offset rd) buf ?k of
         NoHash \<Rightarrow> requestMoreCdnFileHashes now t ?st
       | Invalid \<Rightarrow> cancelOnFail now t st1
       | Good \<Rightarrow> do { (_, st) \<leftarrow> feedPart out now t (rq_offset rd) buf st1; Some st }) = Some st2"
    "dl_inv no_extra st2" "kept st1 st2"
  proof (cases "checkCdnFileHash (ou_sha256 out) (rq_offset rd) buf ?k")
    case NoHash
    then show ?thesis using that requestMore_inv [OF inv2 t2, of now] kept_trans [OF kept2] by auto
  next
    case Invalid
    then show ?thesis using that cancelOnFail_inv [OF st1(2) t1, of now] by auto
  next
    case Good
    then show ?thesis using that feedPart_inv [OF st1(2) t1 run, of out now "rq_offset rd" buf] by auto
  qed
  obtain st' where st': "checkSendNext now (tk_dc ?k) st2 = Some st'" "dl_inv no_extra st'" "kept st2 st'"
    using checkSendNext_kept [OF st2(2)] by blast
  have "cdnPartLoaded out now t result i st = Some st'"
    unfolding cdnPartLoaded_def CdnBytes cdn_result.case st1(1) bind.bind_lunit prod.case Let_def buf_def [symmetric]
    using len st2(1) st'(1) by simp
  moreover have "kept st st'" using kept_trans [OF same_but_kept [OF st1(3)] kept_trans [OF st2(3) st'(3)]] .
  ultimately show ?thesis using st'(2) by blast
qed

text \<open>The loop over the unchecked parts: as long as there are some, the client is not finished.\<close>

lemma check_unchecked_inv:
  assumes "dl_inv no_extra st" "t < length (dl_tasks st)" "set us \<subseteq> set (tk_unchecked (the_task t st))" "distinct (map fst us)"
  shows "\<exists>some' st'. check_unchecked out now t us some st = Some (some', st') \<and> dl_inv no_extra st' \<and> kept st st'"
  using assms
proof (induction us arbitrary: st some)
  case (Cons u us)
  obtain off rd buf where u: "u = (off, rd, buf)" by (metis prod_cases3)
  let ?k = "the_task t st"
  note inv = dl_invD(1) [OF Cons.prems(1,2)]
  have run: "\<not> client_done (tk_client ?k)"
    using task_invD(10) [OF inv] Cons.prems(3) by (auto simp: haveSentRequests_def)
  show ?case
  proof (cases "checkCdnFileHash (ou_sha256 out) off buf ?k")
    case NoHash
    then show ?thesis using Cons.IH [OF Cons.prems(1,2), of some] Cons.prems(3,4) by (simp add: u)
  next
    case Invalid
    then show ?thesis using cancelOnFail_inv [OF Cons.prems(1,2), of now] by (auto simp: u)
  next
    case Good
    let ?us = "fst (fm_remove (tk_unchecked ?k) off)"
    let ?st = "set_task t (\<lambda>k. k\<lparr> tk_unchecked := ?us \<rparr>) st"
    note fm = task_invD(3) [OF inv]
    have rest: "set ?us = set (tk_unchecked ?k) - {p. fst p = off}"
      by (cases rule: fm_split_cases [OF fm, of off]) (auto simp: fm_remove_def key_split_remove key_split_def)
    have eq: "set_task t (\<lambda>k. k\<lparr> tk_unchecked := fst (fm_remove (tk_unchecked k) off) \<rparr>) st = ?st"
      by (simp add: set_task_def the_task_def)
    have inv1: "dl_inv no_extra ?st"
      using rest by (intro unchecked_inv [OF Cons.prems(1,2)]) (auto simp: fm fm_remove_inv)
    have t1: "t < length (dl_tasks ?st)" using Cons.prems(2) by simp
    have task1: "the_task t ?st = ?k\<lparr> tk_unchecked := ?us \<rparr>" using Cons.prems(2) by (simp add: set_task_nth)
    have run1: "\<not> client_done (tk_client (the_task t ?st))" using run by (simp add: task1)
    have kept1: "kept st ?st" by (rule kept_set_task) simp
    obtain ok st2 where st2: "feedPart out now t off buf ?st = Some (ok, st2)" "dl_inv no_extra st2" "kept ?st st2"
      "ok \<longrightarrow> tk_unchecked (the_task t st2) = tk_unchecked (the_task t ?st)"
      using feedPart_inv [OF inv1 t1 run1] by blast
    show ?thesis
    proof (cases ok)
      case False
      then show ?thesis using Good st2 kept_trans [OF kept1] by (simp add: u eq)
    next
      case True
      have t2: "t < length (dl_tasks st2)" using st2(3) t1 by (simp add: kept_def)
      have "off \<notin> fst ` set us" "distinct (map fst us)" using Cons.prems(4) by (auto simp: u)
      then have "set us \<subseteq> set (tk_unchecked (the_task t st2))"
        using Cons.prems(3) st2(4) True rest by (auto simp: task1 u)
      from Cons.IH [OF st2(2) t2 this \<open>distinct (map fst us)\<close>, of True] show ?thesis
        using Good True st2(1) kept_trans [OF kept1 kept_trans [OF st2(3)]] by (auto simp: u eq)
    qed
  qed
qed simp

lemma getCdnFileHashesDone_inv:
  assumes "dl_inv no_extra st" "t < length (dl_tasks st)" "map_of (tk_sent (the_task t st)) i = Some rd"
    "i = tk_hash_request (the_task t st)"
  shows "\<exists>st'. getCdnFileHashesDone out now t hs i st = Some st' \<and> dl_inv no_extra st' \<and> kept st st'"
proof -
  obtain st1 where st1: "finishSentRequest now t i Redirect st = Some (rd, st1)" "dl_inv no_extra st1" "same_but t st st1"
    using finish_remake [OF assms(1-3)] by blast
  have t1: "t < length (dl_tasks st1)" using st1(3) assms(2) by (simp add: same_but_def)
  define st2 where "st2 = add_hashes t hs st1"
  note hashes = add_hashes_inv [OF st1(2) t1, where hs = hs, folded st2_def]
  have t2: "t < length (dl_tasks st2)" using t1 hashes(4) by simp
  have "distinct (map fst (tk_unchecked (the_task t st2)))"
    using fm_inv_distinct [OF task_invD(3) [OF dl_invD(1) [OF hashes(1) t2]]] .
  from check_unchecked_inv [OF hashes(1) t2 subset_refl this] obtain some st3 where
    st3: "check_unchecked out now t (tk_unchecked (the_task t st2)) False st2 = Some (some, st3)" "dl_inv no_extra st3" "kept st2 st3"
    by blast
  have t3: "t < length (dl_tasks st3)" using st3(3) t2 by (simp add: kept_def)
  obtain st' where st': "(case some of None \<Rightarrow> Some st3 | Some False \<Rightarrow> cancelOnFail now t st3
      | Some True \<Rightarrow> requestMoreCdnFileHashes now t st3) = Some st'" "dl_inv no_extra st'" "kept st3 st'"
    using cancelOnFail_inv [OF st3(2) t3, of now] requestMore_inv [OF st3(2) t3, of now] st3(2)
    by (cases some rule: option.exhaust [case_names None Some]; cases "the some") auto
  have "getCdnFileHashesDone out now t hs i st = Some st'"
    using assms(4) st1(1) st3(1) st'(1) by (simp add: getCdnFileHashesDone_def Let_def st2_def [symmetric] split: option.splits)
  moreover have "kept st st'"
    using kept_trans [OF same_but_kept [OF st1(3)] kept_trans [OF hashes(3) kept_trans [OF st3(3) st'(3)]]] .
  ultimately show ?thesis using st'(2) by blast
qed

section \<open>Commands\<close>

lemma run_effects_nil: "run_effects now t [] = Some"
  by (rule ext) simp

lemma run_local_effects:
  "(\<And>data. StartLoadingWithPartial data \<notin> set es) \<Longrightarrow> run_local out now t es st = run_effects now t es st"
proof (induction es arbitrary: st)
  case (Cons e es)
  have rest: "run_local out now t es = run_effects now t es"
    using Cons by (intro ext) auto
  have "(case e of StartLoadingWithPartial data \<Rightarrow> startLoadingWithPartial out now t data st
      | _ \<Rightarrow> run_effects now t [e] st) = run_effects now t [e] st"
    using Cons.prems by (cases e) auto
  then show ?case
    by (cases e) (simp_all add: rest run_effects_nil)
qed simp

lemma file_start_effects:
  assumes "file_start env key l = (l', es)"
  shows "StartLoadingWithPartial data \<notin> set es" "(\<exists>es'. es = CancelHook # es') \<or> fl_finished l' = fl_finished l"
  using assms by (auto simp: file_start_def try_load_local_def check_for_open_def file_cancel_def try_open_def Let_def
      split: if_splits local_status.splits)

lemma file_command_start:
  assumes "dl_inv no_extra st" "t < length (dl_tasks st)" "tk_client (the_task t st) = FileClient m"
    "f (mt_file m) = (l, es)" "\<And>data. StartLoadingWithPartial data \<notin> set es"
    "(\<exists>es'. es = CancelHook # es') \<or> fl_finished l = fl_finished (mt_file m) \<or> \<not> haveSentRequests (the_task t st)"
  shows "\<exists>st'. file_command out now t f st = Some st' \<and> dl_inv no_extra st' \<and> kept st st'"
proof -
  have "run_local out now t es (set_file t l st) = run_effects now t es (set_file t l st)"
    using assms(5) by (rule run_local_effects)
  then have "file_command out now t f st = apply_file now t l es st"
    by (auto simp: file_command_def assms(3,4) apply_file_def split: list.splits file_effect.splits)
  moreover have "fl_finished l \<Longrightarrow> \<not> haveSentRequests (the_task t st) \<or> (\<exists>es'. es = CancelHook # es')"
    using assms(6) task_invD(10) [OF dl_invD(1) [OF assms(1,2)]] by (auto simp: assms(3) client_done_def)
  ultimately show ?thesis using apply_file_inv [OF assms(1-3), of l es now] by simp
qed

lemma loader_start_inv:
  assumes "dl_inv no_extra st" "t < length (dl_tasks st)" "tk_client (the_task t st) = FileClient m"
  shows "\<exists>st'. loader_start out now t st = Some st' \<and> dl_inv no_extra st' \<and> kept st st'"
proof -
  obtain l es where "file_start (ou_env out) (ou_has_key out) (mt_file m) = (l, es)" by fastforce
  from file_command_start [of st t m "file_start (ou_env out) (ou_has_key out)", OF assms this] file_start_effects [OF this]
  show ?thesis unfolding loader_start_def by blast
qed

lemma loader_cancel_inv:
  assumes "dl_inv no_extra st" "t < length (dl_tasks st)" "tk_client (the_task t st) = FileClient m"
  shows "\<exists>st'. loader_cancel out now t st = Some st' \<and> dl_inv no_extra st' \<and> kept st st'"
proof -
  obtain l es where "file_cancel NoFailure (mt_file m) = (l, es)" by fastforce
  from file_command_start [of st t m "file_cancel NoFailure", OF assms this] this
  show ?thesis unfolding loader_cancel_def by (auto simp: file_cancel_def Let_def)
qed

lemma startPartial_inv:
  assumes "dl_inv no_extra st" "t < length (dl_tasks st)" "\<not> client_done (tk_client (the_task t st))"
    "\<not> haveSentRequests (the_task t st)" "starts_partial data"
  shows "\<exists>st'. startLoadingWithPartial out now t data st = Some st' \<and> dl_inv no_extra st' \<and> kept st st'"
proof -
  let ?use = "partial_use data"
  let ?f = "\<lambda>k. case tk_client k of FileClient m \<Rightarrow> k\<lparr> tk_client := FileClient (m\<lparr> mt_next_offset := int ?use \<rparr>) \<rparr>
    | StreamClient s \<Rightarrow> k"
  obtain st1 where st1: "(if 0 < ?use then do { (_, st) \<leftarrow> feedPart out now t 0 (take ?use (drop 8 data)) (set_task t ?f st); Some st }
      else Some st) = Some st1" "dl_inv no_extra st1" "kept st st1"
  proof (cases "0 < ?use")
    case False
    then show ?thesis using that assms(1) by simp
  next
    case True
    have none: "\<not> haveSentRequestForOffset off (the_task t st)" for off
    proof -
      note inv = dl_invD(1) [OF assms(1,2)]
      have "map_of (tk_by_offset (the_task t st)) off = None"
        using indices_agreeD(1) [OF task_invD(4) [OF inv], of off] assms(4)
        by (cases "map_of (tk_by_offset (the_task t st)) off") (auto simp: haveSentRequests_def)
      then show ?thesis
        using assms(4) by (simp add: haveSentRequestForOffset_def haveSentRequests_def fm_contains_dom [OF task_invD(2) [OF inv]]
            fm_contains_dom [OF fm_inv_Nil])
    qed
    have inv: "dl_inv no_extra (set_task t ?f st)"
    proof (cases "tk_client (the_task t st)")
      case (FileClient m)
      show ?thesis
        by (rule client_inv_update [OF assms(1,2), where c = "FileClient (m\<lparr> mt_next_offset := int ?use \<rparr>)"])
          (use FileClient none assms(3,4) in \<open>simp_all add: client_inv_def client_done_def flip: the_task_def\<close>)
    next
      case (StreamClient s)
      then have "set_task t ?f st = st" by (simp add: set_task_def the_task_def)
      then show ?thesis using assms(1) by simp
    qed
    have t: "t < length (dl_tasks (set_task t ?f st))" using assms(2) by simp
    have run: "\<not> client_done (tk_client (the_task t (set_task t ?f st)))"
      using assms(2,3) by (simp add: set_task_nth client_done_def split: client.splits)
    have "kept st (set_task t ?f st)" by (rule kept_set_task) (simp split: client.splits)
    then show ?thesis
      using that feedPart_inv [OF inv t run, of out now 0 "take ?use (drop 8 data)"] True kept_trans by fastforce
  qed
  have "t < length (dl_tasks st1)" using st1(3) assms(2) by (simp add: kept_def)
  from enqueue_inv [OF st1(2) this, of 0 now] obtain st' where "dm_enqueue now t 0 st1 = Some st'" "dl_inv no_extra st'" "kept st1 st'"
    by (auto simp: kept_def)
  then show ?thesis
    using st1(1) assms(5) kept_trans [OF st1(3)] by (simp add: startLoadingWithPartial_def Let_def)
qed

lemma finish_with_bytes_effects:
  assumes "finish_with_bytes env data l = (l', es)"
  shows "StartLoadingWithPartial d \<notin> set es"
  using assms by (auto simp: finish_with_bytes_def file_cancel_def Let_def split: if_splits)

lemma local_loaded_inv:
  assumes "dl_inv no_extra st" "t < length (dl_tasks st)" "tk_client (the_task t st) = FileClient m"
    "\<not> fl_finished (mt_file m)" "\<not> haveSentRequests (the_task t st)"
  shows "\<exists>st'. loader_local_loaded out now t data st = Some st' \<and> dl_inv no_extra st' \<and> kept st st'"
proof -
  let ?f = "local_loaded (ou_env out) (ou_has_key out) data"
  obtain l es where f: "?f (mt_file m) = (l, es)" by fastforce
  show ?thesis
  proof (cases "\<exists>d. StartLoadingWithPartial d \<in> set es")
    case False
    then show ?thesis
      unfolding loader_local_loaded_def using file_command_start [of st t m ?f, OF assms(1-3) f] assms(5) by blast
  next
    case True
    have partial: "starts_partial data \<and> es = [StartLoadingWithPartial data] \<and> fl_finished l = fl_finished (mt_file m)"
    proof -
      let ?l = "(mt_file m)\<lparr> fl_local_loading := False \<rparr>"
      have "\<not> (data = [])"
        using True f file_start_effects(1) [of "ou_env out" "ou_has_key out" "?l\<lparr> fl_status := NotFound \<rparr>" l es]
        by (auto simp: local_loaded_def Let_def)
      moreover have "starts_partial data \<and> int (length data) < fl_load_size ?l + 8"
        using True f calculation finish_with_bytes_effects [of "ou_env out" _ ?l l es]
        by (auto simp: local_loaded_def Let_def split: if_splits)
      ultimately show ?thesis
        using True f by (auto simp: local_loaded_def check_for_open_def try_open_def file_cancel_def Let_def split: if_splits)
    qed
    have t1: "t < length (dl_tasks (set_file t l st))" using assms(2) by (simp add: set_file_eq(2) [OF assms(3,2)])
    have inv1: "dl_inv no_extra (set_file t l st)"
      using partial assms(4) by (intro set_file_inv [OF assms(1-3)]) simp
    have "\<not> client_done (tk_client (the_task t (set_file t l st)))" "\<not> haveSentRequests (the_task t (set_file t l st))"
      using partial assms(4,5) by (simp_all add: set_file_eq(1) [OF assms(3,2)] client_done_def haveSentRequests_def)
    from startPartial_inv [OF inv1 t1 this, of data out now] partial obtain st' where
      "startLoadingWithPartial out now t data (set_file t l st) = Some st'" "dl_inv no_extra st'" "kept (set_file t l st) st'" by blast
    moreover have "loader_local_loaded out now t data st = Some st'"
      using f partial calculation(1) by (simp add: loader_local_loaded_def file_command_def assms(3))
    ultimately show ?thesis using kept_trans [OF set_file_eq(3) [OF assms(3,2)]] by blast
  qed
qed

lemma destroy_inv:
  assumes "dl_inv no_extra st" "t < length (dl_tasks st)"
  shows "\<exists>st'. task_destroy out now t st = Some st' \<and> dl_inv no_extra st' \<and> kept st st'"
proof -
  obtain st1 where st1: "(case tk_client (the_task t st) of
         FileClient m \<Rightarrow> if fl_finished (mt_file m) then Some st else loader_cancel out now t st
       | StreamClient s \<Rightarrow> Some st) = Some st1" "dl_inv no_extra st1" "kept st st1"
  proof (cases "tk_client (the_task t st)")
    case (FileClient m)
    then show ?thesis using that assms(1) loader_cancel_inv [OF assms FileClient, of out now] by (cases "fl_finished (mt_file m)") auto
  qed (use that assms(1) in auto)
  have t1: "t < length (dl_tasks st1)" using st1(3) assms(2) by (simp add: kept_def)
  obtain st2 where st2: "cancelAllRequests now t st1 = Some st2" "dl_inv no_extra st2" "same_but t st1 st2"
    "\<not> haveSentRequests (the_task t st2)"
    using cancelAll_inv [OF st1(2) t1 no_extra_nonneg] by blast
  obtain st' where "dm_remove now t st2 = Some st'" "dl_inv no_extra st'" "kept st2 st'"
    using remove_inv [OF st2(2,4), of now] by (auto simp: kept_def)
  then show ?thesis
    using st1(1) st2(1) kept_trans [OF st1(3) kept_trans [OF same_but_kept [OF st2(3)]]] by (auto simp: task_destroy_def)
qed

end
