(* ===== verification/DownloadEvents.thy ===== *)
theory DownloadEvents imports DownloadRun begin

text \<open>
  The run of a download manager (\<^verbatim>\<open>storage/download_manager_mtproto\<close>): the events that
  reach it and its tasks, from the server, the clients, the timers and the calls it posted itself,
  in any order. No assert fails on the way, and what the sessions wait for is what is out.
\<close>

section \<open>Commands of a stream\<close>

lemma with_stream_inv:
  assumes "dl_inv no_extra st" "t < length (dl_tasks st)" "tk_client (the_task t st) = StreamClient s"
    "pq_inv (sm_requested (f s))" "-1 \<le> sm_priority (f s)"
    "\<And>off. off \<in> dom (pq_map (sm_requested (f s))) \<Longrightarrow> off \<notin> dom (pq_map (sm_requested s)) \<Longrightarrow>
       \<not> haveSentRequestForOffset off (the_task t st)"
  shows "dl_inv no_extra (with_stream t f st)" "kept st (with_stream t f st)"
    "the_task t (with_stream t f st) = (the_task t st)\<lparr> tk_client := StreamClient (f s) \<rparr>"
proof -
  have tasks: "dl_tasks (with_stream t f st) = (dl_tasks st)[t := (the_task t st)\<lparr> tk_client := StreamClient (f s) \<rparr>]"
    using assms(3) by (simp add: with_stream_def the_task_def)
  have dom_map: "pq_inv q \<Longrightarrow> qe_value ` set (pq_data q) = dom (pq_map q)" for q
    using pq_map_None [of q] by (auto simp: dom_def image_iff)
  have "pq_inv (sm_requested s)"
    using task_invD(5) [OF dl_invD(1) [OF assms(1,2)]] assms(3) by (simp add: client_inv_def)
  then show "dl_inv no_extra (with_stream t f st)"
    by (intro client_inv_update [OF assms(1,2), where c = "StreamClient (f s)"])
      (use assms(3-) tasks in \<open>simp_all add: client_inv_def client_done_def fresh_offset_def dom_map with_stream_def\<close>)
  show "kept st (with_stream t f st)"
    unfolding with_stream_def by (rule kept_set_task) (simp split: client.splits)
  show "the_task t (with_stream t f st) = (the_task t st)\<lparr> tk_client := StreamClient (f s) \<rparr>"
    using assms(2) by (simp add: the_task_def tasks)
qed

lemma stream_client_inv:
  assumes "dl_inv ex st" "t < length (dl_tasks st)" "tk_client (the_task t st) = StreamClient s"
  shows "pq_inv (sm_requested s)" "-1 \<le> sm_priority s"
  using task_invD(5) [OF dl_invD(1) [OF assms(1,2)]] assms(3) by (simp_all add: client_inv_def)

lemma enqueue_kept:
  assumes "dl_inv no_extra st" "t < length (dl_tasks st)" "-1 \<le> p"
  shows "\<exists>st'. dm_enqueue now t p st = Some st' \<and> dl_inv no_extra st' \<and> kept st st'"
  using enqueue_inv [OF assms, of now] by (auto simp: kept_def)

lemma remove_kept:
  assumes "dl_inv no_extra st" "\<not> haveSentRequests (the_task t st)"
  shows "\<exists>st'. dm_remove now t st = Some st' \<and> dl_inv no_extra st' \<and> kept st st'"
  using remove_inv [OF assms, of now] by (auto simp: kept_def)

lemma stream_cancel_inv:
  assumes "dl_inv no_extra st" "t < length (dl_tasks st)" "tk_client (the_task t st) = StreamClient s"
  shows "\<exists>st'. stream_cancel_offset now t off st = Some st' \<and> dl_inv no_extra st' \<and> kept st st'"
proof (cases "haveSentRequestForOffset off (the_task t st)")
  case True
  obtain st1 where st1: "cancelRequestForOffset now t off st = Some st1" "dl_inv no_extra st1" "same_but t st st1"
    using cancelForOffset_inv [OF assms(1,2) no_extra_nonneg] by blast
  have t1: "t < length (dl_tasks st1)" "tk_client (the_task t st1) = StreamClient s"
    using st1(3) assms(2,3) by (simp_all add: same_but_def)
  obtain st' where "dm_enqueue now t (sm_priority s) st1 = Some st'" "dl_inv no_extra st'" "kept st1 st'"
    using enqueue_kept [OF st1(2) t1(1) stream_client_inv(2) [OF st1(2) t1]] by blast
  then show ?thesis
    using st1 t1(2) True kept_trans [OF same_but_kept [OF st1(3)]] same_but_kept [OF st1(3)]
    by (simp add: stream_cancel_offset_def)
next
  case False
  note removed = pq_remove_refines [OF stream_client_inv(1) [OF assms], of off]
  have "dl_inv no_extra (with_stream t (\<lambda>s. s\<lparr> sm_requested := snd (pq_remove off (sm_requested s)) \<rparr>) st)"
    "kept st (with_stream t (\<lambda>s. s\<lparr> sm_requested := snd (pq_remove off (sm_requested s)) \<rparr>) st)"
    using removed stream_client_inv(2) [OF assms] by (intro with_stream_inv [OF assms]; simp)+
  then show ?thesis using False by (simp add: stream_cancel_offset_def)
qed

lemma stream_load_inv:
  assumes "dl_inv no_extra st" "t < length (dl_tasks st)" "tk_client (the_task t st) = StreamClient s"
  shows "\<exists>st'. stream_load now t have_part off st = Some st' \<and> dl_inv no_extra st' \<and> kept st st'"
proof (cases "have_part \<noteq> [] \<or> haveSentRequestForOffset off (the_task t st)")
  case True
  obtain st1 where "stream_cancel_offset now t off st = Some st1" "dl_inv no_extra st1" "kept st st1"
    using stream_cancel_inv [OF assms] by blast
  then show ?thesis using True assms
    by (auto simp: stream_load_def logged_inv kept_def)
next
  case False
  obtain added q where q: "pq_add off (sm_requested s) = (added, q)" by (cases "pq_add off (sm_requested s)")
  note add = pq_add_refines [OF stream_client_inv(1) [OF assms], of off, unfolded q snd_conv]
  let ?st = "with_stream t (\<lambda>s. s\<lparr> sm_requested := q \<rparr>) st"
  have st1: "dl_inv no_extra ?st" "kept st ?st"
    using add stream_client_inv(2) [OF assms] False by (intro with_stream_inv [OF assms]; simp split: if_splits)+
  moreover have "t < length (dl_tasks ?st)" using assms(2) by (simp add: with_stream_def)
  ultimately obtain st' where "dm_enqueue now t (sm_priority s) ?st = Some st'" "dl_inv no_extra st'" "kept ?st st'"
    using enqueue_kept [OF st1(1) _ stream_client_inv(2) [OF assms]] by blast
  then show ?thesis using False st1 kept_trans [OF st1(2)] assms(3)
    by (cases added) (auto simp: stream_load_def q)
qed

lemma stream_stop_inv:
  assumes "dl_inv no_extra st" "t < length (dl_tasks st)" "tk_client (the_task t st) = StreamClient s"
  shows "\<exists>st'. stream_stop now t st = Some st' \<and> dl_inv no_extra st' \<and> kept st st'"
proof -
  obtain st1 where st1: "cancelAllRequests now t st = Some st1" "dl_inv no_extra st1" "same_but t st st1"
    "\<not> haveSentRequests (the_task t st1)"
    using cancelAll_inv [OF assms(1,2) no_extra_nonneg] by blast
  have t1: "t < length (dl_tasks st1)" "tk_client (the_task t st1) = StreamClient s"
    using st1(3) assms(2,3) by (simp_all add: same_but_def)
  let ?st = "with_stream t (\<lambda>s. s\<lparr> sm_requested := pq_clear (sm_requested s) \<rparr>) st1"
  have "pq_inv (pq_clear (sm_requested s))" "pq_map (pq_clear (sm_requested s)) = Map.empty"
    by (simp_all add: pq_inv_def pq_clear_def fs_inv_def pq_map_def)
  then have st2: "dl_inv no_extra ?st" "kept st1 ?st" "the_task t ?st = (the_task t st1)\<lparr> tk_client :=
      StreamClient (s\<lparr> sm_requested := pq_clear (sm_requested s) \<rparr>) \<rparr>"
    using stream_client_inv(2) [OF st1(2) t1] by (intro with_stream_inv [OF st1(2) t1]; simp)+
  then obtain st' where "dm_remove now t ?st = Some st'" "dl_inv no_extra st'" "kept ?st st'"
    using remove_kept [OF st2(1), of t now] st1(4) by (auto simp: haveSentRequests_def)
  then show ?thesis
    using st1(1) kept_trans [OF same_but_kept [OF st1(3)] kept_trans [OF st2(2)]] by (simp add: stream_stop_def)
qed

lemma stream_commands_inv:
  assumes "dl_inv no_extra st" "t < length (dl_tasks st)" "tk_client (the_task t st) = StreamClient s"
  shows "\<exists>st'. stream_try_remove now t st = Some st' \<and> dl_inv no_extra st' \<and> kept st st'"
    and "dl_inv no_extra (stream_reset_priorities t st) \<and> kept st (stream_reset_priorities t st)"
    and "dl_inv no_extra (stream_stats_timer now t st) \<and> kept st (stream_stats_timer now t st)"
    and "-1 \<le> p \<Longrightarrow> \<exists>st'. stream_set_priority now t p st = Some st' \<and> dl_inv no_extra st' \<and> kept st st'"
proof -
  note client = stream_client_inv [OF assms]
  show "\<exists>st'. stream_try_remove now t st = Some st' \<and> dl_inv no_extra st' \<and> kept st st'"
    using remove_kept [OF assms(1), of t now] assms(1,3) by (auto simp: stream_try_remove_def)
  have "pq_inv (pq_reset_priorities (sm_requested s))"
    using client(1) by (force simp: pq_inv_def pq_reset_priorities_def)
  moreover have "pq_map (pq_reset_priorities (sm_requested s)) = pq_map (sm_requested s)"
    by (simp add: pq_map_def pq_reset_priorities_def)
  ultimately show "dl_inv no_extra (stream_reset_priorities t st) \<and> kept st (stream_reset_priorities t st)"
    unfolding stream_reset_priorities_def using client(2) by (intro conjI with_stream_inv [OF assms]; simp)
  obtain s' e where s': "stream_check_stats now s = (s', e)" by (cases "stream_check_stats now s")
  then have same: "sm_requested s' = sm_requested s" "sm_priority s' = sm_priority s"
    by (auto simp: stream_check_stats_def split: prod.splits)
  have "dl_inv no_extra (with_stream t (\<lambda>_. s') st)" "kept st (with_stream t (\<lambda>_. s') st)"
    using client same by (intro with_stream_inv [OF assms]; simp)+
  then show "dl_inv no_extra (stream_stats_timer now t st) \<and> kept st (stream_stats_timer now t st)"
    by (auto simp: stream_stats_timer_def assms(3) s' logged_inv kept_def)
  assume p: "-1 \<le> p"
  let ?st = "with_stream t (\<lambda>s. s\<lparr> sm_priority := p \<rparr>) st"
  have st1: "dl_inv no_extra ?st" "kept st ?st"
    using client(1) p by (intro with_stream_inv [OF assms]; simp)+
  have "t < length (dl_tasks ?st)" using assms(2) by (simp add: with_stream_def)
  then obtain st' where "dm_enqueue now t p ?st = Some st'" "dl_inv no_extra st'" "kept ?st st'"
    using enqueue_kept [OF st1(1) _ p] by blast
  then show "\<exists>st'. stream_set_priority now t p st = Some st' \<and> dl_inv no_extra st' \<and> kept st st'"
    using assms(1) st1 kept_trans [OF st1(2)]
    by (cases "haveSentRequests (the_task t ?st)") (auto simp: stream_set_priority_def Let_def assms(3))
qed

section \<open>Events\<close>

text \<open>A task is added by the constructor of a file loader or of a stream and stays in its place
  after it is destroyed. An answer names the request it is for.\<close>

datatype event =
    AddLoader int file_location file_loader
  | AddStream int file_location int
  | NormalLoaded nat nat file_result
  | WebLoaded nat nat web_result
  | CdnLoaded nat nat cdn_result
  | Reuploaded nat nat "file_hash list"
  | HashesLoaded nat nat "file_hash list"
  | NormalFailed nat nat bytes mtp_error
  | WebFailed nat nat mtp_error
  | CdnFailed nat nat mtp_error
  | ReferenceUpdated nat nat bytes bytes
  | LoaderStart nat
  | LocalLoaded nat bytes
  | LoaderCancel nat
  | Destroy nat
  | StreamLoad nat bytes int
  | StreamCancel nat int
  | StreamStop nat
  | StreamTryRemove nat
  | StreamReset nat
  | StreamPriority nat int
  | StreamStats nat
  | ResetTimer
  | KillTimer
  | CheckAll
  | Posted

definition add_task :: "task \<Rightarrow> download \<Rightarrow> download" where
  "add_task k st = st\<lparr> dl_tasks := dl_tasks st @ [k] \<rparr>"

fun run_event :: "outside \<Rightarrow> int \<Rightarrow> event \<Rightarrow> download \<Rightarrow> download option" where
  "run_event out now (AddLoader dc loc l) st = Some (add_task (task_new dc loc (FileClient (mtp_loader_new l))) st)"
| "run_event out now (AddStream dc loc n) st = Some (add_task (task_new dc loc (StreamClient (stream_loader_new n))) st)"
| "run_event out now (NormalLoaded t i result) st = normalPartLoaded out now t result i st"
| "run_event out now (WebLoaded t i result) st = webPartLoaded out now t result i st"
| "run_event out now (CdnLoaded t i result) st = cdnPartLoaded out now t result i st"
| "run_event out now (Reuploaded t i hashes) st = reuploadDone now t hashes i st"
| "run_event out now (HashesLoaded t i hashes) st = getCdnFileHashesDone out now t hashes i st"
| "run_event out now (NormalFailed t i reference error) st = map_option snd (normalPartFailed now t reference error i st)"
| "run_event out now (WebFailed t i error) st = map_option snd (partFailed now t error st)"
| "run_event out now (CdnFailed t i error) st = map_option snd (cdnPartFailed now t error i st)"
| "run_event out now (ReferenceUpdated t i found current) st = refreshFileReferenceFrom now t found i current st"
| "run_event out now (LoaderStart t) st = loader_start out now t st"
| "run_event out now (LocalLoaded t data) st = loader_local_loaded out now t data st"
| "run_event out now (LoaderCancel t) st = loader_cancel out now t st"
| "run_event out now (Destroy t) st = task_destroy out now t st"
| "run_event out now (StreamLoad t have_part offset) st = stream_load now t have_part offset st"
| "run_event out now (StreamCancel t offset) st = stream_cancel_offset now t offset st"
| "run_event out now (StreamStop t) st = stream_stop now t st"
| "run_event out now (StreamTryRemove t) st = stream_try_remove now t st"
| "run_event out now (StreamReset t) st = Some (stream_reset_priorities t st)"
| "run_event out now (StreamPriority t p) st = stream_set_priority now t p st"
| "run_event out now (StreamStats t) st = Some (stream_stats_timer now t st)"
| "run_event out now ResetTimer st = dm_resetGeneration st"
| "run_event out now KillTimer st = dm_killSessions now st"
| "run_event out now CheckAll st = checkSendNext_all now st"
| "run_event out now Posted st = run_posted now st"

definition is_out :: "nat \<Rightarrow> nat \<Rightarrow> download \<Rightarrow> bool" where
  "is_out t i st \<longleftrightarrow> t < length (dl_tasks st) \<and> map_of (tk_sent (the_task t st)) i \<noteq> None"

definition is_loader :: "nat \<Rightarrow> download \<Rightarrow> bool" where
  "is_loader t st \<longleftrightarrow> t < length (dl_tasks st)
     \<and> (case tk_client (the_task t st) of FileClient _ \<Rightarrow> True | StreamClient _ \<Rightarrow> False)"

definition is_stream :: "nat \<Rightarrow> download \<Rightarrow> bool" where
  "is_stream t st \<longleftrightarrow> t < length (dl_tasks st)
     \<and> (case tk_client (the_task t st) of StreamClient _ \<Rightarrow> True | FileClient _ \<Rightarrow> False)"

text \<open>When an event can come. An answer is for a request that is out, and of the kind the task
  sends: parts from the data center itself before a redirect, from the CDN after it, hashes for the
  hash request only. The cached bytes come before anything was sent. Two more conditions are not
  ensured by the code: an invalid token is not reported while a part waits for its hash
  (the last property shows what happens then), and a session is not removed while
  the data center has more than a hundred and twenty-eight parts out.\<close>

fun enabled :: "download \<Rightarrow> event \<Rightarrow> bool" where
  "enabled st (NormalLoaded t i result) \<longleftrightarrow> is_out t i st \<and> tk_cdn_dc (the_task t st) = 0"
| "enabled st (WebLoaded t i result) \<longleftrightarrow> is_out t i st"
| "enabled st (CdnLoaded t i result) \<longleftrightarrow> is_out t i st
     \<and> i \<noteq> tk_hash_request (the_task t st) \<and> tk_cdn_dc (the_task t st) \<noteq> 0"
| "enabled st (Reuploaded t i hashes) \<longleftrightarrow> is_out t i st \<and> i \<noteq> tk_hash_request (the_task t st)"
| "enabled st (HashesLoaded t i hashes) \<longleftrightarrow> is_out t i st \<and> i = tk_hash_request (the_task t st)"
| "enabled st (NormalFailed t i reference error) \<longleftrightarrow> is_out t i st"
| "enabled st (WebFailed t i error) \<longleftrightarrow> is_out t i st"
| "enabled st (CdnFailed t i error) \<longleftrightarrow> is_out t i st
     \<and> (me_type error = ''FILE_TOKEN_INVALID'' \<or> me_type error = ''REQUEST_TOKEN_INVALID''
        \<longrightarrow> tk_unchecked (the_task t st) = [])"
| "enabled st (ReferenceUpdated t i found current) \<longleftrightarrow> t < length (dl_tasks st) \<and> i \<noteq> tk_hash_request (the_task t st)"
| "enabled st (LoaderStart t) \<longleftrightarrow> is_loader t st"
| "enabled st (LocalLoaded t data) \<longleftrightarrow> is_loader t st
     \<and> \<not> client_done (tk_client (the_task t st)) \<and> \<not> haveSentRequests (the_task t st)"
| "enabled st (LoaderCancel t) \<longleftrightarrow> is_loader t st"
| "enabled st (Destroy t) \<longleftrightarrow> t < length (dl_tasks st)"
| "enabled st (StreamLoad t have_part offset) \<longleftrightarrow> is_stream t st"
| "enabled st (StreamCancel t offset) \<longleftrightarrow> is_stream t st"
| "enabled st (StreamStop t) \<longleftrightarrow> is_stream t st"
| "enabled st (StreamTryRemove t) \<longleftrightarrow> is_stream t st"
| "enabled st (StreamReset t) \<longleftrightarrow> is_stream t st"
| "enabled st (StreamPriority t p) \<longleftrightarrow> is_stream t st \<and> -1 \<le> p"
| "enabled st (StreamStats t) \<longleftrightarrow> is_stream t st"
| "enabled st Posted \<longleftrightarrow> (case dl_posted st of
       TimedOut dc index # _ \<Rightarrow> (case dl_balance st dc of Some b \<Rightarrow> dc_total b \<le> removal_amount | None \<Rightarrow> True)
     | MoreHashes t # _ \<Rightarrow> t < length (dl_tasks st)
     | [] \<Rightarrow> True)"
| "enabled st _ \<longleftrightarrow> True"

inductive reachable :: "outside \<Rightarrow> download \<Rightarrow> bool" for out where
  reachable_new: "reachable out download_new"
| reachable_step: "reachable out st \<Longrightarrow> enabled st e \<Longrightarrow> run_event out now e st = Some st' \<Longrightarrow> reachable out st'"

section \<open>Every event keeps the invariant\<close>

lemma download_new_inv: "dl_inv no_extra download_new"
  by (simp add: dl_inv_def download_new_def accounts_def queues_inv_def kill_inv_def all_queued_def fm_inv_def)

lemma task_new_inv: "client_inv c \<Longrightarrow> task_inv n (task_new dc loc c)"
  by (simp add: task_inv_def task_new_def fm_inv_def indices_agree_def haveSentRequests_def)

lemma add_task_inv:
  assumes "dl_inv no_extra st" "client_inv c"
  shows "dl_inv no_extra (add_task (task_new dc loc c) st)"
proof -
  let ?k = "task_new dc loc c"
  have none: "sent_count j ?k = 0" "sent_all ?k = 0" "sessions_below n ?k" "tk_sent ?k = []" "tk_unchecked ?k = []" for j n
    by (simp_all add: sent_count_def sent_all_def sessions_below_def task_new_def)
  have same: "load_of (sent_count j) d (dl_tasks st @ [?k]) = load_of (sent_count j) d (dl_tasks st)"
    "load_of sent_all d (dl_tasks st @ [?k]) = load_of sent_all d (dl_tasks st)" for j d
    by (simp_all add: load_of_def none)
  have "accounts no_extra (dl_balance st) (dl_tasks st @ [?k])"
    unfolding accounts_def
  proof
    fix d
    have "case dl_balance st d of None \<Rightarrow> \<forall>k\<in>set (dl_tasks st). tk_dc k = d \<longrightarrow> tk_sent k = [] \<and> tk_unchecked k = []
        | Some b \<Rightarrow> dc_counts (no_extra d) b d (dl_tasks st)"
      using assms(1) unfolding dl_inv_def accounts_def by blast
    then show "case dl_balance st d of None \<Rightarrow> \<forall>k\<in>set (dl_tasks st @ [?k]). tk_dc k = d \<longrightarrow> tk_sent k = [] \<and> tk_unchecked k = []
        | Some b \<Rightarrow> dc_counts (no_extra d) b d (dl_tasks st @ [?k])"
      by (cases "dl_balance st d") (simp_all add: dc_counts_def same none)
  qed
  moreover have "queues_inv (dl_queues st) (dl_tasks st @ [?k])"
    using assms(1) unfolding dl_inv_def queues_inv_def by (auto simp: nth_append split: prod.splits)
  moreover have "kill_inv (dl_kill_when st) (dl_tasks st @ [?k])"
    using assms(1) by (auto simp: dl_inv_def kill_inv_def none)
  moreover have "all_queued (add_task ?k st)"
    using assms(1) by (auto simp: dl_inv_def all_queued_def add_task_def the_task_def nth_append queue_of_def
        haveSentRequests_def none less_Suc_eq)
  ultimately show ?thesis
    using assms task_new_inv [OF assms(2)] by (auto simp: dl_inv_def add_task_def)
qed

lemma is_outD: "is_out t i st \<Longrightarrow> t < length (dl_tasks st) \<and> (\<exists>rd. map_of (tk_sent (the_task t st)) i = Some rd)"
  by (auto simp: is_out_def)

lemma is_loaderD: "is_loader t st \<Longrightarrow> t < length (dl_tasks st) \<and> (\<exists>m. tk_client (the_task t st) = FileClient m)"
  by (auto simp: is_loader_def split: client.splits)

lemma is_streamD: "is_stream t st \<Longrightarrow> t < length (dl_tasks st) \<and> (\<exists>s. tk_client (the_task t st) = StreamClient s)"
  by (auto simp: is_stream_def split: client.splits)

lemma answer_inv:
  assumes "dl_inv no_extra st" "enabled st e"
    "e = NormalLoaded t i r1 \<or> e = WebLoaded t i r2 \<or> e = CdnLoaded t i r3 \<or> e = Reuploaded t i hs \<or> e = HashesLoaded t i hs"
  shows "\<exists>st'. run_event out now e st = Some st' \<and> dl_inv no_extra st'"
proof -
  obtain rd where t: "t < length (dl_tasks st)" and rd: "map_of (tk_sent (the_task t st)) i = Some rd"
    using is_outD [of t i st] assms(2,3) by auto
  note here = assms(1) t rd
  from assms(3) consider "e = NormalLoaded t i r1" | "e = WebLoaded t i r2" | "e = CdnLoaded t i r3"
    | "e = Reuploaded t i hs" | "e = HashesLoaded t i hs" by blast
  then show ?thesis
    using normalPartLoaded_inv [OF here, of out now r1] webPartLoaded_inv [OF here, of out now r2]
      cdnPartLoaded_inv [OF here, of out now r3] reuploadDone_inv [OF here, of now hs]
      getCdnFileHashesDone_inv [OF here, of out now hs] assms(2)
    by cases auto
qed

lemma failure_inv:
  assumes "dl_inv no_extra st" "enabled st e"
    "e = NormalFailed t i ref err \<or> e = WebFailed t i err \<or> e = CdnFailed t i err"
  shows "\<exists>st'. run_event out now e st = Some st' \<and> dl_inv no_extra st'"
proof -
  obtain rd where t: "t < length (dl_tasks st)" and rd: "map_of (tk_sent (the_task t st)) i = Some rd"
    using is_outD [of t i st] assms(2,3) by auto
  show ?thesis
    using normalPartFailed_inv [OF assms(1) t, of now ref err i] partFailed_inv [OF assms(1) t, of now err]
      cdnPartFailed_inv [OF assms(1) t rd, of err now] assms(2,3)
    by auto
qed

lemma loader_event_inv:
  assumes "dl_inv no_extra st" "enabled st e"
    "e = LoaderStart t \<or> e = LocalLoaded t data \<or> e = LoaderCancel t"
  shows "\<exists>st'. run_event out now e st = Some st' \<and> dl_inv no_extra st'"
proof -
  obtain m where t: "t < length (dl_tasks st)" and m: "tk_client (the_task t st) = FileClient m"
    using is_loaderD [of t st] assms(2,3) by auto
  note here = assms(1) t m
  show ?thesis
    using loader_start_inv [OF here, of out now] loader_cancel_inv [OF here, of out now]
      local_loaded_inv [OF here, of out now data] assms(2,3) m
    by (auto simp: client_done_def)
qed

lemma stream_event_inv:
  assumes "dl_inv no_extra st" "enabled st e"
    "e = StreamLoad t have_part off \<or> e = StreamCancel t off \<or> e = StreamStop t \<or> e = StreamTryRemove t
      \<or> e = StreamReset t \<or> e = StreamPriority t p \<or> e = StreamStats t"
  shows "\<exists>st'. run_event out now e st = Some st' \<and> dl_inv no_extra st'"
proof -
  obtain s where t: "t < length (dl_tasks st)" and s: "tk_client (the_task t st) = StreamClient s"
    using is_streamD [of t st] assms(2,3) by auto
  note here = assms(1) t s
  show ?thesis
    using stream_load_inv [OF here, of now have_part off] stream_cancel_inv [OF here, of now off]
      stream_stop_inv [OF here, of now] stream_commands_inv(1,3) [OF here, of now] stream_commands_inv(2) [OF here] stream_commands_inv(4) [OF here, of p now] assms(2,3)
    by auto
qed

lemma posted_inv:
  assumes "dl_inv no_extra st" "enabled st Posted"
  shows "\<exists>st'. run_posted now st = Some st' \<and> dl_inv no_extra st'"
proof (cases "dl_posted st")
  case (Cons p ps)
  let ?st = "st\<lparr> dl_posted := ps \<rparr>"
  have inv: "dl_inv no_extra ?st" by (rule dl_inv_later [OF assms(1)]) simp_all
  show ?thesis
  proof (cases p)
    case (TimedOut dc index)
    have "dc_total (balance_at dc ?st) \<le> removal_amount"
      using assms(2) Cons TimedOut by (auto simp: balance_at_def dc_balance_new_def removal_amount_def kMaxWaitedInSession_def
          kMaxSessionsCount_def kDownloadPartSize_def split: option.splits)
    from sessionTimedOut_inv [OF inv this, of now index] show ?thesis
      using Cons TimedOut by (auto simp: run_posted_def)
  next
    case (MoreHashes t)
    then show ?thesis using requestMore_inv [OF inv, of t now] assms(2) Cons by (auto simp: run_posted_def)
  qed
qed (use assms(1) in \<open>simp add: run_posted_def\<close>)

lemma run_event_inv:
  assumes "dl_inv no_extra st" "enabled st e"
  shows "\<exists>st'. run_event out now e st = Some st' \<and> dl_inv no_extra st'"
proof (cases e)
  case (AddLoader dc loc l)
  then show ?thesis using add_task_inv [OF assms(1), of "FileClient (mtp_loader_new l)"] by (simp add: client_inv_def)
next
  case (AddStream dc loc n)
  then show ?thesis using add_task_inv [OF assms(1), of "StreamClient (stream_loader_new n)"]
    by (simp add: client_inv_def stream_loader_new_def pq_new_def pq_inv_def fs_inv_def)
next
  case (ReferenceUpdated t i found current)
  then show ?thesis using refreshFileReference_inv [OF assms(1), of t i now found current] assms(2) by auto
next
  case (Destroy t)
  then show ?thesis using destroy_inv [OF assms(1), of t out now] assms(2) by auto
next
  case ResetTimer
  then show ?thesis using resetGeneration_inv [OF assms(1)] by auto
next
  case KillTimer
  then show ?thesis using killSessions_inv [OF assms(1), of now] by auto
next
  case CheckAll
  then show ?thesis using check_all_inv [OF assms(1), of now "map fst (dl_queues st)"] by (auto simp: checkSendNext_all_def)
next
  case Posted
  then show ?thesis using posted_inv [OF assms(1)] assms(2) by simp
qed ((rule answer_inv [OF assms], blast) | (rule failure_inv [OF assms], blast)
    | (rule loader_event_inv [OF assms], blast) | (rule stream_event_inv [OF assms], blast))+

section \<open>Runs\<close>

fun run_events :: "outside \<Rightarrow> (int \<times> event) list \<Rightarrow> download \<Rightarrow> download option" where
  "run_events out [] st = Some st"
| "run_events out ((now, e) # es) st = do { st \<leftarrow> run_event out now e st; run_events out es st }"

fun all_enabled :: "outside \<Rightarrow> (int \<times> event) list \<Rightarrow> download \<Rightarrow> bool" where
  "all_enabled out [] st \<longleftrightarrow> True"
| "all_enabled out ((now, e) # es) st \<longleftrightarrow> enabled st e \<and> (case run_event out now e st of
     Some st \<Rightarrow> all_enabled out es st | None \<Rightarrow> True)"

lemma reachable_run:
  "reachable out st \<Longrightarrow> all_enabled out es st \<Longrightarrow> run_events out es st = Some st' \<Longrightarrow> reachable out st'"
proof (induction es arbitrary: st)
  case (Cons p es)
  obtain now e where p: "p = (now, e)" by (cases p)
  show ?case using Cons p by (auto intro: reachable_step split: option.splits)
qed simp

lemma reachable_inv: "reachable out st \<Longrightarrow> dl_inv no_extra st"
proof (induction rule: reachable.induct)
  case (reachable_step st e now st')
  then show ?case using run_event_inv [of st e out now] by auto
qed (rule download_new_inv)

text \<open>A stream that loads two parts, the first of which has arrived.\<close>

definition sample_outside :: outside where
  "sample_outside = \<lparr>ou_env = \<lparr>fe_open = True, fe_write = True, fe_junk = (\<lambda>_. 0)\<rparr>, ou_has_key = True,
     ou_sha256 = take 32, ou_aes_ctr = (\<lambda>_ _ data. data)\<rparr>"

definition sample_run :: "(int \<times> event) list" where
  "sample_run = map (Pair 1) [AddStream 2 (StorageFile []) 1000000, StreamLoad 0 [] 0, StreamLoad 0 [] 131072,
     NormalLoaded 0 1 (FileBytes [1, 2])]"

lemma sample_run_state:
  "\<exists>st rd b. run_events out sample_run download_new = Some st \<and> reachable out st \<and> length (dl_tasks st) = 1
     \<and> tk_sent (the_task 0 st) = [(2, rd)] \<and> tk_dc (the_task 0 st) = 2 \<and> dl_balance st 2 = Some b"
proof -
  have "map_option (\<lambda>st. (length (dl_tasks st), map fst (tk_sent (the_task 0 st)), tk_dc (the_task 0 st),
      map_option (\<lambda>b. length (dc_sessions b)) (dl_balance st 2))) (run_events out sample_run download_new) = Some (1, [2], 2, Some 1)"
    by code_simp
  then obtain st where st: "run_events out sample_run download_new = Some st" "length (dl_tasks st) = 1"
    "map fst (tk_sent (the_task 0 st)) = [2]" "tk_dc (the_task 0 st) = 2"
    "map_option (\<lambda>b. length (dc_sessions b)) (dl_balance st 2) = Some 1"
    by auto
  moreover have "all_enabled out sample_run download_new" by code_simp
  ultimately have "reachable out st" using reachable_run [OF reachable_new] by blast
  then show ?thesis using st by (auto simp: map_eq_Cons_conv)
qed

section \<open>A CDN that rejects its token\<close>

definition invalid_token :: mtp_error where
  "invalid_token = \<lparr>me_code = 400, me_type = ''FILE_TOKEN_INVALID''\<rparr>"

definition to_cdn :: file_result where
  "to_cdn = CdnRedirect 5 [1] (replicate 32 0) (replicate 16 0) []"

text \<open>A file of two bytes: redirected to a CDN, its part arrived without a hash, the request for the
  hash failed, and the part arrived again from the data center itself.\<close>

definition stuck_run :: "file_loader \<Rightarrow> (int \<times> event) list" where
  "stuck_run l = map (Pair 1) [AddLoader 2 (StorageFile []) l, LoaderStart 0, LocalLoaded 0 [],
     NormalLoaded 0 1 to_cdn, CdnLoaded 0 2 (CdnBytes [1, 2]), CdnFailed 0 3 invalid_token,
     NormalLoaded 0 4 (FileBytes [1, 2])]"

text \<open>Two parts: after the token was rejected both go to the CDN again, and the second arrives without
  a hash.\<close>

definition failing_run :: "(int \<times> event) list" where
  "failing_run = map (Pair 1) [AddStream 2 (StorageFile []) 1000000, StreamLoad 0 [] 0, StreamLoad 0 [] 131072,
     NormalLoaded 0 1 to_cdn, CdnLoaded 0 4 (CdnBytes [1, 2]), CdnFailed 0 5 invalid_token,
     NormalLoaded 0 7 to_cdn, CdnLoaded 0 8 (CdnBytes [1, 2])]"

section \<open>Properties\<close>

definition requests_of :: "int \<Rightarrow> download \<Rightarrow> request_data list" where
  "requests_of dc st = concat (map (\<lambda>k. map snd (tk_sent k)) (filter (\<lambda>k. tk_dc k = dc) (dl_tasks st)))"

lemma load_requests:
  "load_of sent_all dc ks = int (length (concat (map (\<lambda>k. map snd (tk_sent k)) (filter (\<lambda>k. tk_dc k = dc) ks))))"
  "load_of (sent_count j) dc ks = int (length (filter (\<lambda>rd. rq_session rd = j)
     (concat (map (\<lambda>k. map snd (tk_sent k)) (filter (\<lambda>k. tk_dc k = dc) ks)))))"
proof -
  have "sent_count j k = int (length (filter (\<lambda>rd. rq_session rd = j) (map snd (tk_sent k))))" for k
    by (simp add: sent_count_def filter_map comp_def flip: mset_filter)
  then show "load_of sent_all dc ks = int (length (concat (map (\<lambda>k. map snd (tk_sent k)) (filter (\<lambda>k. tk_dc k = dc) ks))))"
    "load_of (sent_count j) dc ks = int (length (filter (\<lambda>rd. rq_session rd = j)
       (concat (map (\<lambda>k. map snd (tk_sent k)) (filter (\<lambda>k. tk_dc k = dc) ks)))))"
    by (induction ks) (simp_all add: load_of_def sent_all_def)
qed

lemma inv_counts:
  assumes "dl_inv no_extra st" "dl_balance st dc = Some b"
  shows "dc_total b = kDownloadPartSize * int (length (requests_of dc st))"
    "j < length (dc_sessions b) \<Longrightarrow> bs_requested (dc_sessions b ! j) =
       kDownloadPartSize * int (length (filter (\<lambda>rd. rq_session rd = j) (requests_of dc st)))"
    "rd \<in> set (requests_of dc st) \<Longrightarrow> rq_session rd < length (dc_sessions b)" "balance_ok b"
proof -
  have "case dl_balance st dc of None \<Rightarrow> \<forall>k\<in>set (dl_tasks st). tk_dc k = dc \<longrightarrow> tk_sent k = [] \<and> tk_unchecked k = []
      | Some b \<Rightarrow> dc_counts (no_extra dc) b dc (dl_tasks st)"
    using assms(1) unfolding dl_inv_def accounts_def by blast
  then have counts: "dc_counts (no_extra dc) b dc (dl_tasks st)" using assms(2) by simp
  then show "dc_total b = kDownloadPartSize * int (length (requests_of dc st))"
    "j < length (dc_sessions b) \<Longrightarrow> bs_requested (dc_sessions b ! j) =
       kDownloadPartSize * int (length (filter (\<lambda>rd. rq_session rd = j) (requests_of dc st)))"
    by (simp_all add: dc_counts_def no_extra_def requests_of_def load_requests)
  show "balance_ok b" using counts by (simp add: dc_counts_def)
  show "rd \<in> set (requests_of dc st) \<Longrightarrow> rq_session rd < length (dc_sessions b)"
    using counts by (auto simp: requests_of_def dc_counts_def sessions_below_def)
qed



text \<open>C4: at any time the balance of a data center counts what is out. It waits for as many bytes as
  the requests of its tasks ask for, every session for those of the requests sent in it, and no
  request is in a session that does not exist.\<close>

theorem download_sessions_wait_for_requests:
  assumes "reachable out st" "dl_balance st dc = Some b"
  shows "dc_total b = kDownloadPartSize * int (length (requests_of dc st))
    \<and> map bs_requested (dc_sessions b) = map (\<lambda>j. kDownloadPartSize
        * int (length (filter (\<lambda>rd. rq_session rd = j) (requests_of dc st)))) [0..<length (dc_sessions b)]
    \<and> (\<forall>rd\<in>set (requests_of dc st). rq_session rd < length (dc_sessions b))"
  using inv_counts [OF reachable_inv [OF assms(1)] assms(2)] by (auto intro: nth_equalityI)

lemma download_sessions_wait_for_requests_witness:
  "\<exists>st b. reachable sample_outside st \<and> dl_balance st 2 = Some b \<and> dc_total b = kDownloadPartSize * int (length (requests_of 2 st))
    \<and> requests_of 2 st \<noteq> []"
proof -
  obtain st rd b where st: "reachable sample_outside st" "length (dl_tasks st) = 1" "tk_sent (the_task 0 st) = [(2, rd)]"
    "tk_dc (the_task 0 st) = 2" "dl_balance st 2 = Some b"
    using sample_run_state [of sample_outside] by blast
  have "dl_tasks st = [the_task 0 st]" using st(2) by (cases "dl_tasks st") (auto simp: the_task_def)
  then have "requests_of 2 st = [rd]" using st(3,4) by (simp add: requests_of_def)
  then show ?thesis using download_sessions_wait_for_requests [OF st(1,5)] st(1,5) by auto
qed






end
