(* ===== verification/CacheTypes.thy ===== *)
theory CacheTypes imports FlatMap begin

text \<open>
  The records of the local cache's log (\<^verbatim>\<open>lib_storage/storage/cache/storage_cache_types\<close>)
  and their bytes. The structs are written and read as they lie in memory, little-endian; a field of
  \<open>n\<close> bytes is \<open>n\<close> entries of the list. What encrypts the file is left out.
  \<open>None\<close> is a failed \<^verbatim>\<open>Expects\<close>.
\<close>

section \<open>Keys\<close>

datatype cache_key = Key (ck_high: "64 word") (ck_low: "64 word")

definition key_valid :: "cache_key \<Rightarrow> bool" where
  "key_valid k \<longleftrightarrow> ck_high k \<noteq> 0 \<or> ck_low k \<noteq> 0"

instantiation cache_key :: linorder
begin

definition less_cache_key :: "cache_key \<Rightarrow> cache_key \<Rightarrow> bool" where
  "less_cache_key a b \<longleftrightarrow> ck_high a < ck_high b \<or> ck_high a = ck_high b \<and> ck_low a < ck_low b"

definition less_eq_cache_key :: "cache_key \<Rightarrow> cache_key \<Rightarrow> bool" where
  "less_eq_cache_key a b \<longleftrightarrow> a < b \<or> a = b"

instance
proof
  fix a b c :: cache_key
  show "a < b \<longleftrightarrow> a \<le> b \<and> \<not> b \<le> a" "a \<le> a" "a \<le> b \<Longrightarrow> b \<le> c \<Longrightarrow> a \<le> c"
    "a \<le> b \<Longrightarrow> b \<le> a \<Longrightarrow> a = b" "a \<le> b \<or> b \<le> a"
    by (cases a; cases b; cases c; auto simp: less_eq_cache_key_def less_cache_key_def)+
qed

end

section \<open>Bytes of integers\<close>

fun le_bytes :: "nat \<Rightarrow> nat \<Rightarrow> bytes" where
  "le_bytes 0 v = []"
| "le_bytes (Suc n) v = word_of_nat v # le_bytes n (v div 256)"

fun le_value :: "bytes \<Rightarrow> nat" where
  "le_value [] = 0"
| "le_value (b # bs) = unat b + 256 * le_value bs"

text \<open>\<^verbatim>\<open>ReadTo\<close> and \<^verbatim>\<open>ReadFrom\<close>: sizes and counts packed in three
  bytes.\<close>

definition ReadTo :: "nat \<Rightarrow> nat \<Rightarrow> bytes option" where
  "ReadTo n v = (if v < 2 ^ (n * 8) then Some (le_bytes n v) else None)"

definition ReadFrom :: "bytes \<Rightarrow> nat" where
  "ReadFrom packed = foldl (\<lambda>result element. result * 256 + unat element) 0 (rev packed)"

definition ValidateStrictCount :: "bytes \<Rightarrow> int" where
  "ValidateStrictCount packed = (let result = ReadFrom packed in if result \<noteq> 0 then int result else -1)"

definition kBundledRecordsLimit :: nat where "kBundledRecordsLimit = 2 ^ 24"
definition kDataSizeLimit :: nat where "kDataSizeLimit = 2 ^ 24"

section \<open>Records\<close>

record time_point =
  tp_relative :: nat
  tp_system :: nat

text \<open>\<^verbatim>\<open>relative1\<close> and \<^verbatim>\<open>relative2\<close> are the two halves of
  the relative time.\<close>

definition time_bytes :: "time_point \<Rightarrow> bytes" where
  "time_bytes t = le_bytes 4 (tp_relative t mod 2 ^ 32) @ le_bytes 4 (tp_relative t div 2 ^ 32) @ le_bytes 4 (tp_system t)"

definition time_read :: "bytes \<Rightarrow> time_point" where
  "time_read bs = \<lparr>tp_relative = le_value (take 4 bs) + le_value (take 4 (drop 4 bs)) * 2 ^ 32,
     tp_system = le_value (take 4 (drop 8 bs))\<rparr>"

text \<open>\<^verbatim>\<open>Store\<close> and \<^verbatim>\<open>StoreWithTime\<close>; the former has no use for
  the time.\<close>

record store =
  so_tag :: "8 word"
  so_size :: bytes
  so_place :: bytes
  so_checksum :: "32 word"
  so_key :: cache_key
  so_time :: time_point

definition getSize :: "store \<Rightarrow> nat" where
  "getSize s = ReadFrom (so_size s)"

definition setSize :: "nat \<Rightarrow> store \<Rightarrow> store option" where
  "setSize n s = map_option (\<lambda>b. s\<lparr> so_size := b \<rparr>) (ReadTo 3 n)"

datatype log_record =
    StoreRecord store
  | MultiStore "store list"
  | MultiRemove "cache_key list"
  | MultiAccess time_point "cache_key list"

definition key_bytes :: "cache_key \<Rightarrow> bytes" where
  "key_bytes k = le_bytes 8 (unat (ck_high k)) @ le_bytes 8 (unat (ck_low k))"

definition key_read :: "bytes \<Rightarrow> cache_key" where
  "key_read bs = Key (word_of_nat (le_value (take 8 bs))) (word_of_nat (le_value (take 8 (drop 8 bs))))"

definition store_bytes :: "bool \<Rightarrow> store \<Rightarrow> bytes" where
  "store_bytes timed s = [1, so_tag s] @ so_size s @ so_place s @ le_bytes 4 (unat (so_checksum s)) @ key_bytes (so_key s)
     @ (if timed then time_bytes (so_time s) @ replicate 4 0 else [])"

definition store_read :: "bool \<Rightarrow> bytes \<Rightarrow> store" where
  "store_read timed bs = \<lparr>so_tag = bs ! 1, so_size = take 3 (drop 2 bs), so_place = take 7 (drop 5 bs),
     so_checksum = word_of_nat (le_value (take 4 (drop 12 bs))), so_key = key_read (take 16 (drop 16 bs)),
     so_time = (if timed then time_read (take 12 (drop 32 bs)) else \<lparr>tp_relative = 0, tp_system = 0\<rparr>)\<rparr>"

definition store_size :: "bool \<Rightarrow> nat" where
  "store_size timed = (if timed then 48 else 32)"

definition kHeadSize :: nat where "kHeadSize = 16"
definition kKeyPartSize :: nat where "kKeyPartSize = 16"

text \<open>The heads of the records of many parts: a type, a count and twelve bytes, which hold the time
  of a \<^verbatim>\<open>MultiAccess\<close>.\<close>

definition head_bytes :: "8 word \<Rightarrow> nat \<Rightarrow> bytes \<Rightarrow> bytes option" where
  "head_bytes type n rest = (if n < kBundledRecordsLimit then map_option (\<lambda>b. type # b @ rest) (ReadTo 3 n) else None)"

fun record_bytes :: "bool \<Rightarrow> log_record \<Rightarrow> bytes option" where
  "record_bytes timed (StoreRecord s) = Some (store_bytes timed s)"
| "record_bytes timed (MultiStore ss) =
     map_option (\<lambda>h. h @ concat (map (store_bytes timed) ss)) (head_bytes 2 (length ss) (replicate 12 0))"
| "record_bytes timed (MultiRemove ks) =
     map_option (\<lambda>h. h @ concat (map key_bytes ks)) (head_bytes 3 (length ks) (replicate 12 0))"
| "record_bytes timed (MultiAccess t ks) =
     map_option (\<lambda>h. h @ concat (map key_bytes ks)) (head_bytes 4 (length ks) (time_bytes t))"

section \<open>Header\<close>

record basic_header =
  bh_format :: nat
  bh_flags :: nat
  bh_system_time :: nat

definition kTrackEstimatedTime :: nat where "kTrackEstimatedTime = 1"

definition header_bytes :: "basic_header \<Rightarrow> bytes" where
  "header_bytes h = le_bytes 1 (bh_format h) @ le_bytes 3 (bh_flags h) @ le_bytes 4 (bh_system_time h) @ replicate 8 0"

definition header_read :: "bytes \<Rightarrow> basic_header" where
  "header_read bs = \<lparr>bh_format = le_value (take 1 bs), bh_flags = le_value (take 3 (drop 1 bs)),
     bh_system_time = le_value (take 4 (drop 4 bs))\<rparr>"

section \<open>Settings\<close>

record cache_settings =
  cs_max_bundled :: nat
  cs_read_block :: nat
  cs_max_data_size :: nat
  cs_write_bundle_delay :: int
  cs_stale_chunk :: nat
  cs_compact_excess :: int
  cs_compact_full :: int
  cs_compact_chunk :: nat
  cs_track_time :: bool
  cs_total_size_limit :: int
  cs_total_time_limit :: int
  cs_prune_timeout :: int
  cs_max_prune_check :: int
  cs_clear_on_wrong_key :: bool

definition default_settings :: cache_settings where
  "default_settings = \<lparr>cs_max_bundled = 16 * 1024, cs_read_block = 8 * 1024 * 1024,
     cs_max_data_size = kDataSizeLimit - 1, cs_write_bundle_delay = 15 * 60 * 1000, cs_stale_chunk = 256,
     cs_compact_excess = 8 * 1024 * 1024, cs_compact_full = 0, cs_compact_chunk = 16 * 1024,
     cs_track_time = True, cs_total_size_limit = 1024 * 1024 * 1024,
     cs_total_time_limit = 31 * 24 * 60 * 60, cs_prune_timeout = 5 * 1000,
     cs_max_prune_check = 3600 * 1000, cs_clear_on_wrong_key = False\<rparr>"

text \<open>\<^verbatim>\<open>DatabaseObject::checkSettings\<close>.\<close>

definition checkSettings :: "cache_settings \<Rightarrow> bool" where
  "checkSettings s \<longleftrightarrow> 0 < cs_stale_chunk s
     \<and> 0 < cs_max_data_size s \<and> cs_max_data_size s < kDataSizeLimit
     \<and> 0 < cs_max_bundled s \<and> cs_max_bundled s < kBundledRecordsLimit
     \<and> (cs_total_time_limit s = 0 \<or> 0 < cs_total_time_limit s)
     \<and> (cs_total_size_limit s = 0 \<or> int (cs_max_data_size s) < cs_total_size_limit s)"

section \<open>Places\<close>

text \<open>The path of a place: two hexadecimal digits for each of its seven bytes, the lower half first,
  with a slash after the first two.\<close>

definition place_digit :: "nat \<Rightarrow> char" where
  "place_digit d = ''0123456789ABCDEF'' ! d"

definition place_byte :: "8 word \<Rightarrow> string" where
  "place_byte b = [place_digit (unat b mod 16), place_digit (unat b div 16)]"

definition PlaceFromId :: "bytes \<Rightarrow> string" where
  "PlaceFromId place = (case place of
     [] \<Rightarrow> []
   | b # bs \<Rightarrow> place_byte b @ ''/'' @ concat (map place_byte bs))"

section \<open>Round trips\<close>

lemma le_bytes_numeral:
  "le_bytes (numeral n) v = word_of_nat v # le_bytes (pred_numeral n) (v div 256)"
  by (subst numeral_eq_Suc) (simp only: le_bytes.simps)

lemma length_le_bytes [simp]: "length (le_bytes n v) = n"
  by (induction n arbitrary: v) auto

lemma le_value_bytes: "v < 256 ^ n \<Longrightarrow> le_value (le_bytes n v) = v"
proof (induction n arbitrary: v)
  case (Suc n)
  then have "v div 256 < 256 ^ n" by (simp add: less_mult_imp_div_less mult.commute)
  moreover have "unat (word_of_nat v :: 8 word) = v mod 256" by (simp add: unat_of_nat)
  ultimately show ?case using Suc.IH by simp
qed simp

lemma le_value_less: "le_value bs < 256 ^ length bs"
proof (induction bs)
  case (Cons b bs)
  have "unat b < 256" using unsigned_less [of b, where 'a = nat] by simp
  then show ?case using Cons by simp
qed simp

lemma le_bytes_value: "le_bytes (length bs) (le_value bs) = bs"
proof (induction bs)
  case (Cons b bs)
  have "unat b < 256" using unsigned_less [of b, where 'a = nat] by simp
  moreover have "word_of_nat (unat b + 256 * le_value bs) = b"
  proof -
    have "(word_of_nat (256 * le_value bs) :: 8 word) = 0" by (simp only: word_of_nat_eq_0_iff) simp
    then show ?thesis by (simp only: of_nat_add) simp
  qed
  ultimately show ?case using Cons by simp
qed simp

lemma ReadFrom_eq: "ReadFrom bs = le_value bs"
  by (induction bs) (simp_all add: ReadFrom_def)

lemma ReadTo_ReadFrom: "ReadTo n v = Some b \<Longrightarrow> ReadFrom b = v \<and> length b = n"
proof -
  assume "ReadTo n v = Some b"
  moreover have "(2 :: nat) ^ (n * 8) = 256 ^ n" using power_mult [of "2 :: nat" 8 n] by (simp add: mult.commute)
  ultimately have "v < 256 ^ n" "b = le_bytes n v" by (auto simp: ReadTo_def split: if_splits)
  then show ?thesis by (simp add: ReadFrom_eq le_value_bytes)
qed

text \<open>What the fields of a record can hold.\<close>

definition time_ok :: "time_point \<Rightarrow> bool" where
  "time_ok t \<longleftrightarrow> tp_relative t < 2 ^ 64 \<and> tp_system t < 2 ^ 32"

definition store_ok :: "bool \<Rightarrow> store \<Rightarrow> bool" where
  "store_ok timed s \<longleftrightarrow> length (so_size s) = 3 \<and> length (so_place s) = 7
     \<and> (if timed then time_ok (so_time s) else so_time s = \<lparr>tp_relative = 0, tp_system = 0\<rparr>)"

lemma length_bytes [simp]: "length (time_bytes t) = 12" "length (key_bytes k) = 16"
  "store_ok timed s \<Longrightarrow> length (store_bytes timed s) = store_size timed"
  by (simp_all add: time_bytes_def key_bytes_def store_bytes_def store_ok_def store_size_def)

lemma time_round_trip: "time_ok t \<Longrightarrow> time_read (time_bytes t) = t"
proof -
  assume "time_ok t"
  then have "tp_relative t div 2 ^ 32 < 2 ^ 32" "tp_system t < 2 ^ 32" by (auto simp: time_ok_def less_mult_imp_div_less)
  then show ?thesis
    by (simp add: time_read_def time_bytes_def le_value_bytes mod_div_mult_eq mult.commute)
qed

lemma key_round_trip: "key_read (key_bytes k) = k"
proof -
  have "unat w < 256 ^ 8" for w :: "64 word" using unsigned_less [of w, where 'a = nat] by simp
  then show ?thesis by (cases k) (simp add: key_read_def key_bytes_def le_value_bytes)
qed

lemma store_round_trip:
  assumes "store_ok timed s"
  shows "store_read timed (store_bytes timed s) = s"
proof -
  have sizes: "length (so_size s) = 3" "length (so_place s) = 7" using assms by (simp_all add: store_ok_def)
  have "unat (so_checksum s) < 256 ^ 4" using unsigned_less [of "so_checksum s", where 'a = nat] by simp
  moreover have "timed \<Longrightarrow> time_read (time_bytes (so_time s)) = so_time s"
    using assms by (simp add: store_ok_def time_round_trip)
  ultimately show ?thesis
    using assms sizes
    by (cases timed; cases s) (simp_all add: store_read_def store_bytes_def le_value_bytes key_round_trip store_ok_def)
qed

lemma header_round_trip:
  "bh_format h < 2 ^ 8 \<Longrightarrow> bh_flags h < 2 ^ 24 \<Longrightarrow> bh_system_time h < 2 ^ 32 \<Longrightarrow> header_read (header_bytes h) = h"
  using le_value_bytes [of "bh_format h" 1] by (cases h) (simp add: header_read_def header_bytes_def le_value_bytes)

lemma place_byte_inj: "place_byte a = place_byte b \<longleftrightarrow> a = b"
proof
  assume eq: "place_byte a = place_byte b"
  have inj: "x = y" if "place_digit x = place_digit y" "x < 16" "y < 16" for x y
  proof -
    have "distinct ''0123456789ABCDEF''" by simp
    then show ?thesis using that unfolding place_digit_def by (subst (asm) nth_eq_iff_index_eq) simp_all
  qed
  have "unat w div 16 < 16" "unat w mod 16 < 16" for w :: "8 word"
    using unsigned_less [of w, where 'a = nat] by (auto simp: less_mult_imp_div_less)
  then have "unat a mod 16 = unat b mod 16" "unat a div 16 = unat b div 16"
    using eq inj by (auto simp: place_byte_def)
  then have "unat a = unat b" by (metis div_mult_mod_eq)
  then show "a = b" by (simp add: word_unat_eq_iff)
qed simp

lemma concat_place_bytes_inj: "concat (map place_byte as) = concat (map place_byte bs) \<Longrightarrow> as = bs"
proof (induction as arbitrary: bs)
  case Nil
  then show ?case by (cases bs) (auto simp: place_byte_def)
next
  case (Cons a as)
  then obtain b bs' where bs: "bs = b # bs'" by (cases bs) (auto simp: place_byte_def)
  have "length (place_byte a) = length (place_byte b)" by (simp add: place_byte_def)
  with Cons.prems bs have "place_byte a = place_byte b" "concat (map place_byte as) = concat (map place_byte bs')"
    by simp_all
  then show ?case using Cons.IH bs place_byte_inj by auto
qed

text \<open>Different places are different files.\<close>

lemma place_path_inj: "PlaceFromId a = PlaceFromId b \<Longrightarrow> a = b"
  by (cases a; cases b) (auto simp: PlaceFromId_def place_byte_def dest!: concat_place_bytes_inj
      intro: iffD1 [OF place_byte_inj])

end
