(* ===== verification/CacheBinlog.thy ===== *)
theory CacheBinlog imports CacheTypes "HOL-Library.Monad_Syntax" begin

text \<open>
  Reading the log (\<^verbatim>\<open>lib_storage/storage/cache/storage_cache_binlog_reader\<close>): block
  after block into a buffer, the records in it handed over one by one, what is left of a block
  joined with the next. The file is the list of its decrypted bytes and the position it is read at.
  A handler gets a record and a state and tells if it could use it. \<open>None\<close> is a failed
  \<^verbatim>\<open>Assert\<close> or \<^verbatim>\<open>Expects\<close>.
\<close>

section \<open>Sizes\<close>

datatype read_size = SizeUnknown | SizeInvalid | Size nat

definition ReadRecordSizeMulti :: "nat \<Rightarrow> bool \<Rightarrow> nat \<Rightarrow> bytes \<Rightarrow> read_size" where
  "ReadRecordSizeMulti limit strict part data =
     (if length data < kHeadSize then SizeUnknown
      else
        let packed = take 3 (drop 1 data); n = (if strict then ValidateStrictCount packed else int (ReadFrom packed)) in
        if 0 \<le> n \<and> n \<le> int limit then Size (kHeadSize + nat n * part) else SizeInvalid)"

text \<open>The records of a log with times are \<^verbatim>\<open>StoreWithTime\<close>,
  \<^verbatim>\<open>MultiStoreWithTime\<close>, \<^verbatim>\<open>MultiRemove\<close> and
  \<^verbatim>\<open>MultiAccess\<close>, without times \<^verbatim>\<open>Store\<close>,
  \<^verbatim>\<open>MultiStore\<close> and \<^verbatim>\<open>MultiRemove\<close>.\<close>

definition ReadRecordSize :: "cache_settings \<Rightarrow> bytes \<Rightarrow> read_size" where
  "ReadRecordSize s data =
     (if data = [] then SizeUnknown
      else if hd data = 1 then Size (store_size (cs_track_time s))
      else if hd data = 2 then ReadRecordSizeMulti (cs_max_bundled s) True (store_size (cs_track_time s)) data
      else if hd data = 3 then ReadRecordSizeMulti (cs_max_bundled s) True kKeyPartSize data
      else if hd data = 4 \<and> cs_track_time s then ReadRecordSizeMulti (cs_max_bundled s) False kKeyPartSize data
      else SizeInvalid)"

fun chunks :: "nat \<Rightarrow> nat \<Rightarrow> bytes \<Rightarrow> bytes list" where
  "chunks 0 sz data = []"
| "chunks (Suc n) sz data = take sz data # chunks n sz (drop sz data)"

text \<open>\<^verbatim>\<open>HandleRecord\<close>: the record in the bytes.\<close>

definition record_read :: "bool \<Rightarrow> bytes \<Rightarrow> log_record" where
  "record_read timed data =
     (let n = ReadFrom (take 3 (drop 1 data)); parts = drop kHeadSize data in
      if hd data = 1 then StoreRecord (store_read timed data)
      else if hd data = 2 then MultiStore (map (store_read timed) (chunks n (store_size timed) parts))
      else if hd data = 3 then MultiRemove (map key_read (chunks n kKeyPartSize parts))
      else MultiAccess (time_read (take 12 (drop 4 data))) (map key_read (chunks n kKeyPartSize parts)))"

definition CheckSettings :: "cache_settings \<Rightarrow> bool" where
  "CheckSettings s \<longleftrightarrow> kHeadSize + cs_max_bundled s * store_size (cs_track_time s) \<le> cs_read_block s"

section \<open>Blocks\<close>

record binlog_reader =
  br_data :: bytes
  br_offset :: nat
  br_till :: nat
  br_part :: bytes
  br_finished :: bool
  br_failed :: bool

definition reader_new :: "bytes \<Rightarrow> nat \<Rightarrow> nat \<Rightarrow> binlog_reader" where
  "reader_new data offset till = \<lparr>br_data = data, br_offset = offset,
     br_till = (if till \<noteq> 0 then till else length data), br_part = [], br_finished = False, br_failed = False\<rparr>"

text \<open>\<^verbatim>\<open>File::read\<close> gives whole blocks of the cipher.\<close>

definition file_read :: "nat \<Rightarrow> nat \<Rightarrow> bytes \<Rightarrow> bytes option" where
  "file_read offset n data =
     (if n mod 16 \<noteq> 0 then None
      else let got = take n (drop offset data) in Some (take (length got div 16 * 16) got))"

definition ReadHeader :: "cache_settings \<Rightarrow> bytes \<Rightarrow> nat \<Rightarrow> basic_header option" where
  "ReadHeader s data offset =
     (if offset \<noteq> 0 \<or> length data < kHeadSize then None
      else
        let h = header_read (take kHeadSize data) in
        if bh_format h \<noteq> 0 \<or> cs_track_time s \<noteq> odd (bh_flags h) then None else Some h)"

definition binlog_finish :: "nat \<Rightarrow> binlog_reader \<Rightarrow> binlog_reader" where
  "binlog_finish rollback r = r\<lparr> br_failed := br_failed r \<or> 0 < rollback,
     br_offset := br_offset r - (rollback + length (br_part r)) \<rparr>"

definition readPart :: "cache_settings \<Rightarrow> binlog_reader \<Rightarrow> (bool \<times> binlog_reader) option" where
  "readPart s r =
     (if br_finished r then Some (False, r)
      else
        let left = int (br_till r) - int (br_offset r) in
        if left = 0 then Some (False, binlog_finish 0 r)
        else
          let amount = min left (int (cs_read_block s) - int (length (br_part r))) in
          if amount \<le> 0 then None
          else do {
            got \<leftarrow> file_read (br_offset r) (nat amount) (br_data r);
            if got = [] then Some (False, binlog_finish 0 r)
            else Some (True, r\<lparr> br_part := br_part r @ got, br_offset := br_offset r + length got \<rparr>) })"

text \<open>\<^verbatim>\<open>gsl::span::size\<close> (\<^verbatim>\<open>ThirdParty/GSL\<close>) is a \<^verbatim>\<open>std::size_t\<close>: compared with it, the signed
  constants \<^verbatim>\<open>kRecordSizeUnknown\<close> = -1 and \<^verbatim>\<open>kRecordSizeInvalid\<close> = -2 are the
  largest of the unsigned numbers.\<close>

definition size_unsigned :: "read_size \<Rightarrow> nat" where
  "size_unsigned z = (case z of SizeUnknown \<Rightarrow> 2 ^ 64 - 1 | SizeInvalid \<Rightarrow> 2 ^ 64 - 2 | Size n \<Rightarrow> n)"

definition readRecord :: "cache_settings \<Rightarrow> binlog_reader \<Rightarrow> bytes option \<times> binlog_reader" where
  "readRecord s r =
     (if br_finished r then (None, r)
      else
        let z = ReadRecordSize s (br_part r) in
        if z = SizeUnknown \<or> length (br_part r) < size_unsigned z then (None, r)
        else if z = SizeInvalid then (None, (binlog_finish 0 r)\<lparr> br_finished := True, br_failed := True \<rparr>)
        else (Some (take (size_unsigned z) (br_part r)), r\<lparr> br_part := drop (size_unsigned z) (br_part r) \<rparr>))"

lemma ReadRecordSize_pos: "ReadRecordSize s data = Size n \<Longrightarrow> 16 \<le> n \<and> data \<noteq> []"
  by (auto simp: ReadRecordSize_def ReadRecordSizeMulti_def store_size_def kHeadSize_def Let_def split: if_splits)

function read_loop :: "cache_settings \<Rightarrow> (log_record \<Rightarrow> 's \<Rightarrow> bool \<times> 's) \<Rightarrow> binlog_reader \<Rightarrow> 's
    \<Rightarrow> bool \<times> binlog_reader \<times> 's" where
  "read_loop s h r st = (case readRecord s r of
     (None, r) \<Rightarrow> (False, r, st)
   | (Some data, r) \<Rightarrow> (case h (record_read (cs_track_time s) data) st of
       (True, st) \<Rightarrow> read_loop s h r st
     | (False, st) \<Rightarrow> (True, binlog_finish (length data) r, st)))"
  by pat_completeness auto
termination
  by (relation "measure (\<lambda>(s, h, r, st). length (br_part r))")
    (auto simp: readRecord_def Let_def size_unsigned_def dest: ReadRecordSize_pos split: if_splits read_size.splits)

definition readTillEnd :: "cache_settings \<Rightarrow> (log_record \<Rightarrow> 's \<Rightarrow> bool \<times> 's) \<Rightarrow> binlog_reader \<Rightarrow> 's
    \<Rightarrow> (bool \<times> binlog_reader \<times> 's) option" where
  "readTillEnd s h r st = do {
     (more, r) \<leftarrow> readPart s r;
     Some (if more then read_loop s h r st else (True, r, st)) }"

text \<open>\<^verbatim>\<open>DatabaseObject::readBinlogHelper\<close>.\<close>

partial_function (option) read_binlog :: "cache_settings \<Rightarrow> (log_record \<Rightarrow> 's \<Rightarrow> bool \<times> 's) \<Rightarrow> binlog_reader \<Rightarrow> 's
    \<Rightarrow> (binlog_reader \<times> 's) option" where
  "read_binlog s h r st = do {
     (done_reading, r, st) \<leftarrow> readTillEnd s h r st;
     if done_reading then Some (r, st) else read_binlog s h r st }"

declare read_binlog.simps [code]

section \<open>Reading what was written\<close>

definition record_ok :: "cache_settings \<Rightarrow> log_record \<Rightarrow> bool" where
  "record_ok s r \<longleftrightarrow> (case r of
     StoreRecord st \<Rightarrow> store_ok (cs_track_time s) st
   | MultiStore ss \<Rightarrow> 0 < length ss \<and> length ss \<le> cs_max_bundled s \<and> (\<forall>st\<in>set ss. store_ok (cs_track_time s) st)
   | MultiRemove ks \<Rightarrow> 0 < length ks \<and> length ks \<le> cs_max_bundled s
   | MultiAccess t ks \<Rightarrow> cs_track_time s \<and> length ks \<le> cs_max_bundled s \<and> time_ok t)"

definition settings_ok :: "cache_settings \<Rightarrow> bool" where
  "settings_ok s \<longleftrightarrow> CacheTypes.checkSettings s \<and> CheckSettings s \<and> 16 dvd cs_read_block s"

lemma chunks_concat:
  "\<forall>x\<in>set xs. length (f x) = n \<Longrightarrow> chunks (length xs) n (concat (map f xs)) = map f xs"
  by (induction xs) auto

lemma length_concat_same: "\<forall>x\<in>set xs. length (f x) = n \<Longrightarrow> length (concat (map f xs)) = length xs * n"
  by (induction xs) auto

lemma head_bytes_shape:
  assumes "head_bytes type n rest = Some h" "length rest = 12"
  shows "\<exists>packed. h = type # packed @ rest \<and> length packed = 3 \<and> ReadFrom packed = n \<and> length h = 16"
  using assms by (auto simp: head_bytes_def dest: ReadTo_ReadFrom split: if_splits)

text \<open>The size of a record is read from its first sixteen bytes, the type from the first.\<close>

lemma multi_size_of:
  assumes "head_bytes type n rest = Some h" "length rest = 12" "n \<le> limit" "strict \<Longrightarrow> 0 < n"
  shows "kHeadSize \<le> k \<Longrightarrow> ReadRecordSizeMulti limit strict part (take k (h @ tail)) = Size (kHeadSize + n * part)"
    and "k < kHeadSize \<Longrightarrow> ReadRecordSizeMulti limit strict part (take k (h @ tail)) = SizeUnknown"
proof -
  obtain packed where h: "h = type # packed @ rest" "length packed = 3" "ReadFrom packed = n" "length h = 16"
    using head_bytes_shape [OF assms(1,2)] by blast
  show "k < kHeadSize \<Longrightarrow> ReadRecordSizeMulti limit strict part (take k (h @ tail)) = SizeUnknown"
    using h(4) by (simp add: ReadRecordSizeMulti_def kHeadSize_def)
  assume k: "kHeadSize \<le> k"
  then have "take 3 (drop 1 (take k (h @ tail))) = packed"
    using h by (simp add: kHeadSize_def drop_take take_Cons' drop_Cons' min_def)
  then show "ReadRecordSizeMulti limit strict part (take k (h @ tail)) = Size (kHeadSize + n * part)"
    using k h(3,4) assms(3,4)
    by (simp add: ReadRecordSizeMulti_def kHeadSize_def ValidateStrictCount_def Let_def)
qed

lemma multi_record_of:
  assumes "head_bytes type (length xs) rest = Some h" "length rest = 12" "length xs \<le> limit" "strict \<Longrightarrow> 0 < length xs"
    "\<forall>x\<in>set xs. length (f x) = part" "16 dvd part"
  defines "e \<equiv> h @ concat (map f xs)"
  shows "length e = kHeadSize + length xs * part" "16 dvd length e"
    "length e \<le> k \<Longrightarrow> ReadRecordSizeMulti limit strict part (take k (e @ tail)) = Size (length e)"
    "k < length e \<Longrightarrow> ReadRecordSizeMulti limit strict part (take k (e @ tail)) \<in> {SizeUnknown, Size (length e)}"
    "hd e = type" "take 12 (drop 4 e) = rest" "map (chunks (ReadFrom (take 3 (drop 1 e))) part) [drop kHeadSize e] = [map f xs]"
proof -
  obtain packed where h: "h = type # packed @ rest" "length packed = 3" "ReadFrom packed = length xs" "length h = 16"
    using head_bytes_shape [OF assms(1,2)] by blast
  show len: "length e = kHeadSize + length xs * part"
    using h(4) length_concat_same [OF assms(5)] by (simp add: e_def kHeadSize_def)
  show "16 dvd length e" using assms(6) by (simp add: len kHeadSize_def)
  have eq: "take k (e @ tail) = take k (h @ concat (map f xs) @ tail)" by (simp add: e_def)
  note size = multi_size_of [OF assms(1-4), where part = part and k = k and tail = "concat (map f xs) @ tail", folded eq, folded len]
  show "length e \<le> k \<Longrightarrow> ReadRecordSizeMulti limit strict part (take k (e @ tail)) = Size (length e)"
    using size(1) len by simp
  show "k < length e \<Longrightarrow> ReadRecordSizeMulti limit strict part (take k (e @ tail)) \<in> {SizeUnknown, Size (length e)}"
    using size by (cases "kHeadSize \<le> k") simp_all
  show "hd e = type" "take 12 (drop 4 e) = rest" using h assms(2) by (simp_all add: e_def)
  show "map (chunks (ReadFrom (take 3 (drop 1 e))) part) [drop kHeadSize e] = [map f xs]"
    using h chunks_concat [OF assms(5)] by (simp add: e_def kHeadSize_def)
qed

lemma record_size_of:
  assumes "settings_ok s" "record_ok s r" "record_bytes (cs_track_time s) r = Some e"
  shows "16 \<le> length e \<and> 16 dvd length e \<and> length e \<le> cs_read_block s
    \<and> (length e \<le> k \<longrightarrow> ReadRecordSize s (take k (e @ tail)) = Size (length e))
    \<and> (k < length e \<longrightarrow> ReadRecordSize s (take k (e @ tail)) \<in> {SizeUnknown, Size (length e)})
    \<and> record_read (cs_track_time s) e = r"
proof -
  let ?t = "cs_track_time s"
  have block: "kHeadSize + n * m \<le> cs_read_block s" if "n \<le> cs_max_bundled s" "m \<le> store_size ?t" for n m
    using mult_le_mono [OF that] assms(1) by (simp add: settings_ok_def CheckSettings_def)
  have ne: "0 < k \<Longrightarrow> take k (e @ tail) \<noteq> [] \<and> hd (take k (e @ tail)) = hd e" if "e \<noteq> []"
    using that by (cases e; cases k) auto
  have unknown: "k = 0 \<Longrightarrow> ReadRecordSize s (take k (e @ tail)) = SizeUnknown" by (simp add: ReadRecordSize_def)
  show ?thesis
  proof (cases r)
    case (StoreRecord st)
    have ok: "store_ok ?t st" "e = store_bytes ?t st" using assms(2,3) StoreRecord by (simp_all add: record_ok_def)
    have "store_size ?t \<le> cs_read_block s"
      using block [of 1 "store_size ?t"] assms(1) by (simp add: settings_ok_def CacheTypes.checkSettings_def)
    moreover have "length e = store_size ?t" "hd e = 1" using ok length_bytes(3) [OF ok(1)] by (simp_all add: store_bytes_def)
    moreover have "e \<noteq> []" using ok by (simp add: store_bytes_def)
    ultimately show ?thesis
      using ok store_round_trip [OF ok(1)] ne unknown StoreRecord
      by (cases "k = 0") (auto simp: ReadRecordSize_def record_read_def store_size_def)
  next
    case (MultiStore ss)
    obtain h where h: "head_bytes 2 (length ss) (replicate 12 0) = Some h" "e = h @ concat (map (store_bytes ?t) ss)"
      using assms(3) MultiStore by auto
    have ok: "0 < length ss" "length ss \<le> cs_max_bundled s" "\<forall>x\<in>set ss. store_ok ?t x"
      using assms(2) MultiStore by (simp_all add: record_ok_def)
    then have lens: "\<forall>x\<in>set ss. length (store_bytes ?t x) = store_size ?t" by simp
    note multi = multi_record_of [OF h(1) _ ok(2) _ lens, where strict = True, folded h(2)]
    have "map (store_read ?t) (map (store_bytes ?t) ss) = ss"
      using ok(3) store_round_trip by (simp add: map_idI)
    then show ?thesis
      using multi ok block [OF ok(2)] ne unknown MultiStore
      by (cases "k = 0") (auto simp: ReadRecordSize_def record_read_def kHeadSize_def store_size_def)
  next
    case (MultiRemove ks)
    obtain h where h: "head_bytes 3 (length ks) (replicate 12 0) = Some h" "e = h @ concat (map key_bytes ks)"
      using assms(3) MultiRemove by auto
    have ok: "0 < length ks" "length ks \<le> cs_max_bundled s" using assms(2) MultiRemove by (simp_all add: record_ok_def)
    have lens: "\<forall>x\<in>set ks. length (key_bytes x) = kKeyPartSize" by (simp add: kKeyPartSize_def)
    note multi = multi_record_of [OF h(1) _ ok(2) _ lens, where strict = True, folded h(2)]
    have "map key_read (map key_bytes ks) = ks" by (simp add: map_idI key_round_trip)
    then show ?thesis
      using multi ok block [OF ok(2), of kKeyPartSize] ne unknown MultiRemove
      by (cases "k = 0") (auto simp: ReadRecordSize_def record_read_def kHeadSize_def store_size_def kKeyPartSize_def)
  next
    case (MultiAccess t ks)
    obtain h where h: "head_bytes 4 (length ks) (time_bytes t) = Some h" "e = h @ concat (map key_bytes ks)"
      using assms(3) MultiAccess by auto
    have ok: "?t" "length ks \<le> cs_max_bundled s" "time_ok t" using assms(2) MultiAccess by (simp_all add: record_ok_def)
    have lens: "\<forall>x\<in>set ks. length (key_bytes x) = kKeyPartSize" by (simp add: kKeyPartSize_def)
    note multi = multi_record_of [OF h(1) _ ok(2) _ lens, where strict = False, folded h(2)]
    have "map key_read (map key_bytes ks) = ks" by (simp add: map_idI key_round_trip)
    then show ?thesis
      using multi ok time_round_trip [OF ok(3)] block [OF ok(2), of kKeyPartSize] ne unknown MultiAccess
      by (cases "k = 0") (auto simp: ReadRecordSize_def record_read_def kHeadSize_def store_size_def kKeyPartSize_def)
  qed
qed

text \<open>What follows the whole records: the beginning of one more, as a write that was cut off leaves it.\<close>

definition torn :: "cache_settings \<Rightarrow> bytes \<Rightarrow> bool" where
  "torn s tail \<longleftrightarrow> (\<exists>r e. record_ok s r \<and> record_bytes (cs_track_time s) r = Some e
     \<and> (\<exists>k<length e. tail = take k e) \<and> 16 dvd length tail)"

fun log_bytes :: "bool \<Rightarrow> log_record list \<Rightarrow> bytes option" where
  "log_bytes timed [] = Some []"
| "log_bytes timed (r # rs) = do { e \<leftarrow> record_bytes timed r; es \<leftarrow> log_bytes timed rs; Some (e @ es) }"

fun handle_all :: "(log_record \<Rightarrow> 's \<Rightarrow> bool \<times> 's) \<Rightarrow> log_record list \<Rightarrow> 's \<Rightarrow> 's option" where
  "handle_all h [] st = Some st"
| "handle_all h (r # rs) st = (case h r st of (True, st) \<Rightarrow> handle_all h rs st | (False, _) \<Rightarrow> None)"

text \<open>A buffer that begins no record that is whole.\<close>

definition stuck :: "cache_settings \<Rightarrow> bytes \<Rightarrow> bool" where
  "stuck s p \<longleftrightarrow> length p < cs_read_block s
     \<and> (ReadRecordSize s p = SizeUnknown \<or> length p < size_unsigned (ReadRecordSize s p))"

lemma begins_record_stuck:
  assumes "settings_ok s" "record_ok s r" "record_bytes (cs_track_time s) r = Some e" "length p < length e" "e @ es = p @ u"
  shows "stuck s p"
proof -
  have p: "p = take (length p) (e @ es)" using assms(5) by simp
  have "length p < cs_read_block s" using record_size_of [OF assms(1-3)] assms(4) by fastforce
  moreover have "ReadRecordSize s p \<in> {SizeUnknown, Size (length e)}"
    using record_size_of [OF assms(1-3), of "length p" es] assms(4) p by simp
  ultimately show ?thesis using assms(4) by (auto simp: stuck_def size_unsigned_def)
qed

lemma torn_stuck:
  assumes "settings_ok s" "torn s (p @ u)"
  shows "stuck s p"
proof -
  obtain r e m where r: "record_ok s r" "record_bytes (cs_track_time s) r = Some e" "m < length e" "p @ u = take m e"
    using assms(2) unfolding torn_def by blast
  have "e = p @ u @ drop m e" using r(4) by (metis append.assoc append_take_drop_id)
  moreover have "length p < length e" using r(3,4) by (metis length_append length_take min.absorb4 not_add_less1 not_less less_le_trans)
  ultimately show ?thesis using begins_record_stuck [OF assms(1) r(1,2), of p "[]" "u @ drop m e"] by simp
qed

text \<open>What can follow the whole records without being taken for one.\<close>

definition dead :: "cache_settings \<Rightarrow> bytes \<Rightarrow> bool" where
  "dead s tail \<longleftrightarrow> 16 dvd length tail \<and> (\<forall>p u. tail = p @ u \<longrightarrow> stuck s p)"

lemma dead_stuck: "dead s (p @ u) \<Longrightarrow> stuck s p"
  by (simp add: dead_def)

lemma torn_dead: "settings_ok s \<Longrightarrow> torn s tail \<Longrightarrow> dead s tail"
  using torn_stuck unfolding dead_def by (metis torn_def)

lemma stuck_readRecord: "stuck s (br_part rd) \<Longrightarrow> readRecord s rd = (None, rd)"
  by (auto simp: readRecord_def stuck_def Let_def)

text \<open>The records that are whole in the buffer are handled, the rest stays in it.\<close>

lemma read_loop_handles:
  assumes "settings_ok s" "\<forall>r\<in>set rs. record_ok s r" "log_bytes (cs_track_time s) rs = Some es" "dead s tail"
    "\<not> br_finished rd" "es @ tail = br_part rd @ u" "handle_all h rs st = Some final"
  shows "\<exists>rs' es' st' p'. read_loop s h rd st = (False, rd\<lparr> br_part := p' \<rparr>, st')
    \<and> set rs' \<subseteq> set rs \<and> handle_all h rs' st' = Some final
    \<and> log_bytes (cs_track_time s) rs' = Some es' \<and> es' @ tail = p' @ u \<and> stuck s p'"
  using assms(2-)
proof (induction rs arbitrary: es rd st)
  case Nil
  then have "stuck s (br_part rd)" using dead_stuck by simp
  moreover have "rd\<lparr> br_part := br_part rd \<rparr> = rd" by simp
  ultimately show ?case using Nil stuck_readRecord [of s rd]
    by (intro exI [of _ "[]"] exI [of _ st] exI [of _ "br_part rd"]) simp
next
  case (Cons r rs)
  obtain e es' where e: "record_bytes (cs_track_time s) r = Some e" "log_bytes (cs_track_time s) rs = Some es'" "es = e @ es'"
    using Cons.prems(2) by (auto split: bind_splits)
  have r: "record_ok s r" using Cons.prems(1) by simp
  note size = record_size_of [OF assms(1) r e(1)]
  show ?case
  proof (cases "length e \<le> length (br_part rd)")
    case False
    then have "stuck s (br_part rd)"
      using begins_record_stuck [OF assms(1) r e(1), of "br_part rd" "es' @ tail" u] Cons.prems(5) e(3) by simp
    moreover have "rd\<lparr> br_part := br_part rd \<rparr> = rd" by simp
    ultimately show ?thesis using Cons.prems stuck_readRecord [of s rd]
      by (intro exI [of _ "r # rs"] exI [of _ es] exI [of _ st] exI [of _ "br_part rd"]) simp
  next
    case True
    then obtain p where p: "br_part rd = e @ p" "es' @ tail = p @ u"
      using Cons.prems(5) e(3) that [of "drop (length e) (br_part rd)"]
      by (auto simp: append_eq_append_conv_if) (metis append_take_drop_id)
    have "ReadRecordSize s (br_part rd) = Size (length e)"
      using size [of "length (br_part rd)" p] True p(1) by simp
    then have rec: "readRecord s rd = (Some e, rd\<lparr> br_part := p \<rparr>)"
      using p(1) Cons.prems(4) by (simp add: readRecord_def size_unsigned_def)
    obtain st1 where st1: "h r st = (True, st1)" "handle_all h rs st1 = Some final"
      using Cons.prems(6) by (auto split: prod.splits bool.splits)
    have "read_loop s h rd st = read_loop s h (rd\<lparr> br_part := p \<rparr>) st1"
      using rec st1(1) size by simp
    moreover obtain rs' es'' st' p' where "read_loop s h (rd\<lparr> br_part := p \<rparr>) st1 = (False, rd\<lparr> br_part := p' \<rparr>, st')"
      "set rs' \<subseteq> set rs" "handle_all h rs' st' = Some final" "log_bytes (cs_track_time s) rs' = Some es''"
      "es'' @ tail = p' @ u" "stuck s p'"
      using Cons.IH [of es' "rd\<lparr> br_part := p \<rparr>" st1] Cons.prems e p st1 by (auto simp del: read_loop.simps)
    ultimately show ?thesis
      by (intro exI [of _ rs'] exI [of _ es''] exI [of _ st'] exI [of _ p']) (auto simp del: read_loop.simps)
  qed
qed

lemma log_bytes_dvd:
  "settings_ok s \<Longrightarrow> \<forall>r\<in>set rs. record_ok s r \<Longrightarrow> log_bytes (cs_track_time s) rs = Some es \<Longrightarrow> 16 dvd length es"
proof (induction rs arbitrary: es)
  case (Cons r rs)
  then obtain e es' where e: "record_bytes (cs_track_time s) r = Some e" "log_bytes (cs_track_time s) rs = Some es'" "es = e @ es'"
    by (auto split: bind_splits)
  then have "16 dvd length e" using record_size_of [OF Cons.prems(1) _ e(1)] Cons.prems(2) by simp
  then show ?case using Cons e by simp
qed simp

lemma stuck_none_whole:
  assumes "settings_ok s" "\<forall>r\<in>set rs. record_ok s r" "log_bytes (cs_track_time s) rs = Some es" "stuck s (es @ tail)"
  shows "rs = []"
proof (rule ccontr)
  assume "rs \<noteq> []"
  then obtain r rs' where rs: "rs = r # rs'" by (cases rs) auto
  then obtain e es' where e: "record_bytes (cs_track_time s) r = Some e" "es = e @ es'"
    using assms(3) by (auto split: bind_splits)
  have "ReadRecordSize s (es @ tail) = Size (length e)"
    using record_size_of [OF assms(1) _ e(1), of "length (es @ tail)" "es' @ tail"] assms(2) rs e(2) by simp
  then show False using assms(4) e(2) by (simp add: stuck_def size_unsigned_def)
qed

text \<open>A reader in the middle of a log: the records \<open>rs\<close> are still to come, and handling
  them leads to \<open>final\<close>.\<close>

definition reading :: "cache_settings \<Rightarrow> (log_record \<Rightarrow> 's \<Rightarrow> bool \<times> 's) \<Rightarrow> bytes \<Rightarrow> 's \<Rightarrow> binlog_reader \<Rightarrow> 's
    \<Rightarrow> log_record list \<Rightarrow> bool" where
  "reading s h tail final rd st rs \<longleftrightarrow> (\<exists>es. (\<forall>r\<in>set rs. record_ok s r) \<and> log_bytes (cs_track_time s) rs = Some es
     \<and> \<not> br_finished rd \<and> \<not> br_failed rd \<and> br_offset rd \<le> br_till rd \<and> br_till rd \<le> length (br_data rd)
     \<and> 16 dvd br_offset rd \<and> 16 dvd br_till rd
     \<and> es @ tail = br_part rd @ drop (br_offset rd) (take (br_till rd) (br_data rd)) \<and> stuck s (br_part rd)
     \<and> handle_all h rs st = Some final)"

lemma reading_end:
  assumes "settings_ok s" "reading s h tail final rd st rs" "br_offset rd = br_till rd"
  shows "readTillEnd s h rd st = Some (True, binlog_finish 0 rd, st)" "st = final" "br_part rd = tail" "rs = []"
proof -
  obtain es where es: "\<forall>r\<in>set rs. record_ok s r" "log_bytes (cs_track_time s) rs = Some es" "es @ tail = br_part rd"
    "stuck s (br_part rd)" "handle_all h rs st = Some final" "\<not> br_finished rd"
    using assms(2,3) by (auto simp: reading_def)
  show "rs = []" using stuck_none_whole [OF assms(1) es(1,2), of tail] es(3,4) by simp
  then show "st = final" "br_part rd = tail" using es by simp_all
  show "readTillEnd s h rd st = Some (True, binlog_finish 0 rd, st)"
    using assms(3) es(6) by (simp add: readTillEnd_def readPart_def)
qed

lemma reading_part:
  assumes s: "settings_ok s" and rd: "reading s h tail final rd st rs" and more: "br_offset rd \<noteq> br_till rd" and dead: "dead s tail"
  obtains rd' st' rs' where "readTillEnd s h rd st = Some (False, rd', st')" "reading s h tail final rd' st' rs'" "set rs' \<subseteq> set rs"
    "br_offset rd < br_offset rd'" "br_till rd' = br_till rd" "br_data rd' = br_data rd"
proof -
  obtain es where es: "\<forall>r\<in>set rs. record_ok s r" "log_bytes (cs_track_time s) rs = Some es" "\<not> br_finished rd" "\<not> br_failed rd"
    "br_offset rd \<le> br_till rd" "br_till rd \<le> length (br_data rd)" "16 dvd br_offset rd" "16 dvd br_till rd"
    "es @ tail = br_part rd @ drop (br_offset rd) (take (br_till rd) (br_data rd))" "stuck s (br_part rd)" "handle_all h rs st = Some final"
    using rd unfolding reading_def by blast
  define left where "left = br_till rd - br_offset rd"
  define n where "n = min left (cs_read_block s - length (br_part rd))"
  define got where "got = take n (drop (br_offset rd) (br_data rd))"
  define rd1 where "rd1 = rd\<lparr> br_part := br_part rd @ got, br_offset := br_offset rd + length got \<rparr>"
  have block: "length (br_part rd) < cs_read_block s" using es(10) by (simp add: stuck_def)
  have left: "0 < left" using more es(5) by (simp add: left_def)
  have n: "0 < n" "n \<le> left" using block left by (simp_all add: n_def)
  have "16 dvd length (br_part rd)"
  proof -
    have "length (br_part rd) + left = length es + length tail"
      using arg_cong [OF es(9), of length] es(6) by (simp add: left_def)
    moreover have "16 dvd length es + length tail"
      using log_bytes_dvd [OF s es(1,2)] dead unfolding dead_def by (blast intro: dvd_add)
    moreover have "16 dvd left" using es(7,8) by (simp add: left_def dvd_diff_nat)
    ultimately show ?thesis by (metis dvd_add_left_iff)
  qed
  then have "16 dvd n" using es(7,8) s by (simp add: n_def left_def min_def dvd_diff_nat settings_ok_def)
  have got: "length got = n" using n es(6) by (simp add: got_def left_def)
  have "nat (min (int (br_till rd) - int (br_offset rd)) (int (cs_read_block s) - int (length (br_part rd)))) = n"
    using es(5) block by (simp add: n_def left_def min_def of_nat_diff nat_diff_distrib)
  moreover have "0 < min (int (br_till rd) - int (br_offset rd)) (int (cs_read_block s) - int (length (br_part rd)))"
    using left block by (simp add: left_def)
  moreover have "file_read (br_offset rd) n (br_data rd) = Some got"
    using \<open>16 dvd n\<close> got by (simp add: file_read_def Let_def flip: got_def)
  ultimately have part: "readPart s rd = Some (True, rd1)"
    using es(3) left got n(1) by (auto simp: readPart_def Let_def left_def rd1_def)
  have "got = take n (drop (br_offset rd) (take (br_till rd) (br_data rd)))"
    using n(2) by (simp add: got_def left_def drop_take min_def)
  then have rest: "es @ tail = br_part rd1 @ drop (br_offset rd1) (take (br_till rd) (br_data rd))"
    using es(9) got by (simp add: rd1_def) (metis append_take_drop_id drop_drop add.commute)
  obtain rs' es' st' p' where loop: "read_loop s h rd1 st = (False, rd1\<lparr> br_part := p' \<rparr>, st')"
    and rs': "set rs' \<subseteq> set rs" "handle_all h rs' st' = Some final" "log_bytes (cs_track_time s) rs' = Some es'"
    "es' @ tail = p' @ drop (br_offset rd1) (take (br_till rd) (br_data rd))" "stuck s p'"
    using read_loop_handles [OF s es(1,2) dead _ rest es(11)] es(3) by (auto simp: rd1_def)
  have "readTillEnd s h rd st = Some (False, rd1\<lparr> br_part := p' \<rparr>, st')"
    using part loop by (simp add: readTillEnd_def)
  moreover have "reading s h tail final (rd1\<lparr> br_part := p' \<rparr>) st' rs'"
    unfolding reading_def using rs' es(1,3-8) got n \<open>16 dvd n\<close>
    by (intro exI [of _ es']) (auto simp: rd1_def left_def)
  ultimately show ?thesis using that [of "rd1\<lparr> br_part := p' \<rparr>" st' rs'] rs'(1) got n(1) by (simp add: rd1_def)
qed

lemma read_binlog_reads:
  assumes "settings_ok s" "dead s tail" "reading s h tail final rd st rs"
  shows "\<exists>rd'. read_binlog s h rd st = Some (rd', final) \<and> \<not> br_failed rd' \<and> br_offset rd' = br_till rd - length tail"
  using assms(3)
proof (induction "br_till rd - br_offset rd" arbitrary: rs rd st rule: less_induct)
  case less
  show ?case
  proof (cases "br_offset rd = br_till rd")
    case True
    have "\<not> br_failed rd" using less.prems by (auto simp: reading_def)
    then show ?thesis
      using True reading_end [OF assms(1) less.prems True] by (subst read_binlog.simps) (simp add: binlog_finish_def)
  next
    case False
    obtain rd' st' rs' where part: "readTillEnd s h rd st = Some (False, rd', st')" "reading s h tail final rd' st' rs'"
      "br_offset rd < br_offset rd'" "br_till rd' = br_till rd"
      using reading_part [OF assms(1) less.prems False assms(2)] by metis
    have "br_offset rd' \<le> br_till rd'" using part(2) by (auto simp: reading_def)
    then show ?thesis
      using less.hyps [OF _ part(2)] part(1,3,4) by (subst read_binlog.simps) simp
  qed
qed

text \<open>The whole log, from behind its header.\<close>

lemma read_binlog_from_start:
  assumes "settings_ok s" "length header = 16" "\<forall>r\<in>set rs. record_ok s r" "log_bytes (cs_track_time s) rs = Some es"
    "dead s tail" "handle_all handler rs st = Some final"
  shows "\<exists>rd. read_binlog s handler (reader_new (header @ es @ tail) kHeadSize 0) st = Some (rd, final)
    \<and> \<not> br_failed rd \<and> br_offset rd = kHeadSize + length es"
proof -
  have "16 dvd length tail" using assms(5) unfolding dead_def by blast
  then have "reading s handler tail final (reader_new (header @ es @ tail) kHeadSize 0) st rs"
    unfolding reading_def using assms(1-4,6) log_bytes_dvd [OF assms(1,3,4)]
    by (intro exI [of _ es]) (simp add: reader_new_def kHeadSize_def stuck_def ReadRecordSize_def settings_ok_def CheckSettings_def)
  from read_binlog_reads [OF assms(1,5) this] show ?thesis using assms(2) by (simp add: reader_new_def kHeadSize_def)
qed

lemma invalid_prefix:
  assumes "ReadRecordSize s (p @ u) = SizeInvalid"
  shows "ReadRecordSize s p \<in> {SizeUnknown, SizeInvalid}"
proof (cases "p = [] \<or> length p < 16")
  case False
  then have "take 3 (drop 1 (p @ u)) = take 3 (drop 1 p)" "hd (p @ u) = hd p" "p @ u \<noteq> []" "p \<noteq> []"
    "\<not> length (p @ u) < 16" "\<not> length p < 16" by simp_all
  then show ?thesis
    using assms unfolding ReadRecordSize_def ReadRecordSizeMulti_def kHeadSize_def Let_def by (auto split: if_splits)
next
  case True
  then show ?thesis
    using assms by (cases p) (auto simp: ReadRecordSize_def ReadRecordSizeMulti_def kHeadSize_def Let_def split: if_splits)
qed

lemma invalid_dead:
  assumes "ReadRecordSize s bad = SizeInvalid" "16 dvd length bad" "length bad < cs_read_block s" "cs_read_block s < 2 ^ 63"
  shows "dead s bad"
  unfolding dead_def
proof (intro conjI allI impI)
  fix p u assume "bad = p @ u"
  then show "stuck s p"
    using invalid_prefix [of s p u] assms by (auto simp: stuck_def size_unsigned_def)
qed (rule assms(2))

lemma invalid_fills_block:
  assumes "ReadRecordSize s (take (cs_read_block s) bad) = SizeInvalid" "cs_read_block s < length bad"
    "16 dvd cs_read_block s" "0 < cs_read_block s" "cs_read_block s < 2 ^ 63"
  shows "read_binlog s handler (reader_new (header @ bad) (length header) 0) st = None"
proof -
  define rd where "rd = reader_new (header @ bad) (length header) 0"
  have first: "readPart s rd = Some (True, rd\<lparr> br_part := take (cs_read_block s) bad, br_offset := length header + cs_read_block s \<rparr>)"
    using assms by (auto simp: readPart_def rd_def reader_new_def file_read_def Let_def min_def)
  have loop: "read_loop s handler (rd\<lparr> br_part := take (cs_read_block s) bad, br_offset := n \<rparr>) st
      = (False, rd\<lparr> br_part := take (cs_read_block s) bad, br_offset := n \<rparr>, st)" for n
    using assms by (auto simp: readRecord_def Let_def size_unsigned_def rd_def reader_new_def)
  have second: "readPart s (rd\<lparr> br_part := take (cs_read_block s) bad, br_offset := length header + cs_read_block s \<rparr>) = None"
    using assms by (auto simp: readPart_def rd_def reader_new_def Let_def)
  have "read_binlog s handler rd st = None"
    by (subst read_binlog.simps, simp add: readTillEnd_def first loop del: read_loop.simps,
        subst read_binlog.simps, simp add: readTillEnd_def second)
  then show ?thesis by (simp add: rd_def)
qed


section \<open>Properties\<close>

definition header_ok :: "cache_settings \<Rightarrow> basic_header \<Rightarrow> bool" where
  "header_ok s h \<longleftrightarrow> bh_format h = 0 \<and> bh_flags h = (if cs_track_time s then kTrackEstimatedTime else 0)
     \<and> bh_system_time h < 2 ^ 32"

lemma header_reads:
  assumes "header_ok s h"
  shows "ReadHeader s (header_bytes h @ bs) 0 = Some h"
proof -
  have "header_read (header_bytes h) = h"
    using assms by (intro header_round_trip) (auto simp: header_ok_def kTrackEstimatedTime_def)
  moreover have "length (header_bytes h) = 16" by (simp add: header_bytes_def)
  ultimately show ?thesis
    using assms by (simp add: ReadHeader_def kHeadSize_def header_ok_def kTrackEstimatedTime_def)
qed

text \<open>C17: a log is read back as it was written, whatever the size of the blocks it is read in. The
  handlers get exactly the records that are in it, in their order; a record at the end that was cut
  off in the middle is left alone, and the position is where it begins, so that the next record is
  written over it.\<close>

theorem cache_log_read_back:
  assumes "settings_ok s" "header_ok s h" "\<forall>r\<in>set rs. record_ok s r" "log_bytes (cs_track_time s) rs = Some es"
    "torn s tail" "handle_all handler rs st = Some final"
  defines "data \<equiv> header_bytes h @ es @ tail"
  shows "ReadHeader s data 0 = Some h \<and> (\<exists>rd. read_binlog s handler (reader_new data kHeadSize 0) st = Some (rd, final)
    \<and> \<not> br_failed rd \<and> br_offset rd = kHeadSize + length es)"
proof -
  have len: "length (header_bytes h) = 16" by (simp add: header_bytes_def)
  have "ReadHeader s data 0 = Some h" unfolding data_def by (rule header_reads [OF assms(2)])
  moreover note read_binlog_from_start [OF assms(1) len assms(3,4) torn_dead [OF assms(1,5)] assms(6)]
  ultimately show ?thesis by (simp add: data_def)
qed

definition small_settings :: cache_settings where
  "small_settings = default_settings\<lparr> cs_max_bundled := 1, cs_read_block := 64, cs_compact_chunk := 1 \<rparr>"

definition torn_head :: bytes where
  "torn_head = [3, 1, 0, 0] @ replicate 12 0"

lemma small_settings_ok: "settings_ok small_settings"
  by (simp add: settings_ok_def CacheTypes.checkSettings_def CheckSettings_def small_settings_def default_settings_def
      kDataSizeLimit_def kBundledRecordsLimit_def kHeadSize_def store_size_def)

lemma torn_head_torn: "torn small_settings torn_head"
proof -
  have "map_option (\<lambda>e. (take 16 e, length e)) (record_bytes True (MultiRemove [Key 1 2])) = Some (torn_head, 32)"
    by (simp add: head_bytes_def ReadTo_def kBundledRecordsLimit_def key_bytes_def torn_head_def le_bytes_numeral)
  then obtain e where "record_bytes True (MultiRemove [Key 1 2]) = Some e" "torn_head = take 16 e" "length e = 32"
    by (auto simp del: record_bytes.simps)
  moreover have "record_ok small_settings (MultiRemove [Key 1 2])" "cs_track_time small_settings" "16 dvd length torn_head"
    by (simp_all add: record_ok_def small_settings_def default_settings_def torn_head_def)
  ultimately have "record_bytes (cs_track_time small_settings) (MultiRemove [Key 1 2]) = Some e"
    "record_ok small_settings (MultiRemove [Key 1 2])" "16 dvd length torn_head" "16 < length e" "torn_head = take 16 e"
    by simp_all
  then show ?thesis unfolding torn_def by blast
qed

lemma cache_log_read_back_witness:
  "\<exists>es rd. log_bytes True [MultiRemove [Key 1 2], MultiAccess \<lparr>tp_relative = 5, tp_system = 6\<rparr> [Key 1 2]] = Some es
     \<and> read_binlog small_settings (\<lambda>r rs. (True, rs @ [r]))
         (reader_new (header_bytes \<lparr>bh_format = 0, bh_flags = 1, bh_system_time = 7\<rparr> @ es @ torn_head) kHeadSize 0) []
       = Some (rd, [MultiRemove [Key 1 2], MultiAccess \<lparr>tp_relative = 5, tp_system = 6\<rparr> [Key 1 2]])"
proof -
  let ?rs = "[MultiRemove [Key 1 2], MultiAccess \<lparr>tp_relative = 5, tp_system = 6\<rparr> [Key 1 2]]"
  have "log_bytes True ?rs \<noteq> None"
    by (simp add: head_bytes_def ReadTo_def kBundledRecordsLimit_def)
  then obtain es where es: "log_bytes True ?rs = Some es" by blast
  have s: "settings_ok small_settings" "cs_track_time small_settings"
    using small_settings_ok by (simp_all add: small_settings_def default_settings_def)
  then have log: "log_bytes (cs_track_time small_settings) ?rs = Some es" using es by simp
  have records: "\<forall>r\<in>set ?rs. record_ok small_settings r"
    by (simp add: record_ok_def small_settings_def default_settings_def time_ok_def)
  have header: "header_ok small_settings \<lparr>bh_format = 0, bh_flags = 1, bh_system_time = 7\<rparr>"
    by (simp add: header_ok_def kTrackEstimatedTime_def s(2))
  have handled: "handle_all (\<lambda>r rs. (True, rs @ [r])) ?rs [] = Some ?rs" by simp
  show ?thesis
    using cache_log_read_back [OF s(1) header records log torn_head_torn handled] es by blast
qed

text \<open>C39: a record that cannot be, with an unknown type or a bad count, is not reported as a failure:
  the check for it is behind a comparison with an unsigned size that it never passes. Where all of it
  is within one block the log counts as read, up to where the record begins; where more than a block
  follows, the reader fills its buffer and the next \<^verbatim>\<open>Assert\<close> fails.\<close>

theorem cache_bad_record_not_reported:
  assumes "settings_ok s" "cs_read_block s < 2 ^ 63" "length header = 16"
    "\<forall>r\<in>set rs. record_ok s r" "log_bytes (cs_track_time s) rs = Some es" "handle_all handler rs st = Some final"
    "ReadRecordSize s bad = SizeInvalid" "16 dvd length bad" "length bad < cs_read_block s"
    "ReadRecordSize s (take (cs_read_block s) huge) = SizeInvalid" "cs_read_block s < length huge"
  shows "(\<exists>rd. read_binlog s handler (reader_new (header @ es @ bad) kHeadSize 0) st = Some (rd, final)
      \<and> \<not> br_failed rd \<and> br_offset rd = kHeadSize + length es)
    \<and> read_binlog s handler (reader_new (header @ huge) kHeadSize 0) st = None"
proof
  show "\<exists>rd. read_binlog s handler (reader_new (header @ es @ bad) kHeadSize 0) st = Some (rd, final)
      \<and> \<not> br_failed rd \<and> br_offset rd = kHeadSize + length es"
    using read_binlog_from_start [OF assms(1,3,4,5) invalid_dead [OF assms(7,8,9,2)] assms(6)] .
  have "16 dvd cs_read_block s" "0 < cs_read_block s"
    using assms(1) by (auto simp: settings_ok_def CheckSettings_def kHeadSize_def)
  then show "read_binlog s handler (reader_new (header @ huge) kHeadSize 0) st = None"
    using invalid_fills_block [of s huge handler header st] assms by (simp add: kHeadSize_def)
qed

lemma cache_bad_record_not_reported_witness:
  "(\<exists>rd. read_binlog small_settings (\<lambda>r rs. (True, rs @ [r])) (reader_new (replicate 16 0 @ [] @ replicate 16 9) kHeadSize 0) []
     = Some (rd, []) \<and> \<not> br_failed rd)
   \<and> read_binlog small_settings (\<lambda>r rs. (True, rs @ [r])) (reader_new (replicate 16 0 @ replicate 80 9) kHeadSize 0) [] = None"
proof -
  have s: "settings_ok small_settings" "cs_read_block small_settings < 2 ^ 63" "length (replicate 16 (0 :: 8 word)) = 16"
    using small_settings_ok by (simp_all add: small_settings_def default_settings_def)
  have "\<forall>r\<in>set []. record_ok small_settings r" "log_bytes (cs_track_time small_settings) [] = Some []"
    "handle_all (\<lambda>r rs. (True, rs @ [r])) [] [] = Some []"
    "ReadRecordSize small_settings (replicate 16 9) = SizeInvalid" "16 dvd length (replicate 16 (9 :: 8 word))"
    "length (replicate 16 (9 :: 8 word)) < cs_read_block small_settings"
    "ReadRecordSize small_settings (take (cs_read_block small_settings) (replicate 80 9)) = SizeInvalid"
    "cs_read_block small_settings < length (replicate 80 (9 :: 8 word))"
    by (simp_all add: ReadRecordSize_def small_settings_def default_settings_def)
  from cache_bad_record_not_reported [OF s this] show ?thesis by blast
qed

end
