(* ===== verification/XxHash.thy ===== *)
theory XxHash imports CacheTypes begin

text \<open>
  The checksum of the values in the cache: \<^verbatim>\<open>XXH32\<close>
  (\<^verbatim>\<open>ThirdParty/xxHash/xxhash.h\<close>), words of 32 bits read little-endian.
\<close>

unbundle bit_operations_syntax

definition XXH_PRIME32_1 :: "32 word" where "XXH_PRIME32_1 = 0x9E3779B1"
definition XXH_PRIME32_2 :: "32 word" where "XXH_PRIME32_2 = 0x85EBCA77"
definition XXH_PRIME32_3 :: "32 word" where "XXH_PRIME32_3 = 0xC2B2AE3D"
definition XXH_PRIME32_4 :: "32 word" where "XXH_PRIME32_4 = 0x27D4EB2F"
definition XXH_PRIME32_5 :: "32 word" where "XXH_PRIME32_5 = 0x165667B1"

definition XXH_rotl32 :: "32 word \<Rightarrow> nat \<Rightarrow> 32 word" where
  "XXH_rotl32 x r = push_bit r x OR drop_bit (32 - r) x"

definition XXH_readLE32 :: "bytes \<Rightarrow> 32 word" where
  "XXH_readLE32 p = word_of_nat (le_value (take 4 p))"

definition XXH32_round :: "32 word \<Rightarrow> 32 word \<Rightarrow> 32 word" where
  "XXH32_round acc input = XXH_rotl32 (acc + input * XXH_PRIME32_2) 13 * XXH_PRIME32_1"

definition XXH32_avalanche :: "32 word \<Rightarrow> 32 word" where
  "XXH32_avalanche hash =
     (let hash = (hash XOR drop_bit 15 hash) * XXH_PRIME32_2;
          hash = (hash XOR drop_bit 13 hash) * XXH_PRIME32_3
      in hash XOR drop_bit 16 hash)"

fun XXH32_bytes :: "32 word \<Rightarrow> bytes \<Rightarrow> 32 word" where
  "XXH32_bytes hash [] = hash"
| "XXH32_bytes hash (b # p) = XXH32_bytes (XXH_rotl32 (hash + ucast b * XXH_PRIME32_5) 11 * XXH_PRIME32_1) p"

function XXH32_words :: "32 word \<Rightarrow> bytes \<Rightarrow> 32 word" where
  "XXH32_words hash p =
     (if 4 \<le> length p then XXH32_words (XXH_rotl32 (hash + XXH_readLE32 p * XXH_PRIME32_3) 17 * XXH_PRIME32_4) (drop 4 p)
      else XXH32_avalanche (XXH32_bytes hash p))"
  by pat_completeness auto
termination by (relation "measure (length \<circ> snd)") auto

definition XXH32_finalize :: "32 word \<Rightarrow> bytes \<Rightarrow> 32 word" where
  "XXH32_finalize hash p = XXH32_words hash p"

function XXH32_stripes :: "32 word \<times> 32 word \<times> 32 word \<times> 32 word \<Rightarrow> bytes
    \<Rightarrow> (32 word \<times> 32 word \<times> 32 word \<times> 32 word) \<times> bytes" where
  "XXH32_stripes (v1, v2, v3, v4) input =
     (if 16 \<le> length input then
        XXH32_stripes (XXH32_round v1 (XXH_readLE32 input), XXH32_round v2 (XXH_readLE32 (drop 4 input)),
          XXH32_round v3 (XXH_readLE32 (drop 8 input)), XXH32_round v4 (XXH_readLE32 (drop 12 input))) (drop 16 input)
      else ((v1, v2, v3, v4), input))"
  by pat_completeness auto
termination by (relation "measure (length \<circ> snd)") auto

definition XXH32_endian_align :: "bytes \<Rightarrow> 32 word \<Rightarrow> 32 word" where
  "XXH32_endian_align input seed =
     (if 16 \<le> length input then
        (case XXH32_stripes (seed + XXH_PRIME32_1 + XXH_PRIME32_2, seed + XXH_PRIME32_2, seed, seed - XXH_PRIME32_1) input of
           ((v1, v2, v3, v4), p) \<Rightarrow>
             XXH32_finalize (XXH_rotl32 v1 1 + XXH_rotl32 v2 7 + XXH_rotl32 v3 12 + XXH_rotl32 v4 18
               + word_of_nat (length input)) p)
      else XXH32_finalize (seed + XXH_PRIME32_5 + word_of_nat (length input)) input)"

definition XXH32 :: "bytes \<Rightarrow> 32 word \<Rightarrow> 32 word" where
  "XXH32 input seed = XXH32_endian_align input seed"

text \<open>\<^verbatim>\<open>CountChecksum\<close> of the cache.\<close>

definition CountChecksum :: "bytes \<Rightarrow> 32 word" where
  "CountChecksum data = XXH32 data 0"

declare XXH32_words.simps [simp del] XXH32_stripes.simps [simp del]

end
