(* ===== verification/CacheDatabase.thy ===== *)
theory CacheDatabase imports CacheBinlog XxHash FlatSet "HOL-Library.AList" begin

text \<open>
  The local cache (\<^verbatim>\<open>lib_storage/storage/cache/storage_cache_database_object\<close>): a map from
  keys to the places of the files that hold their values, a log it is rebuilt from, and the limits on
  the size and the age of what it keeps. The map is a list of pairs in the order of its iteration,
  the log the bytes of its file, which \<^verbatim>\<open>CacheBinlog\<close> reads, and the position records are
  written at; a file of a value is its bytes. Both are the bytes decrypted. What a call gets from outside, the clocks and the outcome of each write, is an
  \<open>env\<close>. \<open>None\<close> is a failed \<^verbatim>\<open>Expects\<close> or
  \<^verbatim>\<open>Assert\<close>; the answer to a callback is the value returned.
\<close>

section \<open>State\<close>

record entry =
  ce_time :: nat
  ce_size :: nat
  ce_checksum :: "32 word"
  ce_place :: bytes
  ce_tag :: "8 word"

definition no_entry :: entry where
  "no_entry = \<lparr>ce_time = 0, ce_size = 0, ce_checksum = 0, ce_place = replicate 7 0, ce_tag = 0\<rparr>"

datatype cache_path = VersionPath | BinlogPath | PlacePath bytes

datatype cache_error = NoError | IoError cache_path | WrongKey cache_path | LockFailed cache_path

record tagged_value =
  tv_bytes :: bytes
  tv_tag :: "8 word"

definition no_value :: tagged_value where
  "no_value = \<lparr>tv_bytes = [], tv_tag = 0\<rparr>"

record tagged_summary =
  ts_count :: int
  ts_total :: int

record cache_stats =
  st_full :: tagged_summary
  st_tagged :: "(8 word \<times> tagged_summary) list"
  st_clearing :: bool

record compactor_info =
  ci_till :: nat
  ci_system_time :: nat
  ci_keys :: nat

record compactor_wrap =
  cw_object :: "compactor_info option"
  cw_excess :: int
  cw_next_attempt :: int
  cw_delay :: int

definition compactor_none :: compactor_wrap where
  "compactor_none = \<lparr>cw_object = None, cw_excess = 0, cw_next_attempt = 0, cw_delay = 10 * 1000\<rparr>"

definition kMaxDelayAfterFailure :: int where
  "kMaxDelayAfterFailure = 24 * 60 * 60 * 1000"

record database =
  db_settings :: cache_settings
  db_open :: bool
  db_key :: bool
  db_log :: bytes
  db_offset :: nat
  db_ready :: "bytes option"
  db_files :: "bytes \<rightharpoonup> bytes"
  db_map :: "(cache_key \<times> entry) list"
  db_removing :: "cache_key list"
  db_accessed :: "cache_key list"
  db_stale :: "cache_key list"
  db_time :: time_point
  db_excess :: int
  db_total :: int
  db_min_time :: nat
  db_min_count :: nat
  db_tagged :: "(8 word \<times> tagged_summary) list"
  db_consumers :: bool
  db_fired :: "cache_stats list"
  db_pushing :: bool
  db_clearing :: bool
  db_bundles_timer :: "int option"
  db_prune_timer :: "int option"
  db_cleaner :: bool
  db_compactor :: compactor_wrap

text \<open>\<open>db_key\<close> tells if the key of the cipher is set, \<open>db_ready\<close> is the
  compacted log that waits to take the place of the log. \<open>ev_unix\<close> is \<^verbatim>\<open>time(nullptr)\<close>, \<open>ev_clock\<close>
  \<^verbatim>\<open>crl::now()\<close>; \<open>ev_log_ok\<close> is the outcome of a write to the log, of which
  \<open>ev_log_written\<close> bytes reach the file if it fails; \<open>ev_places\<close> are the draws of
  \<^verbatim>\<open>bytes::set_random\<close> and \<open>ev_padding\<close> what fills up the last block
  of a file.\<close>

datatype open_result = OpenSuccess | OpenFailed | OpenLocked | OpenWrongKey

record env =
  ev_unix :: int
  ev_clock :: int
  ev_log_ok :: bool
  ev_log_written :: nat
  ev_log_open :: open_result
  ev_version_ok :: bool
  ev_new_open :: open_result
  ev_move_ok :: bool
  ev_open :: open_result
  ev_write_ok :: bool
  ev_places :: "bytes list"
  ev_padding :: "nat \<Rightarrow> 8 word"
  ev_readable :: "bytes \<Rightarrow> bool"
  ev_removable :: "bytes \<Rightarrow> bool"

definition GetUnixtime :: "env \<Rightarrow> int" where
  "GetUnixtime v = max (i32 (ev_unix v)) 1"

section \<open>Time\<close>

definition time_passed :: "env \<Rightarrow> database \<Rightarrow> nat" where
  "time_passed v d = nat (max (GetUnixtime v - int (tp_system (db_time d))) 0)"

definition countRelativeTime :: "env \<Rightarrow> database \<Rightarrow> nat" where
  "countRelativeTime v d = tp_relative (db_time d) + time_passed v d"

definition countTimePoint :: "env \<Rightarrow> database \<Rightarrow> time_point" where
  "countTimePoint v d = \<lparr>tp_relative = tp_relative (db_time d) + time_passed v d, tp_system = nat (GetUnixtime v)\<rparr>"

definition applyTimePoint :: "time_point \<Rightarrow> database \<Rightarrow> database" where
  "applyTimePoint t d = (if tp_relative (db_time d) < tp_relative t then d\<lparr> db_time := t \<rparr> else d)"

definition pruneBeforeTime :: "env \<Rightarrow> database \<Rightarrow> nat" where
  "pruneBeforeTime v d =
     (let relative = countRelativeTime v d; limit = cs_total_time_limit (db_settings d) in
      if limit \<noteq> 0 \<and> limit < int relative then nat (int relative - limit) else 0)"

section \<open>Statistics\<close>

definition collectStats :: "database \<Rightarrow> cache_stats" where
  "collectStats d = \<lparr>st_full = \<lparr>ts_count = int (length (db_map d)), ts_total = db_total d\<rparr>,
     st_tagged = db_tagged d, st_clearing = db_cleaner d \<or> db_stale d \<noteq> []\<rparr>"

definition pushStats :: "database \<Rightarrow> database" where
  "pushStats d = (if db_consumers d then d\<lparr> db_fired := db_fired d @ [collectStats d] \<rparr> else d)"

definition pushStatsDelayed :: "database \<Rightarrow> database" where
  "pushStatsDelayed d = d\<lparr> db_pushing := True \<rparr>"

text \<open>What \<^verbatim>\<open>pushStatsDelayed\<close> posts to the queue of the object.\<close>

definition push_posted :: "database \<Rightarrow> database" where
  "push_posted d = (if db_pushing d then pushStats (d\<lparr> db_pushing := False \<rparr>) else d)"

definition add_summary :: "8 word \<Rightarrow> int \<Rightarrow> int \<Rightarrow> (8 word \<times> tagged_summary) list \<Rightarrow> (8 word \<times> tagged_summary) list" where
  "add_summary tag n amount xs =
     (case fm_index \<lparr>ts_count = 0, ts_total = 0\<rparr> xs tag of
        (xs, i) \<Rightarrow> xs[i := (fst (xs ! i),
          \<lparr>ts_count = ts_count (snd (xs ! i)) + n, ts_total = ts_total (snd (xs ! i)) + amount\<rparr>)])"

definition has_size :: "entry \<Rightarrow> int" where
  "has_size e = (if ce_size e \<noteq> 0 then 1 else 0)"

definition updateStats :: "entry \<Rightarrow> entry \<Rightarrow> database \<Rightarrow> database" where
  "updateStats was now d =
     (let d = d\<lparr> db_total := db_total d + (int (ce_size now) - int (ce_size was)) \<rparr>;
          tagged = db_tagged d;
          tagged = (if ce_tag now = ce_tag was then
              (if ce_tag now \<noteq> 0
               then add_summary (ce_tag now) (has_size now - has_size was) (int (ce_size now) - int (ce_size was)) tagged
               else tagged)
            else
              (let tagged = (if ce_tag now \<noteq> 0 then add_summary (ce_tag now) (has_size now) (int (ce_size now)) tagged else tagged)
               in if ce_tag was \<noteq> 0 then add_summary (ce_tag was) (- has_size was) (- int (ce_size was)) tagged else tagged))
      in pushStatsDelayed (d\<lparr> db_tagged := tagged \<rparr>))"

section \<open>The map\<close>

definition db_find :: "cache_key \<Rightarrow> database \<Rightarrow> entry option" where
  "db_find k d = map_of (db_map d) k"

text \<open>The time of the oldest entries and how many have it.\<close>

definition drop_minimal :: "database \<Rightarrow> database option" where
  "drop_minimal d =
     (if db_min_count d = 0 then None
      else Some (d\<lparr> db_min_count := db_min_count d - 1,
        db_min_time := (if db_min_count d - 1 = 0 then 0 else db_min_time d) \<rparr>))"

definition setMapEntry :: "cache_key \<Rightarrow> entry \<Rightarrow> database \<Rightarrow> database option" where
  "setMapEntry k e d =
     (let already = (case db_find k d of Some was \<Rightarrow> was | None \<Rightarrow> no_entry);
          d = updateStats already e d;
          d = (if ce_size already \<noteq> 0
               then d\<lparr> db_excess := db_excess d + int (store_size (cs_track_time (db_settings d))) \<rparr> else d)
      in do {
        d \<leftarrow> (if ce_time e \<noteq> 0 \<and> (ce_time e < db_min_time d \<or> db_min_time d = 0)
              then Some (d\<lparr> db_min_time := ce_time e, db_min_count := 1 \<rparr>)
              else if db_min_time d \<noteq> 0 \<and> ce_time already \<noteq> ce_time e then
                (if ce_time e = db_min_time d
                 then (if db_min_count d = 0 then None else Some (d\<lparr> db_min_count := db_min_count d + 1 \<rparr>))
                 else if ce_time already = db_min_time d then drop_minimal d else Some d)
              else Some d);
        Some (d\<lparr> db_map := AList.update k e (db_map d) \<rparr>) })"

definition eraseMapEntry :: "cache_key \<Rightarrow> database \<Rightarrow> database option" where
  "eraseMapEntry k d =
     (case db_find k d of
        None \<Rightarrow> Some d
      | Some e \<Rightarrow> do {
          let d = updateStats e no_entry d;
          d \<leftarrow> (if db_min_time d \<noteq> 0 \<and> ce_time e = db_min_time d then drop_minimal d else Some d);
          Some (d\<lparr> db_map := AList.delete k (db_map d) \<rparr>) })"

section \<open>Records of the log\<close>

definition processRecordStore :: "store \<Rightarrow> database \<Rightarrow> (bool \<times> database) option" where
  "processRecordStore s d =
     (let n = getSize s in
      if n = 0 \<or> cs_max_data_size (db_settings d) < n then Some (False, d)
      else
        let e = \<lparr>ce_time = tp_relative (db_time d), ce_size = n, ce_checksum = so_checksum s,
                ce_place = so_place s, ce_tag = so_tag s\<rparr>;
            (d, e) = (if cs_track_time (db_settings d)
              then (applyTimePoint (so_time s) d, e\<lparr> ce_time := tp_relative (so_time s) \<rparr>) else (d, e))
        in map_option (Pair True) (setMapEntry (so_key s) e d))"

fun processRecordMultiStore :: "store list \<Rightarrow> database \<Rightarrow> (bool \<times> database) option" where
  "processRecordMultiStore [] d = Some (True, d)"
| "processRecordMultiStore (s # ss) d = do {
     (ok, d) \<leftarrow> processRecordStore s d;
     if ok then processRecordMultiStore ss d else Some (False, d) }"

fun remove_keys :: "cache_key list \<Rightarrow> database \<Rightarrow> database option" where
  "remove_keys [] d = Some d"
| "remove_keys (k # ks) d = do {
     d \<leftarrow> eraseMapEntry k (d\<lparr> db_excess := db_excess d + int kKeyPartSize \<rparr>);
     remove_keys ks d }"

definition processRecordMultiRemove :: "cache_key list \<Rightarrow> database \<Rightarrow> (bool \<times> database) option" where
  "processRecordMultiRemove ks d =
     map_option (Pair True) (remove_keys ks (d\<lparr> db_excess := db_excess d + int kHeadSize \<rparr>))"

definition touch :: "nat \<Rightarrow> cache_key \<Rightarrow> (cache_key \<times> entry) list \<Rightarrow> (cache_key \<times> entry) list" where
  "touch t k m = (case map_of m k of None \<Rightarrow> m | Some e \<Rightarrow> AList.update k (e\<lparr> ce_time := t \<rparr>) m)"

definition processRecordMultiAccess :: "time_point \<Rightarrow> cache_key list \<Rightarrow> database \<Rightarrow> (bool \<times> database) option" where
  "processRecordMultiAccess t ks d =
     (if \<not> cs_track_time (db_settings d) then None
      else
        let d = applyTimePoint t d in
        Some (True, d\<lparr> db_excess := db_excess d + int kHeadSize + int (length ks) * int kKeyPartSize,
          db_map := fold (touch (tp_relative t)) ks (db_map d) \<rparr>))"

definition process_record :: "log_record \<Rightarrow> database \<Rightarrow> (bool \<times> database) option" where
  "process_record r d = (case r of
     StoreRecord s \<Rightarrow> processRecordStore s d
   | MultiStore ss \<Rightarrow> processRecordMultiStore ss d
   | MultiRemove ks \<Rightarrow> processRecordMultiRemove ks d
   | MultiAccess t ks \<Rightarrow> processRecordMultiAccess t ks d)"

section \<open>Files of values\<close>

definition writeWithPadding :: "env \<Rightarrow> bytes \<Rightarrow> bytes" where
  "writeWithPadding v data =
     (let part = length data mod 16 in
      data @ (if part = 0 then [] else map (ev_padding v) [part..<16]))"

definition readWithPadding :: "nat \<Rightarrow> bytes \<Rightarrow> bytes option" where
  "readWithPadding n data =
     (let part = n mod 16; good = n - part in
      do {
        got \<leftarrow> (if good \<noteq> 0 then file_read 0 good data else Some []);
        if length got \<noteq> good \<or> part = 0 then Some got
        else do {
          block \<leftarrow> file_read good 16 data;
          if block = [] then Some got
          else if length block \<noteq> 16 then None
          else Some (got @ take part block) } })"

definition readValueData :: "env \<Rightarrow> bytes \<Rightarrow> nat \<Rightarrow> database \<Rightarrow> bytes option" where
  "readValueData v place n d =
     (case db_files d place of
        Some data \<Rightarrow>
          if ev_readable v place
          then map_option (\<lambda>got. if length got \<noteq> n then [] else got) (readWithPadding n data)
          else Some []
      | None \<Rightarrow> Some [])"

text \<open>A file opened to be written cannot have the wrong key.\<close>

definition writeNewEntry :: "env \<Rightarrow> bytes \<Rightarrow> bytes \<Rightarrow> database \<Rightarrow> (cache_error \<times> database) option" where
  "writeNewEntry v place data d = (case ev_open v of
     OpenFailed \<Rightarrow> Some (IoError (PlacePath place), d)
   | OpenLocked \<Rightarrow> Some (LockFailed (PlacePath place), d)
   | OpenWrongKey \<Rightarrow> None
   | OpenSuccess \<Rightarrow>
       Some (if ev_write_ok v
        then (NoError, d\<lparr> db_files := (db_files d)(place \<mapsto> writeWithPadding v data) \<rparr>)
        else (IoError (PlacePath place), d\<lparr> db_files := (db_files d)(place \<mapsto> []) \<rparr>)))"

definition remove_file :: "env \<Rightarrow> bytes \<Rightarrow> database \<Rightarrow> database" where
  "remove_file v place d = (if ev_removable v place then d\<lparr> db_files := (db_files d)(place := None) \<rparr> else d)"

definition isFreePlace :: "database \<Rightarrow> bytes \<Rightarrow> bool" where
  "isFreePlace d place \<longleftrightarrow> db_files d place = None"

section \<open>Timers\<close>

definition writeBundlesLazy :: "env \<Rightarrow> database \<Rightarrow> database" where
  "writeBundlesLazy v d = (case db_bundles_timer d of
     None \<Rightarrow> d\<lparr> db_bundles_timer := Some (ev_clock v + cs_write_bundle_delay (db_settings d)) \<rparr>
   | Some _ \<Rightarrow> d)"

definition startDelayedPruning :: "env \<Rightarrow> database \<Rightarrow> (bool \<times> database) option" where
  "startDelayedPruning v d =
     (let s = db_settings d in
      if \<not> cs_track_time s \<or> db_map d = [] then Some (False, d)
      else
        let limit = pruneBeforeTime v d in
        if 0 < cs_total_size_limit s \<and> cs_total_size_limit s < db_total d
          \<or> db_min_time d = 0 \<or> db_min_time d \<le> limit
        then Some (True, case db_prune_timer d of
            None \<Rightarrow> d\<lparr> db_prune_timer := Some (ev_clock v + cs_prune_timeout s) \<rparr>
          | Some due \<Rightarrow>
              if cs_prune_timeout s < max (due - ev_clock v) 0
              then d\<lparr> db_prune_timer := Some (ev_clock v + cs_prune_timeout s) \<rparr> else d)
        else if db_min_time d \<noteq> 0 then
          (if db_min_time d \<le> limit then None
           else Some (False, case db_prune_timer d of
               None \<Rightarrow> d\<lparr> db_prune_timer := Some (ev_clock v
                   + min (int (db_min_time d - limit) * 1000) (cs_max_prune_check s)) \<rparr>
             | Some _ \<Rightarrow> d))
        else Some (False, d))"

section \<open>Writing the log\<close>

text \<open>\<^verbatim>\<open>_binlog.size()\<close>, which closing sets to 0.\<close>

definition binlog_size :: "database \<Rightarrow> nat" where
  "binlog_size d = (if db_open d then length (db_log d) else 0)"

definition put_bytes :: "nat \<Rightarrow> bytes \<Rightarrow> bytes \<Rightarrow> bytes" where
  "put_bytes offset e data = take offset data @ e @ drop (offset + length e) data"

text \<open>\<^verbatim>\<open>_binlog.write\<close> of a record, in one or in two calls; \<open>False\<close> if one of
  them failed. The log is closed by the caller.\<close>

definition binlog_write :: "env \<Rightarrow> log_record \<Rightarrow> database \<Rightarrow> (bool \<times> database) option" where
  "binlog_write v r d = do {
     e \<leftarrow> record_bytes (cs_track_time (db_settings d)) r;
     Some (if \<not> db_open d then (False, d)
       else if ev_log_ok v
       then (True, d\<lparr> db_log := put_bytes (db_offset d) e (db_log d), db_offset := db_offset d + length e \<rparr>)
       else (False, d\<lparr> db_log := put_bytes (db_offset d) (take (ev_log_written v) e) (db_log d) \<rparr>)) }"

definition binlog_close :: "database \<Rightarrow> database" where
  "binlog_close d = d\<lparr> db_open := False \<rparr>"

definition excess_add :: "nat \<Rightarrow> database \<Rightarrow> database" where
  "excess_add n d = d\<lparr> db_excess := db_excess d + int kHeadSize + int n * int kKeyPartSize \<rparr>"

definition writeMultiRemove :: "env \<Rightarrow> database \<Rightarrow> (cache_error \<times> database) option" where
  "writeMultiRemove v d =
     (if cs_max_bundled (db_settings d) < length (db_removing d) then None
      else if db_removing d = [] then Some (NoError, d)
      else
        do {
          (ok, w) \<leftarrow> binlog_write v (MultiRemove (db_removing d)) (d\<lparr> db_removing := [] \<rparr>);
          Some (if ok then (NoError, excess_add (length (db_removing d)) w) else (IoError BinlogPath, binlog_close w)) })"

definition writeMultiAccessBlock :: "env \<Rightarrow> database \<Rightarrow> (cache_error \<times> database) option" where
  "writeMultiAccessBlock v d =
     (if \<not> cs_track_time (db_settings d) \<or> cs_max_bundled (db_settings d) < length (db_accessed d) then None
      else
        let t = countTimePoint v d; ks = db_accessed d;
            d = d\<lparr> db_accessed := [], db_time := t, db_map := fold (touch (tp_relative t)) ks (db_map d) \<rparr> in
        do {
          (ok, d) \<leftarrow> binlog_write v (MultiAccess t ks) d;
          Some (if ok then (NoError, excess_add (length ks) d) else (IoError BinlogPath, binlog_close d)) })"

definition writeMultiAccess :: "env \<Rightarrow> database \<Rightarrow> (cache_error \<times> database) option" where
  "writeMultiAccess v d = (if db_accessed d = [] then Some (NoError, d) else writeMultiAccessBlock v d)"

definition writeBundles :: "env \<Rightarrow> database \<Rightarrow> database option" where
  "writeBundles v d = do {
     (_, d) \<leftarrow> writeMultiRemove v d;
     if cs_track_time (db_settings d) then map_option snd (writeMultiAccess v d) else Some d }"

definition writeMultiRemoveLazy :: "env \<Rightarrow> database \<Rightarrow> database option" where
  "writeMultiRemoveLazy v d =
     (if length (db_removing d) = cs_max_bundled (db_settings d) then map_option snd (writeMultiRemove v d)
      else Some (writeBundlesLazy v d))"

definition writeMultiAccessLazy :: "env \<Rightarrow> database \<Rightarrow> database option" where
  "writeMultiAccessLazy v d =
     (if length (db_accessed d) = cs_max_bundled (db_settings d) then map_option snd (writeMultiAccess v d)
      else Some (writeBundlesLazy v d))"

text \<open>The time of a new record: the old one as long as it is not much older.\<close>

definition record_time :: "env \<Rightarrow> database \<Rightarrow> time_point option" where
  "record_time v d =
     (let t = countTimePoint v d in
      if tp_relative t < tp_relative (db_time d) then None
      else Some (if u64 (int (tp_relative t - tp_relative (db_time d)) * 1000) < u64 (cs_write_bundle_delay (db_settings d))
        then db_time d else t))"

definition store_time :: "env \<Rightarrow> database \<Rightarrow> time_point option" where
  "store_time v d = (if cs_track_time (db_settings d) then record_time v d
     else Some \<lparr>tp_relative = 0, tp_system = 0\<rparr>)"

definition write_store :: "env \<Rightarrow> store \<Rightarrow> database \<Rightarrow> (cache_error \<times> database) option" where
  "write_store v s d = do {
     (ok, d) \<leftarrow> binlog_write v (StoreRecord s) d;
     if \<not> ok then Some (IoError BinlogPath, binlog_close d)
     else do {
       (applied, d) \<leftarrow> processRecordStore s d;
       if applied then Some (NoError, d) else None } }"

definition writeKeyPlace :: "env \<Rightarrow> cache_key \<Rightarrow> bytes \<Rightarrow> tagged_value \<Rightarrow> 32 word \<Rightarrow> database
    \<Rightarrow> (cache_error \<times> database) option" where
  "writeKeyPlace v k place value checksum d =
     (if cs_max_data_size (db_settings d) < length (tv_bytes value) then None
      else do {
        t \<leftarrow> store_time v d;
        packed \<leftarrow> ReadTo 3 (length (tv_bytes value));
        write_store v \<lparr>so_tag = tv_tag value, so_size = packed, so_place = place, so_checksum = checksum,
          so_key = k, so_time = t\<rparr> d })"

definition writeExistingPlace :: "env \<Rightarrow> cache_key \<Rightarrow> entry \<Rightarrow> database \<Rightarrow> (cache_error \<times> database) option" where
  "writeExistingPlace v k e d = do {
     t \<leftarrow> store_time v d;
     packed \<leftarrow> ReadTo 3 (ce_size e);
     same \<leftarrow> (case db_find k d of
         Some already \<Rightarrow>
           if ce_tag already = ce_tag e \<and> ce_size already = ce_size e \<and> ce_checksum already = ce_checksum e
           then do {
             a \<leftarrow> readValueData v (ce_place already) (ce_size already) d;
             b \<leftarrow> readValueData v (ce_place e) (ce_size e) d;
             Some (a = b) }
           else Some False
       | None \<Rightarrow> Some False);
     if same then Some (NoError, d)
     else write_store v \<lparr>so_tag = ce_tag e, so_size = packed, so_place = ce_place e, so_checksum = ce_checksum e,
       so_key = k, so_time = t\<rparr> d }"

section \<open>Compaction started\<close>

definition checkCompactor :: "env \<Rightarrow> database \<Rightarrow> database" where
  "checkCompactor v d =
     (let s = db_settings d; c = db_compactor d in
      if cw_object c \<noteq> None \<or> cs_compact_excess s = 0 \<or> db_excess d < cs_compact_excess s then d
      else if cs_compact_full s \<noteq> 0 \<and> db_excess d * cs_compact_full s < cs_compact_excess s * int (binlog_size d) then d
      else if ev_clock v < cw_next_attempt c \<or> \<not> db_open d then d
      else d\<lparr> db_compactor := c\<lparr> cw_object := Some \<lparr>ci_till = binlog_size d,
          ci_system_time = tp_system (db_time d), ci_keys = length (db_map d)\<rparr>, cw_excess := db_excess d \<rparr> \<rparr>)"

definition optimize :: "env \<Rightarrow> database \<Rightarrow> database option" where
  "optimize v d = do {
     (pruning, d) \<leftarrow> startDelayedPruning v d;
     Some (if pruning then d else checkCompactor v d) }"

definition updateSettings :: "env \<Rightarrow> int \<Rightarrow> int \<Rightarrow> database \<Rightarrow> database option" where
  "updateSettings v size_limit time_limit d =
     (let s = (db_settings d)\<lparr> cs_total_size_limit := size_limit, cs_total_time_limit := time_limit \<rparr> in
      if CacheTypes.checkSettings s then optimize v (d\<lparr> db_settings := s \<rparr>) else None)"

section \<open>Requests\<close>

definition recordEntryAccess :: "env \<Rightarrow> cache_key \<Rightarrow> database \<Rightarrow> database option" where
  "recordEntryAccess v k d =
     (if \<not> cs_track_time (db_settings d) then Some d
      else do {
        d \<leftarrow> writeMultiAccessLazy v (d\<lparr> db_accessed := insort_insert k (db_accessed d) \<rparr>);
        optimize v d })"

definition cache_remove :: "env \<Rightarrow> cache_key \<Rightarrow> database \<Rightarrow> (cache_error \<times> database) option" where
  "cache_remove v k d =
     (if \<not> db_open d then Some (IoError VersionPath, d)
      else case db_find k d of
        None \<Rightarrow> Some (NoError, d)
      | Some e \<Rightarrow> do {
          d \<leftarrow> writeMultiRemoveLazy v (d\<lparr> db_removing := insort_insert k (db_removing d) \<rparr>);
          d \<leftarrow> eraseMapEntry k d;
          let d = remove_file v (ce_place e) d;
          Some (if db_files d (ce_place e) = None then NoError else IoError (PlacePath (ce_place e)), d) })"

text \<open>\<^verbatim>\<open>chooseKeyPlace\<close>: where the value was, and where to write it, if it is not
  already there. A draw is repeated until it is free; \<open>None\<close> is also a list of draws without one.\<close>

definition generatePlace :: "env \<Rightarrow> database \<Rightarrow> bytes option" where
  "generatePlace v d = find (isFreePlace d) (ev_places v)"

definition chooseKeyPlace :: "env \<Rightarrow> cache_key \<Rightarrow> tagged_value \<Rightarrow> 32 word \<Rightarrow> database
    \<Rightarrow> (bytes option \<times> bytes option) option" where
  "chooseKeyPlace v k value checksum d =
     (if cs_max_data_size (db_settings d) < length (tv_bytes value) then None
      else case db_find k d of
        Some already \<Rightarrow> do {
          same \<leftarrow> (if ce_tag already = tv_tag value \<and> ce_size already = length (tv_bytes value)
              \<and> ce_checksum already = checksum
            then map_option (\<lambda>got. got = tv_bytes value) (readValueData v (ce_place already) (length (tv_bytes value)) d)
            else Some False);
          if same then Some (Some (ce_place already), None)
          else map_option (\<lambda>place. (Some (ce_place already), Some place)) (generatePlace v d) }
      | None \<Rightarrow> map_option (\<lambda>place. (None, Some place)) (generatePlace v d))"

definition put_value :: "env \<Rightarrow> cache_key \<Rightarrow> tagged_value \<Rightarrow> bytes option \<Rightarrow> bytes \<Rightarrow> 32 word \<Rightarrow> database
    \<Rightarrow> (cache_error \<times> database) option" where
  "put_value v k value was place checksum d = do {
     (error, d) \<leftarrow> writeNewEntry v place (tv_bytes value) d;
     if error \<noteq> NoError then Some (error, remove_file v place d)
     else do {
       (error, d) \<leftarrow> writeKeyPlace v k place value checksum d;
       if error \<noteq> NoError then Some (error, remove_file v place d)
       else map_option (Pair NoError)
         (optimize v (case was of Some was \<Rightarrow> remove_file v was d | None \<Rightarrow> d)) } }"

definition cache_put :: "env \<Rightarrow> cache_key \<Rightarrow> tagged_value \<Rightarrow> database \<Rightarrow> (cache_error \<times> database) option" where
  "cache_put v k value d =
     (if \<not> db_open d then Some (IoError VersionPath, d)
      else if tv_bytes value = [] then cache_remove v k d
      else
        let d = d\<lparr> db_removing := remove1 k (db_removing d), db_stale := removeAll k (db_stale d) \<rparr>;
            checksum = CountChecksum (tv_bytes value) in
        do {
          (was, now) \<leftarrow> chooseKeyPlace v k value checksum d;
          case now of
            None \<Rightarrow> map_option (Pair NoError) (recordEntryAccess v k d)
          | Some place \<Rightarrow> put_value v k value was place checksum d })"

text \<open>A value is handed over before its access is recorded.\<close>

definition get_then :: "env \<Rightarrow> cache_key \<Rightarrow> (tagged_value \<Rightarrow> database \<Rightarrow> ('a \<times> database) option) \<Rightarrow> database
    \<Rightarrow> ('a \<times> database) option" where
  "get_then v k callback d =
     (case db_find k d of
        None \<Rightarrow> callback no_value d
      | Some e \<Rightarrow> do {
          got \<leftarrow> readValueData v (ce_place e) (ce_size e) d;
          if got = [] \<or> CountChecksum got \<noteq> ce_checksum e then do {
            (_, d) \<leftarrow> cache_remove v k d;
            callback no_value d }
          else do {
            (x, d) \<leftarrow> callback \<lparr>tv_bytes = got, tv_tag = ce_tag e\<rparr> d;
            map_option (Pair x) (recordEntryAccess v k d) } })"

definition cache_get :: "env \<Rightarrow> cache_key \<Rightarrow> database \<Rightarrow> (tagged_value \<times> database) option" where
  "cache_get v k d = get_then v k (\<lambda>value d. Some (value, d)) d"

definition getWithSizes :: "env \<Rightarrow> cache_key \<Rightarrow> cache_key list \<Rightarrow> database \<Rightarrow> ((bytes \<times> nat list) \<times> database) option" where
  "getWithSizes v k keys d = get_then v k (\<lambda>value d.
     Some (if tv_bytes value = [] then ([], [])
       else (tv_bytes value, map (\<lambda>q. case db_find q d of Some e \<Rightarrow> ce_size e | None \<Rightarrow> 0) keys), d)) d"

definition putIfEmpty :: "env \<Rightarrow> cache_key \<Rightarrow> tagged_value \<Rightarrow> database \<Rightarrow> (cache_error \<times> database) option" where
  "putIfEmpty v k value d = (if db_find k d \<noteq> None then Some (NoError, d) else cache_put v k value d)"

definition copyIfEmpty :: "env \<Rightarrow> cache_key \<Rightarrow> cache_key \<Rightarrow> database \<Rightarrow> (cache_error \<times> database) option" where
  "copyIfEmpty v from to d = (if db_find to d \<noteq> None then Some (NoError, d) else get_then v from (cache_put v to) d)"

definition moveIfEmpty :: "env \<Rightarrow> cache_key \<Rightarrow> cache_key \<Rightarrow> database \<Rightarrow> (cache_error \<times> database) option" where
  "moveIfEmpty v from to d =
     (if db_find to d \<noteq> None then Some (NoError, d)
      else case db_find from d of
        None \<Rightarrow> Some (NoError, d)
      | Some e \<Rightarrow> do {
          d \<leftarrow> eraseMapEntry from (d\<lparr> db_removing := insort_insert from (db_removing d) \<rparr>);
          (error, d) \<leftarrow> writeMultiRemove v d;
          if error \<noteq> NoError then Some (error, d)
          else writeExistingPlace v to e
            (d\<lparr> db_removing := remove1 to (db_removing d), db_stale := removeAll to (db_stale d) \<rparr>) })"

definition getManyRaw :: "cache_key list \<Rightarrow> database \<Rightarrow> (cache_key \<times> entry) list" where
  "getManyRaw keys d = List.map_filter (\<lambda>k. map_option (Pair k) (db_find k d)) keys"

section \<open>Pruning\<close>

text \<open>The time of the oldest of the entries kept, how many have it, what is stale and its size.\<close>

definition collect_time :: "nat \<Rightarrow> cache_key \<times> entry
    \<Rightarrow> nat \<times> nat \<times> cache_key list \<times> int \<Rightarrow> nat \<times> nat \<times> cache_key list \<times> int" where
  "collect_time limit ke acc = (case (ke, acc) of ((k, e), (m, n, stale, amount)) \<Rightarrow>
     if ce_time e \<le> limit then (m, n, fst (fs_insert (<) stale k), amount + int (ce_size e))
     else if m = 0 \<or> ce_time e < m then (ce_time e, 1, stale, amount)
     else if m = ce_time e then (m, n + 1, stale, amount)
     else acc)"

definition collectTimeStale :: "env \<Rightarrow> cache_key list \<Rightarrow> int \<Rightarrow> database \<Rightarrow> cache_key list \<times> int \<times> database" where
  "collectTimeStale v stale amount d =
     (let limit = pruneBeforeTime v d in
      if cs_total_time_limit (db_settings d) = 0 \<or> db_min_time d = 0 \<or> limit < db_min_time d then (stale, amount, d)
      else case fold (collect_time limit) (db_map d) (0, 0, stale, amount) of
        (m, n, stale, amount) \<Rightarrow> (stale, amount, d\<lparr> db_min_time := m, db_min_count := n \<rparr>))"

text \<open>The oldest entries, the newest of them first, as \<^verbatim>\<open>flat_multi_map\<close> holds
  them under \<^verbatim>\<open>std::greater\<close>, and the sum of their sizes.\<close>

type_synonym oldest = "(int \<times> cache_key \<times> entry) list"

definition canRemoveFirst :: "int \<Rightarrow> entry \<Rightarrow> oldest \<Rightarrow> int \<Rightarrow> bool" where
  "canRemoveFirst remove_size adding oldest amount \<longleftrightarrow>
     (let first = snd (snd (hd oldest)) in
      ce_time adding \<le> ce_time first \<and> int (ce_size first) \<le> amount + int (ce_size adding) - remove_size)"

fun drop_newest :: "int \<Rightarrow> entry \<Rightarrow> oldest \<Rightarrow> int \<Rightarrow> oldest \<times> int" where
  "drop_newest remove_size adding [] amount = ([], amount)"
| "drop_newest remove_size adding (x # xs) amount =
     (if canRemoveFirst remove_size adding (x # xs) amount
      then drop_newest remove_size adding xs (amount - int (ce_size (snd (snd x)))) else (x # xs, amount))"

definition collect_size :: "int \<Rightarrow> cache_key list \<Rightarrow> cache_key \<times> entry \<Rightarrow> oldest \<times> int \<Rightarrow> oldest \<times> int" where
  "collect_size remove_size stale ke acc = (case (ke, acc) of ((k, e), (oldest, amount)) \<Rightarrow>
     if fms_contains (<) stale k then acc
     else if amount < remove_size \<or> ce_time e < ce_time (snd (snd (hd oldest))) then
       (case drop_newest remove_size e oldest amount of
          (oldest, amount) \<Rightarrow> (fst (fmm_insert oldest (- int (ce_time e), k, e)), amount + int (ce_size e)))
     else acc)"

definition collectSizeStale :: "cache_key list \<Rightarrow> int \<Rightarrow> database \<Rightarrow> cache_key list \<times> int" where
  "collectSizeStale stale stale_total d =
     (let limit = cs_total_size_limit (db_settings d);
          remove_size = (if 0 < limit then db_total d - stale_total - limit else 0) in
      if remove_size \<le> 0 then (stale, stale_total)
      else case fold (collect_size remove_size stale) (db_map d) ([], 0) of
        (oldest, amount) \<Rightarrow>
          (fold (\<lambda>(_, k, _) stale. fst (fs_insert (<) stale k)) oldest stale, stale_total + amount))"

fun remove_all_keys :: "env \<Rightarrow> cache_key list \<Rightarrow> database \<Rightarrow> database option" where
  "remove_all_keys v [] d = Some d"
| "remove_all_keys v (k # ks) d = do { (_, d) \<leftarrow> cache_remove v k d; remove_all_keys v ks d }"

definition clearStaleNow :: "env \<Rightarrow> cache_key list \<Rightarrow> database \<Rightarrow> database option" where
  "clearStaleNow v stale d =
     (if stale = [] then Some d
      else do {
        d \<leftarrow> remove_all_keys v stale (pushStats (d\<lparr> db_stale := db_stale d @ [hd stale] \<rparr>));
        optimize v (d\<lparr> db_stale := [] \<rparr>) })"

definition clearStaleChunkDelayed :: "database \<Rightarrow> database" where
  "clearStaleChunkDelayed d = d\<lparr> db_clearing := True \<rparr>"

definition clearStaleChunk :: "env \<Rightarrow> database \<Rightarrow> database option" where
  "clearStaleChunk v d =
     (if db_stale d = [] then Some d
      else
        let n = length (db_stale d); clear = min n (cs_stale_chunk (db_settings d)) in
        do {
          d \<leftarrow> remove_all_keys v (drop (n - clear) (db_stale d)) d;
          let d = d\<lparr> db_stale := take (n - clear) (db_stale d) \<rparr>;
          if db_stale d = [] then optimize v d else Some (clearStaleChunkDelayed d) })"

text \<open>What \<^verbatim>\<open>clearStaleChunkDelayed\<close> posts to the queue of the object.\<close>

definition clear_posted :: "env \<Rightarrow> database \<Rightarrow> database option" where
  "clear_posted v d = (if db_clearing d then clearStaleChunk v (d\<lparr> db_clearing := False \<rparr>) else Some d)"

definition startStaleClear :: "env \<Rightarrow> database \<Rightarrow> database option" where
  "startStaleClear v d = clearStaleChunk v (pushStats d)"

definition cache_prune :: "env \<Rightarrow> database \<Rightarrow> database option" where
  "cache_prune v d =
     (if db_stale d \<noteq> [] then Some d
      else
        let (stale, amount, d) = collectTimeStale v [] 0 d; (stale, amount) = collectSizeStale stale amount d in
        if length stale \<le> cs_stale_chunk (db_settings d) then clearStaleNow v stale d
        else startStaleClear v (d\<lparr> db_stale := stale \<rparr>))"

definition clearByTag :: "env \<Rightarrow> 8 word \<Rightarrow> database \<Rightarrow> (cache_error \<times> database) option" where
  "clearByTag v tag d =
     (let had_stale = db_stale d \<noteq> [];
          d = d\<lparr> db_stale := db_stale d @ map fst (filter (\<lambda>(k, e). ce_tag e = tag) (db_map d)) \<rparr> in
      map_option (Pair NoError) (if had_stale then Some d else startStaleClear v d))"

text \<open>The loop of \<^verbatim>\<open>waitForCleaner\<close>: every turn makes the list shorter, see
  \<open>clear_all_stale_cleans\<close>.\<close>

partial_function (option) clear_all_stale :: "env \<Rightarrow> database \<Rightarrow> database option" where
  "clear_all_stale v d =
     (if db_stale d = [] then Some d else do { d \<leftarrow> clearStaleChunk v d; clear_all_stale v d })"

declare clear_all_stale.simps [code]

section \<open>Timers that fire\<close>

definition bundles_timer_fired :: "env \<Rightarrow> database \<Rightarrow> database option" where
  "bundles_timer_fired v d = map_option (checkCompactor v) (writeBundles v (d\<lparr> db_bundles_timer := None \<rparr>))"

definition prune_timer_fired :: "env \<Rightarrow> database \<Rightarrow> database option" where
  "prune_timer_fired v d = cache_prune v (d\<lparr> db_prune_timer := None \<rparr>)"

section \<open>Opening and closing\<close>

definition clearState :: "database \<Rightarrow> database" where
  "clearState d = d\<lparr> db_key := False, db_map := [], db_removing := [], db_accessed := [], db_stale := [],
     db_time := \<lparr>tp_relative = 0, tp_system = 0\<rparr>, db_excess := 0, db_total := 0, db_min_time := 0, db_min_count := 0,
     db_tagged := [], db_pushing := False, db_bundles_timer := None, db_prune_timer := None,
     db_compactor := compactor_none \<rparr>"

definition cache_close :: "env \<Rightarrow> database \<Rightarrow> database option" where
  "cache_close v d = do {
     d \<leftarrow> (if db_open d then map_option binlog_close (writeBundles v d) else Some d);
     Some (clearState d) }"

definition createCleaner :: "database \<Rightarrow> database" where
  "createCleaner d = pushStatsDelayed (d\<lparr> db_cleaner := True \<rparr>)"

definition cleanerDone :: "database \<Rightarrow> database" where
  "cleanerDone d = pushStatsDelayed (d\<lparr> db_cleaner := False \<rparr>)"

definition system_time_point :: "nat \<Rightarrow> time_point" where
  "system_time_point t = \<lparr>tp_relative = t, tp_system = t\<rparr>"

definition writeHeader :: "env \<Rightarrow> database \<Rightarrow> bool \<times> database" where
  "writeHeader v d =
     (let timed = cs_track_time (db_settings d); now = (if timed then nat (GetUnixtime v) else 0);
          h = header_bytes \<lparr>bh_format = 0, bh_flags = (if timed then kTrackEstimatedTime else 0), bh_system_time = now\<rparr>;
          d = d\<lparr> db_time := system_time_point now \<rparr> in
      if ev_log_ok v then (True, d\<lparr> db_log := h, db_offset := length h \<rparr>) else (False, d))"

definition read_header :: "database \<Rightarrow> bool \<times> database" where
  "read_header d = (case ReadHeader (db_settings d) (db_log d) 0 of
     None \<Rightarrow> (False, d)
   | Some h \<Rightarrow> (True, d\<lparr> db_time := system_time_point (bh_system_time h), db_offset := kHeadSize \<rparr>))"

text \<open>A record handed over by the reader.\<close>

definition handle_record :: "log_record \<Rightarrow> database option \<Rightarrow> bool \<times> database option" where
  "handle_record r st = (case st of
     None \<Rightarrow> (False, None)
   | Some d \<Rightarrow> (case process_record r d of None \<Rightarrow> (False, None) | Some (ok, d) \<Rightarrow> (ok, Some d)))"

definition adjustRelativeTime :: "env \<Rightarrow> database \<Rightarrow> database option" where
  "adjustRelativeTime v d =
     (if cs_track_time (db_settings d) \<and> GetUnixtime v < int (tp_system (db_time d))
      then map_option snd (writeMultiAccessBlock v d) else Some d)"

definition readBinlog :: "env \<Rightarrow> database \<Rightarrow> database option" where
  "readBinlog v d =
     (if \<not> CheckSettings (db_settings d) then None
      else do {
        (r, st) \<leftarrow> read_binlog (db_settings d) handle_record (reader_new (db_log d) (db_offset d) 0) (Some d);
        d \<leftarrow> st;
        d \<leftarrow> adjustRelativeTime v (d\<lparr> db_offset := br_offset r \<rparr>);
        optimize v d })"

text \<open>\<open>fresh\<close> is \<^verbatim>\<open>File::Mode::Write\<close>, which begins an empty file. A size
  that is no multiple of the cipher's blocks is rounded down.\<close>

definition openBinlog :: "env \<Rightarrow> open_result \<Rightarrow> bool \<Rightarrow> database \<Rightarrow> (open_result \<times> database) option" where
  "openBinlog v opened fresh d =
     (if db_ready d \<noteq> None \<and> \<not> ev_move_ok v then Some (OpenFailed, d)
      else
        let d = (case db_ready d of Some ready \<Rightarrow> d\<lparr> db_log := ready, db_ready := None \<rparr> | None \<Rightarrow> d) in
        if opened \<noteq> OpenSuccess then Some (opened, d\<lparr> db_open := False \<rparr>)
        else
          let data = (if fresh then [] else take (length (db_log d) div 16 * 16) (db_log d));
              d = d\<lparr> db_open := True, db_log := data, db_offset := 0 \<rparr>;
              (ok, d) = (if data \<noteq> [] then read_header d else writeHeader v d) in
          if \<not> ok then Some (OpenFailed, d)
          else map_option (Pair OpenSuccess) (readBinlog v (createCleaner (d\<lparr> db_key := True \<rparr>))))"

text \<open>A new log is in a new directory, which holds no files yet.\<close>

definition openNewBinlog :: "env \<Rightarrow> database \<Rightarrow> (cache_error \<times> database) option" where
  "openNewBinlog v d =
     (if \<not> ev_version_ok v then Some (IoError VersionPath, d)
      else do {
        (opened, d) \<leftarrow> openBinlog v (ev_new_open v) True (d\<lparr> db_files := Map.empty, db_ready := None, db_log := [] \<rparr>);
        Some (if opened = OpenSuccess then NoError else IoError BinlogPath, d) })"

definition openSomeBinlog :: "env \<Rightarrow> database \<Rightarrow> (cache_error \<times> database) option" where
  "openSomeBinlog v d = do {
     (opened, d) \<leftarrow> openBinlog v (ev_log_open v) False d;
     case opened of
       OpenSuccess \<Rightarrow> Some (NoError, d)
     | OpenFailed \<Rightarrow> openNewBinlog v d
     | OpenLocked \<Rightarrow> Some (LockFailed BinlogPath, d)
     | OpenWrongKey \<Rightarrow> if cs_clear_on_wrong_key (db_settings d) then openNewBinlog v d else Some (WrongKey BinlogPath, d) }"

definition cache_open :: "env \<Rightarrow> database \<Rightarrow> (cache_error \<times> database) option" where
  "cache_open v d = do {
     d \<leftarrow> cache_close v d;
     (error, d) \<leftarrow> openSomeBinlog v d;
     if error = NoError then Some (error, d) else map_option (Pair error) (cache_close v d) }"

definition cache_clear :: "env \<Rightarrow> database \<Rightarrow> (cache_error \<times> database) option" where
  "cache_clear v d = do {
     let key = db_key d;
     d \<leftarrow> (if key then cache_close v (d\<lparr> db_key := False \<rparr>) else Some d);
     let fresh = d\<lparr> db_files := Map.empty, db_ready := None, db_log := [] \<rparr>;
     if \<not> ev_version_ok v then Some (IoError VersionPath, d)
     else if \<not> key then Some (NoError, createCleaner fresh)
     else cache_open v fresh }"

section \<open>Compaction finished\<close>

definition compactorFail :: "env \<Rightarrow> database \<Rightarrow> database" where
  "compactorFail v d =
     (let delay = cw_delay (db_compactor d) in
      d\<lparr> db_ready := None, db_compactor := compactor_none\<lparr> cw_next_attempt := ev_clock v + delay,
        cw_delay := min (delay * 2) kMaxDelayAfterFailure \<rparr> \<rparr>)"

text \<open>\<^verbatim>\<open>CatchUp\<close>: what was written to the log since is appended to the compacted
  one, block after block. \<open>None\<close> is the size 0 it returns when it fails; \<open>ok\<close>
  are the outcomes of the operations on the files.\<close>

function copy_blocks :: "nat \<Rightarrow> bytes \<Rightarrow> nat \<Rightarrow> bytes \<Rightarrow> bytes option" where
  "copy_blocks block log at compact =
     (if length log \<le> at then Some compact
      else let got = take (min (length log - at) block) (drop at log) in
        if got = [] then None else copy_blocks block log (at + length got) (compact @ got))"
  by pat_completeness auto
termination by (relation "measure (\<lambda>(block, log, at, compact). length log - at)") (auto simp: Let_def)

definition CatchUp :: "bool \<Rightarrow> bytes \<Rightarrow> bytes \<Rightarrow> nat \<Rightarrow> nat \<Rightarrow> (nat \<times> bytes) option" where
  "CatchUp ok compact data at block =
     (let log = take (length data div 16 * 16) data in
      if \<not> ok then None
      else if length log = at then Some (length log, compact)
      else if length log < at then None
      else map_option (Pair (length log)) (copy_blocks block log at compact))"

definition compactor_moved :: "env \<Rightarrow> bytes \<Rightarrow> database \<Rightarrow> database option" where
  "compactor_moved v compact d =
     (if \<not> ev_move_ok v then Some ((compactorFail v (d\<lparr> db_open := False \<rparr>))\<lparr> db_compactor := compactor_none \<rparr>)
      else
        let d = d\<lparr> db_open := False, db_ready := None, db_log := compact \<rparr> in
        if ev_log_open v \<noteq> OpenSuccess then Some ((compactorFail v d)\<lparr> db_compactor := compactor_none \<rparr>)
        else
          let excess = db_excess d - cw_excess (db_compactor d) in
          if excess < 0 then None
          else Some (d\<lparr> db_open := True, db_offset := length compact, db_excess := excess, db_compactor := compactor_none \<rparr>))"

definition compactorDone :: "env \<Rightarrow> bool \<Rightarrow> bytes \<Rightarrow> nat \<Rightarrow> database \<Rightarrow> database option" where
  "compactorDone v ok compact till d =
     (case (if till \<noteq> binlog_size d then CatchUp ok compact (db_log d) till (cs_read_block (db_settings d))
            else Some (till, compact)) of
        None \<Rightarrow> Some (compactorFail v d)
      | Some (till, compact) \<Rightarrow>
          if till \<noteq> binlog_size d \<or> \<not> ok then Some (compactorFail v d)
          else compactor_moved v compact (d\<lparr> db_ready := Some compact \<rparr>))"

end
