(* ===== verification/CacheInv.thy ===== *)
theory CacheInv imports CacheDatabase begin

text \<open>
  What the cache keeps: its totals are the sums over the map, its queues stay below their limits, a
  file has whole blocks. \<open>returns P m\<close> is that \<open>m\<close> has no failed assert and its
  result satisfies \<open>P\<close>; with it every operation is proved by its steps.
\<close>

section \<open>Operations that return\<close>

definition returns :: "('a \<Rightarrow> bool) \<Rightarrow> 'a option \<Rightarrow> bool" where
  "returns P m \<longleftrightarrow> (case m of None \<Rightarrow> False | Some x \<Rightarrow> P x)"

lemma returns_simps [simp]:
  "returns P (Some x) = P x" "\<not> returns P None"
  "returns P (m \<bind> f) = returns (\<lambda>x. returns P (f x)) m"
  "returns P (map_option g m) = returns (\<lambda>x. P (g x)) m"
  by (auto simp: returns_def split: option.splits bind_splits)

lemma returns_mono: "returns Q m \<Longrightarrow> (\<And>x. Q x \<Longrightarrow> P x) \<Longrightarrow> returns P m"
  by (cases m) auto

lemma returns_if: "returns P (if b then m else n) \<longleftrightarrow> (b \<longrightarrow> returns P m) \<and> (\<not> b \<longrightarrow> returns P n)"
  by simp

lemma returnsE: "returns P m \<Longrightarrow> (\<And>x. m = Some x \<Longrightarrow> P x \<Longrightarrow> thesis) \<Longrightarrow> thesis"
  by (cases m) auto

section \<open>Sums over the map\<close>

definition weight :: "(entry \<Rightarrow> int) \<Rightarrow> (cache_key \<times> entry) list \<Rightarrow> int" where
  "weight f m = (\<Sum>p\<leftarrow>m. f (snd p))"

definition weight_at :: "(entry \<Rightarrow> int) \<Rightarrow> cache_key \<Rightarrow> (cache_key \<times> entry) list \<Rightarrow> int" where
  "weight_at f k m = (case map_of m k of None \<Rightarrow> 0 | Some e \<Rightarrow> f e)"

lemma weight_update:
  "distinct (map fst m) \<Longrightarrow> weight f (AList.update k e m) = weight f m - weight_at f k m + f e"
proof (induction m)
  case (Cons p m)
  then show ?case
    by (cases p) (auto simp: weight_def weight_at_def map_of_eq_None_iff split: option.splits)
qed (simp add: weight_def weight_at_def)

lemma weight_delete:
  "distinct (map fst m) \<Longrightarrow> weight f (AList.delete k m) = weight f m - weight_at f k m"
proof (induction m)
  case (Cons p m)
  then show ?case
    by (cases p) (auto simp: weight_def weight_at_def delete_id split: option.splits)
qed (simp add: weight_def weight_at_def)

lemma map_of_touch: "map_of (touch t k m) = (\<lambda>q. if q = k then map_option (\<lambda>e. e\<lparr> ce_time := t \<rparr>) (map_of m q) else map_of m q)"
  by (auto simp: touch_def update_conv' split: option.splits)

lemma keys_touch [simp]: "distinct (map fst m) \<Longrightarrow> map fst (touch t k m) = map fst m"
  by (auto simp: touch_def update_keys dest: map_of_SomeD split: option.splits) force

lemma weight_touch:
  assumes "\<And>e. f (e\<lparr> ce_time := t \<rparr>) = f e" "distinct (map fst m)"
  shows "weight f (touch t k m) = weight f m"
  using assms by (auto simp: touch_def weight_update weight_at_def split: option.splits)

lemma keys_touches: "distinct (map fst m) \<Longrightarrow> map fst (fold (touch t) ks m) = map fst m"
  by (induction ks arbitrary: m) auto

lemma weight_touches:
  assumes "\<And>e. f (e\<lparr> ce_time := t \<rparr>) = f e" "distinct (map fst m)"
  shows "weight f (fold (touch t) ks m) = weight f m"
  using assms(2) by (induction ks arbitrary: m) (simp_all add: weight_touch assms(1))

lemma map_of_touches:
  "map_of (fold (touch t) ks m) q = (if q \<in> set ks then map_option (\<lambda>e. e\<lparr> ce_time := t \<rparr>) (map_of m q) else map_of m q)"
  by (induction ks arbitrary: m) (auto simp: map_of_touch option.map_comp comp_def)

section \<open>Summaries of tags\<close>

definition summary :: "(8 word \<times> tagged_summary) list \<Rightarrow> 8 word \<Rightarrow> tagged_summary" where
  "summary xs tag = (case map_of xs tag of Some s \<Rightarrow> s | None \<Rightarrow> \<lparr>ts_count = 0, ts_total = 0\<rparr>)"

lemma map_of_list_update:
  assumes "distinct (map fst xs)" "i < length xs" "fst (xs ! i) = k"
  shows "map_of (xs[i := (k, v)]) = (map_of xs)(k \<mapsto> v)"
  using assms
proof (induction xs arbitrary: i)
  case (Cons x xs)
  show ?case
  proof (cases i)
    case 0
    then show ?thesis using Cons.prems by (cases x) auto
  next
    case (Suc j)
    then have "fst (xs ! j) \<in> fst ` set xs" "k = fst (xs ! j)" using Cons.prems by auto
    then have "fst x \<noteq> k" using Cons.prems(1) by (metis distinct.simps(2) list.simps(9) list.set_map)
    then show ?thesis using Cons.IH [of j] Cons.prems Suc by (cases x) (auto simp: fun_upd_twist)
  qed
qed simp

lemma fm_index_bound: "fm_inv xs \<Longrightarrow> snd (fm_index d xs k) < length (fst (fm_index d xs k))"
  by (cases rule: fm_split_cases [of xs k]) (auto simp: key_split_insert)

lemma fm_inv_list_update: "fm_inv xs \<Longrightarrow> i < length xs \<Longrightarrow> fst p = fst (xs ! i) \<Longrightarrow> fm_inv (xs[i := p])"
  by (simp add: fm_inv_def map_update [symmetric] list_update_id del: map_update) (metis list_update_id nth_map map_update)

lemma add_summary_correct:
  assumes "fm_inv xs"
  shows "fm_inv (add_summary tag n a xs)"
    and "summary (add_summary tag n a xs) t = (if t = tag then \<lparr>ts_count = ts_count (summary xs t) + n,
      ts_total = ts_total (summary xs t) + a\<rparr> else summary xs t)"
proof -
  define d where "d = \<lparr>ts_count = 0, ts_total = 0\<rparr>"
  obtain ys i where ys: "fm_index d xs tag = (ys, i)" by force
  have inv: "fm_inv ys" and i: "i < length ys" and at: "ys ! i = (tag, summary xs tag)"
    and m: "map_of ys = (if map_of xs tag = None then (map_of xs)(tag \<mapsto> d) else map_of xs)"
    using fm_index_inv [OF assms, of d tag] fm_index_bound [OF assms, of d tag] fm_index_nth [OF assms, of d tag]
      fm_index_map [OF assms, of d tag] ys
    by (simp_all add: summary_def split: option.splits) (simp_all add: d_def)
  have eq: "add_summary tag n a xs = ys[i := (tag, \<lparr>ts_count = ts_count (summary xs tag) + n,
      ts_total = ts_total (summary xs tag) + a\<rparr>)]"
    using ys at by (simp add: add_summary_def flip: d_def)
  show "fm_inv (add_summary tag n a xs)"
    unfolding eq using inv i at by (intro fm_inv_list_update) simp_all
  show "summary (add_summary tag n a xs) t = (if t = tag then \<lparr>ts_count = ts_count (summary xs t) + n,
      ts_total = ts_total (summary xs t) + a\<rparr> else summary xs t)"
    unfolding eq using inv i at m
    by (auto simp: summary_def map_of_list_update [OF fm_inv_distinct] d_def)
qed


section \<open>Totals\<close>

definition tag_counts :: "8 word \<Rightarrow> entry \<Rightarrow> int" where
  "tag_counts t e = (if ce_tag e = t then has_size e else 0)"

definition tag_sizes :: "8 word \<Rightarrow> entry \<Rightarrow> int" where
  "tag_sizes t e = (if ce_tag e = t then int (ce_size e) else 0)"

definition summaries_of :: "(8 word \<times> tagged_summary) list \<Rightarrow> (cache_key \<times> entry) list \<Rightarrow> bool" where
  "summaries_of xs m \<longleftrightarrow> fm_inv xs \<and> (\<forall>t. t \<noteq> 0 \<longrightarrow>
     summary xs t = \<lparr>ts_count = weight (tag_counts t) m, ts_total = weight (tag_sizes t) m\<rparr>)"

definition stats_ok :: "database \<Rightarrow> bool" where
  "stats_ok d \<longleftrightarrow> db_total d = weight (\<lambda>e. int (ce_size e)) (db_map d) \<and> summaries_of (db_tagged d) (db_map d)"

lemma updateStats_shape:
  assumes "fm_inv (db_tagged d)"
  obtains xs where "updateStats was now d = d\<lparr> db_total := db_total d + (int (ce_size now) - int (ce_size was)),
      db_tagged := xs, db_pushing := True \<rparr>" "fm_inv xs"
    "\<And>t. t \<noteq> 0 \<Longrightarrow> summary xs t = \<lparr>ts_count = ts_count (summary (db_tagged d) t) + (tag_counts t now - tag_counts t was),
      ts_total = ts_total (summary (db_tagged d) t) + (tag_sizes t now - tag_sizes t was)\<rparr>"
proof (rule that)
  define xs where "xs = db_tagged (updateStats was now d)"
  show "updateStats was now d = d\<lparr> db_total := db_total d + (int (ce_size now) - int (ce_size was)),
      db_tagged := xs, db_pushing := True \<rparr>"
    by (simp add: xs_def updateStats_def pushStatsDelayed_def Let_def)
  show "fm_inv xs"
    using assms by (auto simp: xs_def updateStats_def pushStatsDelayed_def Let_def intro!: add_summary_correct)
  fix t :: "8 word" assume "t \<noteq> 0"
  then show "summary xs t = \<lparr>ts_count = ts_count (summary (db_tagged d) t) + (tag_counts t now - tag_counts t was),
      ts_total = ts_total (summary (db_tagged d) t) + (tag_sizes t now - tag_sizes t was)\<rparr>"
    using assms by (auto simp: xs_def updateStats_def pushStatsDelayed_def Let_def add_summary_correct tag_counts_def tag_sizes_def)
qed

definition entry_ok :: "cache_settings \<Rightarrow> entry \<Rightarrow> bool" where
  "entry_ok s e \<longleftrightarrow> 0 < ce_size e \<and> ce_size e \<le> cs_max_data_size s \<and> length (ce_place e) = 7"

definition map_ok :: "database \<Rightarrow> bool" where
  "map_ok d \<longleftrightarrow> distinct (map fst (db_map d)) \<and> (\<forall>(k, e)\<in>set (db_map d). entry_ok (db_settings d) e)
     \<and> stats_ok d \<and> (db_min_time d \<noteq> 0 \<longrightarrow> db_min_count d \<noteq> 0)"

lemma map_ok_find: "map_ok d \<Longrightarrow> db_find k d = Some e \<Longrightarrow> entry_ok (db_settings d) e"
  unfolding map_ok_def db_find_def by (blast dest: map_of_SomeD)

lemma set_update_subset: "set (AList.update k e m) \<subseteq> insert (k, e) (set m)"
  by (induction m) auto

lemma set_delete_subset: "set (AList.delete k m) \<subseteq> set m"
  by (auto simp: AList.delete_eq)

lemma weight_no_entry: "tag_counts t no_entry = 0" "tag_sizes t no_entry = 0"
  by (simp_all add: tag_counts_def tag_sizes_def no_entry_def has_size_def)

text \<open>What an operation on the map leaves alone.\<close>

definition same_rest :: "database \<Rightarrow> database \<Rightarrow> bool" where
  "same_rest d d' \<longleftrightarrow> d'\<lparr> db_map := db_map d, db_min_time := db_min_time d, db_min_count := db_min_count d,
     db_total := db_total d, db_tagged := db_tagged d, db_pushing := db_pushing d, db_excess := db_excess d \<rparr> = d"

lemma same_restD:
  assumes "same_rest d d'"
  shows "db_settings d' = db_settings d" "db_open d' = db_open d" "db_log d' = db_log d" "db_offset d' = db_offset d"
    "db_files d' = db_files d" "db_removing d' = db_removing d" "db_accessed d' = db_accessed d" "db_stale d' = db_stale d"
    "db_time d' = db_time d" "db_compactor d' = db_compactor d" "db_ready d' = db_ready d" "db_key d' = db_key d"
  using assms [unfolded same_rest_def, THEN arg_cong, of db_settings] assms [unfolded same_rest_def, THEN arg_cong, of db_open]
    assms [unfolded same_rest_def, THEN arg_cong, of db_log] assms [unfolded same_rest_def, THEN arg_cong, of db_offset]
    assms [unfolded same_rest_def, THEN arg_cong, of db_files] assms [unfolded same_rest_def, THEN arg_cong, of db_removing]
    assms [unfolded same_rest_def, THEN arg_cong, of db_accessed] assms [unfolded same_rest_def, THEN arg_cong, of db_stale]
    assms [unfolded same_rest_def, THEN arg_cong, of db_time] assms [unfolded same_rest_def, THEN arg_cong, of db_compactor]
    assms [unfolded same_rest_def, THEN arg_cong, of db_ready] assms [unfolded same_rest_def, THEN arg_cong, of db_key]
  by simp_all

lemma setMapEntry_keeps:
  assumes "map_ok d" "entry_ok (db_settings d) e"
  shows "returns (\<lambda>d'. map_ok d' \<and> db_map d' = AList.update k e (db_map d) \<and> same_rest d d' \<and> db_excess d \<le> db_excess d')
    (setMapEntry k e d)"
proof -
  define was where "was = (case db_find k d of Some was \<Rightarrow> was | None \<Rightarrow> no_entry)"
  obtain xs where xs: "updateStats was e d = d\<lparr> db_total := db_total d + (int (ce_size e) - int (ce_size was)),
      db_tagged := xs, db_pushing := True \<rparr>" "fm_inv xs"
    "\<And>t. t \<noteq> 0 \<Longrightarrow> summary xs t = \<lparr>ts_count = ts_count (summary (db_tagged d) t) + (tag_counts t e - tag_counts t was),
      ts_total = ts_total (summary (db_tagged d) t) + (tag_sizes t e - tag_sizes t was)\<rparr>"
    using updateStats_shape [of d was e] assms(1) by (auto simp: map_ok_def stats_ok_def summaries_of_def)
  have at: "weight_at f k (db_map d) = f was" if "f no_entry = 0" for f
    using that by (simp add: was_def weight_at_def db_find_def split: option.splits)
  have dist: "distinct (map fst (db_map d))" using assms(1) by (simp add: map_ok_def)
  have sums: "summaries_of xs (AList.update k e (db_map d))"
    using xs(2,3) assms(1) by (simp add: summaries_of_def map_ok_def stats_ok_def weight_update at weight_no_entry)
  have tot: "db_total d + (int (ce_size e) - int (ce_size was)) = weight (\<lambda>e. int (ce_size e)) (AList.update k e (db_map d))"
    using assms(1) at [of "\<lambda>e. int (ce_size e)"] by (simp add: map_ok_def stats_ok_def weight_update no_entry_def)
  have entries: "\<forall>(k, e)\<in>set (AList.update k e (db_map d)). entry_ok (db_settings d) e"
    using assms set_update_subset [of k e "db_map d"] by (auto simp: map_ok_def)
  have "distinct (map fst (AList.update k e (db_map d)))" using dist by (rule distinct_update)
  note facts = this sums tot entries
  have mins: "db_min_time d \<noteq> 0 \<Longrightarrow> db_min_count d \<noteq> 0" using assms(1) by (simp add: map_ok_def)
  show ?thesis
    unfolding setMapEntry_def was_def [symmetric] Let_def xs(1)
    using facts mins
    by (cases "db_min_time d = 0"; cases "db_min_count d"; simp add: drop_minimal_def map_ok_def stats_ok_def same_rest_def)
qed

lemma eraseMapEntry_keeps:
  assumes "map_ok d"
  shows "returns (\<lambda>d'. map_ok d' \<and> db_map d' = AList.delete k (db_map d) \<and> same_rest d d' \<and> db_excess d' = db_excess d)
    (eraseMapEntry k d)"
proof (cases "db_find k d")
  case None
  then have "AList.delete k (db_map d) = db_map d"
    by (intro delete_id) (simp add: db_find_def map_of_eq_None_iff)
  moreover have "same_rest d d" unfolding same_rest_def by simp
  ultimately show ?thesis using None assms by (simp add: eraseMapEntry_def)
next
  case (Some was)
  obtain xs where xs: "updateStats was no_entry d = d\<lparr> db_total := db_total d + (int (ce_size no_entry) - int (ce_size was)),
      db_tagged := xs, db_pushing := True \<rparr>" "fm_inv xs"
    "\<And>t. t \<noteq> 0 \<Longrightarrow> summary xs t = \<lparr>ts_count = ts_count (summary (db_tagged d) t) + (tag_counts t no_entry - tag_counts t was),
      ts_total = ts_total (summary (db_tagged d) t) + (tag_sizes t no_entry - tag_sizes t was)\<rparr>"
    using updateStats_shape [of d was no_entry] assms by (auto simp: map_ok_def stats_ok_def summaries_of_def)
  have at: "weight_at f k (db_map d) = f was" for f
    using Some by (simp add: weight_at_def db_find_def)
  have sums: "summaries_of xs (AList.delete k (db_map d))"
    using xs(2,3) assms by (simp add: summaries_of_def map_ok_def stats_ok_def weight_delete at weight_no_entry)
  have tot: "db_total d + (int (ce_size no_entry) - int (ce_size was)) = weight (\<lambda>e. int (ce_size e)) (AList.delete k (db_map d))"
    using assms at by (simp add: map_ok_def stats_ok_def weight_delete no_entry_def)
  have entries: "\<forall>(k, e)\<in>set (AList.delete k (db_map d)). entry_ok (db_settings d) e"
    using assms set_delete_subset [of k "db_map d"] by (auto simp: map_ok_def)
  have "distinct (map fst (AList.delete k (db_map d)))"
    using assms by (intro distinct_delete) (simp add: map_ok_def)
  note facts = this sums tot entries
  have mins: "db_min_time d \<noteq> 0 \<Longrightarrow> db_min_count d \<noteq> 0" using assms by (simp add: map_ok_def)
  show ?thesis
    unfolding eraseMapEntry_def Some option.case xs(1) Let_def
    using facts mins
    by (cases "db_min_time d = 0"; cases "db_min_count d"; simp add: drop_minimal_def map_ok_def stats_ok_def same_rest_def)
qed

section \<open>Records\<close>

lemma same_rest_refl [simp]: "same_rest d d"
  by (simp add: same_rest_def)

lemma same_rest_trans: "same_rest d d' \<Longrightarrow> same_rest d' d'' \<Longrightarrow> same_rest d d''"
  unfolding same_rest_def
  by (drule_tac x = "d''\<lparr> db_map := _, db_min_time := _, db_min_count := _, db_total := _, db_tagged := _,
      db_pushing := _, db_excess := _ \<rparr>" and f = "\<lambda>e. e\<lparr> db_map := db_map d, db_min_time := db_min_time d,
      db_min_count := db_min_count d, db_total := db_total d, db_tagged := db_tagged d, db_pushing := db_pushing d,
      db_excess := db_excess d \<rparr>" in arg_cong) simp

lemma same_rest_excess: "same_rest (d\<lparr> db_excess := x \<rparr>) d' \<Longrightarrow> same_rest d d'"
proof -
  assume "same_rest (d\<lparr> db_excess := x \<rparr>) d'"
  then show ?thesis unfolding same_rest_def by (drule_tac arg_cong [where f = "\<lambda>e. e\<lparr> db_excess := db_excess d \<rparr>"]) simp
qed

lemma map_ok_excess [simp]: "map_ok (d\<lparr> db_excess := x \<rparr>) = map_ok d"
  by (simp add: map_ok_def stats_ok_def)

definition store_entry :: "store \<Rightarrow> database \<Rightarrow> entry" where
  "store_entry s d = \<lparr>ce_time = tp_relative (if cs_track_time (db_settings d) then so_time s else db_time d),
     ce_size = getSize s, ce_checksum = so_checksum s, ce_place = so_place s, ce_tag = so_tag s\<rparr>"

definition store_clock :: "store \<Rightarrow> database \<Rightarrow> database" where
  "store_clock s d = (if cs_track_time (db_settings d) then applyTimePoint (so_time s) d else d)"

lemma store_clock_fields [simp]: "db_map (store_clock s d) = db_map d" "db_settings (store_clock s d) = db_settings d"
  "db_excess (store_clock s d) = db_excess d" "map_ok (store_clock s d) = map_ok d"
  by (simp_all add: store_clock_def applyTimePoint_def map_ok_def stats_ok_def)

lemma processRecordStore_keeps:
  assumes "map_ok d" "0 < getSize s" "getSize s \<le> cs_max_data_size (db_settings d)" "length (so_place s) = 7"
  shows "returns (\<lambda>(ok, d'). ok \<and> map_ok d' \<and> db_map d' = AList.update (so_key s) (store_entry s d) (db_map d)
    \<and> same_rest (store_clock s d) d' \<and> db_excess d \<le> db_excess d') (processRecordStore s d)"
proof -
  have "processRecordStore s d = map_option (Pair True) (setMapEntry (so_key s) (store_entry s d) (store_clock s d))"
    using assms by (auto simp: processRecordStore_def store_entry_def store_clock_def Let_def)
  moreover have "entry_ok (db_settings (store_clock s d)) (store_entry s d)"
    using assms by (simp add: entry_ok_def store_entry_def)
  ultimately show ?thesis
    using setMapEntry_keeps [of "store_clock s d" "store_entry s d" "so_key s"] assms(1) by simp
qed

lemma remove_keys_keeps:
  assumes "map_ok d"
  shows "returns (\<lambda>d'. map_ok d' \<and> map_of (db_map d') = (\<lambda>k. if k \<in> set ks then None else map_of (db_map d) k)
    \<and> same_rest d d' \<and> db_excess d \<le> db_excess d') (remove_keys ks d)"
  using assms
proof (induction ks arbitrary: d)
  case (Cons k ks)
  let ?d = "d\<lparr> db_excess := db_excess d + int kKeyPartSize \<rparr>"
  have "returns (\<lambda>d'. map_ok d' \<and> db_map d' = AList.delete k (db_map ?d) \<and> same_rest ?d d' \<and> db_excess d' = db_excess ?d)
      (eraseMapEntry k ?d)"
    by (rule eraseMapEntry_keeps) (simp add: Cons.prems)
  then obtain d1 where d1: "eraseMapEntry k ?d = Some d1" "map_ok d1" "db_map d1 = AList.delete k (db_map d)"
      "same_rest d d1" "db_excess d \<le> db_excess d1"
    by (auto elim!: returnsE dest: same_rest_excess)
  show ?case
    using Cons.IH [OF d1(2)] d1 same_rest_trans [OF d1(4)]
    by (auto simp: d1(1) delete_conv' fun_eq_iff elim!: returns_mono)
qed simp

lemma processRecordMultiRemove_keeps:
  assumes "map_ok d"
  shows "returns (\<lambda>(ok, d'). ok \<and> map_ok d' \<and> map_of (db_map d') = (\<lambda>k. if k \<in> set ks then None else map_of (db_map d) k)
    \<and> same_rest d d' \<and> db_excess d \<le> db_excess d') (processRecordMultiRemove ks d)"
  using remove_keys_keeps [of "d\<lparr> db_excess := db_excess d + int kHeadSize \<rparr>" ks] assms
  by (auto simp: processRecordMultiRemove_def elim!: returns_mono dest: same_rest_excess)

lemma weight_untimed [simp]: "tag_counts t (e\<lparr> ce_time := x \<rparr>) = tag_counts t e" "tag_sizes t (e\<lparr> ce_time := x \<rparr>) = tag_sizes t e"
  by (simp_all add: tag_counts_def tag_sizes_def has_size_def)

lemma touches_map_ok: "map_ok d \<Longrightarrow> map_ok (d\<lparr> db_map := fold (touch t) ks (db_map d) \<rparr>)"
proof -
  assume ok: "map_ok d"
  then have dist: "distinct (map fst (db_map d))" by (simp add: map_ok_def)
  have "entry_ok (db_settings d) e" if "(k, e) \<in> set (fold (touch t) ks (db_map d))" for k e
  proof -
    have "map_of (fold (touch t) ks (db_map d)) k = Some e"
      using that dist by (simp add: keys_touches)
    then show ?thesis
      using ok map_ok_find [OF ok] by (auto simp: map_of_touches db_find_def entry_ok_def split: if_splits)
  qed
  then show ?thesis
    using ok dist by (auto simp: map_ok_def stats_ok_def summaries_of_def weight_touches keys_touches)
qed

lemma processRecordMultiAccess_keeps:
  assumes "map_ok d" "cs_track_time (db_settings d)"
  shows "returns (\<lambda>(ok, d'). ok \<and> map_ok d' \<and> db_map d' = fold (touch (tp_relative t)) ks (db_map d)
    \<and> same_rest (applyTimePoint t d) d' \<and> db_excess d \<le> db_excess d') (processRecordMultiAccess t ks d)"
proof -
  have "map_ok (applyTimePoint t d)" using assms(1) by (simp add: applyTimePoint_def map_ok_def stats_ok_def)
  then have "map_ok ((applyTimePoint t d)\<lparr> db_map := fold (touch (tp_relative t)) ks (db_map (applyTimePoint t d)) \<rparr>)"
    by (rule touches_map_ok)
  moreover have "db_map (applyTimePoint t d) = db_map d" "db_excess (applyTimePoint t d) = db_excess d"
    by (simp_all add: applyTimePoint_def)
  ultimately show ?thesis
    using assms(2) by (simp add: processRecordMultiAccess_def Let_def map_ok_def stats_ok_def same_rest_def)
qed

end
