(* ===== verification/CacheOps.thy ===== *)
theory CacheOps imports CacheInv begin

text \<open>
  Every operation of the cache keeps its invariant and fails no assert. \<open>keeps\<close> is what the
  operations that only keep the books do; it includes that the log still replays to the map, as long
  as the writes to it succeed.
\<close>

section \<open>What the log replays to\<close>

definition blank :: "cache_settings \<Rightarrow> nat \<Rightarrow> database" where
  "blank s t = \<lparr>db_settings = s, db_open = False, db_key = False, db_log = [], db_offset = 0, db_ready = None,
     db_files = Map.empty, db_map = [], db_removing = [], db_accessed = [], db_stale = [], db_time = system_time_point t,
     db_excess = 0, db_total = 0, db_min_time = 0, db_min_count = 0, db_tagged = [], db_consumers = False, db_fired = [],
     db_pushing = False, db_clearing = False, db_bundles_timer = None, db_prune_timer = None, db_cleaner = False,
     db_compactor = compactor_none\<rparr>"

fun replay :: "log_record list \<Rightarrow> database \<Rightarrow> database option" where
  "replay [] d = Some d"
| "replay (r # rs) d = do { (ok, d) \<leftarrow> process_record r d; if ok then replay rs d else None }"

text \<open>A way to look at the log: all of it, or the records from some byte on, behind others that take
  the place of those before. What is in the map is what the records replay to, but for the keys that
  are skipped.\<close>

record log_view =
  lv_base :: bytes
  lv_start :: nat
  lv_prefix :: "log_record list"
  lv_skip :: "cache_key set"
  lv_marks :: bool

text \<open>Without time points in the records the clock stays where the header sets it.\<close>

definition clock_below :: "database \<Rightarrow> database \<Rightarrow> bool" where
  "clock_below dr d \<longleftrightarrow> tp_relative (db_time dr) \<le> tp_relative (db_time d)
     \<and> (\<not> cs_track_time (db_settings d) \<longrightarrow> tp_relative (db_time dr) = tp_relative (db_time d))"

text \<open>What the records hold besides is waiting to be removed, or in \<open>X\<close>.\<close>

definition mirrors :: "log_view \<Rightarrow> cache_key set \<Rightarrow> database \<Rightarrow> database \<Rightarrow> bool" where
  "mirrors V X d dr \<longleftrightarrow> map_ok dr \<and> db_settings dr = db_settings d \<and> clock_below dr d
     \<and> (\<forall>k. k \<notin> lv_skip V \<longrightarrow> k \<notin> set (db_removing d) \<union> X \<or> db_find k d \<noteq> None \<longrightarrow> db_find k dr = db_find k d)"

text \<open>A compaction that has been started is of the records before some of those.\<close>

definition marked :: "log_view \<Rightarrow> log_record list \<Rightarrow> database \<Rightarrow> bool" where
  "marked V rs d \<longleftrightarrow> (\<forall>info. cw_object (db_compactor d) = Some info
     \<longrightarrow> (\<exists>n es. log_bytes (cs_track_time (db_settings d)) (take n rs) = Some es \<and> ci_till info = length (lv_base V @ es)))"

definition logged :: "log_view \<Rightarrow> cache_key set \<Rightarrow> database \<Rightarrow> bool" where
  "logged V X d \<longleftrightarrow> (\<exists>rs es dr. (\<forall>r\<in>set rs. record_ok (db_settings d) r)
     \<and> log_bytes (cs_track_time (db_settings d)) rs = Some es \<and> db_log d = lv_base V @ es
     \<and> db_offset d = length (db_log d) \<and> replay (lv_prefix V @ rs) (blank (db_settings d) (lv_start V)) = Some dr
     \<and> mirrors V X d dr \<and> (lv_marks V \<longrightarrow> marked V rs d))"

text \<open>The whole log, from its header.\<close>

definition whole :: "basic_header \<Rightarrow> log_view" where
  "whole h = \<lparr>lv_base = header_bytes h, lv_start = bh_system_time h, lv_prefix = [], lv_skip = {}, lv_marks = True\<rparr>"

definition log_good :: "database \<Rightarrow> bool" where
  "log_good d \<longleftrightarrow> (\<exists>h. header_ok (db_settings d) h \<and> logged (whole h) {} d)"

section \<open>The invariant\<close>

definition queue_ok :: "database \<Rightarrow> cache_key list \<Rightarrow> bool" where
  "queue_ok d ks \<longleftrightarrow> sorted ks \<and> distinct ks \<and> length ks < cs_max_bundled (db_settings d)"

definition files_ok :: "database \<Rightarrow> bool" where
  "files_ok d \<longleftrightarrow> (\<forall>place data. db_files d place = Some data \<longrightarrow> 16 dvd length data)"

definition excess_ok :: "database \<Rightarrow> bool" where
  "excess_ok d \<longleftrightarrow> 0 \<le> db_excess d \<and> (cw_object (db_compactor d) \<noteq> None \<longrightarrow> cw_excess (db_compactor d) \<le> db_excess d)
     \<and> (\<forall>info. cw_object (db_compactor d) = Some info \<longrightarrow> ci_system_time info < 2 ^ 32)"

definition cache_inv :: "database \<Rightarrow> bool" where
  "cache_inv d \<longleftrightarrow> settings_ok (db_settings d) \<and> map_ok d \<and> queue_ok d (db_removing d) \<and> queue_ok d (db_accessed d)
     \<and> (\<forall>k\<in>set (db_removing d). db_find k d = None) \<and> files_ok d \<and> excess_ok d
     \<and> tp_system (db_time d) < 2 ^ 32"

text \<open>The map without the times.\<close>

definition shape :: "database \<Rightarrow> cache_key \<Rightarrow> entry option" where
  "shape d = (\<lambda>k. map_option (\<lambda>e. e\<lparr> ce_time := 0 \<rparr>) (db_find k d))"

definition log_fine :: "env \<Rightarrow> database \<Rightarrow> bool" where
  "log_fine v d \<longleftrightarrow> ev_log_ok v \<and> db_open d \<and> countRelativeTime v d < 2 ^ 64"

definition follows :: "env \<Rightarrow> database \<Rightarrow> database \<Rightarrow> bool" where
  "follows v d d' \<longleftrightarrow> db_settings d' = db_settings d \<and> db_ready d' = db_ready d \<and> (db_open d' \<longrightarrow> db_open d)
     \<and> (ev_log_ok v \<longrightarrow> db_open d' = db_open d) \<and> countRelativeTime v d' = countRelativeTime v d"

definition keeps :: "env \<Rightarrow> database \<Rightarrow> database \<Rightarrow> bool" where
  "keeps v d d' \<longleftrightarrow> follows v d d' \<and> cache_inv d' \<and> shape d' = shape d \<and> db_files d' = db_files d
     \<and> db_stale d' = db_stale d \<and> (\<forall>V X. log_fine v d \<longrightarrow> logged V X d \<longrightarrow> logged V X d')"

lemma follows_refl [simp]: "follows v d d"
  by (simp add: follows_def)

lemma follows_trans: "follows v d d' \<Longrightarrow> follows v d' d'' \<Longrightarrow> follows v d d''"
  by (auto simp: follows_def)

lemma follows_fine: "follows v d d' \<Longrightarrow> log_fine v d \<Longrightarrow> log_fine v d'"
  by (simp add: follows_def log_fine_def)

lemma keeps_refl: "cache_inv d \<Longrightarrow> keeps v d d"
  by (simp add: keeps_def)

lemma keeps_trans: "keeps v d d' \<Longrightarrow> keeps v d' d'' \<Longrightarrow> keeps v d d''"
  unfolding keeps_def using follows_trans follows_fine by metis

lemma keepsD:
  "keeps v d d' \<Longrightarrow> cache_inv d'" "keeps v d d' \<Longrightarrow> db_settings d' = db_settings d"
  by (simp_all add: keeps_def follows_def)

text \<open>Changes of what no invariant is about.\<close>

definition books :: "database \<Rightarrow> database" where
  "books d = d\<lparr> db_bundles_timer := None, db_prune_timer := None, db_fired := [], db_pushing := False, db_clearing := False,
     db_cleaner := False, db_stale := [], db_consumers := False \<rparr>"

lemma books_fields:
  assumes "books d' = books d"
  shows "db_settings d' = db_settings d" "db_open d' = db_open d" "db_log d' = db_log d" "db_offset d' = db_offset d"
    "db_files d' = db_files d" "db_removing d' = db_removing d" "db_accessed d' = db_accessed d" "db_map d' = db_map d"
    "db_time d' = db_time d" "db_compactor d' = db_compactor d" "db_excess d' = db_excess d" "db_total d' = db_total d"
    "db_tagged d' = db_tagged d" "db_min_time d' = db_min_time d" "db_min_count d' = db_min_count d" "db_ready d' = db_ready d"
  using arg_cong [OF assms, of db_settings] arg_cong [OF assms, of db_open] arg_cong [OF assms, of db_log]
    arg_cong [OF assms, of db_offset] arg_cong [OF assms, of db_files] arg_cong [OF assms, of db_removing]
    arg_cong [OF assms, of db_accessed] arg_cong [OF assms, of db_map] arg_cong [OF assms, of db_time]
    arg_cong [OF assms, of db_compactor] arg_cong [OF assms, of db_excess] arg_cong [OF assms, of db_total]
    arg_cong [OF assms, of db_tagged] arg_cong [OF assms, of db_min_time] arg_cong [OF assms, of db_min_count]
    arg_cong [OF assms, of db_ready]
  by (simp_all add: books_def)

lemma books_keeps:
  assumes "books d' = books d" "cache_inv d" "db_stale d' = db_stale d"
  shows "keeps v d d'"
  using assms(2,3) books_fields [OF assms(1)]
  by (simp add: keeps_def follows_def cache_inv_def map_ok_def stats_ok_def queue_ok_def files_ok_def excess_ok_def shape_def
      logged_def marked_def mirrors_def clock_below_def db_find_def countRelativeTime_def time_passed_def)

lemma writeBundlesLazy_keeps: "cache_inv d \<Longrightarrow> keeps v d (writeBundlesLazy v d)"
  by (rule books_keeps) (auto simp: books_def writeBundlesLazy_def split: option.splits)

lemma startDelayedPruning_keeps: "cache_inv d \<Longrightarrow> returns (\<lambda>(b, d'). keeps v d d') (startDelayedPruning v d)"
  by (auto simp: startDelayedPruning_def Let_def returns_if intro!: books_keeps simp: books_def split: option.splits)

text \<open>A compaction starts with the log as it is.\<close>

lemma logged_mark:
  assumes "logged V X d" "cw_object c = Some info" "ci_till info = length (db_log d)"
  shows "logged V X (d\<lparr> db_compactor := c \<rparr>)"
proof -
  obtain rs es dr where lg: "\<forall>r\<in>set rs. record_ok (db_settings d) r"
    "log_bytes (cs_track_time (db_settings d)) rs = Some es" "db_log d = lv_base V @ es"
    "db_offset d = length (db_log d)" "replay (lv_prefix V @ rs) (blank (db_settings d) (lv_start V)) = Some dr" "mirrors V X d dr"
    using assms(1) unfolding logged_def by blast
  have "\<exists>n es. log_bytes (cs_track_time (db_settings d)) (take n rs) = Some es \<and> ci_till info = length (lv_base V @ es)"
    using lg(2,3) assms(3) by (intro exI [of _ "length rs"]) simp
  then have "marked V rs (d\<lparr> db_compactor := c \<rparr>)" using assms(2) by (simp add: marked_def)
  moreover have "mirrors V X (d\<lparr> db_compactor := c \<rparr>) dr"
    using lg(6) by (simp add: mirrors_def clock_below_def db_find_def)
  ultimately show ?thesis using lg(1-5) unfolding logged_def by (intro exI [of _ rs] exI [of _ es] exI [of _ dr]) simp
qed

lemma started_keeps:
  assumes "cache_inv d" "cw_object c = Some info" "ci_till info = binlog_size d" "ci_system_time info = tp_system (db_time d)"
    "cw_excess c = db_excess d" "db_open d"
  shows "keeps v d (d\<lparr> db_compactor := c \<rparr>)"
  using assms logged_mark [of _ _ d c info]
  by (auto simp: keeps_def follows_def cache_inv_def map_ok_def stats_ok_def queue_ok_def files_ok_def excess_ok_def shape_def
      db_find_def countRelativeTime_def time_passed_def binlog_size_def log_fine_def)

lemma checkCompactor_keeps: "cache_inv d \<Longrightarrow> keeps v d (checkCompactor v d)"
  by (auto simp: checkCompactor_def Let_def intro!: keeps_refl started_keeps)

lemma optimize_keeps: "cache_inv d \<Longrightarrow> returns (keeps v d) (optimize v d)"
  using startDelayedPruning_keeps [of d v]
  by (auto simp: optimize_def elim!: returns_mono intro: keeps_trans [OF _ checkCompactor_keeps [OF keepsD(1)]])

section \<open>The log grows\<close>

lemma log_bytes_append:
  "log_bytes timed (rs @ [r]) = do { es \<leftarrow> log_bytes timed rs; e \<leftarrow> record_bytes timed r; Some (es @ e) }"
  by (induction rs) (auto split: bind_splits)

lemma replay_append: "replay (rs @ [r]) d = do { d \<leftarrow> replay rs d; (ok, d) \<leftarrow> process_record r d; if ok then Some d else None }"
  by (induction rs arbitrary: d) (auto split: bind_splits)

lemma marked_append:
  "log_bytes t (take n rs) = Some es \<Longrightarrow> \<exists>n. log_bytes t (take n (rs @ qs)) = Some es"
  by (rule exI [of _ "min n (length rs)"]) (cases "n \<le> length rs"; simp)

lemma logged_step:
  assumes "logged V X d" "record_ok (db_settings d) r" "record_bytes (cs_track_time (db_settings d)) r = Some e"
    "db_settings d' = db_settings d" "db_log d' = put_bytes (db_offset d) e (db_log d)" "db_offset d' = db_offset d + length e"
    "db_compactor d' = db_compactor d"
    and step: "\<And>dr. mirrors V X d dr \<Longrightarrow> returns (\<lambda>(ok, dr'). ok \<and> mirrors V Y d' dr') (process_record r dr)"
  shows "logged V Y d'"
proof -
  obtain rs es dr where lg: "\<forall>r\<in>set rs. record_ok (db_settings d) r"
    "log_bytes (cs_track_time (db_settings d)) rs = Some es" "db_log d = lv_base V @ es"
    "db_offset d = length (db_log d)" "replay (lv_prefix V @ rs) (blank (db_settings d) (lv_start V)) = Some dr" "mirrors V X d dr"
    "lv_marks V \<longrightarrow> marked V rs d"
    using assms(1) unfolding logged_def by blast
  obtain dr' where dr': "process_record r dr = Some (True, dr')" "mirrors V Y d' dr'"
    using step [OF lg(6)] by (auto elim!: returnsE)
  have "replay (lv_prefix V @ rs @ [r]) (blank (db_settings d) (lv_start V)) = Some dr'"
    using lg(5) dr'(1) by (simp add: replay_append flip: append_assoc)
  moreover have "log_bytes (cs_track_time (db_settings d)) (rs @ [r]) = Some (es @ e)"
    using lg(2) assms(3) by (simp add: log_bytes_append)
  moreover have "db_log d' = lv_base V @ es @ e" "db_offset d' = length (db_log d')"
    using lg(3,4) assms(5,6) by (simp_all add: put_bytes_def)
  moreover have "\<forall>r\<in>set (rs @ [r]). record_ok (db_settings d) r" using lg(1) assms(2) by simp
  moreover have "lv_marks V \<longrightarrow> marked V (rs @ [r]) d'"
    using lg(7) marked_append assms(4,7) unfolding marked_def by metis
  ultimately show ?thesis
    unfolding logged_def using dr'(2) assms(4) by (metis (no_types, lifting))
qed

lemma head_bytes_some: "settings_ok s \<Longrightarrow> n \<le> cs_max_bundled s \<Longrightarrow> \<exists>e. head_bytes t n rest = Some e"
  by (auto simp: head_bytes_def settings_ok_def CacheTypes.checkSettings_def ReadTo_def kBundledRecordsLimit_def)

lemma record_bytes_multi:
  assumes "settings_ok s"
  shows "length ks \<le> cs_max_bundled s \<Longrightarrow> \<exists>e. record_bytes timed (MultiRemove ks) = Some e"
    and "length ks \<le> cs_max_bundled s \<Longrightarrow> \<exists>e. record_bytes timed (MultiAccess t ks) = Some e"
  using head_bytes_some [OF assms, of "length ks"] by (fastforce)+

declare record_bytes.simps [simp del]

lemma writeMultiRemove_keeps:
  assumes inv: "cache_inv (d\<lparr> db_removing := [] \<rparr>)" and len: "length (db_removing d) \<le> cs_max_bundled (db_settings d)"
    and gone: "\<forall>k\<in>set (db_removing d). db_find k d = None"
  shows "returns (\<lambda>(error, d'). keeps v d d' \<and> db_removing d' = [] \<and> db_map d' = db_map d
    \<and> (ev_log_ok v \<and> db_open d \<longrightarrow> error = NoError)) (writeMultiRemove v d)"
proof (cases "db_removing d = []")
  case True
  then have "d\<lparr> db_removing := [] \<rparr> = d" by simp
  then have "cache_inv d" using inv by simp
  then show ?thesis using True by (simp add: writeMultiRemove_def keeps_refl)
next
  case False
  let ?ks = "db_removing d" and ?s = "db_settings d"
  have s: "settings_ok ?s" using inv by (simp add: cache_inv_def)
  obtain e where e: "record_bytes (cs_track_time ?s) (MultiRemove ?ks) = Some e"
    using record_bytes_multi [OF s] len by blast
  define w where "w = (if \<not> db_open d then (d\<lparr> db_removing := [] \<rparr>)
    else if ev_log_ok v then d\<lparr> db_removing := [], db_log := put_bytes (db_offset d) e (db_log d), db_offset := db_offset d + length e \<rparr>
    else d\<lparr> db_removing := [], db_log := put_bytes (db_offset d) (take (ev_log_written v) e) (db_log d) \<rparr>)"
  define d' where "d' = (if db_open d \<and> ev_log_ok v then excess_add (length ?ks) w else binlog_close w)"
  have run: "writeMultiRemove v d = Some (if db_open d \<and> ev_log_ok v then (NoError, d') else (IoError BinlogPath, d'))"
    using False len e by (simp add: writeMultiRemove_def binlog_write_def w_def d'_def)
  have log: "logged V X d'" if "log_fine v d" "logged V X d" for V X
  proof (rule logged_step [OF that(2) _ e])
    show "record_ok ?s (MultiRemove ?ks)" using False len by (simp add: record_ok_def Suc_le_eq)
  next
    fix dr assume "mirrors V X d dr"
    note dr = this [unfolded mirrors_def clock_below_def]
    obtain dr' where dr': "processRecordMultiRemove ?ks dr = Some (True, dr')" "map_ok dr'"
      "map_of (db_map dr') = (\<lambda>k. if k \<in> set ?ks then None else map_of (db_map dr) k)" "same_rest dr dr'"
      using processRecordMultiRemove_keeps [of dr ?ks] dr by (auto elim!: returnsE)
    have "db_find k d' = db_find k d" "db_removing d' = []" "db_time d' = db_time d" "db_settings d' = ?s" for k
      by (simp_all add: d'_def w_def excess_add_def binlog_close_def db_find_def)
    moreover have "db_find k dr' = (if k \<in> set ?ks then None else db_find k dr)" for k using dr'(3) by (simp add: db_find_def)
    ultimately have "mirrors V X d' dr'"
      using dr dr'(2) same_restD(1,9) [OF dr'(4)] gone by (auto simp: mirrors_def clock_below_def)
    then show "returns (\<lambda>(ok, dr'). ok \<and> mirrors V X d' dr') (process_record (MultiRemove ?ks) dr)"
      using dr'(1) by (simp add: process_record_def)
  qed (use that(1) in \<open>simp_all add: d'_def w_def excess_add_def log_fine_def\<close>)
  have "keeps v d d'"
    using inv log by (auto simp: keeps_def follows_def cache_inv_def map_ok_def stats_ok_def queue_ok_def files_ok_def
        excess_ok_def shape_def db_find_def d'_def w_def excess_add_def binlog_close_def countRelativeTime_def time_passed_def
        kHeadSize_def kKeyPartSize_def)
  moreover have "db_removing d' = []" "db_map d' = db_map d"
    by (simp_all add: d'_def w_def excess_add_def binlog_close_def)
  ultimately show ?thesis unfolding run by auto
qed

section \<open>Accesses\<close>

lemma shape_touches: "shape (d\<lparr> db_map := fold (touch t) ks (db_map d) \<rparr>) = shape d"
  by (auto simp: shape_def db_find_def map_of_touches fun_eq_iff option.map_comp comp_def intro!: option.map_cong)

lemma countRelativeTime_now: "countRelativeTime v (d\<lparr> db_time := countTimePoint v d \<rparr>) = countRelativeTime v d"
  by (simp add: countRelativeTime_def countTimePoint_def time_passed_def GetUnixtime_def)

lemma countTimePoint_ok: "countRelativeTime v d < 2 ^ 64 \<Longrightarrow> time_ok (countTimePoint v d)"
  using i32_bounds [of "ev_unix v"] by (auto simp: time_ok_def countTimePoint_def countRelativeTime_def GetUnixtime_def)

lemma writeMultiAccessBlock_keeps:
  assumes inv: "cache_inv (d\<lparr> db_accessed := [] \<rparr>)" and len: "length (db_accessed d) \<le> cs_max_bundled (db_settings d)"
    and timed: "cs_track_time (db_settings d)"
  shows "returns (\<lambda>(error, d'). keeps v d d') (writeMultiAccessBlock v d)"
proof -
  let ?ks = "db_accessed d" and ?s = "db_settings d" and ?t = "countTimePoint v d"
  let ?m = "fold (touch (tp_relative ?t)) ?ks (db_map d)"
  have s: "settings_ok ?s" using inv by (simp add: cache_inv_def)
  obtain e where e: "record_bytes (cs_track_time ?s) (MultiAccess ?t ?ks) = Some e"
    using record_bytes_multi(2) [OF s len] by blast
  define b where "b = d\<lparr> db_accessed := [], db_time := ?t, db_map := ?m \<rparr>"
  define w where "w = (if \<not> db_open d then b
    else if ev_log_ok v then b\<lparr> db_log := put_bytes (db_offset d) e (db_log d), db_offset := db_offset d + length e \<rparr>
    else b\<lparr> db_log := put_bytes (db_offset d) (take (ev_log_written v) e) (db_log d) \<rparr>)"
  define d' where "d' = (if db_open d \<and> ev_log_ok v then excess_add (length ?ks) w else binlog_close w)"
  have run: "writeMultiAccessBlock v d = Some (if db_open d \<and> ev_log_ok v then (NoError, d') else (IoError BinlogPath, d'))"
    using timed len e by (simp add: writeMultiAccessBlock_def binlog_write_def Let_def b_def w_def d'_def)
  have map': "db_map d' = ?m" "db_time d' = ?t" "db_removing d' = db_removing d" "db_settings d' = ?s"
    by (simp_all add: d'_def w_def b_def excess_add_def binlog_close_def)
  have log: "logged V X d'" if "log_fine v d" "logged V X d" for V X
  proof (rule logged_step [OF that(2) _ e])
    show "record_ok ?s (MultiAccess ?t ?ks)"
      using timed len countTimePoint_ok that(1) by (simp add: record_ok_def log_fine_def)
  next
    fix dr assume "mirrors V X d dr"
    note dr = this [unfolded mirrors_def clock_below_def]
    have time: "tp_relative (db_time (applyTimePoint ?t dr)) \<le> tp_relative ?t"
      using dr by (auto simp: applyTimePoint_def countTimePoint_def)
    obtain dr' where dr': "processRecordMultiAccess ?t ?ks dr = Some (True, dr')" "map_ok dr'"
      "db_map dr' = fold (touch (tp_relative ?t)) ?ks (db_map dr)" "same_rest (applyTimePoint ?t dr) dr'"
      using processRecordMultiAccess_keeps [of dr ?t ?ks] timed dr by (auto elim!: returnsE)
    have "db_settings dr' = db_settings dr" "tp_relative (db_time dr') \<le> tp_relative ?t"
      using same_restD [OF dr'(4)] time by (simp_all add: applyTimePoint_def)
    moreover have "db_find k dr' = db_find k d'" if "db_find k dr = db_find k d" for k
      using that dr'(3) by (simp add: db_find_def map' map_of_touches)
    moreover have "(db_find k d' = None) = (db_find k d = None)" for k by (simp add: db_find_def map' map_of_touches)
    ultimately have "mirrors V X d' dr'"
      using dr dr'(2) timed map' by (auto simp: mirrors_def clock_below_def)
    then show "returns (\<lambda>(ok, dr'). ok \<and> mirrors V X d' dr') (process_record (MultiAccess ?t ?ks) dr)"
      using dr'(1) by (simp add: process_record_def)
  qed (use that(1) in \<open>simp_all add: d'_def w_def b_def excess_add_def log_fine_def\<close>)
  have "map_ok d" "sorted (db_removing d)" using inv by (simp_all add: cache_inv_def map_ok_def stats_ok_def queue_ok_def)
  from touches_map_ok [OF this(1), where t = "tp_relative ?t" and ks = ?ks]
  have "map_ok d'" by (simp add: map_ok_def stats_ok_def d'_def w_def b_def excess_add_def binlog_close_def)
  moreover have "shape d' = shape d"
    using shape_touches [where d = d and t = "tp_relative ?t" and ks = ?ks] map'(1) by (simp add: shape_def db_find_def)
  moreover have "\<forall>k\<in>set (db_removing d'). db_find k d' = None"
    using inv by (auto simp: cache_inv_def db_find_def map' map_of_touches)
  moreover have "follows v d d'"
    using countRelativeTime_now [where v = v and d = d]
    by (auto simp: follows_def d'_def w_def b_def excess_add_def binlog_close_def countRelativeTime_def time_passed_def)
  moreover have "tp_system (db_time d') < 2 ^ 32"
    using i32_bounds [of "ev_unix v"] by (auto simp: map' countTimePoint_def GetUnixtime_def)
  ultimately have "keeps v d d'"
    using inv log by (auto simp: keeps_def cache_inv_def queue_ok_def files_ok_def
        excess_ok_def db_find_def d'_def w_def b_def excess_add_def binlog_close_def kHeadSize_def kKeyPartSize_def)
  then show ?thesis unfolding run by simp
qed

lemma writeMultiAccess_keeps:
  assumes "cache_inv (d\<lparr> db_accessed := [] \<rparr>)" "length (db_accessed d) \<le> cs_max_bundled (db_settings d)"
    "cs_track_time (db_settings d)"
  shows "returns (\<lambda>(error, d'). keeps v d d') (writeMultiAccess v d)"
proof (cases "db_accessed d = []")
  case True
  then have "d\<lparr> db_accessed := [] \<rparr> = d" by simp
  then have "cache_inv d" using assms(1) by simp
  then show ?thesis using True by (simp add: writeMultiAccess_def keeps_refl)
qed (use writeMultiAccessBlock_keeps [OF assms] in \<open>simp add: writeMultiAccess_def\<close>)

lemma cache_inv_emptied: "cache_inv d \<Longrightarrow> cache_inv (d\<lparr> db_accessed := [] \<rparr>) \<and> cache_inv (d\<lparr> db_removing := [] \<rparr>)"
  by (auto simp: cache_inv_def map_ok_def stats_ok_def queue_ok_def files_ok_def excess_ok_def db_find_def)

lemma cache_inv_lengths:
  "cache_inv d \<Longrightarrow> length (db_accessed d) \<le> cs_max_bundled (db_settings d) \<and> length (db_removing d) \<le> cs_max_bundled (db_settings d)
    \<and> (\<forall>k\<in>set (db_removing d). db_find k d = None)"
  by (simp add: cache_inv_def queue_ok_def)

lemma writeBundles_keeps: "cache_inv d \<Longrightarrow> returns (keeps v d) (writeBundles v d)"
proof -
  assume d: "cache_inv d"
  then obtain error d1 where d1: "writeMultiRemove v d = Some (error, d1)" "keeps v d d1"
    using writeMultiRemove_keeps [of d v] cache_inv_emptied [OF d] cache_inv_lengths [OF d] by (auto elim!: returnsE)
  have inv: "cache_inv d1" using d1(2) by (rule keepsD)
  have "returns (\<lambda>(error, d'). keeps v d1 d') (writeMultiAccess v d1)" if "cs_track_time (db_settings d1)"
    using writeMultiAccess_keeps [OF _ _ that] cache_inv_emptied [OF inv] cache_inv_lengths [OF inv] by blast
  then show ?thesis
    using d1 by (auto simp: writeBundles_def case_prod_unfold elim!: returns_mono intro: keeps_trans)
qed

lemma length_insort_insert: "distinct ks \<Longrightarrow> length (insort_insert k ks) \<le> Suc (length ks)"
  by (simp add: insort_insert_key_def)

lemma recordEntryAccess_keeps: "cache_inv d \<Longrightarrow> returns (keeps v d) (recordEntryAccess v k d)"
proof (cases "cs_track_time (db_settings d)")
  case True
  assume d: "cache_inv d"
  define b where "b = d\<lparr> db_accessed := insort_insert k (db_accessed d) \<rparr>"
  have "countRelativeTime v b = countRelativeTime v d" "shape b = shape d" "\<And>V X. logged V X b = logged V X d"
    by (simp_all add: b_def countRelativeTime_def time_passed_def shape_def db_find_def logged_def marked_def mirrors_def clock_below_def)
  then have same: "keeps v d d'" if "keeps v b d'" for d'
    using that by (simp add: keeps_def follows_def log_fine_def) (simp add: b_def)
  have q: "sorted (db_accessed b)" "distinct (db_accessed b)" "length (db_accessed b) \<le> cs_max_bundled (db_settings b)"
    using d length_insort_insert [of "db_accessed d" k]
    by (auto simp: b_def cache_inv_def queue_ok_def sorted_insort_insert distinct_insort_insert)
  have inv: "cache_inv (b\<lparr> db_accessed := [] \<rparr>)" using cache_inv_emptied [OF d] by (simp add: b_def)
  have "returns (keeps v b) (writeMultiAccessLazy v b)"
  proof (cases "length (db_accessed b) = cs_max_bundled (db_settings b)")
    case True
    then show ?thesis
      using writeMultiAccess_keeps [OF inv q(3)] \<open>cs_track_time (db_settings d)\<close>
      by (simp add: writeMultiAccessLazy_def case_prod_unfold b_def)
  next
    case False
    then have "cache_inv b"
      using q inv by (auto simp: cache_inv_def map_ok_def stats_ok_def queue_ok_def files_ok_def excess_ok_def db_find_def)
    then show ?thesis using False writeBundlesLazy_keeps by (simp add: writeMultiAccessLazy_def)
  qed
  then show ?thesis
    using True by (auto simp: recordEntryAccess_def b_def [symmetric]
        elim!: returns_mono dest!: same intro: keeps_trans dest: keepsD intro!: returns_mono [OF optimize_keeps])
next
  case False
  assume "cache_inv d"
  then show ?thesis using False by (simp add: recordEntryAccess_def keeps_refl)
qed

section \<open>Removal\<close>

lemma erase_elsewhere:
  "eraseMapEntry k (d\<lparr> db_removing := r, db_log := l, db_offset := n, db_open := p, db_excess := x, db_bundles_timer := b \<rparr>)
    = map_option (\<lambda>d. d\<lparr> db_removing := r, db_log := l, db_offset := n, db_open := p, db_excess := x, db_bundles_timer := b \<rparr>)
        (eraseMapEntry k d)"
  by (simp add: eraseMapEntry_def updateStats_def pushStatsDelayed_def drop_minimal_def db_find_def Let_def
      split: option.splits)

text \<open>What is written to the log does not depend on the map, so a key may as well leave the map first.\<close>

lemma lazy_shape:
  fixes d :: database
  shows "\<exists>f. \<forall>d' :: database. db_settings d' = db_settings d \<and> db_removing d' = db_removing d \<and> db_open d' = db_open d
      \<and> db_log d' = db_log d \<and> db_offset d' = db_offset d \<and> db_bundles_timer d' = db_bundles_timer d
      \<and> db_excess d' = db_excess d
      \<longrightarrow> writeMultiRemoveLazy v d' = map_option (\<lambda>(r, l, n, p, x, b). d'\<lparr> db_removing := r, db_log := l, db_offset := n,
        db_open := p, db_excess := x, db_bundles_timer := b \<rparr>) f"
  by (cases "record_bytes (cs_track_time (db_settings d)) (MultiRemove (db_removing d))"; cases "db_bundles_timer d")
    (intro exI [of _ "map_option (\<lambda>d'. (db_removing d', db_log d', db_offset d', db_open d', db_excess d', db_bundles_timer d'))
        (writeMultiRemoveLazy v d)"];
      simp add: writeMultiRemoveLazy_def writeMultiRemove_def binlog_write_def writeBundlesLazy_def excess_add_def binlog_close_def)+

lemma erase_before_lazy:
  assumes "map_ok d"
  shows "do { d \<leftarrow> writeMultiRemoveLazy v d; eraseMapEntry k d } = do { d \<leftarrow> eraseMapEntry k d; writeMultiRemoveLazy v d }"
proof -
  obtain d1 where d1: "eraseMapEntry k d = Some d1" "same_rest d d1" "db_excess d1 = db_excess d"
    using eraseMapEntry_keeps [OF assms, of k] by (auto elim!: returnsE)
  have timer: "db_bundles_timer d1 = db_bundles_timer d"
    using arg_cong [OF d1(2) [unfolded same_rest_def], of db_bundles_timer] by simp
  from lazy_shape [of d v] obtain f where f: "\<forall>d' :: database. db_settings d' = db_settings d \<and> db_removing d' = db_removing d
      \<and> db_open d' = db_open d \<and> db_log d' = db_log d \<and> db_offset d' = db_offset d
      \<and> db_bundles_timer d' = db_bundles_timer d \<and> db_excess d' = db_excess d
      \<longrightarrow> writeMultiRemoveLazy v d' = map_option (\<lambda>(r, l, n, p, x, b). d'\<lparr> db_removing := r, db_log := l, db_offset := n,
        db_open := p, db_excess := x, db_bundles_timer := b \<rparr>) f"
    by (rule exE)
  have "writeMultiRemoveLazy v d1 = map_option (\<lambda>(r, l, n, p, x, b). d1\<lparr> db_removing := r, db_log := l, db_offset := n,
        db_open := p, db_excess := x, db_bundles_timer := b \<rparr>) f"
    using same_restD [OF d1(2)] d1(3) timer by (intro f [rule_format]) simp
  moreover have "writeMultiRemoveLazy v d = map_option (\<lambda>(r, l, n, p, x, b). d\<lparr> db_removing := r, db_log := l, db_offset := n,
        db_open := p, db_excess := x, db_bundles_timer := b \<rparr>) f"
    by (rule f [rule_format]) simp
  ultimately show ?thesis
    by (cases f) (auto simp: d1(1) erase_elsewhere)
qed

lemma writeMultiRemoveLazy_keeps:
  assumes "cache_inv (d\<lparr> db_removing := [] \<rparr>)" "sorted (db_removing d)" "distinct (db_removing d)"
    "length (db_removing d) \<le> cs_max_bundled (db_settings d)" "\<forall>k\<in>set (db_removing d). db_find k d = None"
  shows "returns (keeps v d) (writeMultiRemoveLazy v d)"
proof (cases "length (db_removing d) = cs_max_bundled (db_settings d)")
  case True
  then show ?thesis
    using writeMultiRemove_keeps [OF assms(1,4,5), of v] by (auto simp: writeMultiRemoveLazy_def case_prod_unfold elim!: returns_mono)
next
  case False
  then have "cache_inv d"
    using assms by (auto simp: cache_inv_def map_ok_def stats_ok_def queue_ok_def files_ok_def excess_ok_def db_find_def)
  then show ?thesis using False writeBundlesLazy_keeps by (simp add: writeMultiRemoveLazy_def)
qed

text \<open>A key that leaves the map while it waits to be removed from the log.\<close>

definition forget :: "cache_key \<Rightarrow> database \<Rightarrow> database option" where
  "forget k d = eraseMapEntry k (d\<lparr> db_removing := insort_insert k (db_removing d) \<rparr>)"

lemma forget_keeps:
  assumes d: "cache_inv d"
  shows "returns (\<lambda>d'. follows v d d' \<and> cache_inv (d'\<lparr> db_removing := [] \<rparr>) \<and> sorted (db_removing d') \<and> distinct (db_removing d')
    \<and> length (db_removing d') \<le> cs_max_bundled (db_settings d') \<and> (\<forall>q\<in>set (db_removing d'). db_find q d' = None)
    \<and> db_map d' = AList.delete k (db_map d) \<and> db_files d' = db_files d \<and> db_stale d' = db_stale d \<and> db_open d' = db_open d
    \<and> (\<forall>V X. logged V X d \<longrightarrow> logged V X d')) (forget k d)"
proof -
  let ?d = "d\<lparr> db_removing := insort_insert k (db_removing d) \<rparr>"
  have "map_ok ?d" using d by (simp add: cache_inv_def map_ok_def stats_ok_def)
  then obtain d' where d': "forget k d = Some d'" "map_ok d'" "db_map d' = AList.delete k (db_map d)" "same_rest ?d d'"
      "db_excess d' = db_excess d"
    using eraseMapEntry_keeps [of ?d k] by (auto simp: forget_def elim!: returnsE)
  note same = same_restD [OF d'(4), simplified]
  have find: "db_find q d' = (if q = k then None else db_find q d)" for q
    by (simp add: db_find_def d'(3) delete_conv')
  have gone: "\<forall>q\<in>set (db_removing d'). db_find q d' = None"
    using d by (auto simp: find same cache_inv_def set_insort_insert)
  moreover have "logged V X d'" if "logged V X d" for V X
    using that by (auto simp: logged_def marked_def mirrors_def clock_below_def find same set_insort_insert split: if_splits)
  moreover have "cache_inv (d'\<lparr> db_removing := [] \<rparr>)"
    using d d'(2,5) by (simp add: cache_inv_def map_ok_def stats_ok_def queue_ok_def files_ok_def excess_ok_def same)
  moreover have "sorted (db_removing d')" "distinct (db_removing d')" "length (db_removing d') \<le> cs_max_bundled (db_settings d')"
    using d length_insort_insert [of "db_removing d" k]
    by (auto simp: same cache_inv_def queue_ok_def sorted_insort_insert distinct_insort_insert)
  moreover have "follows v d d'"
    by (simp add: follows_def same countRelativeTime_def time_passed_def)
  ultimately show ?thesis using d'(1,3) same by simp
qed

lemma cache_remove_forget:
  "cache_inv d \<Longrightarrow> db_open d \<Longrightarrow> db_find k d = Some e \<Longrightarrow> cache_remove v k d = do {
     d \<leftarrow> forget k d;
     d \<leftarrow> writeMultiRemoveLazy v d;
     let d = remove_file v (ce_place e) d;
     Some (if db_files d (ce_place e) = None then NoError else IoError (PlacePath (ce_place e)), d) }"
proof -
  assume d: "cache_inv d" "db_open d" "db_find k d = Some e"
  let ?d = "d\<lparr> db_removing := insort_insert k (db_removing d) \<rparr>"
  have "map_ok ?d" using d(1) by (simp add: cache_inv_def map_ok_def stats_ok_def)
  from erase_before_lazy [OF this, of v k]
  have "do { d \<leftarrow> writeMultiRemoveLazy v ?d; d \<leftarrow> eraseMapEntry k d; g d } = do { d \<leftarrow> forget k d; d \<leftarrow> writeMultiRemoveLazy v d; g d }"
    for g :: "database \<Rightarrow> (cache_error \<times> database) option"
    unfolding forget_def by (simp flip: Option.bind_assoc)
  then show ?thesis using d(2,3) by (simp add: cache_remove_def)
qed

text \<open>What the removal of a key does to the values.\<close>

definition removes :: "env \<Rightarrow> cache_key \<Rightarrow> database \<Rightarrow> database \<Rightarrow> bool" where
  "removes v k d d' \<longleftrightarrow> follows v d d' \<and> cache_inv d' \<and> db_stale d' = db_stale d
     \<and> shape d' = (if db_open d then (shape d)(k := None) else shape d)
     \<and> db_files d' = (case db_find k d of
         Some e \<Rightarrow> if db_open d \<and> ev_removable v (ce_place e) then (db_files d)(ce_place e := None) else db_files d
       | None \<Rightarrow> db_files d)
     \<and> (\<forall>V X. log_fine v d \<longrightarrow> logged V X d \<longrightarrow> logged V X d')"

lemma cache_remove_keeps: "cache_inv d \<Longrightarrow> returns (\<lambda>(error, d'). removes v k d d') (cache_remove v k d)"
proof (cases "db_open d \<and> db_find k d \<noteq> None")
  case False
  assume "cache_inv d"
  moreover have "shape d k = None" if "db_find k d = None" using that by (simp add: shape_def)
  ultimately show ?thesis
    using False by (cases "db_find k d") (auto simp: cache_remove_def removes_def fun_upd_idem)
next
  case True
  assume d: "cache_inv d"
  obtain e where e: "db_find k d = Some e" using True by blast
  obtain d1 where d1: "forget k d = Some d1" "follows v d d1" "cache_inv (d1\<lparr> db_removing := [] \<rparr>)" "sorted (db_removing d1)"
      "distinct (db_removing d1)" "length (db_removing d1) \<le> cs_max_bundled (db_settings d1)"
      "\<forall>q\<in>set (db_removing d1). db_find q d1 = None" "db_map d1 = AList.delete k (db_map d)" "db_files d1 = db_files d"
      "db_stale d1 = db_stale d" "db_open d1 = db_open d" "\<forall>V X. logged V X d \<longrightarrow> logged V X d1"
    using forget_keeps [OF d, of v k] by (auto elim!: returnsE)
  obtain d2 where d2: "writeMultiRemoveLazy v d1 = Some d2" "keeps v d1 d2"
    using writeMultiRemoveLazy_keeps [OF d1(3-7), of v] by (auto elim!: returnsE)
  define d' where "d' = remove_file v (ce_place e) d2"
  have run: "cache_remove v k d = Some (if db_files d' (ce_place e) = None then NoError else IoError (PlacePath (ce_place e)), d')"
    using cache_remove_forget [OF d _ e, of v] True d1(1) d2(1) by (simp add: d'_def Let_def)
  have "shape d1 = (shape d)(k := None)"
    by (auto simp: shape_def db_find_def d1(8) delete_conv' fun_eq_iff)
  moreover have "follows v d d'" "\<And>V X. logged V X d2 \<Longrightarrow> logged V X d'" "shape d' = shape d2" "db_stale d' = db_stale d2"
    using d1(2) d2(2) by (auto simp: d'_def remove_file_def keeps_def follows_def logged_def marked_def mirrors_def clock_below_def shape_def db_find_def
        countRelativeTime_def time_passed_def)
  moreover have "cache_inv d'"
    using keepsD(1) [OF d2(2)] by (auto simp: d'_def remove_file_def cache_inv_def map_ok_def stats_ok_def queue_ok_def
        files_ok_def excess_ok_def db_find_def)
  moreover have "log_fine v d1" if "log_fine v d" using follows_fine [OF d1(2) that] .
  moreover have "db_files d' = (if ev_removable v (ce_place e) then (db_files d)(ce_place e := None) else db_files d)"
    using d2(2) d1(9) by (simp add: d'_def remove_file_def keeps_def)
  ultimately show ?thesis
    using d1 d2(2) e True unfolding run by (auto simp: removes_def keeps_def)
qed

end
