(* ===== verification/CacheRequests.thy ===== *)
theory CacheRequests imports CacheOps begin

text \<open>
  The requests to the cache: what each does to the map, to the files and to the log, on every path.
\<close>

section \<open>Values in files\<close>

definition stored :: "database \<Rightarrow> bytes \<Rightarrow> nat \<Rightarrow> bytes" where
  "stored d place n = (case db_files d place of
     Some data \<Rightarrow> if n \<le> length data then take n data else [] | None \<Rightarrow> [])"

lemma file_read_whole:
  "16 dvd offset \<Longrightarrow> 16 dvd n \<Longrightarrow> 16 dvd length data \<Longrightarrow> file_read offset n data = Some (take n (drop offset data))"
proof -
  assume "16 dvd offset" "16 dvd n" "16 dvd length data"
  then have "16 dvd length (take n (drop offset data))" by (simp add: min_def dvd_diff_nat)
  then have "take (length (take n (drop offset data)) div 16 * 16) (take n (drop offset data)) = take n (drop offset data)"
    by (simp only: dvd_div_mult_self take_all order.refl)
  then show ?thesis using \<open>16 dvd n\<close> by (simp only: file_read_def Let_def) simp
qed

lemma readWithPadding_whole:
  assumes "16 dvd length data"
  shows "returns (\<lambda>got. (if length got = n then got else []) = (if n \<le> length data then take n data else []))
    (readWithPadding n data)"
proof -
  define part where "part = n mod 16"
  define good where "good = n - part"
  have good: "16 dvd good" "n = good + part" "part < 16"
    by (simp_all add: good_def part_def minus_mod_eq_mult_div)
  have first: "(if good \<noteq> 0 then file_read 0 good data else Some []) = Some (take good data)"
    using file_read_whole [of 0 good data] good assms by auto
  have second: "file_read good 16 data = Some (take 16 (drop good data))"
    using file_read_whole [of good 16 data] good assms by simp
  have block: "length (take 16 (drop good data)) = 16" if "take 16 (drop good data) \<noteq> []"
  proof -
    have "16 dvd length data - good" using assms good(1) by (simp add: dvd_diff_nat)
    moreover have "0 < length data - good" using that by auto
    ultimately show ?thesis by (auto simp: dvd_def)
  qed
  have run: "readWithPadding n data = (if length (take good data) \<noteq> good \<or> part = 0 then Some (take good data)
      else if take 16 (drop good data) = [] then Some (take good data)
      else if length (take 16 (drop good data)) \<noteq> 16 then None
      else Some (take good data @ take part (take 16 (drop good data))))"
    unfolding readWithPadding_def Let_def part_def [symmetric] good_def [symmetric] first second
    by (simp only: Option.bind.bind_lunit)
  show ?thesis
  proof (cases "length data < good")
    case True
    then show ?thesis using good(2) unfolding run by simp
  next
    case False
    show ?thesis
    proof (cases "part = 0 \<or> take 16 (drop good data) = []")
      case True
      then show ?thesis using good(2) False unfolding run by auto
    next
      case rest: False
      then have "length (take 16 (drop good data)) = 16" using block by blast
      moreover from this have "good + 16 \<le> length data" by (simp add: min_def split: if_splits)
      moreover have "take good data @ take part (take 16 (drop good data)) = take n data"
        using good by (simp add: take_add min_def)
      ultimately show ?thesis using good(2,3) rest False unfolding run by simp
    qed
  qed
qed

lemma readValueData_stored:
  assumes "files_ok d"
  shows "readValueData v place n d = Some (if ev_readable v place then stored d place n else [])"
proof (cases "db_files d place")
  case (Some data)
  then have "16 dvd length data" using assms by (simp add: files_ok_def)
  from readWithPadding_whole [OF this, of n] show ?thesis
    using Some by (auto simp: readValueData_def stored_def elim!: returnsE)
qed (simp add: readValueData_def stored_def)

lemma writeWithPadding_blocks: "16 dvd length (writeWithPadding v data)"
proof (cases "length data mod 16 = 0")
  case False
  then have "length (writeWithPadding v data) = length data + (16 - length data mod 16)"
    by (simp add: writeWithPadding_def Let_def)
  also have "\<dots> = 16 * (length data div 16 + 1)" by presburger
  finally show ?thesis by simp
qed (auto simp: writeWithPadding_def Let_def)

lemma stored_written: "stored (d\<lparr> db_files := (db_files d)(place \<mapsto> writeWithPadding v data) \<rparr>) place (length data) = data"
  by (simp add: stored_def writeWithPadding_def Let_def)

section \<open>A store\<close>

definition fits :: "database \<Rightarrow> store \<Rightarrow> bool" where
  "fits d s \<longleftrightarrow> length (so_size s) = 3 \<and> 0 < getSize s \<and> getSize s \<le> cs_max_data_size (db_settings d)
     \<and> length (so_place s) = 7"

lemma store_time_cases:
  assumes "store_time v d = Some t"
  shows "cs_track_time (db_settings d) \<Longrightarrow> t = db_time d \<or> t = countTimePoint v d"
    and "\<not> cs_track_time (db_settings d) \<Longrightarrow> t = \<lparr>tp_relative = 0, tp_system = 0\<rparr>"
  using assms by (auto simp: store_time_def record_time_def Let_def split: if_splits)

lemma store_time_returns: "returns (\<lambda>t. True) (store_time v d)"
  by (simp add: store_time_def record_time_def Let_def countTimePoint_def)

lemma time_point_eq: "tp_relative (countTimePoint v d) = countRelativeTime v d"
  by (simp add: countTimePoint_def countRelativeTime_def)

lemma apply_store_time:
  assumes "store_time v d = Some t" "cs_track_time (db_settings d)"
  shows "countRelativeTime v (applyTimePoint t d) = countRelativeTime v d"
    and "tp_relative (db_time (applyTimePoint t d)) = tp_relative t"
    and "tp_system (db_time d) < 2 ^ 32 \<Longrightarrow> tp_system (db_time (applyTimePoint t d)) < 2 ^ 32"
proof -
  have "t = db_time d \<or> t = countTimePoint v d" using store_time_cases assms by blast
  then show "countRelativeTime v (applyTimePoint t d) = countRelativeTime v d"
    "tp_relative (db_time (applyTimePoint t d)) = tp_relative t"
    using countRelativeTime_now [where v = v and d = d] by (auto simp: applyTimePoint_def countTimePoint_def)
  show "tp_system (db_time (applyTimePoint t d)) < 2 ^ 32" if "tp_system (db_time d) < 2 ^ 32"
    using \<open>t = db_time d \<or> t = countTimePoint v d\<close> that i32_bounds [of "ev_unix v"]
    by (auto simp: applyTimePoint_def countTimePoint_def GetUnixtime_def)
qed

definition bare_entry :: "store \<Rightarrow> entry" where
  "bare_entry s = \<lparr>ce_time = 0, ce_size = getSize s, ce_checksum = so_checksum s, ce_place = so_place s, ce_tag = so_tag s\<rparr>"

lemma store_entry_bare: "(store_entry s d)\<lparr> ce_time := 0 \<rparr> = bare_entry s"
  by (simp add: store_entry_def bare_entry_def)

lemma store_time_ok:
  assumes "store_time v d = Some t" "tp_system (db_time d) < 2 ^ 32" "countRelativeTime v d < 2 ^ 64"
    "cs_track_time (db_settings d)"
  shows "time_ok t"
proof -
  have "time_ok (db_time d)" using assms(2,3) by (simp add: time_ok_def countRelativeTime_def)
  then show ?thesis using store_time_cases(1) [OF assms(1,4)] countTimePoint_ok [OF assms(3)] by auto
qed

text \<open>The record of a store on top of the log and in the map.\<close>

lemma store_replays:
  assumes "store_time v d = Some (so_time s)" "fits d s" "map_ok dr" "db_settings dr = db_settings d" "clock_below dr d"
  shows "returns (\<lambda>(ok, dr'). ok \<and> map_ok dr' \<and> db_settings dr' = db_settings dr
    \<and> clock_below dr' (store_clock s d)
    \<and> db_map dr' = AList.update (so_key s) (store_entry s d) (db_map dr)) (processRecordStore s dr)"
proof -
  have fit: "0 < getSize s" "getSize s \<le> cs_max_data_size (db_settings dr)" "length (so_place s) = 7"
    using assms(2,4) by (auto simp: fits_def)
  obtain dr' where dr': "processRecordStore s dr = Some (True, dr')" "map_ok dr'"
    "db_map dr' = AList.update (so_key s) (store_entry s dr) (db_map dr)" "same_rest (store_clock s dr) dr'"
    using processRecordStore_keeps [OF assms(3) fit] by (auto elim!: returnsE)
  have "store_entry s dr = store_entry s d" using assms(4,5) by (simp add: store_entry_def clock_below_def)
  moreover have "clock_below (store_clock s dr) (store_clock s d)"
    using assms(4,5) by (auto simp: clock_below_def store_clock_def applyTimePoint_def)
  ultimately show ?thesis
    using dr' same_restD(1,9) [OF dr'(4)] by (simp add: clock_below_def)
qed

lemma write_store_keeps:
  assumes d: "cache_inv d" and time: "store_time v d = Some (so_time s)" and fit: "fits d s"
    and fresh: "so_key s \<notin> set (db_removing d)"
  shows "returns (\<lambda>(error, d'). follows v d d' \<and> cache_inv d' \<and> db_files d' = db_files d \<and> db_stale d' = db_stale d
    \<and> (error = NoError \<longleftrightarrow> db_open d \<and> ev_log_ok v) \<and> db_removing d' = db_removing d
    \<and> shape d' = (if error = NoError then (shape d)(so_key s \<mapsto> bare_entry s) else shape d)
    \<and> (\<forall>V X. log_fine v d \<longrightarrow> logged V X d \<longrightarrow> logged V (X - {so_key s}) d')) (write_store v s d)"
proof -
  let ?s = "db_settings d" and ?k = "so_key s"
  obtain e where e: "record_bytes (cs_track_time ?s) (StoreRecord s) = Some e" by (simp add: record_bytes.simps)
  show ?thesis
  proof (cases "db_open d \<and> ev_log_ok v")
    case False
    define w where "w = (if \<not> db_open d then d
      else d\<lparr> db_log := put_bytes (db_offset d) (take (ev_log_written v) e) (db_log d) \<rparr>)"
    have "write_store v s d = Some (IoError BinlogPath, binlog_close w)"
      using False e by (auto simp: write_store_def binlog_write_def w_def)
    moreover have "cache_inv (binlog_close w)"
      using d by (simp add: w_def binlog_close_def cache_inv_def map_ok_def stats_ok_def queue_ok_def files_ok_def
          excess_ok_def db_find_def)
    moreover have "shape (binlog_close w) = shape d" "follows v d (binlog_close w)" "\<not> log_fine v d"
      using False by (auto simp: w_def binlog_close_def shape_def db_find_def follows_def countRelativeTime_def
          time_passed_def log_fine_def)
    ultimately show ?thesis using False by (simp add: w_def binlog_close_def)
  next
    case True
    define w where "w = d\<lparr> db_log := put_bytes (db_offset d) e (db_log d), db_offset := db_offset d + length e \<rparr>"
    have map_w: "map_ok w" using d by (simp add: w_def cache_inv_def map_ok_def stats_ok_def)
    have fit_w: "0 < getSize s" "getSize s \<le> cs_max_data_size (db_settings w)" "length (so_place s) = 7"
      using fit by (auto simp: fits_def w_def)
    obtain d' where d': "processRecordStore s w = Some (True, d')" "map_ok d'"
      "db_map d' = AList.update ?k (store_entry s w) (db_map w)" "same_rest (store_clock s w) d'" "db_excess w \<le> db_excess d'"
      using processRecordStore_keeps [OF map_w fit_w] by (auto elim!: returnsE)
    have run: "write_store v s d = Some (NoError, d')"
      using True e d'(1) by (simp add: write_store_def binlog_write_def w_def)
    have entry: "store_entry s w = store_entry s d" by (simp add: store_entry_def w_def)
    have clock: "db_time (store_clock s w) = db_time (store_clock s d)"
      by (simp add: store_clock_def applyTimePoint_def w_def)
    have rest: "db_settings d' = ?s" "db_open d' = db_open d" "db_log d' = db_log w" "db_offset d' = db_offset w"
      "db_files d' = db_files d" "db_removing d' = db_removing d" "db_accessed d' = db_accessed d" "db_stale d' = db_stale d"
      "db_compactor d' = db_compactor d" "db_time d' = db_time (store_clock s d)" "db_ready d' = db_ready d"
      using same_restD [OF d'(4)] clock by (simp_all add: store_clock_def applyTimePoint_def w_def)
    have clock_ok: "countRelativeTime v d' = countRelativeTime v d" "tp_system (db_time d') < 2 ^ 32"
      using apply_store_time [OF time] d rest
      by (auto simp: countRelativeTime_def time_passed_def store_clock_def cache_inv_def)
    have find: "db_find q d' = (if q = ?k then Some (store_entry s d) else db_find q d)" for q
      using d'(3) by (simp add: db_find_def update_conv' entry) (simp add: w_def)
    have "logged V (X - {?k}) d'" if "log_fine v d" "logged V X d" for V X
    proof (rule logged_step [OF that(2) _ e])
      show "record_ok ?s (StoreRecord s)"
        using fit time store_time_ok [OF time] d that(1) store_time_cases(2) [OF time]
        by (auto simp: record_ok_def store_ok_def fits_def cache_inv_def log_fine_def)
    next
      fix dr assume "mirrors V X d dr"
      note dr = this [unfolded mirrors_def]
      obtain dr' where dr': "processRecordStore s dr = Some (True, dr')" "map_ok dr'" "db_settings dr' = db_settings dr"
        "clock_below dr' (store_clock s d)" "db_map dr' = AList.update ?k (store_entry s d) (db_map dr)"
        using store_replays [OF time fit, of dr] dr by (auto elim!: returnsE)
      have "db_find q dr' = (if q = ?k then Some (store_entry s d) else db_find q dr)" for q
        using dr'(5) by (simp add: db_find_def update_conv')
      then have "mirrors V (X - {?k}) d' dr'"
        using dr dr'(2-4) rest(1,6,10) find by (auto simp: mirrors_def clock_below_def)
      then show "returns (\<lambda>(ok, dr'). ok \<and> mirrors V (X - {?k}) d' dr') (process_record (StoreRecord s) dr)"
        using dr'(1) by (simp add: process_record_def)
    qed (use that(1) rest in \<open>simp_all add: w_def\<close>)
    moreover have "cache_inv d'"
      using d d'(2,5) clock_ok(2) fresh by (auto simp: cache_inv_def queue_ok_def files_ok_def excess_ok_def find rest w_def)
    moreover have "shape d' = (shape d)(?k \<mapsto> bare_entry s)"
      by (auto simp: shape_def find fun_eq_iff store_entry_bare)
    moreover have "follows v d d'" using rest clock_ok(1) by (simp add: follows_def)
    ultimately show ?thesis unfolding run using True rest by simp
  qed
qed

section \<open>Put\<close>

text \<open>What a put needs from outside: a draw of a place that is free.\<close>

definition places_ok :: "env \<Rightarrow> database \<Rightarrow> bool" where
  "places_ok v d \<longleftrightarrow> ev_open v \<noteq> OpenWrongKey \<and> (\<forall>p\<in>set (ev_places v). length p = 7)
     \<and> (\<exists>p\<in>set (ev_places v). db_files d p = None)"

definition fine :: "env \<Rightarrow> database \<Rightarrow> bool" where
  "fine v d \<longleftrightarrow> log_fine v d \<and> ev_open v = OpenSuccess \<and> ev_write_ok v"

lemma generatePlace_returns:
  "places_ok v d \<Longrightarrow> returns (\<lambda>p. p \<in> set (ev_places v) \<and> length p = 7 \<and> db_files d p = None) (generatePlace v d)"
proof -
  assume ok: "places_ok v d"
  obtain p where p: "find (isFreePlace d) (ev_places v) = Some p"
    using ok by (cases "find (isFreePlace d) (ev_places v)") (auto simp: places_ok_def find_None_iff isFreePlace_def)
  then have "p \<in> set (ev_places v)" "isFreePlace d p" by (auto simp: find_Some_iff)
  then show ?thesis
    using ok p by (simp add: generatePlace_def places_ok_def isFreePlace_def)
qed

definition value_entry :: "tagged_value \<Rightarrow> bytes \<Rightarrow> entry" where
  "value_entry value place = \<lparr>ce_time = 0, ce_size = length (tv_bytes value), ce_checksum = CountChecksum (tv_bytes value),
     ce_place = place, ce_tag = tv_tag value\<rparr>"

lemma cache_inv_files: "cache_inv d \<Longrightarrow> (\<forall>p data. f p = Some data \<longrightarrow> 16 dvd length data) \<Longrightarrow> cache_inv (d\<lparr> db_files := f \<rparr>)"
  by (simp add: cache_inv_def map_ok_def stats_ok_def queue_ok_def files_ok_def excess_ok_def db_find_def)

lemma remove_file_keeps: "cache_inv d \<Longrightarrow> cache_inv (remove_file v p d)"
  using cache_inv_files [of d "(db_files d)(p := None)"] by (auto simp: remove_file_def cache_inv_def files_ok_def)

lemma remove_file_fields [simp]:
  "shape (remove_file v p d) = shape d" "db_stale (remove_file v p d) = db_stale d" "db_settings (remove_file v p d) = db_settings d"
  "logged V X (remove_file v p d) = logged V X d" "follows v c (remove_file v p d) = follows v c d"
  "db_removing (remove_file v p d) = db_removing d" "db_open (remove_file v p d) = db_open d"
  by (simp_all add: remove_file_def shape_def db_find_def logged_def marked_def mirrors_def clock_below_def follows_def countRelativeTime_def time_passed_def)

lemma files_fields [simp]:
  "shape (d\<lparr> db_files := f \<rparr>) = shape d" "logged V X (d\<lparr> db_files := f \<rparr>) = logged V X d"
  "follows v c (d\<lparr> db_files := f \<rparr>) = follows v c d" "log_fine v (d\<lparr> db_files := f \<rparr>) = log_fine v d"
  "store_time v (d\<lparr> db_files := f \<rparr>) = store_time v d"
  by (simp_all add: shape_def db_find_def logged_def marked_def mirrors_def clock_below_def follows_def countRelativeTime_def time_passed_def log_fine_def
      store_time_def record_time_def countTimePoint_def)

text \<open>A file written and its store, a failure of which takes the file away again.\<close>

lemma put_value_keeps:
  assumes d: "cache_inv d" and len: "tv_bytes value \<noteq> []" "length (tv_bytes value) \<le> cs_max_data_size (db_settings d)"
    and place: "length place = 7" "ev_open v \<noteq> OpenWrongKey" and fresh: "k \<notin> set (db_removing d)"
  shows "returns (\<lambda>(error, d'). follows v d d' \<and> cache_inv d' \<and> db_stale d' = db_stale d
    \<and> (fine v d \<longrightarrow> error = NoError)
    \<and> (error = NoError \<longrightarrow> shape d' = (shape d)(k \<mapsto> value_entry value place)
        \<and> (let files = (db_files d)(place \<mapsto> writeWithPadding v (tv_bytes value)) in
           db_files d' = (case was of Some p \<Rightarrow> if ev_removable v p then files(p := None) else files | None \<Rightarrow> files)))
    \<and> (error \<noteq> NoError \<longrightarrow> shape d' = shape d \<and> (\<forall>p. p \<noteq> place \<longrightarrow> db_files d' p = db_files d p))
    \<and> (\<forall>V X. fine v d \<longrightarrow> logged V X d \<longrightarrow> logged V (X - {k}) d'))
    (put_value v k value was place (CountChecksum (tv_bytes value)) d)"
proof -
  let ?f = "(db_files d)(place \<mapsto> writeWithPadding v (tv_bytes value))"
  define w where "w = d\<lparr> db_files := ?f \<rparr>"
  have inv_f: "cache_inv (d\<lparr> db_files := f \<rparr>)" if "\<forall>p. f p = db_files d p \<or> f p = Some (writeWithPadding v (tv_bytes value)) \<or> f p = Some []" for f
  proof (rule cache_inv_files [OF d], intro allI impI)
    fix p data assume "f p = Some data"
    then show "16 dvd length data"
      using that [rule_format, of p] d writeWithPadding_blocks [of v "tv_bytes value"] by (auto simp: cache_inv_def files_ok_def)
  qed
  show ?thesis
  proof (cases "ev_open v = OpenSuccess \<and> ev_write_ok v")
    case False
    define b where "b = (if ev_open v = OpenSuccess then d\<lparr> db_files := (db_files d)(place \<mapsto> []) \<rparr> else d)"
    obtain error where "error \<noteq> NoError" "put_value v k value was place (CountChecksum (tv_bytes value)) d
        = Some (error, remove_file v place b)"
      using False place(2) by (cases "ev_open v") (auto simp: put_value_def writeNewEntry_def b_def)
    moreover have "cache_inv (remove_file v place b)"
      by (rule remove_file_keeps) (auto simp: b_def d intro!: inv_f)
    ultimately show ?thesis
      using False by (auto simp: b_def remove_file_def fine_def)
  next
    case True
    have wrote: "writeNewEntry v place (tv_bytes value) d = Some (NoError, w)"
      using True by (simp add: writeNewEntry_def w_def)
    have inv: "cache_inv w" unfolding w_def by (rule inv_f) auto
    obtain t where t: "store_time v w = Some t" using store_time_returns [of v w] by (auto elim!: returnsE)
    have bound: "length (tv_bytes value) < 2 ^ (3 * 8)"
      using len(2) d by (simp add: cache_inv_def settings_ok_def CacheTypes.checkSettings_def kDataSizeLimit_def)
    then obtain packed where packed: "ReadTo 3 (length (tv_bytes value)) = Some packed" by (simp add: ReadTo_def)
    define s where "s = \<lparr>so_tag = tv_tag value, so_size = packed, so_place = place, so_checksum = CountChecksum (tv_bytes value),
      so_key = k, so_time = t\<rparr>"
    have size: "getSize s = length (tv_bytes value)" "length (so_size s) = 3"
      using ReadTo_ReadFrom [OF packed] by (simp_all add: s_def getSize_def)
    have fit: "fits w s" using size len place by (simp add: fits_def) (simp add: s_def w_def)
    have bare: "bare_entry s = value_entry value place" using size by (simp add: bare_entry_def value_entry_def) (simp add: s_def)
    obtain error d1 where d1: "write_store v s w = Some (error, d1)" "follows v w d1" "cache_inv d1" "db_files d1 = ?f"
      "db_stale d1 = db_stale d" "error = NoError \<longleftrightarrow> db_open d \<and> ev_log_ok v"
      "shape d1 = (if error = NoError then (shape d)(k \<mapsto> value_entry value place) else shape d)"
      "\<forall>V X. log_fine v d \<longrightarrow> logged V X d \<longrightarrow> logged V (X - {k}) d1"
    proof -
      have fields: "db_files w = ?f" "db_stale w = db_stale d" "db_open w = db_open d" "shape w = shape d" "log_fine v w = log_fine v d"
        "\<And>V X. logged V X w = logged V X d" "so_key s = k" "so_time s = t" "db_removing w = db_removing d"
        by (simp_all add: w_def s_def)
      have "store_time v w = Some (so_time s)" "so_key s \<notin> set (db_removing w)" using t fresh fields by simp_all
      note post = write_store_keeps [OF inv this(1) fit this(2)]
      obtain x where "write_store v s w = Some x" using post by (cases "write_store v s w") auto
      then show thesis using post by (intro that [of "fst x" "snd x"]) (auto simp: fields bare)
    qed
    have key: "writeKeyPlace v k place value (CountChecksum (tv_bytes value)) w = Some (error, d1)"
      using t packed len d1(1) by (simp add: writeKeyPlace_def s_def) (simp add: w_def)
    have follows1: "follows v d d1" using d1(2) by (auto simp: follows_def w_def countRelativeTime_def time_passed_def)
    define c where "c = (case was of Some p \<Rightarrow> remove_file v p d1 | None \<Rightarrow> d1)"
    have inv_c: "cache_inv c" using d1(3) by (auto simp: c_def intro: remove_file_keeps split: option.splits)
    have run: "put_value v k value was place (CountChecksum (tv_bytes value)) d =
        (if error \<noteq> NoError then Some (error, remove_file v place d1) else map_option (Pair NoError) (optimize v c))"
      using wrote key by (auto simp: put_value_def c_def)
    show ?thesis
    proof (cases "error = NoError")
      case False
      then show ?thesis
        using d1 follows1 remove_file_keeps [OF d1(3)] unfolding run by (auto simp: remove_file_def fine_def log_fine_def)
    next
      case True
      obtain d' where d': "optimize v c = Some d'" "keeps v c d'" using optimize_keeps [OF inv_c, of v] by (auto elim!: returnsE)
      have c: "shape c = shape d1" "db_stale c = db_stale d1" "\<And>V X. logged V X c = logged V X d1" "follows v d c"
        "db_files c = (case was of Some p \<Rightarrow> if ev_removable v p then ?f(p := None) else ?f | None \<Rightarrow> ?f)"
        using follows1 d1(4) by (auto simp: c_def split: option.splits) (auto simp: remove_file_def)
      have "log_fine v c" if "log_fine v d" using follows_fine [OF c(4) that] .
      then show ?thesis
        using d' d1 c True follows_trans [OF c(4)] unfolding run by (auto simp: keeps_def fine_def)
    qed
  qed
qed

lemma logged_mono: "X \<subseteq> Y \<Longrightarrow> logged V X d \<Longrightarrow> logged V Y d"
  unfolding logged_def mirrors_def by blast

lemma logged_found: "db_find k d \<noteq> None \<Longrightarrow> logged V (insert k X) d \<Longrightarrow> logged V X d"
  unfolding logged_def mirrors_def by blast

text \<open>The value is in a file of its own and in the map, or it was there before.\<close>

definition placed :: "env \<Rightarrow> cache_key \<Rightarrow> tagged_value \<Rightarrow> database \<Rightarrow> database \<Rightarrow> bool" where
  "placed v k value d d' \<longleftrightarrow>
     (\<exists>place. length place = 7 \<and> db_files d place = None \<and> shape d' = (shape d)(k \<mapsto> value_entry value place)
        \<and> (let files = (db_files d)(place \<mapsto> writeWithPadding v (tv_bytes value)) in
           db_files d' = (case shape d k of
               Some e \<Rightarrow> if ev_removable v (ce_place e) then files(ce_place e := None) else files | None \<Rightarrow> files)))
     \<or> (\<exists>place. shape d k = Some (value_entry value place) \<and> stored d place (length (tv_bytes value)) = tv_bytes value
        \<and> shape d' = shape d \<and> db_files d' = db_files d)"

definition put_post :: "env \<Rightarrow> cache_key \<Rightarrow> tagged_value \<Rightarrow> database \<Rightarrow> cache_error \<Rightarrow> database \<Rightarrow> bool" where
  "put_post v k value d error d' \<longleftrightarrow> follows v d d' \<and> cache_inv d'
     \<and> (db_stale d' = db_stale d \<or> db_stale d' = removeAll k (db_stale d))
     \<and> (tv_bytes value = [] \<longrightarrow> removes v k d d')
     \<and> (tv_bytes value \<noteq> [] \<and> fine v d \<longrightarrow> error = NoError)
     \<and> (tv_bytes value \<noteq> [] \<and> error = NoError \<longrightarrow> placed v k value d d')
     \<and> (tv_bytes value \<noteq> [] \<and> error \<noteq> NoError \<longrightarrow> shape d' = shape d)
     \<and> (\<forall>V X. fine v d \<longrightarrow> logged V X d \<longrightarrow> logged V X d')"

lemma logged_change:
  assumes "logged V X d" "db_settings d' = db_settings d" "db_log d' = db_log d" "db_offset d' = db_offset d"
    "db_time d' = db_time d" "db_map d' = db_map d" "cw_object (db_compactor d') \<in> {None, cw_object (db_compactor d)}"
    "set (db_removing d) \<union> X \<subseteq> set (db_removing d') \<union> Y"
  shows "logged V Y d'"
proof -
  have "k \<notin> set (db_removing d) \<union> X" if "k \<notin> set (db_removing d') \<union> Y" for k using that assms(8) by blast
  moreover have "marked V rs d'" if "marked V rs d" for rs using that assms(2,7) by (auto simp: marked_def)
  ultimately show ?thesis using assms(1-6) unfolding logged_def mirrors_def clock_below_def db_find_def by metis
qed

lemma put_prepared:
  fixes k :: cache_key and d :: database
  assumes d: "cache_inv d"
  defines "c \<equiv> d\<lparr> db_removing := remove1 k (db_removing d), db_stale := removeAll k (db_stale d) \<rparr>"
  shows "cache_inv c" "k \<notin> set (db_removing c)" "logged V X d \<Longrightarrow> logged V (insert k X) c"
    "shape c = shape d" "db_files c = db_files d" "db_stale c = removeAll k (db_stale d)" "db_find q c = db_find q d"
    "db_settings c = db_settings d" "follows v e c = follows v e d" "follows v c e = follows v d e" "fine v c = fine v d"
    "stored c = stored d" "db_open c = db_open d" "log_fine v c = log_fine v d"
proof -
  have q: "distinct (db_removing d)" "sorted (db_removing d)" using d by (simp_all add: cache_inv_def queue_ok_def)
  show "k \<notin> set (db_removing c)" using q by (simp add: c_def)
  show "logged V (insert k X) c" if "logged V X d"
    using q by (intro logged_change [OF that]) (auto simp: c_def)
  show "cache_inv c"
    using d q by (auto simp: cache_inv_def c_def map_ok_def stats_ok_def queue_ok_def files_ok_def excess_ok_def db_find_def
        sorted_remove1 length_remove1)
qed (simp_all add: c_def shape_def db_find_def follows_def countRelativeTime_def time_passed_def fine_def log_fine_def
    stored_def fun_eq_iff)

lemma cache_put_keeps:
  assumes d: "cache_inv d" and len: "length (tv_bytes value) \<le> cs_max_data_size (db_settings d)" and places: "tv_bytes value \<noteq> [] \<Longrightarrow> places_ok v d"
  shows "returns (\<lambda>(error, d'). put_post v k value d error d') (cache_put v k value d)"
proof (cases "db_open d \<and> tv_bytes value \<noteq> []")
  case False
  have "returns (\<lambda>(error, d'). put_post v k value d error d') (cache_remove v k d)" if "tv_bytes value = []"
    using cache_remove_keeps [OF d, of v k] that
    by (auto simp: put_post_def removes_def fine_def elim!: returns_mono)
  moreover have "put_post v k value d (IoError VersionPath) d" if "\<not> db_open d"
    using that d by (cases "db_find k d") (auto simp: put_post_def removes_def fine_def log_fine_def)
  ultimately show ?thesis using False by (auto simp: cache_put_def)
next
  case True
  define c where "c = d\<lparr> db_removing := remove1 k (db_removing d), db_stale := removeAll k (db_stale d) \<rparr>"
  note c = put_prepared [where k = k, OF d, folded c_def]
  let ?sum = "CountChecksum (tv_bytes value)"
  have files: "files_ok c" using c(1) by (simp add: cache_inv_def)
  have places_c: "places_ok v c" using places True c(5) by (simp add: places_ok_def)
  have new: "returns (\<lambda>(error, d'). put_post v k value d error d') (put_value v k value was place ?sum c)"
    if "length place = 7" "db_files c place = None" "was = map_option ce_place (db_find k d)" for was place
  proof -
    have key: "shape d k = None \<longleftrightarrow> was = None" "was = map_option ce_place (shape d k)"
      using that(3) by (simp_all add: shape_def option.map_comp comp_def)
    have "tv_bytes value \<noteq> []" "length (tv_bytes value) \<le> cs_max_data_size (db_settings c)" "ev_open v \<noteq> OpenWrongKey"
      using True len places c(8) by (auto simp: places_ok_def)
    note post = put_value_keeps [OF c(1) this(1,2) that(1) this(3) c(2), of was, unfolded Let_def]
    have placed: "placed v k value d d'" if "shape d' = (shape d)(k \<mapsto> value_entry value place)"
      "db_files d' = (case was of Some p \<Rightarrow> if ev_removable v p then ((db_files d)(place \<mapsto> writeWithPadding v (tv_bytes value)))(p := None)
        else (db_files d)(place \<mapsto> writeWithPadding v (tv_bytes value)) | None \<Rightarrow> (db_files d)(place \<mapsto> writeWithPadding v (tv_bytes value)))"
      for d'
      unfolding placed_def using that key \<open>length place = 7\<close> \<open>db_files c place = None\<close> c(5)
      by (intro disjI1 exI [of _ place]) (auto split: option.splits)
    have logs: "logged V X d'" if "\<forall>V X. fine v c \<longrightarrow> logged V X c \<longrightarrow> logged V (X - {k}) d'" "fine v d" "logged V X d" for V X d'
    proof -
      have "logged V (insert k X - {k}) d'" using that c(3) [OF that(3)] c(11) by blast
      then show ?thesis by (rule logged_mono [rotated]) blast
    qed
    show ?thesis
    proof (rule returns_mono [OF post], clarify)
      fix error d'
      assume p: "follows v c d'" "cache_inv d'" "db_stale d' = db_stale c" "fine v c \<longrightarrow> error = NoError"
        "error = NoError \<longrightarrow> shape d' = (shape c)(k \<mapsto> value_entry value place)
           \<and> db_files d' = (case was of Some p \<Rightarrow> if ev_removable v p
               then ((db_files c)(place \<mapsto> writeWithPadding v (tv_bytes value)))(p := None)
               else (db_files c)(place \<mapsto> writeWithPadding v (tv_bytes value))
             | None \<Rightarrow> (db_files c)(place \<mapsto> writeWithPadding v (tv_bytes value)))"
        "error \<noteq> NoError \<longrightarrow> shape d' = shape c \<and> (\<forall>p. p \<noteq> place \<longrightarrow> db_files d' p = db_files c p)"
        "\<forall>V X. fine v c \<longrightarrow> logged V X c \<longrightarrow> logged V (X - {k}) d'"
      have "follows v d d'" "db_stale d' = removeAll k (db_stale d)" "fine v d \<longrightarrow> error = NoError"
        using p(1,3,4) c(6,10,11) by simp_all
      moreover have "error = NoError \<longrightarrow> placed v k value d d'"
        using p(5) [unfolded c(4) c(5)] placed [of d'] by blast
      moreover have "error \<noteq> NoError \<longrightarrow> shape d' = shape d" using p(6) c(4) by simp
      moreover have "fine v d \<longrightarrow> logged V X d \<longrightarrow> logged V X d'" for V X using logs [OF p(7)] by blast
      ultimately show "put_post v k value d error d'"
        using p(2) True unfolding put_post_def by blast
    qed
  qed
  show ?thesis
  proof (cases "db_find k d")
    case None
    have "returns (\<lambda>p. returns (\<lambda>(error, d'). put_post v k value d error d') (put_value v k value None p ?sum c)) (generatePlace v c)"
      by (rule returns_mono [OF generatePlace_returns [OF places_c]]) (use None new in auto)
    then show ?thesis
      using True None len c(7,8) by (simp add: cache_put_def chooseKeyPlace_def flip: c_def)
  next
    case (Some already)
    have gen: "returns (\<lambda>p. returns (\<lambda>(error, d'). put_post v k value d error d')
        (put_value v k value (Some (ce_place already)) p ?sum c)) (generatePlace v c)"
      by (rule returns_mono [OF generatePlace_returns [OF places_c]]) (use Some new in auto)
    define same where "same \<longleftrightarrow> ce_tag already = tv_tag value \<and> ce_size already = length (tv_bytes value) \<and> ce_checksum already = ?sum
      \<and> ev_readable v (ce_place already) \<and> stored c (ce_place already) (length (tv_bytes value)) = tv_bytes value"
    have choose: "chooseKeyPlace v k value ?sum c = (if same then Some (Some (ce_place already), None)
        else map_option (\<lambda>place. (Some (ce_place already), Some place)) (generatePlace v c))"
      using Some len True c(7,8) by (auto simp: chooseKeyPlace_def readValueData_stored [OF files] same_def)
    have "returns (\<lambda>d'. put_post v k value d NoError d') (recordEntryAccess v k c)" if same
    proof -
      have "shape d k = Some (value_entry value (ce_place already))"
        using that Some by (cases already) (simp add: same_def shape_def value_entry_def)
      moreover have "logged V X c" if "logged V X d" for V X
        using logged_found [OF _ c(3) [OF that]] Some c(7) by simp
      ultimately show ?thesis
        using that True c by (intro returns_mono [OF recordEntryAccess_keeps [OF c(1), of v k]])
          (auto simp: put_post_def keeps_def placed_def same_def fine_def)
    qed
    then show ?thesis
      using True gen choose by (auto simp: cache_put_def simp flip: c_def)
  qed
qed

section \<open>Get, copy and move\<close>

definition got :: "env \<Rightarrow> cache_key \<Rightarrow> database \<Rightarrow> tagged_value" where
  "got v k d = (case db_find k d of
     None \<Rightarrow> no_value
   | Some e \<Rightarrow>
       let data = (if ev_readable v (ce_place e) then stored d (ce_place e) (ce_size e) else []) in
       if data = [] \<or> CountChecksum data \<noteq> ce_checksum e then no_value else \<lparr>tv_bytes = data, tv_tag = ce_tag e\<rparr>)"

lemma get_then_got:
  assumes "cache_inv d"
  shows "get_then v k callback d =
    (if tv_bytes (got v k d) = [] then do { (_, d) \<leftarrow> (case db_find k d of None \<Rightarrow> Some (NoError, d) | Some _ \<Rightarrow> cache_remove v k d);
       callback no_value d }
     else do { (x, d) \<leftarrow> callback (got v k d) d; map_option (Pair x) (recordEntryAccess v k d) })"
proof -
  have "files_ok d" using assms by (simp add: cache_inv_def)
  then show ?thesis
    by (auto simp: get_then_def got_def readValueData_stored no_value_def Let_def split: option.splits)
qed

lemma got_bytes: "cache_inv d \<Longrightarrow> length (tv_bytes (got v k d)) \<le> cs_max_data_size (db_settings d)"
proof (cases "db_find k d")
  case (Some e)
  assume "cache_inv d"
  then have "ce_size e \<le> cs_max_data_size (db_settings d)"
    using map_ok_find [of d k e] Some by (simp add: cache_inv_def entry_ok_def)
  then show ?thesis using Some by (auto simp: got_def no_value_def stored_def Let_def split: option.splits)
qed (simp add: got_def no_value_def)

lemma removes_nothing: "cache_inv d \<Longrightarrow> db_find k d = None \<Longrightarrow> removes v k d d"
proof -
  assume "cache_inv d" "db_find k d = None"
  moreover from this(2) have "(shape d)(k := None) = shape d" by (auto simp: shape_def)
  ultimately show ?thesis by (simp add: removes_def)
qed

lemma get_then_keeps:
  assumes d: "cache_inv d"
    and missed: "\<And>d1. tv_bytes (got v k d) = [] \<Longrightarrow> removes v k d d1 \<Longrightarrow> returns P (callback no_value d1)"
    and hit: "tv_bytes (got v k d) \<noteq> [] \<Longrightarrow> returns (\<lambda>(x, d1). cache_inv d1 \<and> (\<forall>d'. keeps v d1 d' \<longrightarrow> P (x, d')))
      (callback (got v k d) d)"
  shows "returns P (get_then v k callback d)"
proof (cases "tv_bytes (got v k d) = []")
  case True
  have "returns (\<lambda>(_, d1). removes v k d d1) (case db_find k d of None \<Rightarrow> Some (NoError, d) | Some _ \<Rightarrow> cache_remove v k d)"
    using removes_nothing [OF d] cache_remove_keeps [OF d] by (auto split: option.splits)
  then show ?thesis
    using True missed by (auto simp: get_then_got [OF d] elim!: returns_mono)
next
  case False
  have "returns (\<lambda>d'. P (x, d')) (recordEntryAccess v k d1)" if "cache_inv d1" "\<forall>d'. keeps v d1 d' \<longrightarrow> P (x, d')" for x d1
    using recordEntryAccess_keeps [OF that(1), of v k] that(2) by (auto elim!: returns_mono)
  then show ?thesis
    using False hit by (auto simp: get_then_got [OF d] elim!: returns_mono)
qed

lemma cache_get_keeps:
  assumes d: "cache_inv d"
  shows "returns (\<lambda>(value, d'). value = got v k d \<and> (if tv_bytes value = [] then removes v k d d' else keeps v d d')) (cache_get v k d)"
  unfolding cache_get_def
proof (rule get_then_keeps [OF d])
  fix d1 assume "tv_bytes (got v k d) = []" "removes v k d d1"
  moreover from this(1) have "got v k d = no_value" by (auto simp: got_def no_value_def Let_def split: option.splits if_splits)
  ultimately show "returns (\<lambda>(value, d'). value = got v k d \<and> (if tv_bytes value = [] then removes v k d d' else keeps v d d'))
      (Some (no_value, d1))" by simp
qed (use d in simp)

lemma getWithSizes_keeps:
  assumes d: "cache_inv d"
  shows "returns (\<lambda>((data, sizes), d'). data = tv_bytes (got v k d)
      \<and> sizes = (if data = [] then [] else map (\<lambda>q. case db_find q d of Some e \<Rightarrow> ce_size e | None \<Rightarrow> 0) keys)
      \<and> (if data = [] then removes v k d d' else keeps v d d')) (getWithSizes v k keys d)"
  unfolding getWithSizes_def by (rule get_then_keeps [OF d]) (use d in \<open>auto simp: no_value_def\<close>)

lemma copyIfEmpty_keeps:
  assumes d: "cache_inv d" and places: "places_ok v d"
  shows "returns (\<lambda>(error, d').
      if db_find to d \<noteq> None then error = NoError \<and> d' = d
      else if tv_bytes (got v from d) = [] then
        (\<exists>d1. removes v from d d1 \<and> put_post v to no_value d1 error d')
      else (\<exists>d1. put_post v to (got v from d) d error d1 \<and> keeps v d1 d')) (copyIfEmpty v from to d)"
proof (cases "db_find to d")
  case None
  have "returns (\<lambda>(error, d').
      if tv_bytes (got v from d) = [] then (\<exists>d1. removes v from d d1 \<and> put_post v to no_value d1 error d')
      else (\<exists>d1. put_post v to (got v from d) d error d1 \<and> keeps v d1 d')) (get_then v from (cache_put v to) d)"
  proof (rule get_then_keeps [OF d])
    fix d1 assume "tv_bytes (got v from d) = []" "removes v from d d1"
    moreover from this(2) have "cache_inv d1" by (simp add: removes_def)
    ultimately show "returns (\<lambda>(error, d').
        if tv_bytes (got v from d) = [] then (\<exists>d1. removes v from d d1 \<and> put_post v to no_value d1 error d')
        else (\<exists>d1. put_post v to (got v from d) d error d1 \<and> keeps v d1 d')) (cache_put v to no_value d1)"
      using cache_put_keeps [of d1 no_value v to] by (auto simp: no_value_def elim!: returns_mono)
  next
    assume "tv_bytes (got v from d) \<noteq> []"
    then show "returns (\<lambda>(x, d1). cache_inv d1 \<and> (\<forall>d'. keeps v d1 d' \<longrightarrow> (case (x, d') of (error, d') \<Rightarrow>
        if tv_bytes (got v from d) = [] then (\<exists>d1. removes v from d d1 \<and> put_post v to no_value d1 error d')
        else (\<exists>d1. put_post v to (got v from d) d error d1 \<and> keeps v d1 d')))) (cache_put v to (got v from d) d)"
      using cache_put_keeps [OF d got_bytes [OF d, of v "from"] places, of to]
      by (auto elim!: returns_mono simp: put_post_def)
  qed
  then show ?thesis using None by (simp add: copyIfEmpty_def)
qed (simp add: copyIfEmpty_def)

definition move_post :: "env \<Rightarrow> cache_key \<Rightarrow> cache_key \<Rightarrow> database \<Rightarrow> cache_error \<Rightarrow> database \<Rightarrow> bool" where
  "move_post v from to d error d' \<longleftrightarrow> follows v d d' \<and> cache_inv d' \<and> db_files d' = db_files d
     \<and> (db_stale d' = db_stale d \<or> db_stale d' = removeAll to (db_stale d))
     \<and> (log_fine v d \<longrightarrow> error = NoError)
     \<and> shape d' = (if shape d to \<noteq> None \<or> shape d from = None then shape d
         else if error = NoError then (shape d)(from := None, to := shape d from) else (shape d)(from := None))
     \<and> (\<forall>V X. log_fine v d \<longrightarrow> logged V X d \<longrightarrow> logged V X d')"

lemma writeExistingPlace_store:
  assumes d: "cache_inv d" and e: "entry_ok (db_settings d) e" and none: "db_find k d = None"
  obtains s where "writeExistingPlace v k e d = write_store v s d" "store_time v d = Some (so_time s)" "fits d s"
    "so_key s = k" "bare_entry s = e\<lparr> ce_time := 0 \<rparr>"
proof -
  obtain t where t: "store_time v d = Some t" using store_time_returns [of v d] by (auto elim!: returnsE)
  have "ce_size e < 2 ^ (3 * 8)"
    using d e by (simp add: cache_inv_def settings_ok_def CacheTypes.checkSettings_def kDataSizeLimit_def entry_ok_def)
  then obtain packed where packed: "ReadTo 3 (ce_size e) = Some packed" by (simp add: ReadTo_def)
  define s where "s = \<lparr>so_tag = ce_tag e, so_size = packed, so_place = ce_place e, so_checksum = ce_checksum e,
    so_key = k, so_time = t\<rparr>"
  have "getSize s = ce_size e" "length (so_size s) = 3"
    using ReadTo_ReadFrom [OF packed] by (simp_all add: s_def getSize_def)
  then show ?thesis
    using that [of s] t packed e none
    by (cases e) (simp add: writeExistingPlace_def fits_def entry_ok_def bare_entry_def s_def)
qed

lemma moveIfEmpty_keeps:
  assumes d: "cache_inv d"
  shows "returns (\<lambda>(error, d'). move_post v from to d error d') (moveIfEmpty v from to d)"
proof (cases "db_find to d = None \<and> db_find from d \<noteq> None")
  case False
  then have "moveIfEmpty v from to d = Some (NoError, d)" "shape d to \<noteq> None \<or> shape d from = None"
    by (auto simp: moveIfEmpty_def shape_def)
  then show ?thesis using d by (auto simp: move_post_def)
next
  case True
  then obtain e where e: "db_find from d = Some e" by blast
  have shapes: "shape d to = None" "shape d from = Some (e\<lparr> ce_time := 0 \<rparr>)" "to \<noteq> from"
    using True e by (auto simp: shape_def)
  have entry: "entry_ok (db_settings d) e" using map_ok_find [OF _ e] d by (simp add: cache_inv_def)
  obtain d1 where d1: "forget from d = Some d1" "follows v d d1" "cache_inv (d1\<lparr> db_removing := [] \<rparr>)"
      "length (db_removing d1) \<le> cs_max_bundled (db_settings d1)" "\<forall>q\<in>set (db_removing d1). db_find q d1 = None"
      "db_map d1 = AList.delete from (db_map d)" "db_files d1 = db_files d"
      "db_stale d1 = db_stale d" "db_open d1 = db_open d" "\<forall>V X. logged V X d \<longrightarrow> logged V X d1"
    using forget_keeps [OF d, of v "from"] by (auto elim!: returnsE)
  have shape1: "shape d1 = (shape d)(from := None)"
    by (auto simp: shape_def db_find_def d1(6) delete_conv' fun_eq_iff)
  obtain error2 d2 where d2: "writeMultiRemove v d1 = Some (error2, d2)" "keeps v d1 d2" "db_removing d2 = []"
      "ev_log_ok v \<and> db_open d1 \<longrightarrow> error2 = NoError"
    using writeMultiRemove_keeps [OF d1(3,4,5), of v] by (auto elim!: returnsE)
  have step2: "follows v d d2" "shape d2 = (shape d)(from := None)" "db_files d2 = db_files d" "db_stale d2 = db_stale d"
    "log_fine v d \<longrightarrow> error2 = NoError" "\<And>V X. log_fine v d \<Longrightarrow> logged V X d \<Longrightarrow> logged V X d2" "cache_inv d2"
    using d1 d2 shape1 follows_trans [OF d1(2)] follows_fine [OF d1(2)] by (auto simp: keeps_def log_fine_def)
  have start: "moveIfEmpty v from to d = (if error2 \<noteq> NoError then Some (error2, d2) else writeExistingPlace v to e
      (d2\<lparr> db_removing := remove1 to (db_removing d2), db_stale := removeAll to (db_stale d2) \<rparr>))"
    using True e d1(1) d2(1) by (simp add: moveIfEmpty_def flip: forget_def)
  show ?thesis
  proof (cases "error2 = NoError")
    case False
    then show ?thesis unfolding start using step2 shapes by (auto simp: move_post_def)
  next
    case ok: True
    define c where "c = d2\<lparr> db_removing := remove1 to (db_removing d2), db_stale := removeAll to (db_stale d2) \<rparr>"
    note c = put_prepared [where k = to, OF step2(7), folded c_def]
    have removing: "db_removing c = db_removing d2" by (simp add: c_def d2(3))
    have logged_c: "logged V X c" if "logged V X d2" for V X
      by (rule logged_change [OF that]) (simp_all add: c_def d2(3))
    have "shape d2 to = None" using step2(2) shapes by simp
    then have "db_find to d2 = None" unfolding shape_def by simp
    then have none: "db_find to c = None" by (simp only: c(7))
    have "entry_ok (db_settings c) e" using entry step2(1) c(8) by (simp add: follows_def)
    then obtain s where s: "writeExistingPlace v to e c = write_store v s c" "store_time v c = Some (so_time s)" "fits c s"
      "so_key s = to" "bare_entry s = e\<lparr> ce_time := 0 \<rparr>"
      by (rule writeExistingPlace_store [OF c(1) _ none])
    have "so_key s \<notin> set (db_removing c)" using c(2) s(4) by simp
    note post = write_store_keeps [OF c(1) s(2,3) this]
    show ?thesis
      unfolding start using ok
    proof (simp add: c_def [symmetric] s(1), intro returns_mono [OF post], clarify)
      fix error d'
      assume p: "follows v c d'" "cache_inv d'" "db_files d' = db_files c" "db_stale d' = db_stale c"
        "error = NoError \<longleftrightarrow> db_open c \<and> ev_log_ok v" "db_removing d' = db_removing c"
        "shape d' = (if error = NoError then (shape c)(so_key s \<mapsto> bare_entry s) else shape c)"
        "\<forall>V X. log_fine v c \<longrightarrow> logged V X c \<longrightarrow> logged V (X - {so_key s}) d'"
      have "follows v d d'" using follows_trans [OF step2(1)] p(1) c(10) by blast
      moreover have "log_fine v d \<longrightarrow> error = NoError"
        using p(5) step2(1) c(13) by (auto simp: follows_def log_fine_def)
      moreover have "logged V X d'" if "log_fine v d" "logged V X d" for V X
      proof -
        have "log_fine v c" using follows_fine [OF step2(1) that(1)] c(14) by simp
        then have "logged V (X - {to}) d'" using p(8) logged_c [OF step2(6) [OF that]] s(4) by blast
        then show ?thesis by (rule logged_mono [rotated]) blast
      qed
      moreover have "shape d' = (if shape d to \<noteq> None \<or> shape d from = None then shape d
         else if error = NoError then (shape d)(from := None, to := shape d from) else (shape d)(from := None))"
        using p(7) c(4) step2(2) s(4,5) shapes by simp
      ultimately show "move_post v from to d error d'"
        using p(2-4) c(5,6) step2(3,4) by (simp add: move_post_def)
    qed
  qed
qed

end
