(* ===== verification/CachePrune.thy ===== *)
theory CachePrune imports CacheRequests begin

text \<open>
  Pruning: which entries are stale by their time and which are dropped for their size, and the
  removal of stale keys in chunks.
\<close>

section \<open>Removal of many keys\<close>

inductive cleans :: "env \<Rightarrow> cache_key set \<Rightarrow> database \<Rightarrow> database \<Rightarrow> bool" for v K d where
  clean_nothing: "cache_inv d \<Longrightarrow> cleans v K d d"
| clean_keeps: "cleans v K d d1 \<Longrightarrow> keeps v d1 d2 \<Longrightarrow> cleans v K d d2"
| clean_removes: "cleans v K d d1 \<Longrightarrow> k \<in> K \<Longrightarrow> removes v k d1 d2 \<Longrightarrow> cleans v K d d2"
| clean_books: "cleans v K d d1 \<Longrightarrow> books d2 = books d1 \<Longrightarrow> cleans v K d d2"
| clean_minimal: "cleans v K d d1 \<Longrightarrow> (t \<noteq> 0 \<longrightarrow> n \<noteq> 0) \<Longrightarrow> cleans v K d (d1\<lparr> db_min_time := t, db_min_count := n \<rparr>)"

lemma books_inv:
  assumes "books d2 = books d1"
  shows "cache_inv d2 = cache_inv d1" "shape d2 = shape d1" "logged V X d2 = logged V X d1" "follows v d1 d2"
    "log_fine v d2 = log_fine v d1" "db_files d2 = db_files d1"
  using books_fields [OF assms]
  by (simp_all add: cache_inv_def map_ok_def stats_ok_def queue_ok_def files_ok_def excess_ok_def db_find_def shape_def
      logged_def marked_def mirrors_def clock_below_def follows_def countRelativeTime_def time_passed_def log_fine_def)

lemma minimal_inv:
  fixes d :: database and t n :: nat
  defines "d2 \<equiv> d\<lparr> db_min_time := t, db_min_count := n \<rparr>"
  shows "(t \<noteq> 0 \<longrightarrow> n \<noteq> 0) \<Longrightarrow> cache_inv d \<Longrightarrow> cache_inv d2" "shape d2 = shape d" "logged V X d2 = logged V X d" "follows v d d2"
    "db_files d2 = db_files d"
  by (simp_all add: d2_def cache_inv_def map_ok_def stats_ok_def queue_ok_def files_ok_def excess_ok_def db_find_def shape_def
      logged_def marked_def mirrors_def clock_below_def follows_def countRelativeTime_def time_passed_def)

lemma cleans_inv: "cleans v K d d' \<Longrightarrow> cache_inv d'"
proof (induction rule: cleans.induct)
  case (clean_books d1 d2)
  then show ?case using books_inv(1) [of d2 d1] by blast
next
  case (clean_minimal d1 t n)
  then show ?case using minimal_inv(1) [of t n d1] by blast
qed (auto simp: removes_def keeps_def)

lemma cleans_follows: "cleans v K d d' \<Longrightarrow> follows v d d'"
proof (induction rule: cleans.induct)
  case (clean_books d1 d2)
  then show ?case using books_inv(4) follows_trans by blast
next
  case (clean_minimal d1 t n)
  then show ?case using minimal_inv(4) follows_trans by blast
qed (auto simp: keeps_def removes_def intro: follows_trans)

lemma cleans_shape: "cleans v K d d' \<Longrightarrow> shape d' k = shape d k \<or> k \<in> K \<and> shape d' k = None"
proof (induction rule: cleans.induct)
  case (clean_books d1 d2)
  then show ?case using books_inv(2) [of d2 d1] by simp
next
  case (clean_removes d1 q d2)
  then show ?case by (auto simp: removes_def split: if_splits)
qed (simp_all add: keeps_def minimal_inv)

lemma cleans_logged: "cleans v K d d' \<Longrightarrow> log_fine v d \<Longrightarrow> logged V X d \<Longrightarrow> logged V X d'"
proof (induction rule: cleans.induct)
  case (clean_keeps d1 d2)
  then show ?case using follows_fine [OF cleans_follows [OF clean_keeps.hyps(1)]] by (simp add: keeps_def)
next
  case (clean_removes d1 k d2)
  then show ?case using follows_fine [OF cleans_follows [OF clean_removes.hyps(1)]] by (simp add: removes_def)
next
  case (clean_books d1 d2)
  then show ?case using books_inv(3) [of d2 d1] by simp
qed (simp_all add: minimal_inv)

lemma cleans_trans: "cleans v K d1 d2 \<Longrightarrow> cleans v K d d1 \<Longrightarrow> cleans v K d d2"
  by (induction rule: cleans.induct) (auto intro: cleans.intros)

lemma cleans_mono: "cleans v K d d' \<Longrightarrow> K \<subseteq> L \<Longrightarrow> cleans v L d d'"
  by (induction rule: cleans.induct) (auto intro: cleans.intros)

lemma remove_all_cleans:
  assumes "cache_inv d" "set ks \<subseteq> K"
  shows "returns (\<lambda>d'. cleans v K d d' \<and> db_stale d' = db_stale d \<and> (log_fine v d \<longrightarrow> (\<forall>k\<in>set ks. shape d' k = None)))
    (remove_all_keys v ks d)"
  using assms
proof (induction ks arbitrary: d)
  case (Cons k ks)
  obtain error d1 where d1: "cache_remove v k d = Some (error, d1)" "removes v k d d1"
    using cache_remove_keeps [OF Cons.prems(1), of v k] by (auto elim!: returnsE)
  have inv: "cache_inv d1" using d1(2) by (simp add: removes_def)
  have clean: "cleans v K d d1" using Cons.prems d1(2) by (auto intro: cleans.intros)
  have "set ks \<subseteq> K" using Cons.prems(2) by simp
  from Cons.IH [OF inv this] obtain d' where d': "remove_all_keys v ks d1 = Some d'" "cleans v K d1 d'"
      "db_stale d' = db_stale d1" "log_fine v d1 \<longrightarrow> (\<forall>k\<in>set ks. shape d' k = None)"
    by (auto elim!: returnsE)
  have "shape d1 k = None" "log_fine v d1" if "log_fine v d"
    using that d1(2) follows_fine by (auto simp: removes_def log_fine_def)
  then show ?case
    using d1 d' cleans_trans [OF d'(2) clean] cleans_shape [OF d'(2), of k] by (auto simp: removes_def)
qed (auto intro: cleans.intros)

lemma books_pushStats: "books (pushStats d) = books d" "db_stale (pushStats d) = db_stale d"
  by (simp_all add: pushStats_def books_def)

lemma books_stale: "books (d\<lparr> db_stale := s \<rparr>) = books d" "books (d\<lparr> db_clearing := c \<rparr>) = books d"
  "books (d\<lparr> db_prune_timer := t \<rparr>) = books d" "books (d\<lparr> db_bundles_timer := t \<rparr>) = books d"
  by (simp_all add: books_def)

lemma optimize_cleans: "cleans v K d d1 \<Longrightarrow> returns (\<lambda>d'. cleans v K d d' \<and> shape d' = shape d1 \<and> db_stale d' = db_stale d1) (optimize v d1)"
  using optimize_keeps [of d1 v] cleans_inv [of v K d d1]
  by (auto elim!: returns_mono intro: clean_keeps simp: keeps_def)

lemma clearStaleNow_cleans:
  assumes "cache_inv d"
  shows "returns (\<lambda>d'. cleans v (set stale) d d' \<and> (stale \<noteq> [] \<longrightarrow> db_stale d' = [])
    \<and> (log_fine v d \<longrightarrow> (\<forall>k\<in>set stale. shape d' k = None))) (clearStaleNow v stale d)"
proof (cases "stale = []")
  case True
  then show ?thesis using assms by (simp add: clearStaleNow_def clean_nothing)
next
  case False
  define b where "b = pushStats (d\<lparr> db_stale := db_stale d @ [hd stale] \<rparr>)"
  have books: "books b = books d" by (simp add: b_def books_pushStats books_stale)
  have inv: "cache_inv b" "log_fine v b = log_fine v d" using assms books_inv [OF books] by simp_all
  have clean: "cleans v (set stale) d b" using assms books by (auto intro: cleans.intros)
  obtain d1 where d1: "remove_all_keys v stale b = Some d1" "cleans v (set stale) b d1"
      "log_fine v b \<longrightarrow> (\<forall>k\<in>set stale. shape d1 k = None)"
    using remove_all_cleans [OF inv(1) order.refl, where ks = stale and v = v] by (auto elim!: returnsE)
  have "cleans v (set stale) d d1" using cleans_trans [OF d1(2) clean] .
  moreover have books1: "books (d1\<lparr> db_stale := [] \<rparr>) = books d1" by (simp add: books_stale)
  ultimately have "cleans v (set stale) d (d1\<lparr> db_stale := [] \<rparr>)" by (rule clean_books)
  from optimize_cleans [OF this] show ?thesis
    using False d1 inv(2) books_inv(2) [OF books1] by (auto simp: clearStaleNow_def simp flip: b_def elim!: returns_mono)
qed

lemma clearStaleChunk_cleans:
  assumes "cache_inv d"
  shows "returns (\<lambda>d'. cleans v (set (db_stale d)) d d' \<and> (db_stale d \<noteq> [] \<longrightarrow> length (db_stale d') < length (db_stale d))
    \<and> set (db_stale d') \<subseteq> set (db_stale d)
    \<and> (log_fine v d \<longrightarrow> (\<forall>k\<in>set (db_stale d) - set (db_stale d'). shape d' k = None))) (clearStaleChunk v d)"
proof (cases "db_stale d = []")
  case True
  then show ?thesis using assms by (simp add: clearStaleChunk_def clean_nothing)
next
  case False
  let ?K = "set (db_stale d)" and ?n = "length (db_stale d)"
  define clear where "clear = min ?n (cs_stale_chunk (db_settings d))"
  have "0 < cs_stale_chunk (db_settings d)"
    using assms by (simp add: cache_inv_def settings_ok_def CacheTypes.checkSettings_def)
  then have clear: "0 < clear" using False by (simp add: clear_def)
  have "set (drop (?n - clear) (db_stale d)) \<subseteq> ?K" by (rule set_drop_subset)
  then obtain d1 where d1: "remove_all_keys v (drop (?n - clear) (db_stale d)) d = Some d1" "cleans v ?K d d1"
      "db_stale d1 = db_stale d" "log_fine v d \<longrightarrow> (\<forall>k\<in>set (drop (?n - clear) (db_stale d)). shape d1 k = None)"
    using remove_all_cleans [OF assms, where ks = "drop (?n - clear) (db_stale d)" and v = v and K = ?K] by (auto elim!: returnsE)
  define d2 where "d2 = d1\<lparr> db_stale := take (?n - clear) (db_stale d) \<rparr>"
  have books: "books d2 = books d1" by (simp add: d2_def books_stale)
  have clean: "cleans v ?K d d2" using d1(2) books by (rule clean_books)
  have stale: "length (db_stale d2) < ?n" "set (db_stale d2) \<subseteq> ?K"
    using clear False by (simp_all add: d2_def set_take_subset)
  have gone: "\<forall>k\<in>?K - set (db_stale d2). shape d2 k = None" if "log_fine v d"
  proof
    fix k assume "k \<in> ?K - set (db_stale d2)"
    then have "k \<in> set (drop (?n - clear) (db_stale d))"
      using append_take_drop_id [of "?n - clear" "db_stale d"] by (auto simp: d2_def simp del: append_take_drop_id) (metis Un_iff set_append)
    then show "shape d2 k = None" using d1(4) that books_inv(2) [OF books] by simp
  qed
  have run: "clearStaleChunk v d = (if db_stale d2 = [] then optimize v d2 else Some (clearStaleChunkDelayed d2))"
    using False d1(1) by (simp add: clearStaleChunk_def Let_def d1(3) clear_def d2_def)
  have "cleans v ?K d (clearStaleChunkDelayed d2)" "shape (clearStaleChunkDelayed d2) = shape d2"
    "db_stale (clearStaleChunkDelayed d2) = db_stale d2"
    using clean_books [OF clean, of "clearStaleChunkDelayed d2"] by (simp_all add: clearStaleChunkDelayed_def books_def shape_def db_find_def)
  then show ?thesis
    unfolding run using optimize_cleans [OF clean] stale gone by (auto elim!: returns_mono)
qed

text \<open>Clearing ends: every turn of the loop makes the list of stale keys shorter.\<close>

lemma clear_all_stale_cleans:
  assumes "cache_inv d"
  shows "returns (\<lambda>d'. cleans v (set (db_stale d)) d d' \<and> db_stale d' = []
    \<and> (log_fine v d \<longrightarrow> (\<forall>k\<in>set (db_stale d). shape d' k = None))) (clear_all_stale v d)"
  using assms
proof (induction "length (db_stale d)" arbitrary: d rule: less_induct)
  case less
  show ?case
  proof (cases "db_stale d = []")
    case True
    then show ?thesis using less.prems by (subst clear_all_stale.simps) (simp add: clean_nothing)
  next
    case False
    obtain d1 where d1: "clearStaleChunk v d = Some d1" "cleans v (set (db_stale d)) d d1" "length (db_stale d1) < length (db_stale d)"
        "set (db_stale d1) \<subseteq> set (db_stale d)" "log_fine v d \<longrightarrow> (\<forall>k\<in>set (db_stale d) - set (db_stale d1). shape d1 k = None)"
      using clearStaleChunk_cleans [OF less.prems, of v] False by (auto elim!: returnsE)
    obtain d' where d': "clear_all_stale v d1 = Some d'" "cleans v (set (db_stale d1)) d1 d'" "db_stale d' = []"
        "log_fine v d1 \<longrightarrow> (\<forall>k\<in>set (db_stale d1). shape d' k = None)"
      using less.hyps [OF d1(3) cleans_inv [OF d1(2)]] by (auto elim!: returnsE)
    have clean: "cleans v (set (db_stale d)) d d'"
      using cleans_trans [OF cleans_mono [OF d'(2) d1(4)] d1(2)] .
    have "shape d' k = None" if "log_fine v d" "k \<in> set (db_stale d)" for k
      using d1(5) d'(4) that follows_fine [OF cleans_follows [OF d1(2)] that(1)] cleans_shape [OF d'(2), of k] by auto
    then show ?thesis
      using False d1(1) d'(1,3) clean by (subst clear_all_stale.simps) simp
  qed
qed

section \<open>What is stale by its time\<close>

definition size_sum :: "(cache_key \<times> entry) list \<Rightarrow> int" where
  "size_sum ps = (\<Sum>p\<leftarrow>ps. int (ce_size (snd p)))"

lemma size_sum_simps [simp]: "size_sum [] = 0" "size_sum (p # ps) = int (ce_size (snd p)) + size_sum ps"
  "size_sum (ps @ qs) = size_sum ps + size_sum qs"
  by (simp_all add: size_sum_def)

definition time_inv :: "nat \<Rightarrow> (cache_key \<times> entry) list \<Rightarrow> nat \<times> nat \<times> cache_key list \<times> int \<Rightarrow> bool" where
  "time_inv before ps acc \<longleftrightarrow> (case acc of (m, n, stale, amount) \<Rightarrow>
     fs_inv (<) stale \<and> set stale = fst ` {p \<in> set ps. ce_time (snd p) \<le> before}
     \<and> amount = size_sum (filter (\<lambda>p. ce_time (snd p) \<le> before) ps)
     \<and> (let kept = map (ce_time \<circ> snd) (filter (\<lambda>p. before < ce_time (snd p)) ps) in
        if kept = [] then m = 0 \<and> n = 0
        else m \<in> set kept \<and> (\<forall>t\<in>set kept. m \<le> t) \<and> n = count_list kept m))"

lemma collect_time_inv: "time_inv before ps (fold (collect_time before) ps (0, 0, [], 0))"
proof (induction ps rule: rev_induct)
  case Nil
  then show ?case by (simp add: time_inv_def fs_inv_less)
next
  case (snoc p ps)
  obtain k e where p: "p = (k, e)" by force
  obtain m n stale amount where acc: "fold (collect_time before) ps (0, 0, [], 0) = (m, n, stale, amount)"
    by (metis prod_cases4)
  define kept where "kept = map (ce_time \<circ> snd) (filter (\<lambda>p. before < ce_time (snd p)) ps)"
  have inv: "fs_inv (<) stale" "set stale = fst ` {p \<in> set ps. ce_time (snd p) \<le> before}"
    "amount = size_sum (filter (\<lambda>p. ce_time (snd p) \<le> before) ps)"
    and kept: "if kept = [] then m = 0 \<and> n = 0 else m \<in> set kept \<and> (\<forall>t\<in>set kept. m \<le> t) \<and> n = count_list kept m"
    using snoc unfolding acc time_inv_def kept_def Let_def by auto
  have run: "fold (collect_time before) (ps @ [p]) (0, 0, [], 0) = collect_time before (k, e) (m, n, stale, amount)"
    using acc by (simp add: p)
  define new where "new = map (ce_time \<circ> snd) (filter (\<lambda>p. before < ce_time (snd p)) (ps @ [p]))"
  show ?case
  proof (cases "ce_time e \<le> before")
    case True
    have step: "collect_time before (k, e) (m, n, stale, amount) = (m, n, fst (fs_insert (<) stale k), amount + int (ce_size e))"
      using True by (simp add: collect_time_def)
    have "new = kept" using True by (simp add: new_def kept_def p)
    moreover have "set (fst (fs_insert (<) stale k)) = fst ` {q \<in> set (ps @ [p]). ce_time (snd q) \<le> before}"
      using inv(2) True less_order.fs_insert_set [OF inv(1), of k]
      by (auto simp: p intro: image_eqI [of _ fst "(k, e)"])
    ultimately show ?thesis
      unfolding run step time_inv_def prod.case Let_def new_def [symmetric]
      using kept less_order.fs_insert_keeps [OF inv(1), of k] inv(3) True by (simp add: p)
  next
    case False
    have new: "new = kept @ [ce_time e]" using False by (simp add: new_def kept_def p)
    have zero: "m = 0 \<longleftrightarrow> kept = []"
      using kept by (auto simp: kept_def split: if_splits)
    have "count_list kept (ce_time e) = 0" if "ce_time e < m"
      using kept that zero by (intro count_notin) (auto split: if_splits)
    then have "\<exists>m' n'. collect_time before (k, e) (m, n, stale, amount) = (m', n', stale, amount)
        \<and> m' \<in> set new \<and> (\<forall>t\<in>set new. m' \<le> t) \<and> n' = count_list new m'"
      using False kept zero by (auto simp: collect_time_def new split: if_splits)
    then obtain m' n' where step: "collect_time before (k, e) (m, n, stale, amount) = (m', n', stale, amount)"
      and m': "m' \<in> set new" "\<forall>t\<in>set new. m' \<le> t" "n' = count_list new m'" by blast
    have "fst ` {q \<in> set (ps @ [p]). ce_time (snd q) \<le> before} = fst ` {q \<in> set ps. ce_time (snd q) \<le> before}"
      using False by (auto simp: p)
    then show ?thesis
      unfolding run step time_inv_def prod.case Let_def new_def [symmetric]
      using inv m' False new by (simp add: p)
  qed
qed

section \<open>What is dropped for its size\<close>

lemma fmm_insert_split:
  fixes xs :: "('k::linorder \<times> 'v) list"
  assumes "sorted (map fst xs)"
  shows "\<exists>as bs. xs = as @ bs \<and> fst (fmm_insert xs x) = as @ x # bs \<and> (\<forall>y\<in>set as. fst y \<le> fst x) \<and> (\<forall>y\<in>set bs. fst x < fst y)"
proof (cases "xs = [] \<or> \<not> fst x < fst (last xs)")
  case True
  have "fst y \<le> fst x" if "y \<in> set xs" for y
  proof -
    have "xs \<noteq> []" using that by auto
    then have "xs = butlast xs @ [last xs]" by simp
    then have "y \<in> set (butlast xs) \<or> y = last xs" using that by (metis Un_iff empty_iff empty_set set_ConsD set_append)
    moreover have "sorted (map fst (butlast xs) @ [fst (last xs)])"
      using assms \<open>xs = butlast xs @ [last xs]\<close> by (metis list.map(1,2) map_append)
    ultimately have "fst y \<le> fst (last xs)" by (auto simp: sorted_append)
    then show ?thesis using True \<open>xs \<noteq> []\<close> by simp
  qed
  then show ?thesis using True by (intro exI [of _ xs] exI [of _ "[]"]) (simp add: fmm_insert_def)
next
  case False
  define P where "P = (\<lambda>p :: 'k \<times> 'v. \<not> fst x < fst p)"
  have split: "xs = takeWhile P xs @ dropWhile P xs" by simp
  have pos: "fmm_upper_bound xs (fst x) = length (takeWhile P xs)" by (simp add: fmm_upper_bound_def P_def)
  have "fst x < fst y" if "y \<in> set (dropWhile P xs)" for y
  proof -
    have "dropWhile P xs \<noteq> []" using that by (intro notI) simp
    then obtain z zs where z: "dropWhile P xs = z # zs" by (meson neq_Nil_conv)
    then have "fst x < fst z" using hd_dropWhile [of P xs] by (auto simp: P_def)
    moreover have "sorted (map fst (z # zs))" using assms split z by (metis map_append sorted_append)
    ultimately show ?thesis using that z by (auto simp: intro: less_le_trans)
  qed
  moreover have "fst y \<le> fst x" if "y \<in> set (takeWhile P xs)" for y
    using set_takeWhileD [OF that] by (auto simp: P_def)
  moreover have "fst (fmm_insert xs x) = takeWhile P xs @ x # dropWhile P xs"
    using False pos by (simp add: fmm_insert_def Let_def insert_at_takeWhile)
  ultimately show ?thesis using split by metis
qed

text \<open>The invariant of the loop over the map: the entries of \<open>ps\<close> were looked at,
  \<open>oldest\<close> are the oldest of them, enough to free \<open>R\<close> bytes, and no more than enough.\<close>

definition ot :: "int \<times> cache_key \<times> entry \<Rightarrow> nat" where
  "ot x = ce_time (snd (snd x))"

definition os :: "int \<times> cache_key \<times> entry \<Rightarrow> int" where
  "os x = int (ce_size (snd (snd x)))"

definition size_inv :: "int \<Rightarrow> (cache_key \<times> entry) list \<Rightarrow> oldest \<Rightarrow> int \<Rightarrow> bool" where
  "size_inv R ps oldest amount \<longleftrightarrow> sorted (map fst oldest) \<and> (\<forall>x\<in>set oldest. fst x = - int (ot x))
     \<and> distinct (map snd oldest) \<and> snd ` set oldest \<subseteq> set ps \<and> amount = (\<Sum>x\<leftarrow>oldest. os x)
     \<and> (amount < R \<longrightarrow> snd ` set oldest = set ps)
     \<and> (\<forall>p\<in>set ps - snd ` set oldest. \<forall>x\<in>set oldest. ot x \<le> ce_time (snd p))
     \<and> (oldest \<noteq> [] \<longrightarrow> amount - os (hd oldest) < R)"

lemma drop_newest_split:
  "\<exists>as. oldest = as @ fst (drop_newest R e oldest amount) \<and> snd (drop_newest R e oldest amount) = amount - (\<Sum>x\<leftarrow>as. os x)
    \<and> (\<forall>x\<in>set as. ce_time e \<le> ot x) \<and> (as \<noteq> [] \<longrightarrow> R \<le> snd (drop_newest R e oldest amount) + int (ce_size e))
    \<and> (fst (drop_newest R e oldest amount) = [] \<or>
       \<not> canRemoveFirst R e (fst (drop_newest R e oldest amount)) (snd (drop_newest R e oldest amount)))"
proof (induction oldest arbitrary: amount)
  case (Cons x xs)
  show ?case
  proof (cases "canRemoveFirst R e (x # xs) amount")
    case False
    then show ?thesis by (intro exI [of _ "[]"]) simp
  next
    case True
    let ?r = "drop_newest R e xs (amount - os x)"
    obtain as where as: "xs = as @ fst ?r" "snd ?r = amount - os x - (\<Sum>x\<leftarrow>as. os x)" "\<forall>x\<in>set as. ce_time e \<le> ot x"
      "as \<noteq> [] \<longrightarrow> R \<le> snd ?r + int (ce_size e)" "fst ?r = [] \<or> \<not> canRemoveFirst R e (fst ?r) (snd ?r)"
      using Cons.IH [of "amount - os x"] by blast
    have eq: "drop_newest R e (x # xs) amount = ?r" using True by (simp add: os_def)
    have first: "ce_time e \<le> ot x" "os x \<le> amount + int (ce_size e) - R"
      using True by (simp_all add: canRemoveFirst_def Let_def ot_def os_def)
    then have "R \<le> snd ?r + int (ce_size e)" using as(2,4) by (cases as) simp_all
    then show ?thesis
      unfolding eq using as first by (intro exI [of _ "x # as"]) simp
  qed
qed simp

lemma size_inv_hd: "size_inv R ps oldest amount \<Longrightarrow> x \<in> set oldest \<Longrightarrow> ot x \<le> ot (hd oldest)"
proof -
  assume inv: "size_inv R ps oldest amount" "x \<in> set oldest"
  then obtain y ys where y: "oldest = y # ys" by (cases oldest) auto
  then have "fst y \<le> fst x" using inv by (auto simp: size_inv_def)
  then show ?thesis using inv y by (auto simp: size_inv_def)
qed

lemma size_inv_skip:
  assumes "size_inv R ps oldest amount" "R \<le> amount" "oldest \<noteq> []" "ot (hd oldest) \<le> ce_time (snd p)"
  shows "size_inv R (ps @ [p]) oldest amount"
proof -
  have "ot x \<le> ce_time (snd p)" if "x \<in> set oldest" for x using size_inv_hd [OF assms(1) that] assms(4) by simp
  then show ?thesis using assms(1,2) unfolding size_inv_def by auto
qed

lemma size_inv_add:
  assumes inv: "size_inv R ps oldest amount" and fresh: "(k, e) \<notin> set ps" and add: "amount < R \<or> ce_time e < ot (hd oldest)"
    and nonempty: "R \<le> amount \<longrightarrow> oldest \<noteq> []"
  defines "r \<equiv> drop_newest R e oldest amount"
  shows "size_inv R (ps @ [(k, e)]) (fst (fmm_insert (fst r) (- int (ce_time e), k, e))) (snd r + int (ce_size e))"
proof -
  obtain ds where ds: "oldest = ds @ fst r" "snd r = amount - (\<Sum>x\<leftarrow>ds. os x)" "\<forall>x\<in>set ds. ce_time e \<le> ot x"
    "ds \<noteq> [] \<longrightarrow> R \<le> snd r + int (ce_size e)" "fst r = [] \<or> \<not> canRemoveFirst R e (fst r) (snd r)"
    using drop_newest_split [of oldest R e amount] unfolding r_def by blast
  define x where "x = (- int (ce_time e), k, e)"
  have sorted: "sorted (map fst (fst r))" using inv ds(1) by (metis map_append size_inv_def sorted_append)
  obtain as bs where split: "fst r = as @ bs" "fst (fmm_insert (fst r) x) = as @ x # bs"
    "\<forall>y\<in>set as. fst y \<le> fst x" "\<forall>y\<in>set bs. fst x < fst y"
    using fmm_insert_split [OF sorted, of x] by blast
  let ?new = "as @ x # bs"
  have x: "ot x = ce_time e" "os x = int (ce_size e)" "snd x = (k, e)" "fst x = - int (ce_time e)"
    by (simp_all add: x_def ot_def os_def)
  have old: "\<forall>y\<in>set oldest. fst y = - int (ot y)" "distinct (map snd oldest)" "snd ` set oldest \<subseteq> set ps"
    "amount = (\<Sum>x\<leftarrow>oldest. os x)" "amount < R \<longrightarrow> snd ` set oldest = set ps"
    "\<forall>p\<in>set ps - snd ` set oldest. \<forall>x\<in>set oldest. ot x \<le> ce_time (snd p)" "oldest \<noteq> [] \<longrightarrow> amount - os (hd oldest) < R"
    using inv unfolding size_inv_def by blast+
  have members: "set ?new = insert x (set (fst r))" "set (fst r) \<subseteq> set oldest" using split(1) ds(1) by auto
  have sorted': "sorted (map fst ?new)"
    using sorted split by (force simp: sorted_append intro: less_imp_le)
  have keys: "\<forall>y\<in>set ?new. fst y = - int (ot y)" using old(1) members x by auto
  have "(k, e) \<notin> snd ` set (fst r)" using fresh old(3) members(2) by blast
  then have dist: "distinct (map snd ?new)"
    using old(2) ds(1) split(1) x(3) by (auto simp: image_Un)
  have subset: "snd ` set ?new \<subseteq> set (ps @ [(k, e)])" using old(3) members x(3) by auto
  have sum: "snd r + int (ce_size e) = (\<Sum>x\<leftarrow>?new. os x)"
    using ds(1,2) old(4) split(1) x(2) by simp
  have sizes: "0 \<le> (\<Sum>x\<leftarrow>zs. os x)" for zs by (induction zs) (simp_all add: os_def)
  have all: "snd ` set ?new = set (ps @ [(k, e)])" if "snd r + int (ce_size e) < R"
  proof -
    have "ds = []" using ds(4) that by auto
    then have "snd ` set oldest = set ps" using old(5) ds(2) that by simp
    then show ?thesis using \<open>ds = []\<close> ds(1) members x(3) by auto
  qed
  have newest: "ot y \<le> ot (hd oldest)" if "y \<in> set oldest" for y using size_inv_hd [OF inv that] .
  have older: "ot y \<le> ce_time (snd p)" if "p \<in> set (ps @ [(k, e)]) - snd ` set ?new" "y \<in> set ?new" for p y
  proof (cases "p \<in> snd ` set oldest")
    case False
    then have p: "p \<in> set ps - snd ` set oldest" using that(1) x(3) members(1) by auto
    then have "R \<le> amount" using old(5) by force
    then have "oldest \<noteq> []" "ce_time e < ot (hd oldest)" using nonempty add by auto
    then have "ce_time e \<le> ce_time (snd p)" using old(6) p by (meson hd_in_set less_imp_le order_trans)
    moreover have "y = x \<or> y \<in> set oldest" using that(2) members by blast
    ultimately show ?thesis using old(6) p x(1) by auto
  next
    case True
    then obtain z where "z \<in> set oldest" "p = snd z" by blast
    moreover from this have "z \<notin> set (fst r)" using that(1) members(1) by blast
    ultimately have z: "z \<in> set ds" "p = snd z" using ds(1) by auto
    have "ot y \<le> ot z"
    proof (cases "y = x")
      case True
      then show ?thesis using ds(3) z(1) x(1) by simp
    next
      case False
      then have y: "y \<in> set (fst r)" using that(2) False split(1) by auto
      have "sorted (map fst (ds @ fst r))" using inv ds(1) by (simp add: size_inv_def)
      then have "fst z \<le> fst y" using z(1) y by (auto simp: sorted_append)
      then show ?thesis using old(1) z(1) y ds(1) by (auto)
    qed
    then show ?thesis using z(2) by (simp add: ot_def)
  qed
  have enough: "snd r + int (ce_size e) - os (hd ?new) < R"
  proof (cases as)
    case Nil
    then have front: "hd ?new = x" by simp
    have "snd r < R"
    proof (cases ds)
      case Nil
      then have "oldest = bs" using ds(1) split(1) \<open>as = []\<close> by simp
      then have "\<not> ce_time e < ot (hd oldest)" if "oldest \<noteq> []"
        using split(4) that old(1) x(4) by (metis hd_in_set less_asym neg_less_iff_less of_nat_less_iff)
      then show ?thesis using add nonempty ds(2) Nil by auto
    next
      case (Cons z zs)
      then have "amount - os z < R" using old(7) ds(1) by simp
      then show ?thesis using ds(2) Cons sizes [of zs] by simp
    qed
    then show ?thesis using front x(2) by simp
  next
    case (Cons z zs)
    then have "fst z \<le> fst x" "fst z = - int (ot z)" using split(3) old(1) members(2) split(1) by auto
    then have "ce_time e \<le> ot z" using x(4) by simp
    moreover have "\<not> canRemoveFirst R e (fst r) (snd r)" using ds(5) split(1) Cons by simp
    ultimately have "snd r + int (ce_size e) - R < os z"
      using split(1) Cons by (simp add: canRemoveFirst_def Let_def ot_def os_def)
    then show ?thesis using Cons by simp
  qed
  show ?thesis
    unfolding x_def [symmetric] split(2) size_inv_def
    using sorted' keys dist subset sum all older enough by blast
qed

end
