(* ===== verification/CachePruneChoice.thy ===== *)
theory CachePruneChoice imports CachePrune begin

text \<open>
  What a pruning of the cache drops: every entry that is too old, and then the oldest of the rest
  until what is left is within the limit.
\<close>

section \<open>The choice\<close>

lemma collect_size_inv:
  assumes "fs_inv (<) stale" "0 < R" "distinct (map fst ms)"
  shows "case fold (collect_size R stale) ms ([], 0) of (oldest, amount) \<Rightarrow>
    size_inv R (filter (\<lambda>p. fst p \<notin> set stale) ms) oldest amount"
  using assms(3)
proof (induction ms rule: rev_induct)
  case Nil
  then show ?case using assms(2) by (simp add: size_inv_def)
next
  case (snoc p ms)
  obtain k e where p: "p = (k, e)" by force
  obtain oldest amount where acc: "fold (collect_size R stale) ms ([], 0) = (oldest, amount)" by force
  have inv: "size_inv R (filter (\<lambda>p. fst p \<notin> set stale) ms) oldest amount" using snoc unfolding acc by simp
  have has: "fms_contains (<) stale k \<longleftrightarrow> k \<in> set stale" by (rule less_order.fs_contains_set [OF assms(1)])
  have run: "fold (collect_size R stale) (ms @ [p]) ([], 0) = collect_size R stale (k, e) (oldest, amount)"
    using acc by (simp add: p)
  have nonempty: "R \<le> amount \<longrightarrow> oldest \<noteq> []" using inv assms(2) by (auto simp: size_inv_def)
  have fresh: "(k, e) \<notin> set (filter (\<lambda>p. fst p \<notin> set stale) ms)" using snoc.prems by (auto simp: p image_iff)
  have first: "ot (hd oldest) = ce_time (snd (snd (hd oldest)))" by (simp add: ot_def)
  show ?case
  proof (cases "k \<in> set stale")
    case True
    then show ?thesis unfolding run using inv has by (simp add: collect_size_def p)
  next
    case False
    show ?thesis
    proof (cases "amount < R \<or> ce_time e < ot (hd oldest)")
      case True
      from size_inv_add [OF inv fresh this nonempty] show ?thesis
        unfolding run using True False has first by (simp add: collect_size_def p case_prod_unfold)
    next
      case add: False
      then have "R \<le> amount" "oldest \<noteq> []" "ot (hd oldest) \<le> ce_time (snd (k, e))" using nonempty by auto
      from size_inv_skip [OF inv this] show ?thesis
        unfolding run using add False has first by (simp add: collect_size_def p)
    qed
  qed
qed

lemma size_sum_filter: "size_sum ps = size_sum (filter P ps) + size_sum (filter (\<lambda>p. \<not> P p) ps)"
  by (induction ps) auto

lemma size_sum_distinct: "distinct ps \<Longrightarrow> size_sum ps = (\<Sum>p\<in>set ps. int (ce_size (snd p)))"
  by (simp add: size_sum_def sum_list_distinct_conv_sum_set)

lemma insert_all_set:
  fixes stale :: "cache_key list"
  shows "fs_inv (<) stale \<Longrightarrow> fs_inv (<) (fold (\<lambda>(_, k, _) stale. fst (fs_insert (<) stale k)) xs stale)
    \<and> set (fold (\<lambda>(_, k, _) stale. fst (fs_insert (<) stale k)) xs stale) = set stale \<union> (fst \<circ> snd) ` set xs"
proof (induction xs arbitrary: stale)
  case (Cons x xs)
  obtain t k e where x: "x = (t, k, e)" by (cases x)
  have "fs_inv (<) (fst (fs_insert (<) stale k))" "set (fst (fs_insert (<) stale k)) = insert k (set stale)"
    using less_order.fs_insert_keeps [OF Cons.prems, of k] less_order.fs_insert_set [OF Cons.prems, of k] by simp_all
  then show ?case using Cons.IH [of "fst (fs_insert (<) stale k)"] by (simp add: x)
qed simp

definition prune_choice :: "env \<Rightarrow> database \<Rightarrow> cache_key list \<times> cache_key list" where
  "prune_choice v d = (case collectTimeStale v [] 0 d of (old, amount, d1) \<Rightarrow> (old, fst (collectSizeStale old amount d1)))"

text \<open>\<open>time_known\<close>: the time of the oldest entry is known and too old.\<close>

definition time_known :: "env \<Rightarrow> database \<Rightarrow> bool" where
  "time_known v d \<longleftrightarrow> cs_total_time_limit (db_settings d) \<noteq> 0 \<and> db_min_time d \<noteq> 0 \<and> db_min_time d \<le> pruneBeforeTime v d"

lemma collectTimeStale_correct:
  assumes "cache_inv d"
  obtains old amount t n where "collectTimeStale v [] 0 d = (old, amount, d\<lparr> db_min_time := t, db_min_count := n \<rparr>)"
    "t \<noteq> 0 \<longrightarrow> n \<noteq> 0" "fs_inv (<) old"
    "set old = {k. \<exists>e. (k, e) \<in> set (db_map d) \<and> time_known v d \<and> ce_time e \<le> pruneBeforeTime v d}"
    "amount = size_sum (filter (\<lambda>p. fst p \<in> set old) (db_map d))"
proof (cases "time_known v d")
  case False
  then have run: "collectTimeStale v [] 0 d = ([], 0, d\<lparr> db_min_time := db_min_time d, db_min_count := db_min_count d \<rparr>)"
    by (auto simp: collectTimeStale_def time_known_def Let_def)
  have mins: "db_min_time d \<noteq> 0 \<longrightarrow> db_min_count d \<noteq> 0" using assms by (simp add: cache_inv_def map_ok_def)
  show ?thesis by (rule that [OF run mins]) (use False in \<open>simp_all add: fs_inv_less\<close>)
next
  case True
  let ?before = "pruneBeforeTime v d"
  obtain m n old amount where acc: "fold (collect_time ?before) (db_map d) (0, 0, [], 0) = (m, n, old, amount)"
    by (metis prod_cases4)
  have run: "collectTimeStale v [] 0 d = (old, amount, d\<lparr> db_min_time := m, db_min_count := n \<rparr>)"
    using True acc by (auto simp: collectTimeStale_def time_known_def Let_def)
  define kept where "kept = map (ce_time \<circ> snd) (filter (\<lambda>p. ?before < ce_time (snd p)) (db_map d))"
  have inv: "fs_inv (<) old" "set old = fst ` {p \<in> set (db_map d). ce_time (snd p) \<le> ?before}"
    "amount = size_sum (filter (\<lambda>p. ce_time (snd p) \<le> ?before) (db_map d))"
    "if kept = [] then m = 0 \<and> n = 0 else m \<in> set kept \<and> (\<forall>t\<in>set kept. m \<le> t) \<and> n = count_list kept m"
    using collect_time_inv [of ?before "db_map d"] unfolding acc time_inv_def kept_def Let_def by auto
  have dist: "distinct (map fst (db_map d))" using assms by (simp add: cache_inv_def map_ok_def)
  have "ce_time (snd p) \<le> ?before \<longleftrightarrow> fst p \<in> set old" if "p \<in> set (db_map d)" for p
    using inv(2) that dist by (auto simp: eq_key_imp_eq_value) (metis eq_key_imp_eq_value prod.collapse)
  then have "filter (\<lambda>p. ce_time (snd p) \<le> ?before) (db_map d) = filter (\<lambda>p. fst p \<in> set old) (db_map d)"
    by (rule filter_cong [OF refl])
  moreover have "m \<noteq> 0 \<longrightarrow> n \<noteq> 0"
    using inv(4) count_list_0_iff [of kept m] by (auto split: if_splits)
  moreover have "set old = {k. \<exists>e. (k, e) \<in> set (db_map d) \<and> time_known v d \<and> ce_time e \<le> ?before}"
    using inv(2) True by force
  ultimately show ?thesis by (intro that [OF run]) (simp_all add: inv(1,3))
qed

text \<open>The whole choice: \<open>old\<close> is too old, \<open>chosen\<close> the oldest of the rest.\<close>

definition chosen_ok :: "int \<Rightarrow> int \<Rightarrow> (cache_key \<times> entry) list \<Rightarrow> (cache_key \<times> entry) set \<Rightarrow> bool" where
  "chosen_ok R amount rest chosen \<longleftrightarrow> chosen \<subseteq> set rest \<and> amount = (\<Sum>p\<in>chosen. int (ce_size (snd p)))
     \<and> (amount < R \<longrightarrow> chosen = set rest)
     \<and> (\<forall>p\<in>set rest - chosen. \<forall>q\<in>chosen. ce_time (snd q) \<le> ce_time (snd p))
     \<and> (chosen \<noteq> {} \<longrightarrow> (\<exists>q\<in>chosen. (\<forall>p\<in>chosen. ce_time (snd p) \<le> ce_time (snd q)) \<and> amount - int (ce_size (snd q)) < R))"

lemma size_inv_chosen:
  assumes inv: "size_inv R rest oldest amount"
  shows "chosen_ok R amount rest (snd ` set oldest)"
proof -
  have "amount = (\<Sum>x\<leftarrow>map snd oldest. int (ce_size (snd x)))" "distinct (map snd oldest)"
    using inv by (simp_all add: size_inv_def os_def [abs_def] comp_def)
  then have "amount = (\<Sum>p\<in>snd ` set oldest. int (ce_size (snd p)))"
    by (simp only: sum_list_distinct_conv_sum_set set_map)
  moreover have "\<exists>q\<in>snd ` set oldest. (\<forall>p\<in>snd ` set oldest. ce_time (snd p) \<le> ce_time (snd q)) \<and> amount - int (ce_size (snd q)) < R"
    if "snd ` set oldest \<noteq> {}"
  proof -
    have hd: "hd oldest \<in> set oldest" using that by simp
    moreover have "\<forall>p\<in>snd ` set oldest. ce_time (snd p) \<le> ce_time (snd (snd (hd oldest)))"
      using size_inv_hd [OF inv] by (auto simp: ot_def)
    moreover have "amount - int (ce_size (snd (snd (hd oldest)))) < R"
      using inv that by (auto simp: size_inv_def os_def)
    ultimately show ?thesis by blast
  qed
  ultimately show ?thesis
    using inv unfolding chosen_ok_def size_inv_def ot_def by (intro conjI; blast)
qed

lemma prune_choice_correct:
  assumes d: "cache_inv d" and limit: "0 < cs_total_size_limit (db_settings d)"
  obtains old all t n amount chosen d1 where "collectTimeStale v [] 0 d = (old, amount, d1)"
    "prune_choice v d = (old, all)" "fst (collectSizeStale old amount d1) = all"
    "d1 = d\<lparr> db_min_time := t, db_min_count := n \<rparr>" "t \<noteq> 0 \<longrightarrow> n \<noteq> 0"
    "set old = {k. \<exists>e. (k, e) \<in> set (db_map d) \<and> time_known v d \<and> ce_time e \<le> pruneBeforeTime v d}"
    "set all = set old \<union> fst ` chosen"
    "chosen_ok (db_total d - size_sum (filter (\<lambda>p. fst p \<in> set old) (db_map d)) - cs_total_size_limit (db_settings d))
      (\<Sum>p\<in>chosen. int (ce_size (snd p))) (filter (\<lambda>p. fst p \<notin> set old) (db_map d)) chosen"
proof -
  obtain old amount t n where old: "collectTimeStale v [] 0 d = (old, amount, d\<lparr> db_min_time := t, db_min_count := n \<rparr>)"
    "t \<noteq> 0 \<longrightarrow> n \<noteq> 0" "fs_inv (<) old"
    "set old = {k. \<exists>e. (k, e) \<in> set (db_map d) \<and> time_known v d \<and> ce_time e \<le> pruneBeforeTime v d}"
    "amount = size_sum (filter (\<lambda>p. fst p \<in> set old) (db_map d))"
    by (rule collectTimeStale_correct [OF d, of v])
  define d1 where "d1 = d\<lparr> db_min_time := t, db_min_count := n \<rparr>"
  define R where "R = db_total d - amount - cs_total_size_limit (db_settings d)"
  have dist: "distinct (map fst (db_map d))" using d by (simp add: cache_inv_def map_ok_def)
  have run: "collectSizeStale old amount d1 = (if R \<le> 0 then (old, amount)
      else case fold (collect_size R old) (db_map d) ([], 0) of (oldest, freed) \<Rightarrow>
        (fold (\<lambda>(_, k, _) stale. fst (fs_insert (<) stale k)) oldest old, amount + freed))"
    using limit by (simp add: collectSizeStale_def d1_def R_def Let_def)
  let ?rest = "filter (\<lambda>p. fst p \<notin> set old) (db_map d)"
  have "\<exists>chosen. set (fst (collectSizeStale old amount d1)) = set old \<union> fst ` chosen
      \<and> chosen_ok R (\<Sum>p\<in>chosen. int (ce_size (snd p))) ?rest chosen"
  proof (cases "R \<le> 0")
    case True
    then show ?thesis unfolding run by (intro exI [of _ "{}"]) (simp add: chosen_ok_def)
  next
    case False
    obtain oldest freed where acc: "fold (collect_size R old) (db_map d) ([], 0) = (oldest, freed)" by force
    have "chosen_ok R freed ?rest (snd ` set oldest)"
    proof (rule size_inv_chosen)
      have "0 < R" using False by simp
      from collect_size_inv [OF old(3) this dist] show "size_inv R ?rest oldest freed" unfolding acc by simp
    qed
    moreover from this have "freed = (\<Sum>p\<in>snd ` set oldest. int (ce_size (snd p)))" unfolding chosen_ok_def by (rule conjunct1 [OF conjunct2])
    moreover have "set (fst (collectSizeStale old amount d1)) = set old \<union> fst ` snd ` set oldest"
      using False insert_all_set [OF old(3), of oldest] by (simp add: run acc image_comp)
    ultimately show ?thesis by blast
  qed
  then obtain chosen where chosen: "set (fst (collectSizeStale old amount d1)) = set old \<union> fst ` chosen"
    "chosen_ok R (\<Sum>p\<in>chosen. int (ce_size (snd p))) ?rest chosen" by blast
  have time: "collectTimeStale v [] 0 d = (old, amount, d1)" using old(1) by (simp add: d1_def)
  show ?thesis
  proof (rule that [OF time _ refl d1_def old(2,4) chosen(1)])
    show "prune_choice v d = (old, fst (collectSizeStale old amount d1))" by (simp add: prune_choice_def time)
    show "chosen_ok (db_total d - size_sum (filter (\<lambda>p. fst p \<in> set old) (db_map d)) - cs_total_size_limit (db_settings d))
        (\<Sum>p\<in>chosen. int (ce_size (snd p))) ?rest chosen"
      using chosen(2) unfolding R_def old(5) .
  qed
qed

section \<open>The size after it\<close>

lemma weight_shape:
  assumes "\<And>e. f (e\<lparr> ce_time := 0 \<rparr>) = f e" "distinct (map fst (db_map d))"
  shows "weight f (db_map d) = (\<Sum>k\<in>dom (shape d). f (the (shape d k)))"
proof -
  have "weight f (db_map d) = (\<Sum>p\<in>set (db_map d). f (snd p))"
    using assms(2) by (simp add: weight_def sum_list_distinct_conv_sum_set distinct_map)
  also have "\<dots> = (\<Sum>k\<in>fst ` set (db_map d). f (the (db_find k d)))"
    using assms(2) by (subst sum.reindex) (auto simp: distinct_map db_find_def intro!: sum.cong)
  also have "fst ` set (db_map d) = dom (shape d)" by (simp add: shape_def db_find_def dom_map_of_conv_image_fst [symmetric] dom_def)
  also have "(\<Sum>k\<in>dom (shape d). f (the (db_find k d))) = (\<Sum>k\<in>dom (shape d). f (the (shape d k)))"
    by (intro sum.cong) (auto simp: shape_def assms(1))
  finally show ?thesis .
qed

lemma total_shape: "cache_inv d \<Longrightarrow> db_total d = (\<Sum>k\<in>dom (shape d). int (ce_size (the (shape d k))))"
  using weight_shape [of "\<lambda>e. int (ce_size e)" d] by (simp add: cache_inv_def map_ok_def stats_ok_def)

text \<open>A prune and the removal of what it found stale.\<close>

definition prune_all :: "env \<Rightarrow> database \<Rightarrow> database option" where
  "prune_all v d = do { d \<leftarrow> cache_prune v d; clear_all_stale v d }"

lemma prune_cleans:
  assumes d: "cache_inv d" and limit: "0 < cs_total_size_limit (db_settings d)" and stale: "db_stale d = []"
  shows "returns (\<lambda>d'. cleans v (set (snd (prune_choice v d))) d d'
    \<and> (log_fine v d \<longrightarrow> (\<forall>k\<in>set (snd (prune_choice v d)). shape d' k = None))) (prune_all v d)"
proof -
  obtain old all t n amount d1 where choice: "collectTimeStale v [] 0 d = (old, amount, d1)"
    "prune_choice v d = (old, all)" "fst (collectSizeStale old amount d1) = all"
    "d1 = d\<lparr> db_min_time := t, db_min_count := n \<rparr>" "t \<noteq> 0 \<longrightarrow> n \<noteq> 0"
    by (rule prune_choice_correct [OF d limit, of v])
  have inv: "cache_inv d1" "log_fine v d1 = log_fine v d"
    using minimal_inv(1) [of t n d] choice(4,5) d
    by (simp_all add: log_fine_def countRelativeTime_def time_passed_def)
  have clean1: "cleans v (set all) d d1" unfolding choice(4) by (rule clean_minimal [OF clean_nothing [OF d] choice(5)])
  obtain freed where run: "collectSizeStale old amount d1 = (all, freed)" using choice(3) by (metis prod.collapse)
  show ?thesis
  proof (cases "length all \<le> cs_stale_chunk (db_settings d1)")
    case True
    obtain d2 where d2: "clearStaleNow v all d1 = Some d2" "cleans v (set all) d1 d2" "all \<noteq> [] \<longrightarrow> db_stale d2 = []"
        "log_fine v d1 \<longrightarrow> (\<forall>k\<in>set all. shape d2 k = None)"
      using clearStaleNow_cleans [OF inv(1), of v all] by (auto elim!: returnsE)
    have "db_stale d2 = []" using d2(1,3) stale choice(4) by (cases "all = []") (auto simp: clearStaleNow_def)
    then have "prune_all v d = Some d2"
      using choice(1) run True d2(1) stale by (simp add: prune_all_def cache_prune_def clear_all_stale.simps)
    then show ?thesis using d2(4) inv(2) choice(2) cleans_trans [OF d2(2) clean1] by simp
  next
    case False
    define b where "b = pushStats (d1\<lparr> db_stale := all \<rparr>)"
    have books: "books b = books d1" by (simp add: b_def books_pushStats books_stale)
    have b: "cache_inv b" "log_fine v b = log_fine v d" "db_stale b = all"
      using inv books_inv [OF books] by (simp_all add: b_def books_pushStats)
    obtain d2 where d2: "clearStaleChunk v b = Some d2" "cleans v (set all) b d2" "set (db_stale d2) \<subseteq> set all"
        "log_fine v b \<longrightarrow> (\<forall>k\<in>set all - set (db_stale d2). shape d2 k = None)"
      using clearStaleChunk_cleans [OF b(1), of v] b(3) by (auto elim!: returnsE)
    obtain d3 where d3: "clear_all_stale v d2 = Some d3" "cleans v (set (db_stale d2)) d2 d3"
        "log_fine v d2 \<longrightarrow> (\<forall>k\<in>set (db_stale d2). shape d3 k = None)"
      using clear_all_stale_cleans [OF cleans_inv [OF d2(2)], of v] by (auto elim!: returnsE)
    have "cleans v (set all) d b" using clean1 books by (rule clean_books)
    from cleans_trans [OF cleans_mono [OF d3(2) d2(3)] cleans_trans [OF d2(2) this]]
    have "cleans v (set all) d d3" .
    moreover have "prune_all v d = Some d3"
      using choice(1) run False d2(1) d3(1) stale by (simp add: prune_all_def cache_prune_def startStaleClear_def flip: b_def)
    moreover have "shape d3 k = None" if "log_fine v d" "k \<in> set all" for k
      using d2(4) d3(3) that b(2) follows_fine [OF cleans_follows [OF d2(2)]] cleans_shape [OF d3(2), of k] by auto
    ultimately show ?thesis using choice(2) by simp
  qed
qed

lemma total_after:
  assumes "cache_inv d" "cache_inv d'" "shape d' = (\<lambda>k. if k \<in> K then None else shape d k)"
  shows "db_total d' = (\<Sum>p\<in>{p \<in> set (db_map d). fst p \<notin> K}. int (ce_size (snd p)))"
proof -
  have dist: "distinct (map fst (db_map d))" using assms(1) by (simp add: cache_inv_def map_ok_def)
  have "k \<in> dom (shape d') \<longleftrightarrow> k \<notin> K \<and> (\<exists>e. (k, e) \<in> set (db_map d))" for k
  proof -
    have "k \<in> dom (shape d') \<longleftrightarrow> k \<notin> K \<and> shape d k \<noteq> None" unfolding assms(3) by (simp add: dom_def)
    moreover have "shape d k \<noteq> None \<longleftrightarrow> (\<exists>e. (k, e) \<in> set (db_map d))"
      by (auto simp: shape_def db_find_def map_of_eq_Some_iff [OF dist])
    ultimately show ?thesis by blast
  qed
  moreover have "k \<in> fst ` {p \<in> set (db_map d). fst p \<notin> K} \<longleftrightarrow> k \<notin> K \<and> (\<exists>e. (k, e) \<in> set (db_map d))" for k
    by (auto intro: image_eqI [of _ fst "(k, _)"])
  ultimately have "dom (shape d') = fst ` {p \<in> set (db_map d). fst p \<notin> K}" by (intro set_eqI) simp
  moreover have "inj_on fst {p \<in> set (db_map d). fst p \<notin> K}"
    using dist by (auto simp: distinct_map inj_on_def)
  moreover have "ce_size (the (shape d' (fst p))) = ce_size (snd p)" if "p \<in> set (db_map d)" "fst p \<notin> K" for p
  proof -
    have "map_of (db_map d) (fst p) = Some (snd p)" using that(1) dist by simp
    then show ?thesis using that(2) by (simp add: assms(3)) (simp add: shape_def db_find_def)
  qed
  ultimately show ?thesis
    by (simp add: total_shape [OF assms(2)] sum.reindex comp_def)
qed

text \<open>The settings and the surroundings of the witnesses.\<close>

definition tiny_settings :: cache_settings where
  "tiny_settings = small_settings\<lparr> cs_max_data_size := 3, cs_total_size_limit := 5 \<rparr>"

definition calm :: env where
  "calm = \<lparr>ev_unix = 100, ev_clock = 0, ev_log_ok = True, ev_log_written = 0, ev_log_open = OpenSuccess, ev_version_ok = True,
     ev_new_open = OpenSuccess, ev_move_ok = True, ev_open = OpenSuccess, ev_write_ok = True,
     ev_places = [[1, 0, 0, 0, 0, 0, 0], [2, 0, 0, 0, 0, 0, 0], [3, 0, 0, 0, 0, 0, 0]], ev_padding = (\<lambda>_. 0),
     ev_readable = (\<lambda>_. True), ev_removable = (\<lambda>_. True)\<rparr>"

lemma tiny_settings_ok: "settings_ok tiny_settings"
  by (simp add: settings_ok_def CacheTypes.checkSettings_def CheckSettings_def tiny_settings_def small_settings_def
      default_settings_def kDataSizeLimit_def kBundledRecordsLimit_def kHeadSize_def store_size_def)

section \<open>Properties\<close>


definition two_entries :: database where
  "two_entries = (blank tiny_settings 0)\<lparr> db_open := True,
     db_map := [(Key 0 1, no_entry\<lparr> ce_time := 1, ce_size := 3 \<rparr>), (Key 0 2, no_entry\<lparr> ce_time := 2, ce_size := 3 \<rparr>)],
     db_total := 6, db_min_time := 1, db_min_count := 1, db_time := system_time_point 2 \<rparr>"


lemma lazy_remove_fields:
  "writeMultiRemoveLazy v d = Some d1 \<Longrightarrow> db_map d1 = db_map d \<and> db_min_time d1 = db_min_time d \<and> db_min_count d1 = db_min_count d
    \<and> db_total d1 = db_total d \<and> db_settings d1 = db_settings d \<and> db_stale d1 = db_stale d"
  by (auto simp: writeMultiRemoveLazy_def writeMultiRemove_def writeBundlesLazy_def binlog_write_def binlog_close_def excess_add_def
      Let_def split: if_splits bind_splits option.splits)

lemma remove_only_oldest:
  assumes d: "cache_inv d" "db_open d" "db_find k d = Some e" "ce_time e = db_min_time d" "db_min_time d \<noteq> 0" "db_min_count d = 1"
  shows "returns (\<lambda>(error, d'). db_min_time d' = 0 \<and> db_map d' = AList.delete k (db_map d) \<and> db_total d' = db_total d - int (ce_size e)
    \<and> db_settings d' = db_settings d \<and> db_stale d' = db_stale d) (cache_remove v k d)"
proof -
  obtain r where run: "cache_remove v k d = Some r" using cache_remove_keeps [OF d(1), of v k] by (auto elim!: returnsE)
  obtain d1 where d1: "writeMultiRemoveLazy v (d\<lparr> db_removing := insort_insert k (db_removing d) \<rparr>) = Some d1"
    using run d(2,3) by (auto simp: cache_remove_def split: bind_splits)
  note fields = lazy_remove_fields [OF d1, simplified]
  have "db_find k d1 = Some e" using d(3) fields by (simp add: db_find_def)
  then show ?thesis
    using run d d1 fields by (auto simp: cache_remove_def eraseMapEntry_def drop_minimal_def updateStats_def pushStatsDelayed_def
        remove_file_def no_entry_def Let_def db_find_def split: bind_splits)
qed



end
