(* ===== verification/CacheEvents.thy ===== *)
theory CacheEvents imports CachePruneChoice begin

text \<open>
  The cache as a machine: what can happen to an open cache, in any order, and the states it reaches.
\<close>

section \<open>Events\<close>

datatype cache_event =
    EvPut cache_key tagged_value
  | EvGet cache_key
  | EvGetWithSizes cache_key "cache_key list"
  | EvRemove cache_key
  | EvPutIfEmpty cache_key tagged_value
  | EvCopyIfEmpty cache_key cache_key
  | EvMoveIfEmpty cache_key cache_key
  | EvUpdateSettings int int
  | EvClearByTag "8 word"
  | EvClearStale
  | EvBundlesTimer
  | EvPruneTimer
  | EvPushPosted
  | EvClearPosted
  | EvCleanerDone
  | EvConsumers bool
  | EvCompactorFailed
  | EvCompactorDone bool bytes nat

definition cache_step :: "env \<Rightarrow> cache_event \<Rightarrow> database \<Rightarrow> database option" where
  "cache_step v ev d = (case ev of
     EvPut k value \<Rightarrow> map_option snd (cache_put v k value d)
   | EvGet k \<Rightarrow> map_option snd (cache_get v k d)
   | EvGetWithSizes k keys \<Rightarrow> map_option snd (getWithSizes v k keys d)
   | EvRemove k \<Rightarrow> map_option snd (cache_remove v k d)
   | EvPutIfEmpty k value \<Rightarrow> map_option snd (putIfEmpty v k value d)
   | EvCopyIfEmpty a b \<Rightarrow> map_option snd (copyIfEmpty v a b d)
   | EvMoveIfEmpty a b \<Rightarrow> map_option snd (moveIfEmpty v a b d)
   | EvUpdateSettings bulk age \<Rightarrow> updateSettings v bulk age d
   | EvClearByTag tag \<Rightarrow> map_option snd (clearByTag v tag d)
   | EvClearStale \<Rightarrow> clear_all_stale v d
   | EvBundlesTimer \<Rightarrow> bundles_timer_fired v d
   | EvPruneTimer \<Rightarrow> prune_timer_fired v d
   | EvPushPosted \<Rightarrow> Some (push_posted d)
   | EvClearPosted \<Rightarrow> clear_posted v d
   | EvCleanerDone \<Rightarrow> Some (cleanerDone d)
   | EvConsumers c \<Rightarrow> Some (d\<lparr> db_consumers := c \<rparr>)
   | EvCompactorFailed \<Rightarrow> Some (compactorFail v d)
   | EvCompactorDone ok compact till \<Rightarrow> compactorDone v ok compact till d)"

text \<open>A value has at most the size that is allowed, a draw of a place is free, new limits are such
  that the settings are right, and a compactor that is done is the one that was started.\<close>

definition cache_enabled :: "env \<Rightarrow> cache_event \<Rightarrow> database \<Rightarrow> bool" where
  "cache_enabled v ev d = (case ev of
     EvPut k value \<Rightarrow> length (tv_bytes value) \<le> cs_max_data_size (db_settings d) \<and> places_ok v d
   | EvPutIfEmpty k value \<Rightarrow> length (tv_bytes value) \<le> cs_max_data_size (db_settings d) \<and> places_ok v d
   | EvCopyIfEmpty a b \<Rightarrow> places_ok v d
   | EvUpdateSettings bulk age \<Rightarrow> CacheTypes.checkSettings
       ((db_settings d)\<lparr> cs_total_size_limit := bulk, cs_total_time_limit := age \<rparr>)
   | EvCompactorDone ok compact till \<Rightarrow> cw_object (db_compactor d) \<noteq> None
   | _ \<Rightarrow> True)"

section \<open>Every event keeps the invariant\<close>

lemma put_inv: "put_post v k value d error d' \<Longrightarrow> cache_inv d'"
  by (simp add: put_post_def)

lemma removes_inv: "removes v k d d' \<Longrightarrow> cache_inv d'"
  by (simp add: removes_def)

lemma move_inv: "move_post v a b d error d' \<Longrightarrow> cache_inv d'"
  by (simp add: move_post_def)

lemma books_cleans: "cache_inv d \<Longrightarrow> books d' = books d \<Longrightarrow> cleans v K d d'"
  using clean_books [OF clean_nothing] .

lemma prune_returns:
  assumes d: "cache_inv d"
  shows "returns (\<lambda>d'. cleans v UNIV d d') (cache_prune v d)"
proof (cases "db_stale d = []")
  case False
  then show ?thesis using d by (simp add: cache_prune_def clean_nothing)
next
  case True
  obtain old amount t n where time: "collectTimeStale v [] 0 d = (old, amount, d\<lparr> db_min_time := t, db_min_count := n \<rparr>)"
    "t \<noteq> 0 \<longrightarrow> n \<noteq> 0"
    by (rule collectTimeStale_correct [OF d, of v])
  define d1 where "d1 = d\<lparr> db_min_time := t, db_min_count := n \<rparr>"
  obtain all freed where size: "collectSizeStale old amount d1 = (all, freed)" by force
  have clean1: "cleans v UNIV d d1" unfolding d1_def by (rule clean_minimal [OF clean_nothing [OF d] time(2)])
  have inv: "cache_inv d1" using clean1 by (rule cleans_inv)
  define b where "b = pushStats (d1\<lparr> db_stale := all \<rparr>)"
  have "books b = books d1" by (simp add: b_def books_pushStats books_stale)
  then have clean_b: "cleans v UNIV d b" by (rule clean_books [OF clean1])
  have "returns (\<lambda>d'. cleans v UNIV d d') (clearStaleNow v all d1)"
    using clearStaleNow_cleans [OF inv, of v all] by (auto elim!: returns_mono intro: cleans_trans [OF cleans_mono clean1])
  moreover have "returns (\<lambda>d'. cleans v UNIV d d') (clearStaleChunk v b)"
    using clearStaleChunk_cleans [OF cleans_inv [OF clean_b], of v]
    by (auto elim!: returns_mono intro: cleans_trans [OF cleans_mono clean_b])
  ultimately show ?thesis
    using True time(1) size by (simp add: cache_prune_def startStaleClear_def flip: d1_def b_def)
qed

lemma clearByTag_returns:
  assumes d: "cache_inv d"
  shows "returns (\<lambda>(error, d'). error = NoError \<and> cleans v UNIV d d') (clearByTag v tag d)"
proof -
  define c where "c = d\<lparr> db_stale := db_stale d @ map fst (filter (\<lambda>(k, e). ce_tag e = tag) (db_map d)) \<rparr>"
  have clean: "cleans v UNIV d c" by (rule books_cleans [OF d]) (simp add: c_def books_stale)
  have clean_p: "cleans v UNIV d (pushStats c)" by (rule clean_books [OF clean]) (simp add: books_pushStats)
  have "returns (\<lambda>d'. cleans v UNIV d d') (clearStaleChunk v (pushStats c))"
    using clearStaleChunk_cleans [OF cleans_inv [OF clean_p], of v]
    by (auto elim!: returns_mono intro: cleans_trans [OF cleans_mono clean_p])
  then show ?thesis using clean by (simp add: clearByTag_def startStaleClear_def Let_def flip: c_def)
qed

lemma updateSettings_inv:
  assumes d: "cache_inv d" and ok: "CacheTypes.checkSettings ((db_settings d)\<lparr> cs_total_size_limit := bulk, cs_total_time_limit := age \<rparr>)"
  shows "returns (\<lambda>d'. cache_inv d' \<and> shape d' = shape d \<and> db_files d' = db_files d) (updateSettings v bulk age d)"
proof -
  define c where "c = d\<lparr> db_settings := (db_settings d)\<lparr> cs_total_size_limit := bulk, cs_total_time_limit := age \<rparr> \<rparr>"
  have "cache_inv c"
    using d ok by (simp add: c_def cache_inv_def settings_ok_def CheckSettings_def map_ok_def stats_ok_def entry_ok_def
        queue_ok_def files_ok_def excess_ok_def db_find_def)
  moreover have "shape c = shape d" "db_files c = db_files d" by (simp_all add: c_def shape_def db_find_def)
  ultimately show ?thesis
    using ok optimize_keeps [of c v] by (auto simp: updateSettings_def keeps_def Let_def simp flip: c_def elim!: returns_mono)
qed

lemma compactorFail_inv: "cache_inv d \<Longrightarrow> cache_inv (compactorFail v d)"
  by (simp add: compactorFail_def compactor_none_def Let_def cache_inv_def map_ok_def stats_ok_def queue_ok_def files_ok_def
      excess_ok_def db_find_def)

lemma compactorDone_inv:
  assumes "cache_inv d" "cw_object (db_compactor d) \<noteq> None"
  shows "returns (\<lambda>d'. cache_inv d' \<and> shape d' = shape d \<and> db_files d' = db_files d) (compactorDone v ok compact till d)"
proof -
  have "returns (\<lambda>d'. cache_inv d' \<and> shape d' = shape d \<and> db_files d' = db_files d)
      (compactor_moved v c (d\<lparr> db_ready := Some c \<rparr>))" for c
    using assms by (simp add: compactor_moved_def compactorFail_def compactor_none_def Let_def cache_inv_def map_ok_def
        stats_ok_def queue_ok_def files_ok_def excess_ok_def db_find_def shape_def)
  moreover have "cache_inv (compactorFail v d)" using assms(1) by (rule compactorFail_inv)
  moreover have "shape (compactorFail v d) = shape d" "db_files (compactorFail v d) = db_files d"
    by (simp_all add: compactorFail_def Let_def shape_def db_find_def)
  ultimately show ?thesis by (auto simp: compactorDone_def split: option.splits)
qed

lemma cache_step_inv:
  assumes d: "cache_inv d" and ok: "cache_enabled v ev d"
  shows "returns cache_inv (cache_step v ev d)"
proof (cases ev)
  case (EvPut k val)
  then show ?thesis using ok cache_put_keeps [OF d, of val v k]
    by (auto simp: cache_step_def cache_enabled_def elim!: returns_mono dest: put_inv)
next
  case (EvGet k)
  then show ?thesis using cache_get_keeps [OF d, of v k]
    by (auto simp: cache_step_def elim!: returns_mono dest: removes_inv keepsD split: if_splits)
next
  case (EvGetWithSizes k keys)
  then show ?thesis using getWithSizes_keeps [OF d, of v k keys]
    by (auto simp: cache_step_def elim!: returns_mono dest: removes_inv keepsD split: if_splits)
next
  case (EvRemove k)
  then show ?thesis using cache_remove_keeps [OF d, of v k]
    by (auto simp: cache_step_def elim!: returns_mono dest: removes_inv)
next
  case (EvPutIfEmpty k val)
  then show ?thesis using ok d cache_put_keeps [OF d, of val v k]
    by (auto simp: cache_step_def cache_enabled_def putIfEmpty_def elim!: returns_mono dest: put_inv)
next
  case (EvCopyIfEmpty a b)
  then show ?thesis using ok d copyIfEmpty_keeps [OF d, of v b a]
    by (auto simp: cache_step_def cache_enabled_def elim!: returns_mono dest: put_inv keepsD split: if_splits)
next
  case (EvMoveIfEmpty a b)
  then show ?thesis using moveIfEmpty_keeps [OF d, of v a b]
    by (auto simp: cache_step_def elim!: returns_mono dest: move_inv)
next
  case (EvUpdateSettings bulk age)
  then show ?thesis using ok updateSettings_inv [OF d, where bulk = bulk and age = age and v = v]
    by (auto simp: cache_step_def cache_enabled_def elim!: returns_mono)
next
  case (EvClearByTag tag)
  then show ?thesis using clearByTag_returns [OF d, of v tag]
    by (auto simp: cache_step_def elim!: returns_mono dest: cleans_inv)
next
  case EvClearStale
  then show ?thesis using clear_all_stale_cleans [OF d, of v]
    by (auto simp: cache_step_def elim!: returns_mono dest: cleans_inv)
next
  case EvBundlesTimer
  have "cache_inv (d\<lparr> db_bundles_timer := None \<rparr>)" using books_inv(1) [OF books_stale(4) [where d = d and t = None]] d by simp
  then show ?thesis using EvBundlesTimer writeBundles_keeps [of "d\<lparr> db_bundles_timer := None \<rparr>" v]
    by (auto simp: cache_step_def bundles_timer_fired_def elim!: returns_mono intro: keepsD [OF checkCompactor_keeps] dest!: keepsD(1))
next
  case EvPruneTimer
  have "cache_inv (d\<lparr> db_prune_timer := None \<rparr>)" using books_inv(1) [OF books_stale(3) [where d = d and t = None]] d by simp
  then show ?thesis using EvPruneTimer prune_returns [of "d\<lparr> db_prune_timer := None \<rparr>" v]
    by (auto simp: cache_step_def prune_timer_fired_def elim!: returns_mono dest: cleans_inv)
next
  case EvPushPosted
  have "books (push_posted d) = books d" by (simp add: push_posted_def pushStats_def books_def)
  from books_inv(1) [OF this] show ?thesis using EvPushPosted d by (simp add: cache_step_def)
next
  case EvClearPosted
  have "cache_inv (d\<lparr> db_clearing := False \<rparr>)" using books_inv(1) [OF books_stale(2) [where d = d and c = False]] d by simp
  then show ?thesis using EvClearPosted d clearStaleChunk_cleans [of "d\<lparr> db_clearing := False \<rparr>" v]
    by (auto simp: cache_step_def clear_posted_def elim!: returns_mono dest: cleans_inv)
next
  case EvCleanerDone
  have "books (cleanerDone d) = books d" by (simp add: cleanerDone_def pushStatsDelayed_def books_def)
  from books_inv(1) [OF this] show ?thesis using EvCleanerDone d by (simp add: cache_step_def)
next
  case (EvConsumers c)
  have "books (d\<lparr> db_consumers := c \<rparr>) = books d" by (simp add: books_def)
  from books_inv(1) [OF this] show ?thesis using EvConsumers d by (simp add: cache_step_def)
next
  case EvCompactorFailed
  then show ?thesis using d by (simp add: cache_step_def compactorFail_inv)
next
  case (EvCompactorDone good compact till)
  then show ?thesis using ok compactorDone_inv [OF d, of v good compact till]
    by (auto simp: cache_step_def cache_enabled_def elim!: returns_mono)
qed

section \<open>A log that is opened\<close>

text \<open>Two states that replay the same way.\<close>

definition agree :: "database \<Rightarrow> database \<Rightarrow> bool" where
  "agree a b \<longleftrightarrow> db_settings a = db_settings b \<and> db_time a = db_time b \<and> map_of (db_map a) = map_of (db_map b)"

definition replayed :: "database \<Rightarrow> database \<Rightarrow> bool" where
  "replayed b b' \<longleftrightarrow> same_rest (b\<lparr> db_time := db_time b' \<rparr>) b' \<and> db_excess b \<le> db_excess b'"

lemma replayed_trans: "replayed a b \<Longrightarrow> replayed b c \<Longrightarrow> replayed a c"
  by (cases a; cases b; cases c) (simp add: replayed_def same_rest_def)

lemma replayed_refl [simp]: "replayed b b"
  by (simp add: replayed_def)

lemma replayed_settings: "replayed b b' \<Longrightarrow> db_settings b' = db_settings b"
  using same_restD(1) [of "b\<lparr> db_time := db_time b' \<rparr>" b'] by (simp add: replayed_def)

definition both :: "database \<Rightarrow> (bool \<times> database) option \<Rightarrow> (bool \<times> database) option \<Rightarrow> bool" where
  "both b ra rb \<longleftrightarrow> (\<exists>a' b'. ra = Some (True, a') \<and> rb = Some (True, b') \<and> map_ok a' \<and> map_ok b' \<and> agree a' b' \<and> replayed b b')"

lemma store_both:
  assumes "map_ok a" "map_ok b" "agree a b" "store_ok (cs_track_time (db_settings a)) s" "processRecordStore s a = Some (True, a')"
  shows "both b (Some (True, a')) (processRecordStore s b)"
proof -
  have fit: "0 < getSize s" "getSize s \<le> cs_max_data_size (db_settings a)" "length (so_place s) = 7"
    using assms(4,5) by (auto simp: processRecordStore_def store_ok_def Let_def split: if_splits)
  obtain a1 where a1: "processRecordStore s a = Some (True, a1)" "map_ok a1"
    "db_map a1 = AList.update (so_key s) (store_entry s a) (db_map a)" "same_rest (store_clock s a) a1"
    using processRecordStore_keeps [OF assms(1) fit] by (auto elim!: returnsE)
  have "getSize s \<le> cs_max_data_size (db_settings b)" using fit(2) assms(3) by (simp add: agree_def)
  then obtain b1 where b1: "processRecordStore s b = Some (True, b1)" "map_ok b1"
    "db_map b1 = AList.update (so_key s) (store_entry s b) (db_map b)" "same_rest (store_clock s b) b1" "db_excess b \<le> db_excess b1"
    using processRecordStore_keeps [OF assms(2) fit(1) _ fit(3)] by (auto elim!: returnsE)
  have "db_time (store_clock s a) = db_time (store_clock s b)" "store_entry s a = store_entry s b"
    using assms(3) by (auto simp: agree_def store_clock_def applyTimePoint_def store_entry_def)
  then have "agree a1 b1"
    using assms(3) a1(3) b1(3) same_restD(1,9) [OF a1(4)] same_restD(1,9) [OF b1(4)] by (simp add: agree_def update_conv')
  moreover have "store_clock s b = b\<lparr> db_time := db_time (store_clock s b) \<rparr>"
    by (simp add: store_clock_def applyTimePoint_def)
  then have "replayed b b1" using b1(4,5) same_restD(9) [OF b1(4)] by (simp add: replayed_def)
  ultimately show ?thesis using a1 b1 assms(5) by (simp add: both_def)
qed

lemma stores_both:
  assumes "map_ok a" "map_ok b" "agree a b" "\<forall>s\<in>set ss. store_ok (cs_track_time (db_settings a)) s"
    "processRecordMultiStore ss a = Some (True, a')"
  shows "both b (Some (True, a')) (processRecordMultiStore ss b)"
  using assms
proof (induction ss arbitrary: a b)
  case (Cons s ss)
  obtain a1 where a1: "processRecordStore s a = Some (True, a1)" "processRecordMultiStore ss a1 = Some (True, a')"
    using Cons.prems(5) by (auto split: bind_splits if_splits)
  obtain b1 where b1: "processRecordStore s b = Some (True, b1)" "map_ok a1" "map_ok b1" "agree a1 b1" "replayed b b1"
    using store_both [OF Cons.prems(1-3) _ a1(1)] Cons.prems(4) by (auto simp: both_def)
  have "db_settings a1 = db_settings a"
    using b1(4,5) Cons.prems(3) replayed_settings by (simp add: agree_def)
  then have "both b1 (Some (True, a')) (processRecordMultiStore ss b1)"
    using Cons.IH [OF b1(2-4) _ a1(2)] Cons.prems(4) by simp
  then show ?case using b1(1,5) replayed_trans by (auto simp: both_def)
qed (simp add: both_def)

lemma process_both:
  assumes "map_ok a" "map_ok b" "agree a b" "record_ok (db_settings a) r" "process_record r a = Some (True, a')"
  shows "both b (Some (True, a')) (process_record r b)"
proof (cases r)
  case (StoreRecord s)
  then show ?thesis using store_both [OF assms(1-3)] assms(4,5) by (simp add: process_record_def record_ok_def)
next
  case (MultiStore ss)
  then show ?thesis using stores_both [OF assms(1-3)] assms(4,5) by (simp add: process_record_def record_ok_def)
next
  case (MultiRemove ks)
  obtain a1 where a1: "processRecordMultiRemove ks a = Some (True, a1)" "map_ok a1"
    "map_of (db_map a1) = (\<lambda>k. if k \<in> set ks then None else map_of (db_map a) k)" "same_rest a a1"
    using processRecordMultiRemove_keeps [OF assms(1), of ks] by (auto elim!: returnsE)
  obtain b1 where b1: "processRecordMultiRemove ks b = Some (True, b1)" "map_ok b1"
    "map_of (db_map b1) = (\<lambda>k. if k \<in> set ks then None else map_of (db_map b) k)" "same_rest b b1" "db_excess b \<le> db_excess b1"
    using processRecordMultiRemove_keeps [OF assms(2), of ks] by (auto elim!: returnsE)
  have "agree a1 b1" "replayed b b1"
    using assms(3) b1(4,5) same_restD(1,9) [OF a1(4)] same_restD(1,9) [OF b1(4)]
    by (simp_all add: agree_def replayed_def a1(3) b1(3) fun_eq_iff)
  then show ?thesis using MultiRemove assms(5) a1 b1 by (simp add: process_record_def both_def)
next
  case (MultiAccess t ks)
  have timed: "cs_track_time (db_settings a)" "cs_track_time (db_settings b)"
    using assms(3,4) MultiAccess by (simp_all add: record_ok_def agree_def)
  obtain a1 where a1: "processRecordMultiAccess t ks a = Some (True, a1)" "map_ok a1"
    "db_map a1 = fold (touch (tp_relative t)) ks (db_map a)" "same_rest (applyTimePoint t a) a1"
    using processRecordMultiAccess_keeps [OF assms(1) timed(1), of t ks] by (auto elim!: returnsE)
  obtain b1 where b1: "processRecordMultiAccess t ks b = Some (True, b1)" "map_ok b1"
    "db_map b1 = fold (touch (tp_relative t)) ks (db_map b)" "same_rest (applyTimePoint t b) b1" "db_excess b \<le> db_excess b1"
    using processRecordMultiAccess_keeps [OF assms(2) timed(2), of t ks] by (auto elim!: returnsE)
  have "db_time (applyTimePoint t a) = db_time (applyTimePoint t b)" "db_settings (applyTimePoint t a) = db_settings a"
    "db_settings (applyTimePoint t b) = db_settings b"
    using assms(3) by (auto simp: agree_def applyTimePoint_def)
  then have "agree a1 b1"
    using assms(3) a1(3) b1(3) same_restD(1,9) [OF a1(4)] same_restD(1,9) [OF b1(4)]
    by (simp add: agree_def map_of_touches fun_eq_iff)
  moreover have "applyTimePoint t b = b\<lparr> db_time := db_time (applyTimePoint t b) \<rparr>" by (simp add: applyTimePoint_def)
  then have "replayed b b1" using b1(4,5) same_restD(9) [OF b1(4)] by (simp add: replayed_def)
  ultimately show ?thesis using MultiAccess assms(5) a1 b1 by (simp add: process_record_def both_def)
qed

lemma replay_handled:
  assumes "map_ok a" "map_ok b" "agree a b" "\<forall>r\<in>set rs. record_ok (db_settings a) r" "replay rs a = Some a'"
  shows "\<exists>b'. handle_all handle_record rs (Some b) = Some (Some b') \<and> map_ok a' \<and> map_ok b' \<and> agree a' b' \<and> replayed b b'"
  using assms
proof (induction rs arbitrary: a b)
  case (Cons r rs)
  obtain a1 where a1: "process_record r a = Some (True, a1)" "replay rs a1 = Some a'"
    using Cons.prems(5) by (auto split: bind_splits if_splits)
  obtain b1 where b1: "process_record r b = Some (True, b1)" "map_ok a1" "map_ok b1" "agree a1 b1" "replayed b b1"
    using process_both [OF Cons.prems(1-3) _ a1(1)] Cons.prems(4) by (auto simp: both_def)
  have "db_settings a1 = db_settings a"
    using b1(4,5) Cons.prems(3) replayed_settings by (simp add: agree_def)
  then obtain b' where "handle_all handle_record rs (Some b1) = Some (Some b')" "map_ok a'" "map_ok b'" "agree a' b'" "replayed b1 b'"
    using Cons.IH [OF b1(2-4) _ a1(2)] Cons.prems(4) by auto
  then show ?case using b1(1) replayed_trans [OF b1(5)] by (simp add: handle_record_def [of r "Some b"])
qed simp

end
