(* ===== verification/CacheReopen.thy ===== *)
theory CacheReopen imports CacheEvents begin

text \<open>
  The log that is opened again: what a cache holds when it is closed is what it holds when it is
  opened the next time.
\<close>

section \<open>Reading the log\<close>

lemma blank_map_ok: "map_ok (blank s t)"
  by (simp add: blank_def map_ok_def stats_ok_def summaries_of_def weight_def fm_inv_def summary_def)

text \<open>A state without anything in it.\<close>

definition vacant :: "database \<Rightarrow> bool" where
  "vacant d \<longleftrightarrow> settings_ok (db_settings d) \<and> files_ok d \<and> db_map d = [] \<and> db_removing d = [] \<and> db_accessed d = []
     \<and> db_stale d = [] \<and> db_excess d = 0 \<and> db_total d = 0 \<and> db_min_time d = 0 \<and> db_min_count d = 0 \<and> db_tagged d = []
     \<and> db_compactor d = compactor_none"

lemma vacant_map_ok: "vacant d \<Longrightarrow> map_ok d"
  by (simp add: vacant_def map_ok_def stats_ok_def summaries_of_def weight_def fm_inv_def summary_def)

lemma keeps_good: "keeps v d d' \<Longrightarrow> log_fine v d \<Longrightarrow> log_good d \<Longrightarrow> log_good d'"
  unfolding keeps_def follows_def log_good_def by auto

lemma record_log_replays:
  assumes d: "vacant d" "db_time d = system_time_point (bh_system_time h)" "db_offset d = kHeadSize"
      "db_log d = header_bytes h @ es"
    and rs: "header_ok (db_settings d) h" "\<forall>r\<in>set rs. record_ok (db_settings d) r"
      "log_bytes (cs_track_time (db_settings d)) rs = Some es"
      "replay rs (blank (db_settings d) (bh_system_time h)) = Some dr"
  shows "\<exists>rd d'. read_binlog (db_settings d) handle_record (reader_new (db_log d) (db_offset d) 0) (Some d) = Some (rd, Some d')
    \<and> br_offset rd = length (db_log d) \<and> map_ok dr \<and> map_ok d' \<and> agree dr d' \<and> replayed d d'"
proof -
  have s: "settings_ok (db_settings d)" using d(1) by (simp add: vacant_def)
  have len: "length (header_bytes h) = 16" by (simp add: header_bytes_def)
  have "agree (blank (db_settings d) (bh_system_time h)) d" using d(1,2) by (simp add: agree_def blank_def vacant_def)
  from replay_handled [OF blank_map_ok vacant_map_ok [OF d(1)] this _ rs(4)] rs(2)
  obtain d' where d': "handle_all handle_record rs (Some d) = Some (Some d')" "map_ok dr" "map_ok d'" "agree dr d'" "replayed d d'"
    by (auto simp: blank_def)
  have "dead (db_settings d) []" using s by (auto simp: dead_def stuck_def ReadRecordSize_def settings_ok_def CheckSettings_def kHeadSize_def)
  from read_binlog_from_start [OF s len rs(2,3) this d'(1)]
  show ?thesis using d' d(3,4) len by (auto simp: kHeadSize_def)
qed

lemma readBinlog_replays:
  assumes d: "vacant d" "db_time d = system_time_point (bh_system_time h)" "db_offset d = kHeadSize"
      "db_log d = header_bytes h @ es"
    and rs: "header_ok (db_settings d) h" "\<forall>r\<in>set rs. record_ok (db_settings d) r"
      "log_bytes (cs_track_time (db_settings d)) rs = Some es"
      "replay rs (blank (db_settings d) (bh_system_time h)) = Some dr"
    and sys: "tp_system (db_time dr) < 2 ^ 32"
  shows "returns (\<lambda>d'. cache_inv d' \<and> shape d' = shape dr \<and> db_files d' = db_files d \<and> db_settings d' = db_settings d
    \<and> db_ready d' = db_ready d \<and> countRelativeTime v d' = countRelativeTime v dr \<and> (ev_log_ok v \<and> db_open d \<and> countRelativeTime v dr < 2 ^ 64 \<longrightarrow> db_open d' \<and> log_good d')) (readBinlog v d)"
proof -
  obtain rd d0 where read: "read_binlog (db_settings d) handle_record (reader_new (db_log d) (db_offset d) 0) (Some d) = Some (rd, Some d0)"
    "br_offset rd = length (db_log d)" "map_ok dr" "map_ok d0" "agree dr d0" "replayed d d0"
    using record_log_replays [OF d rs] by blast
  define d1 where "d1 = d0\<lparr> db_offset := br_offset rd \<rparr>"
  note rest = same_restD [OF read(6) [unfolded replayed_def, THEN conjunct1]]
  have fields: "db_settings d1 = db_settings d" "db_open d1 = db_open d" "db_log d1 = db_log d" "db_offset d1 = length (db_log d)"
    "db_files d1 = db_files d" "db_removing d1 = []" "db_accessed d1 = []" "db_compactor d1 = compactor_none" "db_time d1 = db_time dr"
    "db_settings dr = db_settings d" "db_ready d1 = db_ready d"
    using rest read(2,5) d(1) by (simp_all add: d1_def vacant_def agree_def)
  have find: "db_find k d1 = db_find k dr" for k using read(5) by (simp add: d1_def agree_def db_find_def)
  have "0 \<le> db_excess d1" using read(6) d(1) by (simp add: replayed_def vacant_def d1_def)
  then have inv: "cache_inv d1"
    using fields read(4) sys d(1)
    by (simp add: cache_inv_def queue_ok_def files_ok_def excess_ok_def vacant_def compactor_none_def settings_ok_def CacheTypes.checkSettings_def)
      (simp add: d1_def map_ok_def stats_ok_def)
  have log: "log_good d1"
    unfolding log_good_def logged_def fields whole_def
    by (rule exI [of _ h], rule conjI [OF rs(1)], rule exI [of _ rs], rule exI [of _ es], rule exI [of _ dr])
      (use rs d(4) read(3) fields(9,10) find in \<open>simp add: mirrors_def clock_below_def marked_def compactor_none_def fields(1,8)\<close>)
  have shapes: "shape d1 = shape dr" by (simp add: shape_def find)
  have "returns (\<lambda>d'. keeps v d1 d') (adjustRelativeTime v d1)"
  proof (cases "cs_track_time (db_settings d1) \<and> GetUnixtime v < int (tp_system (db_time d1))")
    case True
    then show ?thesis
      using writeMultiAccessBlock_keeps [of d1 v] inv cache_inv_emptied [OF inv] by (auto simp: adjustRelativeTime_def fields elim!: returns_mono)
  next
    case False
    then show ?thesis using inv by (auto simp: adjustRelativeTime_def keeps_refl)
  qed
  then have opt: "returns (keeps v d1) (adjustRelativeTime v d1 \<bind> optimize v)"
    by (auto elim!: returns_mono intro: returns_mono [OF optimize_keeps] keeps_trans dest: keepsD(1))
  have clock: "countRelativeTime v d1 = countRelativeTime v dr"
    by (simp add: countRelativeTime_def time_passed_def fields)
  have "CheckSettings (db_settings d)" using d(1) by (simp add: vacant_def settings_ok_def)
  then have "readBinlog v d = adjustRelativeTime v d1 \<bind> optimize v"
    by (simp add: readBinlog_def read(1) flip: d1_def)
  moreover have "returns (\<lambda>d'. cache_inv d' \<and> shape d' = shape dr \<and> db_files d' = db_files d \<and> db_settings d' = db_settings d
      \<and> db_ready d' = db_ready d \<and> countRelativeTime v d' = countRelativeTime v dr \<and> (ev_log_ok v \<and> db_open d \<and> countRelativeTime v dr < 2 ^ 64 \<longrightarrow> db_open d' \<and> log_good d')) (adjustRelativeTime v d1 \<bind> optimize v)"
    using log shapes fields(1,2,5,11) clock keeps_good [of v d1]
    by (intro returns_mono [OF opt]) (simp add: keeps_def follows_def log_fine_def)
  ultimately show ?thesis by simp
qed

section \<open>The clock of a log\<close>

definition clock_ok :: "database \<Rightarrow> database \<Rightarrow> bool" where
  "clock_ok a a' \<longleftrightarrow> map_ok a' \<and> db_settings a' = db_settings a \<and> tp_system (db_time a') < 2 ^ 32"

lemma store_system:
  assumes "map_ok a" "store_ok (cs_track_time (db_settings a)) s" "processRecordStore s a = Some (True, a')"
    "tp_system (db_time a) < 2 ^ 32"
  shows "clock_ok a a'"
proof -
  have "0 < getSize s" "getSize s \<le> cs_max_data_size (db_settings a)" "length (so_place s) = 7"
    using assms(2,3) by (auto simp: processRecordStore_def store_ok_def Let_def split: if_splits)
  then have a': "map_ok a'" "same_rest (store_clock s a) a'"
    using processRecordStore_keeps [OF assms(1), of s] assms(3) by (auto elim!: returnsE)
  moreover have "tp_system (db_time (store_clock s a)) < 2 ^ 32"
    using assms(2,4) by (auto simp: store_clock_def applyTimePoint_def store_ok_def time_ok_def)
  ultimately show ?thesis using same_restD(1,9) [OF a'(2)] by (simp add: clock_ok_def)
qed

lemma stores_system:
  "map_ok a \<Longrightarrow> \<forall>s\<in>set ss. store_ok (cs_track_time (db_settings a)) s \<Longrightarrow> processRecordMultiStore ss a = Some (True, a')
    \<Longrightarrow> tp_system (db_time a) < 2 ^ 32 \<Longrightarrow> clock_ok a a'"
proof (induction ss arbitrary: a)
  case (Cons s ss)
  obtain a1 where a1: "processRecordStore s a = Some (True, a1)" "processRecordMultiStore ss a1 = Some (True, a')"
    using Cons.prems(3) by (auto split: bind_splits if_splits)
  have "clock_ok a a1" using store_system [OF Cons.prems(1) _ a1(1) Cons.prems(4)] Cons.prems(2) by simp
  then show ?case using Cons.IH [OF _ _ a1(2)] Cons.prems(2) by (simp add: clock_ok_def)
qed (simp add: clock_ok_def)

lemma process_system:
  assumes "map_ok a" "record_ok (db_settings a) r" "process_record r a = Some (True, a')" "tp_system (db_time a) < 2 ^ 32"
  shows "clock_ok a a'"
proof (cases r)
  case (StoreRecord s)
  then show ?thesis using store_system [OF assms(1) _ _ assms(4)] assms(2,3) by (simp add: process_record_def record_ok_def)
next
  case (MultiStore ss)
  then have "\<forall>s\<in>set ss. store_ok (cs_track_time (db_settings a)) s" "processRecordMultiStore ss a = Some (True, a')"
    using assms(2,3) by (simp_all add: process_record_def record_ok_def)
  from stores_system [OF assms(1) this assms(4)] show ?thesis .
next
  case (MultiRemove ks)
  then have "map_ok a'" "same_rest a a'"
    using processRecordMultiRemove_keeps [OF assms(1), of ks] assms(3) by (auto simp: process_record_def elim!: returnsE)
  then show ?thesis using same_restD(1,9) [of a a'] assms(4) by (simp add: clock_ok_def)
next
  case (MultiAccess t ks)
  then have t: "cs_track_time (db_settings a)" "time_ok t" using assms(2) by (simp_all add: record_ok_def)
  then have "map_ok a'" "same_rest (applyTimePoint t a) a'"
    using processRecordMultiAccess_keeps [OF assms(1) t(1), of t ks] assms(3) MultiAccess
    by (auto simp: process_record_def elim!: returnsE)
  moreover have "tp_system (db_time (applyTimePoint t a)) < 2 ^ 32" "db_settings (applyTimePoint t a) = db_settings a"
    using t(2) assms(4) by (auto simp: applyTimePoint_def time_ok_def)
  ultimately show ?thesis using same_restD(1,9) [of "applyTimePoint t a" a'] by (simp add: clock_ok_def)
qed

lemma replay_system:
  assumes "map_ok a" "\<forall>r\<in>set rs. record_ok (db_settings a) r" "replay rs a = Some a'" "tp_system (db_time a) < 2 ^ 32"
  shows "tp_system (db_time a') < 2 ^ 32"
  using assms
proof (induction rs arbitrary: a)
  case (Cons r rs)
  obtain a1 where a1: "process_record r a = Some (True, a1)" "replay rs a1 = Some a'"
    using Cons.prems(3) by (auto split: bind_splits if_splits)
  show ?case
    using process_system [OF Cons.prems(1) _ a1(1) Cons.prems(4)] Cons.IH [OF _ _ a1(2)] Cons.prems(2) by (simp add: clock_ok_def)
qed simp

section \<open>Closing and opening\<close>

lemma close_settled:
  assumes d: "cache_inv d"
  shows "returns (\<lambda>d'. keeps v d d' \<and> (log_fine v d \<longrightarrow> db_removing d' = [])) (writeBundles v d)"
proof -
  obtain error d1 where d1: "writeMultiRemove v d = Some (error, d1)" "db_removing d1 = []"
    using writeMultiRemove_keeps [of d v] d cache_inv_emptied [OF d] cache_inv_lengths [OF d] by (auto elim!: returnsE)
  have "db_removing d' = []" if "writeMultiAccess v d1 = Some (error, d')" for error d'
    using that d1(2) by (auto simp: writeMultiAccess_def writeMultiAccessBlock_def binlog_write_def binlog_close_def
        excess_add_def Let_def split: if_splits bind_splits)
  then have "db_removing d' = []" if "writeBundles v d = Some d'" for d'
    using that d1 by (auto simp: writeBundles_def split: if_splits)
  then show ?thesis using writeBundles_keeps [OF d, of v] by (auto elim!: returnsE)
qed

lemma vacant_clearState: "settings_ok (db_settings d) \<Longrightarrow> files_ok d \<Longrightarrow> vacant (clearState d)"
  by (simp add: vacant_def clearState_def files_ok_def)

lemma close_vacant:
  assumes d: "cache_inv d"
  shows "returns (\<lambda>d'. vacant d' \<and> \<not> db_open d' \<and> db_settings d' = db_settings d \<and> db_files d' = db_files d
      \<and> db_ready d' = db_ready d
      \<and> (log_fine v d \<and> log_good d \<longrightarrow> (\<exists>d1. db_log d' = db_log d1 \<and> shape d1 = shape d \<and> log_good d1 \<and> db_removing d1 = []
        \<and> db_settings d1 = db_settings d \<and> countRelativeTime v d1 = countRelativeTime v d)))
    (cache_close v d)"
proof (cases "db_open d")
  case False
  then show ?thesis
    using d vacant_clearState [of d] by (simp add: cache_close_def cache_inv_def log_fine_def) (simp add: clearState_def)
next
  case True
  obtain d1 where d1: "writeBundles v d = Some d1" "keeps v d d1" "log_fine v d \<longrightarrow> db_removing d1 = []"
    using close_settled [OF d, of v] by (auto elim!: returnsE)
  have "settings_ok (db_settings d1)" "files_ok d1" using keepsD(1) [OF d1(2)] by (simp_all add: cache_inv_def)
  then have "vacant (clearState (binlog_close d1))" by (intro vacant_clearState) (simp_all add: binlog_close_def files_ok_def)
  moreover have "cache_close v d = Some (clearState (binlog_close d1))" using True d1(1) by (simp add: cache_close_def)
  ultimately show ?thesis
    using d1(2,3) keeps_good [OF d1(2)] by (auto simp: clearState_def binlog_close_def keeps_def follows_def intro!: exI [of _ d1])
qed

text \<open>A clock that does not come near the end of its 64 bits.\<close>

definition clock_room :: "env \<Rightarrow> database \<Rightarrow> bool" where
  "clock_room v d \<longleftrightarrow> countRelativeTime v d + 2 ^ 32 \<le> 2 ^ 64"

lemma clock_room_other:
  assumes "clock_room v d" "tp_relative (db_time a) \<le> tp_relative (db_time d)"
  shows "countRelativeTime v a < 2 ^ 64"
proof -
  have "time_passed v a < 2 ^ 32" using i32_bounds [of "ev_unix v"] by (auto simp: time_passed_def GetUnixtime_def)
  then show ?thesis using assms by (simp add: clock_room_def countRelativeTime_def)
qed

lemma open_log:
  assumes d: "vacant d" "db_ready d = None" "db_log d = db_log d1" "db_settings d1 = db_settings d"
    and log: "log_good d1" "db_removing d1 = []" and room: "clock_room v d1" and fine: "ev_log_ok v"
  shows "returns (\<lambda>(opened, d'). opened = OpenSuccess \<and> cache_inv d' \<and> shape d' = shape d1 \<and> db_files d' = db_files d
      \<and> db_settings d' = db_settings d \<and> db_open d' \<and> log_good d' \<and> db_ready d' = None)
    (openBinlog v OpenSuccess False d)"
proof -
  obtain h rs es dr where lg: "header_ok (db_settings d) h" "\<forall>r\<in>set rs. record_ok (db_settings d) r"
    "log_bytes (cs_track_time (db_settings d)) rs = Some es" "db_log d1 = header_bytes h @ es"
    "replay rs (blank (db_settings d) (bh_system_time h)) = Some dr"
    "map_ok dr" "db_settings dr = db_settings d" "tp_relative (db_time dr) \<le> tp_relative (db_time d1)"
    "\<forall>k. db_find k dr = db_find k d1"
    using log d(4) unfolding log_good_def logged_def mirrors_def clock_below_def whole_def by auto
  have s: "settings_ok (db_settings d)" using d(1) by (simp add: vacant_def)
  have len: "length (header_bytes h) = 16" by (simp add: header_bytes_def)
  have "16 dvd length (db_log d)" using log_bytes_dvd [OF s lg(2,3)] len by (simp add: d(3) lg(4))
  then have data: "take (length (db_log d) div 16 * 16) (db_log d) = header_bytes h @ es" by (simp add: d(3) lg(4))
  define e where "e = createCleaner ((snd (read_header (d\<lparr> db_open := True, db_log := header_bytes h @ es, db_offset := 0 \<rparr>)))\<lparr> db_key := True \<rparr>)"
  have head: "read_header (d\<lparr> db_open := True, db_log := header_bytes h @ es, db_offset := 0 \<rparr>)
      = (True, d\<lparr> db_open := True, db_log := header_bytes h @ es, db_time := system_time_point (bh_system_time h), db_offset := kHeadSize \<rparr>)"
    using header_reads [OF lg(1)] by (simp add: read_header_def)
  have fields: "db_settings e = db_settings d" "db_log e = header_bytes h @ es" "db_offset e = kHeadSize"
    "db_time e = system_time_point (bh_system_time h)" "db_open e" "db_files e = db_files d" "db_ready e = db_ready d"
    by (simp_all add: e_def head createCleaner_def pushStatsDelayed_def)
  have vacant: "vacant e"
    using d(1) by (simp add: e_def head createCleaner_def pushStatsDelayed_def vacant_def files_ok_def)
  have run: "openBinlog v OpenSuccess False d = map_option (Pair OpenSuccess) (readBinlog v e)"
    using d(2) len data by (auto simp: openBinlog_def head e_def Let_def)
  have "tp_system (db_time dr) < 2 ^ 32"
    using replay_system [OF blank_map_ok _ lg(5)] lg(1,2) by (simp add: blank_def system_time_point_def header_ok_def)
  then have "returns (\<lambda>d'. cache_inv d' \<and> shape d' = shape dr \<and> db_files d' = db_files e \<and> db_settings d' = db_settings e
    \<and> db_ready d' = db_ready e \<and> countRelativeTime v d' = countRelativeTime v dr
    \<and> (ev_log_ok v \<and> db_open e \<and> countRelativeTime v dr < 2 ^ 64 \<longrightarrow> db_open d' \<and> log_good d')) (readBinlog v e)"
    by (intro readBinlog_replays [OF vacant fields(4,3,2)]) (use lg fields in simp_all)
  moreover have "shape dr = shape d1" using lg(9) by (simp add: shape_def)
  ultimately show ?thesis
    using clock_room_other [OF room lg(8)] fine fields d(2) by (auto simp: run elim!: returns_mono)
qed

lemma new_log:
  assumes d: "vacant d" "db_ready d = None" and empty: "fresh \<or> db_log d = []" and fine: "ev_log_ok v"
  shows "returns (\<lambda>(opened, d'). opened = OpenSuccess \<and> cache_inv d' \<and> shape d' = Map.empty \<and> db_files d' = db_files d
      \<and> db_settings d' = db_settings d \<and> db_open d' \<and> log_good d' \<and> db_ready d' = None
      \<and> countRelativeTime v d' < 2 ^ 33)
    (openBinlog v OpenSuccess fresh d)"
proof -
  let ?timed = "cs_track_time (db_settings d)"
  define now where "now = (if ?timed then nat (GetUnixtime v) else 0)"
  define h where "h = \<lparr>bh_format = 0, bh_flags = (if ?timed then kTrackEstimatedTime else 0), bh_system_time = now\<rparr>"
  define e where "e = createCleaner ((snd (writeHeader v (d\<lparr> db_open := True, db_log := [], db_offset := 0 \<rparr>)))\<lparr> db_key := True \<rparr>)"
  have now: "now < 2 ^ 32" using i32_bounds [of "ev_unix v"] by (auto simp: now_def GetUnixtime_def)
  have fields: "db_settings e = db_settings d" "db_log e = header_bytes h @ []" "db_offset e = kHeadSize"
    "db_time e = system_time_point (bh_system_time h)" "db_open e" "db_files e = db_files d" "db_ready e = None"
    using d(2) fine by (simp_all add: e_def createCleaner_def pushStatsDelayed_def writeHeader_def Let_def h_def now_def)
      (simp_all add: header_bytes_def kHeadSize_def)
  have vacant: "vacant e"
    using d(1) fine by (simp add: e_def createCleaner_def pushStatsDelayed_def writeHeader_def Let_def vacant_def files_ok_def)
  have run: "openBinlog v OpenSuccess fresh d = map_option (Pair OpenSuccess) (readBinlog v e)"
    using d(2) empty fine by (auto simp: openBinlog_def writeHeader_def e_def Let_def)
  have "returns (\<lambda>d'. cache_inv d' \<and> shape d' = shape (blank (db_settings d) now) \<and> db_files d' = db_files e
    \<and> db_settings d' = db_settings e \<and> db_ready d' = db_ready e
    \<and> countRelativeTime v d' = countRelativeTime v (blank (db_settings d) now)
    \<and> (ev_log_ok v \<and> db_open e \<and> countRelativeTime v (blank (db_settings d) now) < 2 ^ 64 \<longrightarrow> db_open d' \<and> log_good d'))
    (readBinlog v e)"
    by (rule readBinlog_replays [OF vacant fields(4,3,2), where rs = "[]"])
      (use now fields in \<open>simp_all add: header_ok_def h_def blank_def system_time_point_def\<close>)
  moreover have "countRelativeTime v (blank (db_settings d) now) < 2 ^ 33"
    using now i32_bounds [of "ev_unix v"]
    by (auto simp: countRelativeTime_def blank_def system_time_point_def time_passed_def GetUnixtime_def)
  moreover have "shape (blank (db_settings d) now) = Map.empty" by (simp add: shape_def blank_def db_find_def fun_eq_iff)
  ultimately show ?thesis using fine fields by (auto simp: run elim!: returns_mono)
qed

definition new_cache :: "cache_settings \<Rightarrow> database \<Rightarrow> bool" where
  "new_cache s d \<longleftrightarrow> cache_inv d \<and> shape d = Map.empty \<and> db_files d = Map.empty \<and> db_settings d = s \<and> db_open d
     \<and> log_good d \<and> db_ready d = None"

lemma write_needed: "openBinlog v opened True d = Some (OpenSuccess, d') \<Longrightarrow> ev_log_ok v"
  by (auto simp: openBinlog_def writeHeader_def Let_def split: if_splits)

lemma openNewBinlog_new:
  assumes d: "vacant d" and run: "openNewBinlog v d = Some (NoError, d')"
  shows "new_cache (db_settings d) d'"
proof -
  define f where "f = d\<lparr> db_files := Map.empty, db_ready := None, db_log := [] \<rparr>"
  have f: "vacant f" "db_ready f = None" "db_files f = Map.empty" "db_settings f = db_settings d"
    using d by (simp_all add: f_def vacant_def files_ok_def)
  have some: "openBinlog v (ev_new_open v) True f = Some (OpenSuccess, d')"
    using run by (auto simp: openNewBinlog_def f_def split: if_splits bind_splits)
  then have "ev_new_open v = OpenSuccess" by (auto simp: openBinlog_def Let_def split: if_splits)
  then show ?thesis
    using some new_log [OF f(1,2) disjI1 [OF TrueI] write_needed [OF some]] f(3,4) by (auto simp: new_cache_def elim!: returnsE)
qed

text \<open>The first time there is no log, or an empty one.\<close>

lemma first_open:
  assumes s: "settings_ok s" and run: "cache_open v (blank s t) = Some (NoError, d)"
  shows "new_cache s d"
proof -
  define b where "b = clearState (blank s t)"
  have b: "vacant b" "db_ready b = None" "db_log b = []" "db_settings b = s" "db_files b = Map.empty"
    using s vacant_clearState [of "blank s t"] by (simp_all add: b_def blank_def files_ok_def) (simp_all add: clearState_def)
  have close: "cache_close v (blank s t) = Some b" by (simp add: cache_close_def b_def blank_def)
  have some: "openSomeBinlog v b = Some (NoError, d)"
    using run by (auto simp: cache_open_def close split: bind_splits if_splits)
  show ?thesis
  proof (cases "ev_log_open v = OpenSuccess \<and> ev_log_ok v")
    case True
    then show ?thesis
      using some new_log [OF b(1,2), of False v] b(3-5) by (auto simp: openSomeBinlog_def new_cache_def elim!: returnsE)
  next
    case False
    have fresh: "vacant f \<and> db_settings f = s" if "openBinlog v (ev_log_open v) False b = Some (opened, f)" for opened f
      using that False b by (auto simp: openBinlog_def writeHeader_def Let_def vacant_def files_ok_def split: if_splits)
    obtain opened f where f: "openBinlog v (ev_log_open v) False b = Some (opened, f)"
      using some by (auto simp: openSomeBinlog_def split: bind_splits)
    have "opened \<noteq> OpenSuccess"
      using f False b by (auto simp: openBinlog_def writeHeader_def Let_def split: if_splits)
    then have "openNewBinlog v f = Some (NoError, d)"
      using some f by (auto simp: openSomeBinlog_def split: open_result.splits if_splits)
    then show ?thesis using openNewBinlog_new [of f v d] fresh [OF f] by simp
  qed
qed

lemma reopen_same:
  assumes d: "cache_inv d" "log_good d" "db_ready d = None" and v: "log_fine v d" "clock_room v d" "ev_log_open v = OpenSuccess"
  shows "returns (\<lambda>(error, d'). error = NoError \<and> cache_inv d' \<and> shape d' = shape d \<and> db_files d' = db_files d
      \<and> db_settings d' = db_settings d \<and> db_open d' \<and> log_good d' \<and> db_ready d' = None)
    (cache_open v d)"
proof -
  obtain c d1 where c: "cache_close v d = Some c" "vacant c" "db_settings c = db_settings d" "db_files c = db_files d"
    "db_ready c = None" "db_log c = db_log d1" "shape d1 = shape d" "log_good d1" "db_removing d1 = []"
    "db_settings d1 = db_settings d" "countRelativeTime v d1 = countRelativeTime v d"
    using close_vacant [OF d(1), of v] d v by (auto elim!: returnsE)
  have "returns (\<lambda>(opened, d'). opened = OpenSuccess \<and> cache_inv d' \<and> shape d' = shape d1 \<and> db_files d' = db_files c
      \<and> db_settings d' = db_settings c \<and> db_open d' \<and> log_good d' \<and> db_ready d' = None)
    (openBinlog v OpenSuccess False c)"
    by (rule open_log) (use c v in \<open>simp_all add: clock_room_def log_fine_def\<close>)
  then show ?thesis
    using c(1,3,4,7) v(3) by (auto simp: cache_open_def openSomeBinlog_def elim!: returnsE)
qed

end
