(* ===== verification/CacheEffects.thy ===== *)
theory CacheEffects imports CacheReopen begin

text \<open>
  What the records of a log do, key by key: a store sets an entry, a removal takes it away, an access
  changes its time. Doing all of a log twice is doing it once, which is why a log can be compacted
  while it grows.
\<close>

section \<open>Effects\<close>

definition stored_entry :: "bool \<Rightarrow> nat \<Rightarrow> store \<Rightarrow> entry" where
  "stored_entry timed c s = \<lparr>ce_time = (if timed then tp_relative (so_time s) else c), ce_size = getSize s,
     ce_checksum = so_checksum s, ce_place = so_place s, ce_tag = so_tag s\<rparr>"

definition effect :: "bool \<Rightarrow> nat \<Rightarrow> cache_key \<Rightarrow> log_record \<Rightarrow> entry option \<Rightarrow> entry option" where
  "effect timed c k r = (case r of
     StoreRecord s \<Rightarrow> (\<lambda>x. if so_key s = k then Some (stored_entry timed c s) else x)
   | MultiStore ss \<Rightarrow> fold (\<lambda>s x. if so_key s = k then Some (stored_entry timed c s) else x) ss
   | MultiRemove ks \<Rightarrow> (\<lambda>x. if k \<in> set ks then None else x)
   | MultiAccess t ks \<Rightarrow> (\<lambda>x. if k \<in> set ks then map_option (\<lambda>e. e\<lparr> ce_time := tp_relative t \<rparr>) x else x))"

definition effects :: "bool \<Rightarrow> nat \<Rightarrow> cache_key \<Rightarrow> log_record list \<Rightarrow> entry option \<Rightarrow> entry option" where
  "effects timed c k = fold (effect timed c k)"

text \<open>The clock of a log with times.\<close>

definition record_clock :: "bool \<Rightarrow> log_record \<Rightarrow> nat \<Rightarrow> nat" where
  "record_clock timed r m = (if \<not> timed then m else case r of
     StoreRecord s \<Rightarrow> max m (tp_relative (so_time s))
   | MultiStore ss \<Rightarrow> fold (\<lambda>s m. max m (tp_relative (so_time s))) ss m
   | MultiRemove ks \<Rightarrow> m
   | MultiAccess t ks \<Rightarrow> max m (tp_relative t))"

lemma record_clock_simps [simp]:
  "record_clock timed (StoreRecord s) m = (if timed then max m (tp_relative (so_time s)) else m)"
  "record_clock timed (MultiStore ss) m = (if timed then fold (\<lambda>s m. max m (tp_relative (so_time s))) ss m else m)"
  "record_clock timed (MultiRemove ks) m = m"
  "record_clock timed (MultiAccess t ks) m = (if timed then max m (tp_relative t) else m)"
  by (simp_all add: record_clock_def)

lemma clock_untimed [simp]: "record_clock False r m = m"
  by (simp add: record_clock_def)

lemma effect_simps [simp]:
  "effect timed c k (StoreRecord s) x = (if so_key s = k then Some (stored_entry timed c s) else x)"
  "effect timed c k (MultiStore ss) x = fold (\<lambda>s. effect timed c k (StoreRecord s)) ss x"
  "effect timed c k (MultiRemove ks) x = (if k \<in> set ks then None else x)"
  "effect timed c k (MultiAccess t ks) x = (if k \<in> set ks then map_option (\<lambda>e. e\<lparr> ce_time := tp_relative t \<rparr>) x else x)"
  by (simp_all add: effect_def)

definition store_fits :: "cache_settings \<Rightarrow> store \<Rightarrow> bool" where
  "store_fits s st \<longleftrightarrow> store_ok (cs_track_time s) st \<and> 0 < getSize st \<and> getSize st \<le> cs_max_data_size s"

definition record_fits :: "cache_settings \<Rightarrow> log_record \<Rightarrow> bool" where
  "record_fits s r \<longleftrightarrow> (case r of
     StoreRecord st \<Rightarrow> store_fits s st
   | MultiStore ss \<Rightarrow> \<forall>st\<in>set ss. store_fits s st
   | MultiRemove ks \<Rightarrow> True
   | MultiAccess t ks \<Rightarrow> cs_track_time s)"

text \<open>A function of one of three kinds, which any sequence of records is for a key.\<close>

definition plain_effect :: "(entry option \<Rightarrow> entry option) \<Rightarrow> bool" where
  "plain_effect f \<longleftrightarrow> f = id \<or> (\<exists>y. f = (\<lambda>_. y)) \<or> (\<exists>t. f = map_option (\<lambda>e. e\<lparr> ce_time := t \<rparr>))"

lemma touch_twice:
  "(\<lambda>x. map_option (\<lambda>e. e\<lparr> ce_time := t \<rparr>) (map_option (\<lambda>e. e\<lparr> ce_time := u \<rparr>) x)) = map_option (\<lambda>e. e\<lparr> ce_time := t \<rparr>)"
  by (rule ext) (simp add: option.map_comp comp_def)

lemma plain_comp: "plain_effect f \<Longrightarrow> plain_effect g \<Longrightarrow> plain_effect (\<lambda>x. g (f x))"
  unfolding plain_effect_def by (elim disjE exE) (auto simp: touch_twice simp flip: id_def)

lemma plain_twice: "plain_effect f \<Longrightarrow> f (f x) = f x"
  by (auto simp: plain_effect_def option.map_comp comp_def)

lemma plain_id: "plain_effect id" "plain_effect (\<lambda>x. x)" "plain_effect (\<lambda>_. y)" "plain_effect (map_option (\<lambda>e. e\<lparr> ce_time := t \<rparr>))"
  by (auto simp: plain_effect_def id_def)

lemma plain_if: "plain_effect f \<Longrightarrow> plain_effect (\<lambda>x. if b then f x else x)" "plain_effect (\<lambda>x. if b then y else x)"
  by (cases b; simp add: plain_id)+

lemma plain_fold: "(\<And>r. r \<in> set rs \<Longrightarrow> plain_effect (f r)) \<Longrightarrow> plain_effect (fold f rs)"
proof (induction rs)
  case (Cons r rs)
  then show ?case using plain_comp [of "f r" "fold f rs"] by (simp add: comp_def)
qed (simp add: plain_id)

lemma plain_effects: "plain_effect (effects timed c k rs)"
proof -
  have "plain_effect (effect timed c k r)" for r
    by (cases r) (auto simp: effect_def intro!: plain_fold plain_if plain_id simp del: if_split)
  then show ?thesis unfolding effects_def by (rule plain_fold)
qed

lemma effects_twice: "effects timed c k rs (effects timed c k rs x) = effects timed c k rs x"
  by (rule plain_twice [OF plain_effects])

lemma effects_append: "effects timed c k (rs @ ss) x = effects timed c k ss (effects timed c k rs x)"
  by (simp add: effects_def)

section \<open>Replaying\<close>

text \<open>What a record does to a state.\<close>

definition did :: "log_record \<Rightarrow> database \<Rightarrow> database \<Rightarrow> bool" where
  "did r a a' \<longleftrightarrow> map_ok a' \<and> db_settings a' = db_settings a
     \<and> (\<forall>k. db_find k a' = effect (cs_track_time (db_settings a)) (tp_relative (db_time a)) k r (db_find k a))
     \<and> tp_relative (db_time a') = record_clock (cs_track_time (db_settings a)) r (tp_relative (db_time a))"

lemma apply_relative: "tp_relative (db_time (applyTimePoint t d)) = max (tp_relative (db_time d)) (tp_relative t)"
  by (simp add: applyTimePoint_def)

lemma store_did:
  assumes "map_ok a" "store_fits (db_settings a) s"
  shows "returns (\<lambda>(ok, a'). ok \<and> did (StoreRecord s) a a') (processRecordStore s a)"
proof -
  have "0 < getSize s" "getSize s \<le> cs_max_data_size (db_settings a)" "length (so_place s) = 7"
    using assms(2) by (simp_all add: store_fits_def store_ok_def)
  then obtain a' where a': "processRecordStore s a = Some (True, a')" "map_ok a'"
    "db_map a' = AList.update (so_key s) (store_entry s a) (db_map a)" "same_rest (store_clock s a) a'"
    using processRecordStore_keeps [OF assms(1), of s] by (auto elim!: returnsE)
  have "store_entry s a = stored_entry (cs_track_time (db_settings a)) (tp_relative (db_time a)) s"
    by (simp add: store_entry_def stored_entry_def)
  moreover have "tp_relative (db_time (store_clock s a)) = record_clock (cs_track_time (db_settings a)) (StoreRecord s) (tp_relative (db_time a))"
    by (simp add: store_clock_def apply_relative)
  ultimately have "did (StoreRecord s) a a'"
    using a' same_restD(1,9) [OF a'(4)] by (auto simp: did_def db_find_def update_conv')
  then show ?thesis using a'(1) by simp
qed

lemma effect_untimed: "timed \<or> c = c' \<Longrightarrow> effect timed c k = effect timed c' k"
  by (auto simp: effect_def stored_entry_def fun_eq_iff split: log_record.splits)

lemma did_trans:
  assumes "did q a a1" "did r a1 a2"
  shows "map_ok a2 \<and> db_settings a2 = db_settings a
    \<and> (\<forall>k. db_find k a2 = effect (cs_track_time (db_settings a)) (tp_relative (db_time a)) k r
        (effect (cs_track_time (db_settings a)) (tp_relative (db_time a)) k q (db_find k a)))
    \<and> tp_relative (db_time a2) = record_clock (cs_track_time (db_settings a)) r
        (record_clock (cs_track_time (db_settings a)) q (tp_relative (db_time a)))"
proof -
  have "cs_track_time (db_settings a) \<or> tp_relative (db_time a1) = tp_relative (db_time a)"
    using assms(1) by (cases "cs_track_time (db_settings a)") (auto simp: did_def)
  from effect_untimed [OF this] show ?thesis using assms by (simp add: did_def)
qed

lemma stores_did:
  assumes "map_ok a" "\<forall>s\<in>set ss. store_fits (db_settings a) s"
  shows "returns (\<lambda>(ok, a'). ok \<and> did (MultiStore ss) a a') (processRecordMultiStore ss a)"
  using assms
proof (induction ss arbitrary: a)
  case Nil
  then show ?case by (simp add: did_def)
next
  case (Cons s ss)
  obtain a1 where a1: "processRecordStore s a = Some (True, a1)" "did (StoreRecord s) a a1"
    using store_did [of a s] Cons.prems by (auto elim!: returnsE)
  have eq: "db_settings a1 = db_settings a" "map_ok a1" using a1(2) by (simp_all add: did_def)
  obtain a2 where a2: "processRecordMultiStore ss a1 = Some (True, a2)" "did (MultiStore ss) a1 a2"
    using Cons.IH [of a1] Cons.prems(2) eq by (auto elim!: returnsE)
  have "did (MultiStore (s # ss)) a a2"
    using did_trans [OF a1(2) a2(2)] by (auto simp: did_def)
  then show ?case using a1(1) a2(1) by simp
qed

lemma record_did:
  assumes "map_ok a" "record_fits (db_settings a) r"
  shows "returns (\<lambda>(ok, a'). ok \<and> did r a a') (process_record r a)"
proof (cases r)
  case (StoreRecord s)
  then show ?thesis using store_did [OF assms(1)] assms(2) by (simp add: process_record_def record_fits_def)
next
  case (MultiStore ss)
  then have "\<forall>s\<in>set ss. store_fits (db_settings a) s" using assms(2) by (simp add: record_fits_def)
  from stores_did [OF assms(1) this] MultiStore show ?thesis by (simp add: process_record_def)
next
  case (MultiRemove ks)
  obtain a' where a': "processRecordMultiRemove ks a = Some (True, a')" "map_ok a'"
    "map_of (db_map a') = (\<lambda>k. if k \<in> set ks then None else map_of (db_map a) k)" "same_rest a a'"
    using processRecordMultiRemove_keeps [OF assms(1), of ks] by (auto elim!: returnsE)
  then show ?thesis using MultiRemove same_restD(1,9) [OF a'(4)]
    by (simp add: process_record_def did_def db_find_def)
next
  case (MultiAccess t ks)
  then have timed: "cs_track_time (db_settings a)" using assms(2) by (simp add: record_fits_def)
  obtain a' where a': "processRecordMultiAccess t ks a = Some (True, a')" "map_ok a'"
    "db_map a' = fold (touch (tp_relative t)) ks (db_map a)" "same_rest (applyTimePoint t a) a'"
    using processRecordMultiAccess_keeps [OF assms(1) timed, of t ks] by (auto elim!: returnsE)
  have "db_settings (applyTimePoint t a) = db_settings a" by (simp add: applyTimePoint_def)
  then show ?thesis using MultiAccess a' timed same_restD(1,9) [OF a'(4)]
    by (simp add: process_record_def did_def db_find_def map_of_touches apply_relative)
qed

text \<open>What a log does.\<close>

definition did_all :: "log_record list \<Rightarrow> database \<Rightarrow> database \<Rightarrow> bool" where
  "did_all rs a a' \<longleftrightarrow> map_ok a' \<and> db_settings a' = db_settings a
     \<and> (\<forall>k. db_find k a' = effects (cs_track_time (db_settings a)) (tp_relative (db_time a)) k rs (db_find k a))
     \<and> tp_relative (db_time a') = fold (record_clock (cs_track_time (db_settings a))) rs (tp_relative (db_time a))"

lemma replay_did:
  assumes "map_ok a" "\<forall>r\<in>set rs. record_fits (db_settings a) r"
  shows "\<exists>a'. replay rs a = Some a' \<and> did_all rs a a'"
  using assms
proof (induction rs arbitrary: a)
  case Nil
  then show ?case by (simp add: did_all_def effects_def)
next
  case (Cons r rs)
  obtain a1 where a1: "process_record r a = Some (True, a1)" "did r a a1"
    using record_did [of a r] Cons.prems by (auto elim!: returnsE)
  have eq: "db_settings a1 = db_settings a" "map_ok a1"
    "\<not> cs_track_time (db_settings a) \<Longrightarrow> tp_relative (db_time a1) = tp_relative (db_time a)"
    using a1(2) by (simp_all add: did_def)
  obtain a2 where a2: "replay rs a1 = Some a2" "did_all rs a1 a2" using Cons.IH [of a1] Cons.prems(2) eq by auto
  have "effects (cs_track_time (db_settings a)) (tp_relative (db_time a1)) k = effects (cs_track_time (db_settings a)) (tp_relative (db_time a)) k" for k
    unfolding effects_def by (rule arg_cong [of _ _ fold], rule effect_untimed) (use eq(3) in blast)
  then have "did_all (r # rs) a a2"
    using a1(2) a2(2) by (simp add: did_all_def did_def eq(1)) (simp add: effects_def)
  then show ?case using a1(1) a2(1) by simp
qed

text \<open>Only what fits is replayed.\<close>

lemma store_process_fits: "store_ok (cs_track_time (db_settings a)) s \<Longrightarrow> processRecordStore s a = Some (True, a') \<Longrightarrow> store_fits (db_settings a) s"
  by (auto simp: processRecordStore_def store_fits_def Let_def split: if_splits)

lemma stores_process_fits:
  "map_ok a \<Longrightarrow> \<forall>s\<in>set ss. store_ok (cs_track_time (db_settings a)) s \<Longrightarrow> processRecordMultiStore ss a = Some (True, a')
    \<Longrightarrow> \<forall>s\<in>set ss. store_fits (db_settings a) s"
proof (induction ss arbitrary: a)
  case (Cons s ss)
  obtain a1 where a1: "processRecordStore s a = Some (True, a1)" "processRecordMultiStore ss a1 = Some (True, a')"
    using Cons.prems(3) by (auto split: bind_splits if_splits)
  have fits: "store_fits (db_settings a) s" using store_process_fits [OF _ a1(1)] Cons.prems(2) by simp
  then have "did (StoreRecord s) a a1" using store_did [OF Cons.prems(1), of s] a1(1) by (auto elim!: returnsE)
  then show ?case using Cons.IH [OF _ _ a1(2)] Cons.prems(2) fits by (simp add: did_def)
qed simp

lemma process_fits:
  assumes "map_ok a" "record_ok (db_settings a) r" "process_record r a = Some (True, a')"
  shows "record_fits (db_settings a) r"
proof (cases r)
  case (StoreRecord s)
  then show ?thesis using store_process_fits [of a s a'] assms by (simp add: record_ok_def record_fits_def process_record_def)
next
  case (MultiStore ss)
  then have "\<forall>s\<in>set ss. store_ok (cs_track_time (db_settings a)) s" "processRecordMultiStore ss a = Some (True, a')"
    using assms(2,3) by (simp_all add: record_ok_def process_record_def)
  from stores_process_fits [OF assms(1) this] MultiStore show ?thesis by (simp add: record_fits_def)
qed (use assms(2) in \<open>simp_all add: record_ok_def record_fits_def\<close>)

lemma replay_fits:
  assumes "map_ok a" "\<forall>r\<in>set rs. record_ok (db_settings a) r" "replay rs a = Some a'"
  shows "\<forall>r\<in>set rs. record_fits (db_settings a) r"
  using assms
proof (induction rs arbitrary: a)
  case (Cons r rs)
  obtain a1 where a1: "process_record r a = Some (True, a1)" "replay rs a1 = Some a'"
    using Cons.prems(3) by (auto split: bind_splits if_splits)
  have fits: "record_fits (db_settings a) r" using process_fits [OF Cons.prems(1) _ a1(1)] Cons.prems(2) by simp
  then have "did r a a1" using record_did [OF Cons.prems(1), of r] a1(1) by (auto elim!: returnsE)
  then show ?case using Cons.IH [OF _ _ a1(2)] Cons.prems(2) fits by (simp add: did_def)
qed simp

section \<open>Entries\<close>

lemma record_clock_below: "record_clock timed r m \<le> T \<longleftrightarrow> m \<le> T \<and> record_clock timed r 0 \<le> T"
proof -
  have "fold (\<lambda>s m. max m (f s)) ss m \<le> T \<longleftrightarrow> m \<le> T \<and> (\<forall>s\<in>set ss. f s \<le> T)" for ss :: "store list" and f :: "store \<Rightarrow> nat" and m
    by (induction ss arbitrary: m) auto
  then show ?thesis by (cases r) (auto simp: record_clock_def)
qed

lemma clocks_below: "fold (record_clock timed) rs m \<le> T \<longleftrightarrow> m \<le> T \<and> (\<forall>r\<in>set rs. record_clock timed r 0 \<le> T)"
proof (induction rs arbitrary: m)
  case (Cons r rs)
  then show ?case using Cons.IH [of "record_clock timed r m"] record_clock_below [of timed r m T] by (simp only: fold_Cons comp_apply list.set) blast
qed simp

text \<open>An entry that records put into the map at the time \<open>T\<close> or before.\<close>

definition entry_fits :: "cache_settings \<Rightarrow> nat \<Rightarrow> nat \<Rightarrow> entry \<Rightarrow> bool" where
  "entry_fits s c T e \<longleftrightarrow> 0 < ce_size e \<and> ce_size e \<le> cs_max_data_size s \<and> length (ce_place e) = 7
     \<and> (if cs_track_time s then ce_time e \<le> T \<and> ce_time e < 2 ^ 64 else ce_time e = c)"

definition entries_fit :: "cache_settings \<Rightarrow> nat \<Rightarrow> nat \<Rightarrow> entry option \<Rightarrow> bool" where
  "entries_fit s c T x \<longleftrightarrow> (\<forall>e. x = Some e \<longrightarrow> entry_fits s c T e)"

lemma stored_entry_fits:
  "store_fits s st \<Longrightarrow> (cs_track_time s \<longrightarrow> tp_relative (so_time st) \<le> T) \<Longrightarrow> entry_fits s c T (stored_entry (cs_track_time s) c st)"
  by (auto simp: entry_fits_def stored_entry_def store_fits_def store_ok_def time_ok_def)

lemma effect_fits:
  assumes "record_ok s r" "record_fits s r" "record_clock (cs_track_time s) r 0 \<le> T" "entries_fit s c T x"
  shows "entries_fit s c T (effect (cs_track_time s) c k r x)"
proof (cases r)
  case (StoreRecord st)
  then show ?thesis using assms stored_entry_fits [of s st T c] by (auto simp: entries_fit_def record_fits_def split: if_splits)
next
  case (MultiStore ss)
  have "\<forall>st\<in>set ss. store_fits s st" using assms(2) MultiStore by (simp add: record_fits_def)
  moreover have "fold (\<lambda>s m. max m (tp_relative (so_time s))) ss m \<le> T \<longleftrightarrow> m \<le> T \<and> (\<forall>s\<in>set ss. tp_relative (so_time s) \<le> T)" for m
    by (induction ss arbitrary: m) auto
  then have "\<forall>st\<in>set ss. cs_track_time s \<longrightarrow> tp_relative (so_time st) \<le> T" using assms(3) MultiStore by auto
  ultimately have "entries_fit s c T (fold (\<lambda>st. effect (cs_track_time s) c k (StoreRecord st)) ss x)"
    using assms(4)
  proof (induction ss arbitrary: x)
    case (Cons st ss)
    then have "entries_fit s c T (effect (cs_track_time s) c k (StoreRecord st) x)"
      using stored_entry_fits [of s st T c] by (auto simp: entries_fit_def)
    then show ?case using Cons by simp
  qed simp
  then show ?thesis using MultiStore by simp
next
  case (MultiRemove ks)
  then show ?thesis using assms(4) by (simp add: entries_fit_def)
next
  case (MultiAccess t ks)
  then show ?thesis using assms by (auto simp: entries_fit_def entry_fits_def record_ok_def time_ok_def split: if_splits)
qed

lemma effects_fit:
  assumes "\<forall>r\<in>set rs. record_ok s r \<and> record_fits s r \<and> record_clock (cs_track_time s) r 0 \<le> T" "entries_fit s c T x"
  shows "entries_fit s c T (effects (cs_track_time s) c k rs x)"
  using assms
proof (induction rs arbitrary: x)
  case (Cons r rs)
  then show ?case using effect_fits [of s r T c x k] by (simp add: effects_def)
qed (simp add: effects_def)

section \<open>What the log says of a key\<close>

definition holds :: "log_view \<Rightarrow> log_record list \<Rightarrow> database \<Rightarrow> bool" where
  "holds V rs d \<longleftrightarrow> fold (record_clock (cs_track_time (db_settings d))) (lv_prefix V @ rs) (lv_start V) \<le> tp_relative (db_time d)
     \<and> (\<not> cs_track_time (db_settings d) \<longrightarrow> lv_start V = tp_relative (db_time d))
     \<and> (\<forall>k. k \<notin> lv_skip V \<longrightarrow> k \<notin> set (db_removing d) \<or> db_find k d \<noteq> None \<longrightarrow>
          effects (cs_track_time (db_settings d)) (lv_start V) k (lv_prefix V @ rs) None = db_find k d)"

lemma clocks_untimed: "fold (record_clock False) rs m = m"
  by (induction rs) simp_all

lemma mirrors_holds:
  assumes "did_all (lv_prefix V @ rs) (blank (db_settings d) (lv_start V)) dr"
  shows "mirrors V {} d dr \<longleftrightarrow> holds V rs d"
proof -
  have "db_find k (blank s t) = None" "tp_relative (db_time (blank s t)) = t" "db_settings (blank s t) = s" for k s t
    by (simp_all add: blank_def db_find_def system_time_point_def)
  then show ?thesis
    using assms by (auto simp: did_all_def mirrors_def holds_def clock_below_def clocks_untimed)
qed

lemma logged_holds:
  assumes "\<forall>r\<in>set (lv_prefix V). record_ok (db_settings d) r"
  shows "logged V {} d \<longleftrightarrow> (\<exists>rs es. (\<forall>r\<in>set rs. record_ok (db_settings d) r)
     \<and> log_bytes (cs_track_time (db_settings d)) rs = Some es \<and> db_log d = lv_base V @ es \<and> db_offset d = length (db_log d)
     \<and> (\<forall>r\<in>set (lv_prefix V @ rs). record_fits (db_settings d) r) \<and> holds V rs d \<and> (lv_marks V \<longrightarrow> marked V rs d))"
    (is "?l \<longleftrightarrow> ?r")
proof
  let ?b = "blank (db_settings d) (lv_start V)"
  have blank: "map_ok ?b" "db_settings ?b = db_settings d" by (rule blank_map_ok) (simp add: blank_def)
  show ?r if ?l
  proof -
    obtain rs es dr where lg: "\<forall>r\<in>set rs. record_ok (db_settings d) r"
      "log_bytes (cs_track_time (db_settings d)) rs = Some es" "db_log d = lv_base V @ es"
      "db_offset d = length (db_log d)" "replay (lv_prefix V @ rs) ?b = Some dr"
      "mirrors V {} d dr" "lv_marks V \<longrightarrow> marked V rs d"
      using \<open>?l\<close> unfolding logged_def by blast
    have fits: "\<forall>r\<in>set (lv_prefix V @ rs). record_fits (db_settings d) r"
      using replay_fits [OF blank(1) _ lg(5)] assms lg(1) blank(2) by auto
    obtain dr' where "replay (lv_prefix V @ rs) ?b = Some dr'" "did_all (lv_prefix V @ rs) ?b dr'"
      using replay_did [OF blank(1), of "lv_prefix V @ rs"] fits blank(2) by auto
    then have "holds V rs d" using mirrors_holds [of V rs d dr] lg(5,6) by simp
    then show ?r using lg fits by blast
  qed
  show ?l if r: ?r
  proof -
    obtain rs es where lg: "\<forall>r\<in>set rs. record_ok (db_settings d) r"
      "log_bytes (cs_track_time (db_settings d)) rs = Some es" "db_log d = lv_base V @ es" "db_offset d = length (db_log d)"
      "\<forall>r\<in>set (lv_prefix V @ rs). record_fits (db_settings d) r" "holds V rs d" "lv_marks V \<longrightarrow> marked V rs d"
      using r by blast
    obtain dr where "replay (lv_prefix V @ rs) ?b = Some dr" "did_all (lv_prefix V @ rs) ?b dr"
      using replay_did [OF blank(1), of "lv_prefix V @ rs"] lg(5) blank(2) by auto
    then show ?l using lg mirrors_holds [of V rs d dr] unfolding logged_def by blast
  qed
qed

end
