(* ===== verification/CacheCompactor.thy ===== *)
theory CacheCompactor imports CacheDatabase begin

text \<open>
  The compactor of the cache (\<^verbatim>\<open>lib_storage/storage/cache/storage_cache_compactor\<close>): an
  object on a thread of its own that writes a shorter log. It reads the log as far as it went when it
  was started, asks the database for the entries of the keys it finds, writes a record for each that
  there is, and then copies what was written to the log since, until the database can do the rest.
  The log is the bytes of its file at the time it is read; a call it posts to the database is an entry
  of \<open>cp_calls\<close>. \<open>None\<close> is a failed \<^verbatim>\<open>Assert\<close> or
  \<^verbatim>\<open>Expects\<close>.
\<close>

section \<open>State\<close>

datatype compactor_call = CallFail | CallGetManyRaw "cache_key list" | CallDone nat

datatype compactor_phase = CompactReading | CompactFinalizing

record compactor =
  cp_settings :: cache_settings
  cp_info :: compactor_info
  cp_header :: basic_header
  cp_log_open :: bool
  cp_reader :: binlog_reader
  cp_file_open :: bool
  cp_file :: bytes
  cp_written :: "cache_key set"
  cp_list :: "store list"
  cp_phase :: compactor_phase
  cp_from :: nat
  cp_last :: int
  cp_calls :: "compactor_call list"

text \<open>What its files answer: a write succeeds or not by the position it is made at.\<close>

record compactor_files =
  cf_log :: open_result
  cf_new :: open_result
  cf_write :: "nat \<Rightarrow> bool"
  cf_copy :: bool

definition compactor_new :: "cache_settings \<Rightarrow> compactor_info \<Rightarrow> compactor" where
  "compactor_new s info = \<lparr>cp_settings = s, cp_info = info,
     cp_header = \<lparr>bh_format = 0, bh_flags = 0, bh_system_time = 0\<rparr>, cp_log_open = False,
     cp_reader = reader_new [] 0 (ci_till info), cp_file_open = False, cp_file = [], cp_written = {}, cp_list = [],
     cp_phase = CompactReading, cp_from = 0, cp_last = 0, cp_calls = []\<rparr>"

definition compact_call :: "compactor_call \<Rightarrow> compactor \<Rightarrow> compactor" where
  "compact_call call c = c\<lparr> cp_calls := cp_calls c @ [call] \<rparr>"

definition compact_fail :: "compactor \<Rightarrow> compactor" where
  "compact_fail c = compact_call CallFail (c\<lparr> cp_file_open := False, cp_file := [] \<rparr>)"

definition compact_write :: "compactor_files \<Rightarrow> bytes \<Rightarrow> compactor \<Rightarrow> bool \<times> compactor" where
  "compact_write f e c =
     (if cp_file_open c \<and> cf_write f (length (cp_file c)) then (True, c\<lparr> cp_file := cp_file c @ e \<rparr>) else (False, c))"

section \<open>The list\<close>

text \<open>The time of an entry is joined with the system time the compaction was started at.\<close>

definition compact_record :: "compactor \<Rightarrow> cache_key \<Rightarrow> entry \<Rightarrow> store option" where
  "compact_record c k e =
     setSize (ce_size e) \<lparr>so_tag = ce_tag e, so_size = [], so_place = ce_place e, so_checksum = ce_checksum e, so_key = k,
       so_time = (if cs_track_time (cp_settings c)
         then \<lparr>tp_relative = ce_time e, tp_system = ci_system_time (cp_info c)\<rparr> else \<lparr>tp_relative = 0, tp_system = 0\<rparr>)\<rparr>"

definition compact_addListRecord :: "cache_key \<times> entry \<Rightarrow> compactor \<Rightarrow> compactor option" where
  "compact_addListRecord raw c = (case raw of (k, e) \<Rightarrow>
     if k \<in> cp_written c then Some c
     else map_option (\<lambda>s. c\<lparr> cp_written := insert k (cp_written c), cp_list := cp_list c @ [s] \<rparr>) (compact_record c k e))"

text \<open>Until there are \<^verbatim>\<open>_partSize\<close> records in it, the number that fits into one.\<close>

fun compact_fillList :: "(cache_key \<times> entry) list \<Rightarrow> compactor \<Rightarrow> ((cache_key \<times> entry) list \<times> compactor) option" where
  "compact_fillList [] c = Some ([], c)"
| "compact_fillList (raw # values) c =
     (if length (cp_list c) = cs_max_bundled (cp_settings c) then Some (raw # values, c)
      else do { c \<leftarrow> compact_addListRecord raw c; compact_fillList values c })"

text \<open>Two writes, the head of the record and its parts; the list is empty after them.\<close>

definition compact_writeList :: "compactor_files \<Rightarrow> compactor \<Rightarrow> (bool \<times> compactor) option" where
  "compact_writeList f c =
     (if cp_list c = [] then Some (True, c)
      else do {
        head \<leftarrow> head_bytes 2 (length (cp_list c)) (replicate 12 0);
        let parts = concat (map (store_bytes (cs_track_time (cp_settings c))) (cp_list c));
        let (ok1, c) = compact_write f head (c\<lparr> cp_list := [] \<rparr>);
        let (ok2, c) = (if ok1 then compact_write f parts c else (False, c));
        Some (ok2, c) })"

section \<open>Reading\<close>

primrec stored_keys :: "log_record \<Rightarrow> cache_key list" where
  "stored_keys (StoreRecord s) = [so_key s]"
| "stored_keys (MultiStore ss) = map so_key ss"
| "stored_keys (MultiRemove ks) = []"
| "stored_keys (MultiAccess t ks) = []"

definition push_keys :: "log_record \<Rightarrow> cache_key list \<Rightarrow> bool \<times> cache_key list" where
  "push_keys r keys = (True, keys @ stored_keys r)"

lemma read_loop_keeps:
  "read_loop s h rd st = (done_reading, rd', st') \<Longrightarrow> \<not> done_reading \<Longrightarrow> br_offset rd' = br_offset rd \<and> br_till rd' = br_till rd
    \<or> br_finished rd'"
proof (induction s h rd st arbitrary: done_reading rd' st' rule: read_loop.induct)
  case (1 s h rd st)
  obtain data rd1 where rd1: "readRecord s rd = (data, rd1)" by force
  have keep: "br_offset rd1 = br_offset rd \<and> br_till rd1 = br_till rd \<or> br_finished rd1 \<and> data = None"
    using rd1 by (auto simp: readRecord_def Let_def split: if_splits)
  show ?case
  proof (cases data)
    case None
    then show ?thesis using 1(2,3) rd1 keep by (auto simp: read_loop.simps [of s h rd])
  next
    case (Some d)
    obtain ok st1 where h: "h (record_read (cs_track_time s) d) st = (ok, st1)" by force
    have ok: ok using 1(2,3) rd1 Some h by (auto simp: read_loop.simps [of s h rd] split: bool.splits)
    then have "read_loop s h rd1 st1 = (done_reading, rd', st')"
      using 1(2) rd1 Some h by (simp add: read_loop.simps [of s h rd])
    then show ?thesis using 1(1) [OF rd1 [symmetric] Some h [symmetric]] ok 1(3) keep Some by auto
  qed
qed

lemma readTillEnd_advances:
  assumes "readTillEnd s h rd st = Some (False, rd', st')"
  shows "\<not> br_finished rd \<and> (br_finished rd' \<or> br_till rd' - br_offset rd' < br_till rd - br_offset rd)"
proof -
  obtain rd1 where rd1: "readPart s rd = Some (True, rd1)" "read_loop s h rd1 st = (False, rd', st')"
    using assms by (auto simp: readTillEnd_def simp del: read_loop.simps split: bind_splits if_splits)
  have "\<not> br_finished rd \<and> br_till rd1 = br_till rd \<and> br_offset rd < br_offset rd1 \<and> br_offset rd < br_till rd"
  proof -
    define left where "left = int (br_till rd) - int (br_offset rd)"
    define amount where "amount = min left (int (cs_read_block s) - int (length (br_part rd)))"
    obtain got where got: "\<not> br_finished rd" "0 < amount" "got \<noteq> []"
      "rd1 = rd\<lparr> br_part := br_part rd @ got, br_offset := br_offset rd + length got \<rparr>"
      using rd1(1) by (simp add: readPart_def flip: left_def amount_def split: if_splits bind_splits)
    moreover have "amount \<le> left" by (simp add: amount_def)
    ultimately show ?thesis by (simp add: left_def)
  qed
  then show ?thesis using read_loop_keeps [OF rd1(2)] by auto
qed

text \<open>Block after block, until there are keys enough or the end.\<close>

function readChunk :: "cache_settings \<Rightarrow> binlog_reader \<Rightarrow> cache_key list \<Rightarrow> (cache_key list \<times> binlog_reader) option" where
  "readChunk s rd keys =
     (if cs_compact_chunk s \<le> length keys then Some (keys, rd)
      else (case readTillEnd s push_keys rd keys of
          None \<Rightarrow> None
        | Some (True, rd, keys) \<Rightarrow> Some (keys, rd)
        | Some (False, rd, keys) \<Rightarrow> readChunk s rd keys))"
  by pat_completeness auto
termination
  by (relation "measure (\<lambda>(s, rd, keys). if br_finished rd then 0 else Suc (br_till rd - br_offset rd))")
    (auto dest: readTillEnd_advances)

section \<open>The end of the log\<close>

definition compact_finish :: "compactor_files \<Rightarrow> compactor \<Rightarrow> compactor option" where
  "compact_finish f c = do {
     (ok, c) \<leftarrow> compact_writeList f c;
     Some (if ok then c\<lparr> cp_log_open := False, cp_file_open := False, cp_phase := CompactFinalizing,
         cp_from := ci_till (cp_info c), cp_last := 0 \<rparr>
       else compact_fail c) }"

text \<open>One turn of the loop of \<^verbatim>\<open>finalize\<close>; the database may write between two of
  them. \<^verbatim>\<open>lastCatchUp\<close> is an \<^verbatim>\<open>int\<close>.\<close>

definition compact_turn :: "compactor_files \<Rightarrow> bytes \<Rightarrow> compactor \<Rightarrow> compactor" where
  "compact_turn f log c =
     (case CatchUp (cf_copy f) (cp_file c) log (cp_from c) (cs_read_block (cp_settings c)) of
        None \<Rightarrow> compact_fail c
      | Some (till, file) \<Rightarrow>
          let c = c\<lparr> cp_file := file \<rparr>; more = int till - int (cp_from c) in
          if till = 0 then compact_fail c
          else if till = cp_from c \<or> 0 < cp_last c \<and> cp_last c \<le> more then compact_call (CallDone till) c
          else c\<lparr> cp_last := i32 more, cp_from := till \<rparr>)"

section \<open>Chunks\<close>

text \<open>A log that could not be opened gives no keys.\<close>

definition compact_parseChunk :: "compactor_files \<Rightarrow> bytes \<Rightarrow> compactor \<Rightarrow> compactor option" where
  "compact_parseChunk f log c = do {
     (keys, rd) \<leftarrow> (if cp_log_open c then readChunk (cp_settings c) ((cp_reader c)\<lparr> br_data := log \<rparr>) []
       else Some ([], cp_reader c));
     let c = c\<lparr> cp_reader := rd \<rparr>;
     if br_failed rd then Some (compact_fail c)
     else if keys = [] then compact_finish f c
     else Some (compact_call (CallGetManyRaw keys) c) }"

partial_function (option) compact_fillLists :: "compactor_files \<Rightarrow> (cache_key \<times> entry) list \<Rightarrow> compactor
    \<Rightarrow> (bool \<times> compactor) option" where
  "compact_fillLists f values c = do {
     (left, c) \<leftarrow> compact_fillList values c;
     if left = [] then Some (True, c)
     else do {
       (ok, c) \<leftarrow> compact_writeList f c;
       if ok then compact_fillLists f left c else Some (False, c) } }"

declare compact_fillLists.simps [code]

definition compact_processValues :: "compactor_files \<Rightarrow> bytes \<Rightarrow> (cache_key \<times> entry) list \<Rightarrow> compactor \<Rightarrow> compactor option" where
  "compact_processValues f log values c = do {
     (ok, c) \<leftarrow> compact_fillLists f values c;
     if ok then compact_parseChunk f log c else Some (compact_fail c) }"

section \<open>Start\<close>

definition compact_openBinlog :: "compactor_files \<Rightarrow> bytes \<Rightarrow> compactor \<Rightarrow> bool \<times> compactor" where
  "compact_openBinlog f log c =
     (if cf_log f \<noteq> OpenSuccess then (False, c)
      else (ci_till (cp_info c) \<le> length log div 16 * 16, c\<lparr> cp_log_open := True \<rparr>))"

definition compact_readHeader :: "bytes \<Rightarrow> compactor \<Rightarrow> bool \<times> compactor" where
  "compact_readHeader log c =
     (let c' = c\<lparr> cp_reader := (cp_reader c)\<lparr> br_offset := (if length log < kHeadSize then 0 else kHeadSize) \<rparr> \<rparr> in
      case ReadHeader (cp_settings c) log 0 of None \<Rightarrow> (False, c') | Some h \<Rightarrow> (True, c'\<lparr> cp_header := h \<rparr>))"

definition compact_openCompact :: "compactor_files \<Rightarrow> compactor \<Rightarrow> bool \<times> compactor" where
  "compact_openCompact f c =
     (if cf_new f \<noteq> OpenSuccess then (False, c)
      else compact_write f (header_bytes (cp_header c)) (c\<lparr> cp_file_open := True, cp_file := [] \<rparr>))"

text \<open>A failure is reported, and the log is read all the same.\<close>

definition compact_start :: "compactor_files \<Rightarrow> bytes \<Rightarrow> compactor \<Rightarrow> compactor option" where
  "compact_start f log c =
     (if cs_compact_chunk (cp_settings c) = 0 then None
      else
        let (ok, c) = compact_openBinlog f log c;
            (ok, c) = (if ok then compact_readHeader log c else (False, c));
            (ok, c) = (if ok then compact_openCompact f c else (False, c)) in
        compact_parseChunk f log ((if ok then c else compact_fail c)\<lparr> cp_list := [] \<rparr>))"

section \<open>The compactor and the database\<close>

text \<open>What the database knows of: no compactor, or one that is started next; one at work or that
  waits for a call to be answered; the answer to its question. Each has a queue of its own, a call is
  run when it comes first.\<close>

datatype compaction = NoCompaction | AtWork compactor | Answered compactor "(cache_key \<times> entry) list"

definition compaction_step :: "env \<Rightarrow> compactor_files \<Rightarrow> database \<Rightarrow> compaction \<Rightarrow> (database \<times> compaction) option" where
  "compaction_step v f d work = (case work of
     NoCompaction \<Rightarrow> (case cw_object (db_compactor d) of
         None \<Rightarrow> Some (d, NoCompaction)
       | Some info \<Rightarrow> map_option (\<lambda>c. (d, AtWork c)) (compact_start f (db_log d) (compactor_new (db_settings d) info)))
   | Answered c values \<Rightarrow> map_option (\<lambda>c. (d, AtWork c)) (compact_processValues f (db_log d) values c)
   | AtWork c \<Rightarrow> (case cp_calls c of
         [] \<Rightarrow> Some (d, AtWork (compact_turn f (db_log d) c))
       | CallFail # calls \<Rightarrow> Some (compactorFail v d, NoCompaction)
       | CallGetManyRaw keys # calls \<Rightarrow> Some (d, Answered (c\<lparr> cp_calls := calls \<rparr>) (getManyRaw keys d))
       | CallDone till # calls \<Rightarrow>
           map_option (\<lambda>d. (d, NoCompaction)) (compactorDone v (cf_copy f) (cp_file c) till d)))"

text \<open>A compactor whose wrapper the database has dropped is gone.\<close>

definition compaction_left :: "database \<Rightarrow> compaction \<Rightarrow> compaction" where
  "compaction_left d work = (if cw_object (db_compactor d) = None then NoCompaction else work)"

end
