(* ===== verification/CacheCompaction.thy ===== *)
theory CacheCompaction imports CacheEffects CacheCompactor begin

text \<open>
  Why a compacted log is as good as the long one. While the compactor works the database goes on
  writing; what is written since is copied behind the records the compactor made, so a change to a key
  that the compactor has already seen is done again when the log is replayed, and doing it twice is doing
  it once.
\<close>

section \<open>Views\<close>

definition view :: "bytes \<Rightarrow> nat \<Rightarrow> log_record list \<Rightarrow> cache_key set \<Rightarrow> log_view" where
  "view b t prefix skip = \<lparr>lv_base = b, lv_start = t, lv_prefix = prefix, lv_skip = skip, lv_marks = False\<rparr>"

lemma view_fields [simp]: "lv_base (view b t p s) = b" "lv_start (view b t p s) = t" "lv_prefix (view b t p s) = p"
  "lv_skip (view b t p s) = s" "\<not> lv_marks (view b t p s)"
  by (simp_all add: view_def)

definition writes :: "cache_settings \<Rightarrow> log_record list \<Rightarrow> bytes \<Rightarrow> bool" where
  "writes s rs es \<longleftrightarrow> (\<forall>r\<in>set rs. record_ok s r) \<and> log_bytes (cs_track_time s) rs = Some es"

lemma log_bytes_split: "log_bytes t (rs @ qs) = do { a \<leftarrow> log_bytes t rs; b \<leftarrow> log_bytes t qs; Some (a @ b) }"
  by (induction rs) (auto split: bind_splits)

lemma writes_append: "writes s rs a \<Longrightarrow> writes s qs b \<Longrightarrow> writes s (rs @ qs) (a @ b)"
  by (auto simp: writes_def log_bytes_split)

lemma writes_unique:
  assumes s: "settings_ok s" and w: "writes s rs es" "writes s qs es"
  shows "rs = qs"
proof -
  have dead: "dead s []" using s by (auto simp: dead_def stuck_def ReadRecordSize_def settings_ok_def CheckSettings_def kHeadSize_def)
  have collect: "handle_all (\<lambda>r rs. (True, rs @ [r])) rs st = Some (st @ rs)" for rs st :: "log_record list"
    by (induction rs arbitrary: st) simp_all
  have header: "length (replicate 16 (0 :: 8 word)) = 16" by simp
  from read_binlog_from_start [OF s header _ _ dead collect [of rs "[]"]] w(1)
    read_binlog_from_start [OF s header _ _ dead collect [of qs "[]"]] w(2)
  show ?thesis by (auto simp: writes_def)
qed

text \<open>The log from any of its records on.\<close>

lemma logged_any:
  assumes "logged V X d"
  shows "\<exists>rs es. writes (db_settings d) rs es \<and> db_log d = lv_base V @ es \<and> (lv_marks V \<longrightarrow> marked V rs d)
    \<and> (\<forall>n. \<exists>a b. es = a @ b \<and> writes (db_settings d) (take n rs) a
        \<and> logged (view (lv_base V @ a) (lv_start V) (lv_prefix V @ take n rs) (lv_skip V)) X d)"
proof -
  obtain rs es dr where lg: "\<forall>r\<in>set rs. record_ok (db_settings d) r"
    "log_bytes (cs_track_time (db_settings d)) rs = Some es" "db_log d = lv_base V @ es"
    "db_offset d = length (db_log d)" "replay (lv_prefix V @ rs) (blank (db_settings d) (lv_start V)) = Some dr"
    "mirrors V X d dr" "lv_marks V \<longrightarrow> marked V rs d"
    using assms unfolding logged_def by blast
  have "\<exists>a b. es = a @ b \<and> writes (db_settings d) (take n rs) a
      \<and> logged (view (lv_base V @ a) (lv_start V) (lv_prefix V @ take n rs) (lv_skip V)) X d" for n
  proof -
    obtain a b where ab: "log_bytes (cs_track_time (db_settings d)) (take n rs) = Some a"
      "log_bytes (cs_track_time (db_settings d)) (drop n rs) = Some b" "es = a @ b"
      using lg(2) log_bytes_split [of "cs_track_time (db_settings d)" "take n rs" "drop n rs"] by (auto split: bind_splits)
    have "mirrors (view (lv_base V @ a) (lv_start V) (lv_prefix V @ take n rs) (lv_skip V)) X d dr"
      using lg(6) by (simp add: mirrors_def)
    then have "logged (view (lv_base V @ a) (lv_start V) (lv_prefix V @ take n rs) (lv_skip V)) X d"
      unfolding logged_def using lg(1,3-5) ab
      by (intro exI [of _ "drop n rs"] exI [of _ b] exI [of _ dr]) (auto dest: in_set_dropD)
    moreover have "writes (db_settings d) (take n rs) a" using lg(1) ab(1) by (auto simp: writes_def dest: in_set_takeD)
    ultimately show ?thesis using ab(3) by blast
  qed
  then show ?thesis using lg by (intro exI [of _ rs] exI [of _ es]) (auto simp: writes_def)
qed

lemma logged_at_mark:
  assumes "logged V X d" "lv_marks V" "cw_object (db_compactor d) = Some info"
  obtains rs es where "writes (db_settings d) rs es" "ci_till info = length (lv_base V @ es)"
    "logged (view (lv_base V @ es) (lv_start V) (lv_prefix V @ rs) (lv_skip V)) X d"
proof -
  obtain rs es where lg: "marked V rs d" "\<And>n. \<exists>a b. es = a @ b \<and> writes (db_settings d) (take n rs) a
        \<and> logged (view (lv_base V @ a) (lv_start V) (lv_prefix V @ take n rs) (lv_skip V)) X d"
    using logged_any [OF assms(1)] assms(2) by blast
  obtain n e where n: "log_bytes (cs_track_time (db_settings d)) (take n rs) = Some e" "ci_till info = length (lv_base V @ e)"
    using lg(1) assms(3) by (auto simp: marked_def)
  obtain a where a: "writes (db_settings d) (take n rs) a"
    "logged (view (lv_base V @ a) (lv_start V) (lv_prefix V @ take n rs) (lv_skip V)) X d"
    using lg(2) [of n] by blast
  then have "a = e" using n(1) by (simp add: writes_def)
  then show ?thesis using that a n(2) by blast
qed

lemma logged_now:
  assumes "logged V X d"
  obtains rs es where "writes (db_settings d) rs es" "db_log d = lv_base V @ es"
    "logged (view (db_log d) (lv_start V) (lv_prefix V @ rs) (lv_skip V)) X d"
proof -
  obtain rs es where lg: "writes (db_settings d) rs es" "db_log d = lv_base V @ es"
    "\<And>n. \<exists>a b. es = a @ b \<and> writes (db_settings d) (take n rs) a
        \<and> logged (view (lv_base V @ a) (lv_start V) (lv_prefix V @ take n rs) (lv_skip V)) X d"
    using logged_any [OF assms] by blast
  from lg(3) [of "length rs"] obtain a b where "writes (db_settings d) rs a"
    "logged (view (lv_base V @ a) (lv_start V) (lv_prefix V @ rs) (lv_skip V)) X d" by auto
  moreover from this lg(1) have "a = es" by (simp add: writes_def)
  ultimately show ?thesis using that lg(1,2) by simp
qed

section \<open>What the compactor takes over\<close>

definition stores_effect :: "bool \<Rightarrow> nat \<Rightarrow> cache_key \<Rightarrow> store list \<Rightarrow> entry option \<Rightarrow> entry option" where
  "stores_effect timed c k ss = effects timed c k (map StoreRecord ss)"

lemma stores_effect_simps [simp]:
  "stores_effect timed c k [] x = x"
  "stores_effect timed c k (s # ss) x = stores_effect timed c k ss (if so_key s = k then Some (stored_entry timed c s) else x)"
  by (simp_all add: stores_effect_def effects_def)

lemma stores_effect_append: "stores_effect timed c k (ss @ qs) x = stores_effect timed c k qs (stores_effect timed c k ss x)"
  by (simp add: stores_effect_def effects_def)

lemma stores_effect_other: "k \<notin> so_key ` set ss \<Longrightarrow> stores_effect timed c k ss x = x"
  by (induction ss) auto

lemma stores_effect_found:
  "k \<in> so_key ` set ss \<Longrightarrow> \<forall>s\<in>set ss. so_key s = k \<longrightarrow> stored_entry timed c s = e \<Longrightarrow> stores_effect timed c k ss x = Some e"
proof (induction ss arbitrary: x)
  case (Cons s ss)
  then show ?case using stores_effect_other [of k ss timed c] by (cases "k \<in> so_key ` set ss") auto
qed simp

text \<open>A store with the entry of its key.\<close>

definition takes_over :: "nat \<Rightarrow> database \<Rightarrow> store \<Rightarrow> bool" where
  "takes_over t d st \<longleftrightarrow> store_fits (db_settings d) st
     \<and> db_find (so_key st) d = Some (stored_entry (cs_track_time (db_settings d)) t st)
     \<and> (cs_track_time (db_settings d) \<longrightarrow> tp_relative (so_time st) \<le> tp_relative (db_time d))"

lemma holds_find:
  "holds V rs d \<Longrightarrow> k \<notin> lv_skip V \<Longrightarrow> k \<notin> set (db_removing d) \<or> db_find k d \<noteq> None
    \<Longrightarrow> effects (cs_track_time (db_settings d)) (lv_start V) k rs
      (effects (cs_track_time (db_settings d)) (lv_start V) k (lv_prefix V) None) = db_find k d"
  by (simp only: holds_def effects_append) blast

lemma same_rest_of_log:
  assumes s: "settings_ok (db_settings d)"
    and a: "\<forall>r\<in>set p. record_ok (db_settings d) r" "\<forall>r\<in>set q. record_ok (db_settings d) r"
    and b: "logged (view b t p {}) {} d" "logged (view b t q skip) {} d"
  obtains rs es where "writes (db_settings d) rs es" "db_log d = b @ es" "db_offset d = length (db_log d)"
    "\<forall>r\<in>set (p @ rs). record_fits (db_settings d) r" "\<forall>r\<in>set (q @ rs). record_fits (db_settings d) r"
    "holds (view b t p {}) rs d" "holds (view b t q skip) rs d"
proof -
  obtain rs es where lg: "writes (db_settings d) rs es" "db_log d = b @ es" "db_offset d = length (db_log d)"
    "\<forall>r\<in>set (p @ rs). record_fits (db_settings d) r" "holds (view b t p {}) rs d"
    using b(1) logged_holds [of "view b t p {}" d] a(1) by (auto simp: writes_def)
  obtain rs' es' where lg': "writes (db_settings d) rs' es'" "db_log d = b @ es'"
    "\<forall>r\<in>set (q @ rs'). record_fits (db_settings d) r" "holds (view b t q skip) rs' d"
    using b(2) logged_holds [of "view b t q skip" d] a(2) by (auto simp: writes_def)
  have "rs' = rs" using writes_unique [OF s] lg(1,2) lg'(1,2) by simp
  then show ?thesis using that lg lg' by blast
qed

lemma effects_cons_stores: "effects timed c k (map StoreRecord ss @ rs) x = effects timed c k rs (stores_effect timed c k ss x)"
  by (simp add: stores_effect_def effects_def)

lemma logged_from_holds:
  assumes "writes (db_settings d) rs es" "db_log d = b @ es" "db_offset d = length (db_log d)"
    "\<forall>r\<in>set p. record_ok (db_settings d) r" "\<forall>r\<in>set (p @ rs). record_fits (db_settings d) r" "holds (view b t p skip) rs d"
  shows "logged (view b t p skip) {} d"
  using assms logged_holds [of "view b t p skip" d] by (auto simp: writes_def)

text \<open>The stores of the keys \<open>K\<close> come behind those that were taken over before: then the
  log replays to the map on \<open>K\<close> as well, since what changed such a key after the long log is in
  the rest, and its entry is the one the rest leads to.\<close>

lemma taken_over:
  assumes s: "settings_ok (db_settings d)" and p: "\<forall>r\<in>set p. record_ok (db_settings d) r"
    and old: "logged (view b t p {}) {} d"
    and cap: "\<forall>st\<in>set cap. store_ok (cs_track_time (db_settings d)) st" "logged (view b t (map StoreRecord cap) S) {} d"
      "so_key ` set cap \<inter> S = {}"
    and new: "\<forall>st\<in>set new. takes_over t d st" "\<forall>k\<in>K. db_find k d \<noteq> None \<longrightarrow> k \<in> so_key ` set (cap @ new)"
  shows "logged (view b t (map StoreRecord (cap @ new)) (S - K)) {} d"
proof -
  let ?timed = "cs_track_time (db_settings d)"
  have "\<forall>r\<in>set (map StoreRecord cap). record_ok (db_settings d) r" using cap(1) by (simp add: record_ok_def)
  then obtain rs es where lg: "writes (db_settings d) rs es" "db_log d = b @ es" "db_offset d = length (db_log d)"
    "\<forall>r\<in>set (map StoreRecord cap @ rs). record_fits (db_settings d) r"
    "holds (view b t p {}) rs d" "holds (view b t (map StoreRecord cap) S) rs d"
    using same_rest_of_log [OF s p _ old cap(2)] by metis
  define f where "f k = effects ?timed t k rs" for k
  have twice: "f k (f k x) = f k x" for k x by (simp add: f_def effects_twice)
  have clocks: "fold (record_clock ?timed) (map StoreRecord (cap @ new) @ rs) t \<le> tp_relative (db_time d)"
  proof -
    have "fold (record_clock ?timed) (map StoreRecord cap @ rs) t \<le> tp_relative (db_time d)"
      using lg(6) by (simp add: holds_def)
    moreover have "\<forall>st\<in>set new. record_clock ?timed (StoreRecord st) 0 \<le> tp_relative (db_time d)"
      using new(1) by (simp add: takes_over_def)
    ultimately show ?thesis unfolding clocks_below by auto
  qed
  have key: "f k (stores_effect ?timed t k (cap @ new) None) = db_find k d"
    if k: "k \<notin> S - K" "k \<notin> set (db_removing d) \<or> db_find k d \<noteq> None" for k
  proof -
    have whole: "f k (effects ?timed t k p None) = db_find k d"
      using holds_find [OF lg(5) _ k(2)] by (simp add: f_def)
    have again: "f k (db_find k d) = db_find k d" using twice [of k "effects ?timed t k p None"] by (simp only: whole)
    show ?thesis
    proof (cases "k \<in> so_key ` set new")
      case True
      then obtain st where st: "st \<in> set new" "so_key st = k" by blast
      have "db_find k d = Some (stored_entry ?timed t st)" using new(1) st by (auto simp: takes_over_def)
      moreover have "stores_effect ?timed t k new x = Some (stored_entry ?timed t st)" for x
      proof (rule stores_effect_found [OF True])
        have "db_find (so_key q) d = Some (stored_entry ?timed t q)" if "q \<in> set new" for q
          using new(1) that by (simp add: takes_over_def)
        then show "\<forall>q\<in>set new. so_key q = k \<longrightarrow> stored_entry ?timed t q = stored_entry ?timed t st"
          using st by (metis option.inject)
      qed
      ultimately show ?thesis using again by (simp add: stores_effect_append)
    next
      case False
      show ?thesis
      proof (cases "k \<in> S")
        case True
        then have none: "k \<notin> so_key ` set (cap @ new)" using False cap(3) by auto
        then have "db_find k d = None" using new(2) k(1) True by blast
        then show ?thesis using again by (simp only: stores_effect_other [OF none])
      next
        case outside: False
        have "f k (stores_effect ?timed t k cap None) = db_find k d"
          using holds_find [OF lg(6) _ k(2)] outside by (simp add: f_def stores_effect_def)
        then show ?thesis using False by (simp add: stores_effect_append stores_effect_other)
      qed
    qed
  qed
  have "holds (view b t (map StoreRecord (cap @ new)) (S - K)) rs d"
    unfolding holds_def view_fields
  proof (intro conjI allI impI)
    show "\<not> ?timed \<Longrightarrow> t = tp_relative (db_time d)" using lg(6) by (simp add: holds_def)
  next
    fix k assume "k \<notin> S - K" "k \<notin> set (db_removing d) \<or> db_find k d \<noteq> None"
    from key [OF this] show "effects ?timed t k (map StoreRecord (cap @ new) @ rs) None = db_find k d"
      by (simp only: effects_cons_stores f_def)
  qed (rule clocks)
  moreover have "\<forall>r\<in>set (map StoreRecord (cap @ new)). record_ok (db_settings d) r"
    using cap(1) new(1) by (auto simp: record_ok_def takes_over_def store_fits_def)
  moreover have "\<forall>r\<in>set (map StoreRecord (cap @ new) @ rs). record_fits (db_settings d) r"
    using lg(4) new(1) by (auto simp: record_fits_def takes_over_def)
  ultimately show ?thesis using logged_from_holds [OF lg(1-3)] by blast
qed

text \<open>A key that no record of the long log stores needs no store.\<close>

lemma no_store_no_entry:
  assumes "\<forall>r\<in>set rs. k \<notin> set (stored_keys r)"
  shows "effects timed c k rs None = None"
  using assms
proof (induction rs)
  case (Cons r rs)
  have "effect timed c k r None = None"
  proof (cases r)
    case (MultiStore ss)
    have "k \<notin> so_key ` set ss" using Cons.prems MultiStore by auto
    then have "fold (\<lambda>s. effect timed c k (StoreRecord s)) ss None = None" by (induction ss) auto
    then show ?thesis using MultiStore by simp
  qed (use Cons.prems in auto)
  then show ?case using Cons by (simp add: effects_def)
qed (simp add: effects_def)

lemma all_taken_over:
  assumes s: "settings_ok (db_settings d)" and p: "\<forall>r\<in>set p. record_ok (db_settings d) r"
    and old: "logged (view b t p {}) {} d"
    and cap: "\<forall>st\<in>set cap. store_ok (cs_track_time (db_settings d)) st" "logged (view b t (map StoreRecord cap) S) {} d"
      "so_key ` set cap \<inter> S = {}"
    and seen: "S \<inter> (\<Union>r\<in>set p. set (stored_keys r)) = {}"
  shows "logged (view b t (map StoreRecord cap) {}) {} d"
proof -
  let ?timed = "cs_track_time (db_settings d)"
  have ok: "\<forall>r\<in>set (map StoreRecord cap). record_ok (db_settings d) r" using cap(1) by (simp add: record_ok_def)
  then obtain rs es where lg: "writes (db_settings d) rs es" "db_log d = b @ es" "db_offset d = length (db_log d)"
    "\<forall>r\<in>set (map StoreRecord cap @ rs). record_fits (db_settings d) r"
    "holds (view b t p {}) rs d" "holds (view b t (map StoreRecord cap) S) rs d"
    using same_rest_of_log [OF s p _ old cap(2)] by metis
  have "effects ?timed t k (map StoreRecord cap @ rs) None = db_find k d"
    if k: "k \<notin> set (db_removing d) \<or> db_find k d \<noteq> None" for k
  proof (cases "k \<in> S")
    case True
    then have "effects ?timed t k p None = None" "stores_effect ?timed t k cap None = None"
      using seen cap(3) by (auto intro!: no_store_no_entry stores_effect_other)
    then show ?thesis using holds_find [OF lg(5) _ k] by (simp add: effects_cons_stores)
  next
    case False
    then show ?thesis using holds_find [OF lg(6) _ k] by (simp add: effects_append)
  qed
  then have "holds (view b t (map StoreRecord cap) {}) rs d" using lg(6) by (simp add: holds_def)
  from logged_from_holds [OF lg(1-3) ok lg(4) this] show ?thesis .
qed

text \<open>The stores written in records of many.\<close>

lemma multi_effects: "effects timed c k (map MultiStore parts @ rs) x = effects timed c k (map StoreRecord (concat parts) @ rs) x"
proof (induction parts arbitrary: x)
  case (Cons ss parts)
  have "fold (\<lambda>s. effect timed c k (StoreRecord s)) ss x = effects timed c k (map StoreRecord ss) x" for x
    by (induction ss arbitrary: x) (simp_all add: effects_def)
  then show ?case using Cons by (simp add: effects_def)
qed simp

lemma multi_clocks:
  "fold (record_clock timed) (map MultiStore parts @ rs) m = fold (record_clock timed) (map StoreRecord (concat parts) @ rs) m"
proof (induction parts arbitrary: m)
  case (Cons ss parts)
  have "record_clock timed (MultiStore ss) m = fold (record_clock timed) (map StoreRecord ss) m"
    by (induction ss arbitrary: m) (cases timed; simp)+
  then show ?case using Cons by simp
qed simp

lemma multi_logged:
  assumes ok: "\<forall>r\<in>set (map MultiStore parts). record_ok (db_settings d) r"
    and log: "logged (view b t (map StoreRecord (concat parts)) skip) {} d"
  shows "logged (view b t (map MultiStore parts) skip) {} d"
proof -
  have "\<forall>r\<in>set (map StoreRecord (concat parts)). record_ok (db_settings d) r" using ok by (auto simp: record_ok_def)
  then obtain rs es where lg: "writes (db_settings d) rs es" "db_log d = b @ es" "db_offset d = length (db_log d)"
    "\<forall>r\<in>set (map StoreRecord (concat parts) @ rs). record_fits (db_settings d) r"
    "holds (view b t (map StoreRecord (concat parts)) skip) rs d"
    using log logged_holds [of "view b t (map StoreRecord (concat parts)) skip" d] by (auto simp: writes_def)
  have "holds (view b t (map MultiStore parts) skip) rs d"
    using lg(5) unfolding holds_def view_fields multi_effects multi_clocks .
  moreover have "\<forall>r\<in>set (map MultiStore parts @ rs). record_fits (db_settings d) r"
  proof -
    have "\<forall>st\<in>set (concat parts). record_fits (db_settings d) (StoreRecord st)" "\<forall>r\<in>set rs. record_fits (db_settings d) r"
      using lg(4) by simp_all
    then show ?thesis by (auto simp: record_fits_def)
  qed
  ultimately show ?thesis using logged_from_holds [OF lg(1-3) ok] by blast
qed

end
