(* ===== verification/CacheCompactorRun.thy ===== *)
theory CacheCompactorRun imports CacheCompaction begin

text \<open>
  The compactor at work: from its start to the answer of the database that ends it, every step leads
  to a state that the next one can go on from, or to a failure it reports; what it has written so far
  and what the log got since replay to the map of the database.
\<close>

section \<open>Records\<close>

text \<open>The stores that the raws lead to, one for each key that was not written before.\<close>

fun pending :: "compactor \<Rightarrow> cache_key set \<Rightarrow> (cache_key \<times> entry) list \<Rightarrow> store list option" where
  "pending c written [] = Some []"
| "pending c written (raw # raws) =
     (if fst raw \<in> written then pending c written raws
      else do {
        s \<leftarrow> compact_record c (fst raw) (snd raw);
        ss \<leftarrow> pending c (insert (fst raw) written) raws;
        Some (s # ss) })"

lemma pending_same: "cp_settings c' = cp_settings c \<Longrightarrow> cp_info c' = cp_info c \<Longrightarrow> pending c' = pending c"
proof (intro ext)
  fix written raws assume "cp_settings c' = cp_settings c" "cp_info c' = cp_info c"
  then show "pending c' written raws = pending c written raws"
    by (induction raws arbitrary: written) (simp_all add: compact_record_def)
qed

lemma compact_record_fits:
  assumes s: "settings_ok s" "cp_settings c = s" "ci_system_time (cp_info c) < 2 ^ 32" and e: "entry_fits s t T e"
  obtains st where "compact_record c k e = Some st" "so_key st = k" "store_fits s st"
    "stored_entry (cs_track_time s) t st = e" "cs_track_time s \<longrightarrow> tp_relative (so_time st) \<le> T"
proof -
  have "ce_size e < 2 ^ 24" using e s(1)
    by (simp add: entry_fits_def settings_ok_def CacheTypes.checkSettings_def kDataSizeLimit_def)
  then obtain b where b: "ReadTo 3 (ce_size e) = Some b" by (simp add: ReadTo_def)
  have size: "ReadFrom b = ce_size e" "length b = 3" using ReadTo_ReadFrom [OF b] by simp_all
  show ?thesis
    using that [of "\<lparr>so_tag = ce_tag e, so_size = b, so_place = ce_place e, so_checksum = ce_checksum e, so_key = k,
       so_time = (if cs_track_time s then \<lparr>tp_relative = ce_time e, tp_system = ci_system_time (cp_info c)\<rparr>
         else \<lparr>tp_relative = 0, tp_system = 0\<rparr>)\<rparr>"] e size s
    by (simp add: compact_record_def setSize_def b store_fits_def store_ok_def time_ok_def getSize_def stored_entry_def entry_fits_def
        split: if_splits)
qed

lemma pending_fits:
  assumes s: "settings_ok (db_settings d)" "cp_settings c = db_settings d" "ci_system_time (cp_info c) < 2 ^ 32"
    and found: "\<forall>(k, e)\<in>set raws. db_find k d = Some e \<and> entry_fits (db_settings d) t (tp_relative (db_time d)) e"
  obtains new where "pending c written raws = Some new" "\<forall>st\<in>set new. takes_over t d st"
    "fst ` set raws \<subseteq> written \<union> so_key ` set new" "so_key ` set new \<subseteq> fst ` set raws"
proof -
  have "\<exists>new. pending c written raws = Some new \<and> (\<forall>st\<in>set new. takes_over t d st)
      \<and> fst ` set raws \<subseteq> written \<union> so_key ` set new \<and> so_key ` set new \<subseteq> fst ` set raws"
    using found
  proof (induction raws arbitrary: written)
    case (Cons raw raws)
    show ?case
    proof (cases "fst raw \<in> written")
      case True
      obtain new where "pending c written raws = Some new" "\<forall>st\<in>set new. takes_over t d st"
        "fst ` set raws \<subseteq> written \<union> so_key ` set new" "so_key ` set new \<subseteq> fst ` set raws"
        using Cons.IH [of written] Cons.prems by auto
      then show ?thesis using True by (intro exI [of _ new]) auto
    next
      case False
      have raw: "db_find (fst raw) d = Some (snd raw)" "entry_fits (db_settings d) t (tp_relative (db_time d)) (snd raw)"
        using Cons.prems by auto
      obtain st where st: "compact_record c (fst raw) (snd raw) = Some st" "so_key st = fst raw" "store_fits (db_settings d) st"
        "stored_entry (cs_track_time (db_settings d)) t st = snd raw"
        "cs_track_time (db_settings d) \<longrightarrow> tp_relative (so_time st) \<le> tp_relative (db_time d)"
        by (rule compact_record_fits [OF s raw(2)])
      obtain new where "pending c (insert (fst raw) written) raws = Some new" "\<forall>st\<in>set new. takes_over t d st"
        "fst ` set raws \<subseteq> insert (fst raw) written \<union> so_key ` set new" "so_key ` set new \<subseteq> fst ` set raws"
        using Cons.IH [of "insert (fst raw) written"] Cons.prems by auto
      then show ?thesis
        using False st raw(1) by (intro exI [of _ "st # new"]) (auto simp: takes_over_def)
    qed
  qed simp
  then show ?thesis using that by blast
qed

section \<open>The file\<close>

text \<open>What is in the file, in the list and still to be listed are the stores \<open>cap\<close>.\<close>

definition listed :: "basic_header \<Rightarrow> compactor \<Rightarrow> (cache_key \<times> entry) list \<Rightarrow> store list \<Rightarrow> bool" where
  "listed h c raws cap \<longleftrightarrow> settings_ok (cp_settings c) \<and> cp_file_open c
     \<and> (\<forall>st\<in>set cap. store_ok (cs_track_time (cp_settings c)) st)
     \<and> length (cp_list c) \<le> cs_max_bundled (cp_settings c)
     \<and> (\<exists>parts eb new. writes (cp_settings c) (map MultiStore parts) eb \<and> cp_file c = header_bytes h @ eb
         \<and> cp_written c = so_key ` set (concat parts @ cp_list c) \<and> pending c (cp_written c) raws = Some new
         \<and> cap = concat parts @ cp_list c @ new)"

text \<open>What the list is written with leaves alone.\<close>

definition same_work :: "compactor \<Rightarrow> compactor \<Rightarrow> bool" where
  "same_work c c' \<longleftrightarrow> cp_settings c' = cp_settings c \<and> cp_info c' = cp_info c \<and> cp_reader c' = cp_reader c
     \<and> cp_log_open c' = cp_log_open c \<and> cp_phase c' = cp_phase c \<and> cp_calls c' = cp_calls c"

lemma same_work_refl [simp]: "same_work c c"
  by (simp add: same_work_def)

lemma same_work_trans: "same_work a b \<Longrightarrow> same_work b c \<Longrightarrow> same_work a c"
  by (simp add: same_work_def)

lemma addListRecord_lists:
  assumes "listed h c (raw # raws) cap" "length (cp_list c) < cs_max_bundled (cp_settings c)"
  obtains c' where "compact_addListRecord raw c = Some c'" "listed h c' raws cap" "same_work c c'"
proof -
  obtain k e where raw: "raw = (k, e)" by force
  obtain parts eb new where l: "writes (cp_settings c) (map MultiStore parts) eb" "cp_file c = header_bytes h @ eb"
    "cp_written c = so_key ` set (concat parts @ cp_list c)" "pending c (cp_written c) (raw # raws) = Some new"
    "cap = concat parts @ cp_list c @ new" "settings_ok (cp_settings c)" "cp_file_open c"
    "\<forall>st\<in>set cap. store_ok (cs_track_time (cp_settings c)) st"
    using assms(1) unfolding listed_def by blast
  show ?thesis
  proof (cases "k \<in> cp_written c")
    case True
    then have "listed h c raws cap" using l assms(2) raw unfolding listed_def by auto
    then show ?thesis using that [of c] True by (simp add: compact_addListRecord_def raw)
  next
    case False
    then obtain st new' where st: "compact_record c k e = Some st" "pending c (insert k (cp_written c)) raws = Some new'"
      "new = st # new'"
      using l(4) by (auto simp: raw split: bind_splits)
    define c' where "c' = c\<lparr> cp_written := insert k (cp_written c), cp_list := cp_list c @ [st] \<rparr>"
    have key: "so_key st = k" using st(1) by (auto simp: compact_record_def setSize_def)
    have "pending c' (cp_written c') raws = Some new'"
      using st(2) pending_same [of c' c] by (simp add: c'_def)
    then have "listed h c' raws cap"
      unfolding listed_def using l assms(2) key st(3)
      by (intro conjI exI [of _ parts] exI [of _ eb] exI [of _ new']) (auto simp: c'_def)
    then show ?thesis
      using that [of c'] False st(1) by (simp add: compact_addListRecord_def raw same_work_def c'_def)
  qed
qed

lemma fillList_lists:
  assumes "listed h c raws cap"
  obtains left c' where "compact_fillList raws c = Some (left, c')" "listed h c' left cap" "same_work c c'"
    "length left \<le> length raws" "left = [] \<or> length (cp_list c') = cs_max_bundled (cp_settings c')"
    "length left < length raws \<or> cp_list c' = cp_list c"
proof -
  have "\<exists>left c'. compact_fillList raws c = Some (left, c') \<and> listed h c' left cap \<and> same_work c c'
      \<and> length left \<le> length raws \<and> (left = [] \<or> length (cp_list c') = cs_max_bundled (cp_settings c'))
      \<and> (length left < length raws \<or> cp_list c' = cp_list c)"
    using assms
  proof (induction raws arbitrary: c)
    case (Cons raw raws)
    show ?case
    proof (cases "length (cp_list c) = cs_max_bundled (cp_settings c)")
      case False
      then have "length (cp_list c) < cs_max_bundled (cp_settings c)" using Cons.prems by (auto simp: listed_def)
      then obtain c1 where c1: "compact_addListRecord raw c = Some c1" "listed h c1 raws cap" "same_work c c1"
        by (rule addListRecord_lists [OF Cons.prems])
      obtain left c' where "compact_fillList raws c1 = Some (left, c')" "listed h c' left cap" "same_work c1 c'"
        "length left \<le> length raws" "left = [] \<or> length (cp_list c') = cs_max_bundled (cp_settings c')"
        using Cons.IH [OF c1(2)] by auto
      then show ?thesis using False c1 same_work_trans by auto
    qed (use Cons.prems in simp)
  qed simp
  then show ?thesis using that by blast
qed

lemma writeList_writes:
  assumes "listed h c raws cap"
  obtains ok c' where "compact_writeList f c = Some (ok, c')" "same_work c c'" "cp_list c' = []" "ok \<longrightarrow> listed h c' raws cap"
proof (cases "cp_list c = []")
  case True
  then show ?thesis using that [of True c] assms by (simp add: compact_writeList_def)
next
  case False
  obtain parts eb new where l: "writes (cp_settings c) (map MultiStore parts) eb" "cp_file c = header_bytes h @ eb"
    "cp_written c = so_key ` set (concat parts @ cp_list c)" "pending c (cp_written c) raws = Some new"
    "cap = concat parts @ cp_list c @ new" "settings_ok (cp_settings c)" "cp_file_open c"
    "\<forall>st\<in>set cap. store_ok (cs_track_time (cp_settings c)) st" "length (cp_list c) \<le> cs_max_bundled (cp_settings c)"
    using assms unfolding listed_def by blast
  let ?timed = "cs_track_time (cp_settings c)"
  obtain head where head: "head_bytes 2 (length (cp_list c)) (replicate 12 0) = Some head"
    using head_bytes_some [OF l(6,9)] by blast
  define e where "e = concat (map (store_bytes ?timed) (cp_list c))"
  have bytes: "record_bytes ?timed (MultiStore (cp_list c)) = Some (head @ e)"
    by (simp add: head e_def)
  define ok where "ok = (cf_write f (length (cp_file c)) \<and> cf_write f (length (cp_file c @ head)))"
  define c' where "c' = c\<lparr> cp_list := [], cp_file := (if cf_write f (length (cp_file c)) then cp_file c @ head @ (if ok then e else [])
    else cp_file c) \<rparr>"
  have run: "compact_writeList f c = Some (ok, c')"
    using False l(7) by (simp add: compact_writeList_def head compact_write_def Let_def ok_def c'_def e_def)
  have "listed h c' raws cap" if ok
  proof -
    have "record_ok (cp_settings c) (MultiStore (cp_list c))"
      using False l(5,8,9) by (simp add: record_ok_def)
    then have "writes (cp_settings c) (map MultiStore [cp_list c]) (head @ e)" using bytes by (simp add: writes_def)
    then have "writes (cp_settings c) (map MultiStore (parts @ [cp_list c])) (eb @ head @ e)"
      using writes_append [OF l(1)] by simp
    moreover have "cp_file c' = header_bytes h @ eb @ head @ e" using that l(2) by (simp add: c'_def ok_def)
    moreover have "pending c' (cp_written c') raws = Some new" using l(4) pending_same [of c' c] by (simp add: c'_def)
    ultimately show ?thesis
      unfolding listed_def using l
      by (intro conjI exI [of _ "parts @ [cp_list c]"] exI [of _ "eb @ head @ e"] exI [of _ new]) (auto simp: c'_def)
  qed
  then show ?thesis using that [OF run] by (simp add: same_work_def c'_def)
qed

lemma fillLists_lists:
  assumes "listed h c raws cap"
  obtains ok c' where "compact_fillLists f raws c = Some (ok, c')" "same_work c c'" "ok \<longrightarrow> listed h c' [] cap"
proof -
  have "\<exists>ok c'. compact_fillLists f raws c = Some (ok, c') \<and> same_work c c' \<and> (ok \<longrightarrow> listed h c' [] cap)"
    using assms
  proof (induction "2 * length raws + (if cp_list c = [] then 0 else 1)" arbitrary: raws c rule: less_induct)
    case less
    obtain left c1 where c1: "compact_fillList raws c = Some (left, c1)" "listed h c1 left cap" "same_work c c1"
      "length left \<le> length raws" "left = [] \<or> length (cp_list c1) = cs_max_bundled (cp_settings c1)"
      "length left < length raws \<or> cp_list c1 = cp_list c"
      by (rule fillList_lists [OF less.prems])
    show ?case
    proof (cases "left = []")
      case True
      then have "compact_fillLists f raws c = Some (True, c1)" using c1(1) by (subst compact_fillLists.simps) simp
      then show ?thesis using c1(2,3) True by blast
    next
      case False
      have "0 < cs_max_bundled (cp_settings c1)"
        using c1(2) by (simp add: listed_def settings_ok_def CacheTypes.checkSettings_def)
      then have full: "cp_list c1 \<noteq> []" using c1(5) False by auto
      obtain ok c2 where c2: "compact_writeList f c1 = Some (ok, c2)" "same_work c1 c2" "cp_list c2 = []"
        "ok \<longrightarrow> listed h c2 left cap" by (rule writeList_writes [OF c1(2)])
      have run: "compact_fillLists f raws c = (if ok then compact_fillLists f left c2 else Some (False, c2))"
        using False c1(1) c2(1) by (subst compact_fillLists.simps) simp
      have work: "same_work c c2" using c1(3) c2(2) by (rule same_work_trans)
      show ?thesis
      proof (cases ok)
        case True
        have "2 * length left + (if cp_list c2 = [] then 0 else 1) < 2 * length raws + (if cp_list c = [] then 0 else 1)"
          using c1(4,6) c2(3) full by auto
        from less.hyps [OF this] c2(4) True show ?thesis
          using run same_work_trans [OF work] by auto
      next
        case False
        then have "compact_fillLists f raws c = Some (False, c2)" using run by simp
        then show ?thesis using work by blast
      qed
    qed
  qed
  then show ?thesis using that by blast
qed

section \<open>The log it reads\<close>

definition keys_of :: "log_record list \<Rightarrow> cache_key list" where
  "keys_of rs = concat (map stored_keys rs)"

lemma push_all: "handle_all push_keys rs ks = Some (ks @ keys_of rs)"
  by (induction rs arbitrary: ks) (simp_all add: push_keys_def keys_of_def)

definition reads_on :: "cache_settings \<Rightarrow> bytes \<Rightarrow> binlog_reader \<Rightarrow> log_record list \<Rightarrow> bool" where
  "reads_on s data rd rs \<longleftrightarrow> reading s push_keys [] (keys_of rs) (rd\<lparr> br_data := data \<rparr>) [] rs"

lemma reading_from: "reading s push_keys [] (ks @ keys_of rs) rd ks rs \<longleftrightarrow> reading s push_keys [] (keys_of rs) rd [] rs"
  by (simp add: reading_def push_all)

lemma reading_final: "reading s push_keys [] final rd ks rs \<Longrightarrow> final = ks @ keys_of rs"
  by (auto simp: reading_def push_all)

lemma reads_grown:
  assumes "reads_on s data rd rs" "take (br_till rd) data' = take (br_till rd) data" "br_till rd \<le> length data'"
  shows "reads_on s data' rd rs"
  using assms by (simp add: reads_on_def reading_def)

lemma readChunk_reads:
  assumes s: "settings_ok s" and rd: "reading s push_keys [] (ks @ keys_of rs) rd ks rs"
  shows "\<exists>ks' rd' rs'. readChunk s rd ks = Some (ks', rd') \<and> reading s push_keys [] (ks' @ keys_of rs') rd' ks' rs'
    \<and> ks' @ keys_of rs' = ks @ keys_of rs \<and> br_till rd' = br_till rd \<and> br_data rd' = br_data rd
    \<and> (length ks' < cs_compact_chunk s \<longrightarrow> rs' = [])"
  using rd
proof (induction "br_till rd - br_offset rd" arbitrary: rd ks rs rule: less_induct)
  case less
  have dead: "dead s []" using s by (auto simp: dead_def stuck_def ReadRecordSize_def settings_ok_def CheckSettings_def kHeadSize_def)
  show ?case
  proof (cases "cs_compact_chunk s \<le> length ks")
    case True
    then show ?thesis using less.prems by auto
  next
    case short: False
    show ?thesis
    proof (cases "br_offset rd = br_till rd")
      case True
      note e = reading_end [OF s less.prems True]
      have "\<not> br_failed rd" using less.prems by (auto simp: reading_def)
      then have "binlog_finish 0 rd = rd" using e(3) by (simp add: binlog_finish_def)
      then have "readChunk s rd ks = Some (ks, rd)" using short e(1) by (simp add: readChunk.simps [of s rd])
      then show ?thesis using less.prems e(4) by auto
    next
      case False
      obtain rd1 ks1 rs1 where part: "readTillEnd s push_keys rd ks = Some (False, rd1, ks1)"
        "reading s push_keys [] (ks @ keys_of rs) rd1 ks1 rs1" "br_offset rd < br_offset rd1" "br_till rd1 = br_till rd"
        "br_data rd1 = br_data rd" by (rule reading_part [OF s less.prems False dead])
      have final: "ks @ keys_of rs = ks1 @ keys_of rs1" using reading_final [OF part(2)] .
      have "br_offset rd1 \<le> br_till rd1" using part(2) by (auto simp: reading_def)
      then have "br_till rd1 - br_offset rd1 < br_till rd - br_offset rd" using part(3,4) by simp
      from less.hyps [OF this] part(2) final
      obtain ks' rd' rs' where "readChunk s rd1 ks1 = Some (ks', rd')" "reading s push_keys [] (ks' @ keys_of rs') rd' ks' rs'"
        "ks' @ keys_of rs' = ks1 @ keys_of rs1" "br_till rd' = br_till rd1" "br_data rd' = br_data rd1"
        "length ks' < cs_compact_chunk s \<longrightarrow> rs' = []" by metis
      moreover have "readChunk s rd ks = readChunk s rd1 ks1" using short part(1) by (simp add: readChunk.simps [of s rd])
      ultimately show ?thesis using part(4,5) final by metis
    qed
  qed
qed

section \<open>The compactor and the database\<close>

text \<open>\<open>p\<close> and \<open>es\<close> are the long log as it was when the compaction began;
  \<open>cap\<close> is what was taken over, \<open>S\<close> the keys not seen yet.\<close>

definition captured :: "basic_header \<Rightarrow> log_record list \<Rightarrow> bytes \<Rightarrow> store list \<Rightarrow> cache_key set \<Rightarrow> database \<Rightarrow> bool" where
  "captured h p es cap S d \<longleftrightarrow> header_ok (db_settings d) h \<and> writes (db_settings d) p es
     \<and> logged (view (header_bytes h @ es) (bh_system_time h) p {}) {} d
     \<and> (\<forall>st\<in>set cap. store_ok (cs_track_time (db_settings d)) st)
     \<and> logged (view (header_bytes h @ es) (bh_system_time h) (map StoreRecord cap) S) {} d \<and> so_key ` set cap \<inter> S = {}"

text \<open>The records \<open>rs\<close> of it are still to be read.\<close>

definition gathering :: "basic_header \<Rightarrow> compactor \<Rightarrow> (cache_key \<times> entry) list \<Rightarrow> cache_key set \<Rightarrow> log_record list
    \<Rightarrow> database \<Rightarrow> bool" where
  "gathering h c raws asked rs d \<longleftrightarrow> cp_settings c = db_settings d \<and> cp_log_open c \<and> cp_phase c = CompactReading
     \<and> ci_system_time (cp_info c) < 2 ^ 32 \<and> br_till (cp_reader c) = ci_till (cp_info c)
     \<and> reads_on (db_settings d) (db_log d) (cp_reader c) rs
     \<and> (\<exists>p es cap S. captured h p es cap S d \<and> listed h c raws cap \<and> ci_till (cp_info c) = length (header_bytes h @ es)
         \<and> S \<inter> set (keys_of p) \<subseteq> asked \<union> set (keys_of rs))"

text \<open>The file, up to the byte \<open>n\<close> of the log: with the rest of the log it replays to the map.\<close>

definition compacted :: "basic_header \<Rightarrow> compactor \<Rightarrow> nat \<Rightarrow> database \<Rightarrow> bool" where
  "compacted h c n d \<longleftrightarrow> cp_settings c = db_settings d \<and> header_ok (db_settings d) h \<and> kHeadSize \<le> n \<and> n \<le> length (db_log d)
     \<and> 16 dvd n \<and> (\<exists>ms eb. writes (db_settings d) ms eb \<and> cp_file c = header_bytes h @ eb
         \<and> logged (view (take n (db_log d)) (bh_system_time h) ms {}) {} d)"

text \<open>Or the first that it has posted is that it failed.\<close>

definition failed :: "compactor \<Rightarrow> bool" where
  "failed c \<longleftrightarrow> (\<exists>calls. cp_calls c = CallFail # calls)"

lemma failed_calls:
  "cp_calls c = [] \<Longrightarrow> failed (compact_fail c)" "failed c \<Longrightarrow> failed (compact_fail c)" "failed c \<Longrightarrow> failed (compact_call call c)"
  by (auto simp: failed_def compact_fail_def compact_call_def)

text \<open>At work, with at most \<open>n\<close> steps to go if the database writes nothing.\<close>

definition works :: "nat \<Rightarrow> basic_header \<Rightarrow> compactor \<Rightarrow> database \<Rightarrow> bool" where
  "works n h c d \<longleftrightarrow> (\<exists>keys rs. cp_calls c = [CallGetManyRaw keys] \<and> gathering h c [] (set keys) rs d \<and> 2 * length (keys_of rs) + 5 \<le> n)
     \<or> cp_calls c = [] \<and> cp_phase c = CompactFinalizing \<and> compacted h c (cp_from c) d
         \<and> (if cp_from c = length (db_log d) then 2 else 3) \<le> n
     \<or> (\<exists>till. cp_calls c = [CallDone till] \<and> compacted h c till d \<and> 1 \<le> n)"

lemma works_more: "works n h c d \<Longrightarrow> n \<le> m \<Longrightarrow> works m h c d"
  unfolding works_def by (auto intro: order_trans)

lemma take_base: "db_log d = b @ es \<Longrightarrow> length b = n \<Longrightarrow> take n (db_log d) = b"
  by simp

lemma logged_base: "logged V X d \<Longrightarrow> \<exists>es. db_log d = lv_base V @ es"
  unfolding logged_def by blast

lemma length_header [simp]: "length (header_bytes h) = 16"
  by (simp add: header_bytes_def)

lemma gathering_calls [simp]: "gathering h (c\<lparr> cp_calls := calls \<rparr>) raws asked rs d = gathering h c raws asked rs d"
proof -
  have "listed h (c\<lparr> cp_calls := calls \<rparr>) raws cap = listed h c raws cap" for cap
    using pending_same [of "c\<lparr> cp_calls := calls \<rparr>" c] by (simp add: listed_def)
  then show ?thesis by (simp add: gathering_def)
qed

lemma capturedD:
  assumes "captured h p es cap S d"
  shows "header_ok (db_settings d) h" "writes (db_settings d) p es" "\<forall>r\<in>set p. record_ok (db_settings d) r"
    "logged (view (header_bytes h @ es) (bh_system_time h) p {}) {} d"
    "\<forall>st\<in>set cap. store_ok (cs_track_time (db_settings d)) st"
    "logged (view (header_bytes h @ es) (bh_system_time h) (map StoreRecord cap) S) {} d" "so_key ` set cap \<inter> S = {}"
  using assms by (simp_all add: captured_def writes_def)

lemma finish_compacts:
  assumes g: "gathering h c [] {} [] d" and calls: "cp_calls c = []"
  obtains c' where "compact_finish f c = Some c'" "failed c' \<or> works 3 h c' d"
proof -
  obtain p es cap S where c: "captured h p es cap S d" "listed h c [] cap" "ci_till (cp_info c) = length (header_bytes h @ es)"
    "S \<inter> set (keys_of p) = {}" "cp_settings c = db_settings d"
    using g by (auto simp: gathering_def keys_of_def)
  have s: "settings_ok (db_settings d)" using c(2,5) by (simp add: listed_def)
  obtain ok c1 where c1: "compact_writeList f c = Some (ok, c1)" "same_work c c1" "cp_list c1 = []" "ok \<longrightarrow> listed h c1 [] cap"
    by (rule writeList_writes [OF c(2)])
  show ?thesis
  proof (cases ok)
    case False
    then show ?thesis using that [of "compact_fail c1"] c1(1,2) calls failed_calls(1) [of c1] by (simp add: compact_finish_def same_work_def)
  next
    case True
    define c' where "c' = c1\<lparr> cp_log_open := False, cp_file_open := False, cp_phase := CompactFinalizing,
      cp_from := ci_till (cp_info c1), cp_last := 0 \<rparr>"
    have same: "cp_settings c1 = db_settings d" "cp_info c1 = cp_info c" "cp_calls c1 = []"
      using c1(2) c(5) calls by (simp_all add: same_work_def)
    obtain parts eb where parts: "writes (db_settings d) (map MultiStore parts) eb" "cp_file c1 = header_bytes h @ eb"
      "cap = concat parts"
      using c1(3,4) True same(1) by (auto simp: listed_def)
    note cap = capturedD [OF c(1)]
    have "S \<inter> (\<Union>r\<in>set p. set (stored_keys r)) = {}" using c(4) by (simp add: keys_of_def)
    then have "logged (view (header_bytes h @ es) (bh_system_time h) (map StoreRecord cap) {}) {} d"
      by (rule all_taken_over [OF s cap(3-7)])
    then have log: "logged (view (header_bytes h @ es) (bh_system_time h) (map MultiStore parts) {}) {} d"
      using multi_logged [of parts d] parts(1,3) by (simp add: writes_def)
    obtain es' where es': "db_log d = (header_bytes h @ es) @ es'" using logged_base [OF log] by auto
    have "16 dvd length es" using log_bytes_dvd [OF s cap(3)] cap(2) by (simp add: writes_def)
    then have div: "16 dvd length (header_bytes h @ es)" by simp
    have base: "take (length (header_bytes h @ es)) (db_log d) = header_bytes h @ es" by (rule take_base [OF es' refl])
    have "length (header_bytes h @ es) \<le> length (db_log d)" by (simp add: es')
    then have "compacted h c' (cp_from c') d"
      unfolding compacted_def using base div cap(1) parts(1,2) log c(3) same(1,2)
      by (intro conjI exI [of _ "map MultiStore parts"] exI [of _ eb]) (simp_all add: c'_def kHeadSize_def)
    moreover have "compact_finish f c = Some c'" using c1(1) True by (simp add: compact_finish_def c'_def)
    ultimately show ?thesis using that same by (simp add: works_def c'_def)
  qed
qed

lemma parseChunk_works:
  assumes g: "gathering h c [] {} rs d" and calls: "cp_calls c = []" and chunk: "0 < cs_compact_chunk (db_settings d)"
  obtains c' where "compact_parseChunk f (db_log d) c = Some c'" "failed c' \<or> works (2 * length (keys_of rs) + 3) h c' d"
proof -
  obtain p es cap S where c: "captured h p es cap S d" "listed h c [] cap" "ci_till (cp_info c) = length (header_bytes h @ es)"
    "S \<inter> set (keys_of p) \<subseteq> set (keys_of rs)" "cp_settings c = db_settings d"
    using g by (auto simp: gathering_def)
  have s: "settings_ok (db_settings d)" using c(2,5) by (simp add: listed_def)
  let ?rd = "(cp_reader c)\<lparr> br_data := db_log d \<rparr>"
  have "reading (db_settings d) push_keys [] ([] @ keys_of rs) ?rd [] rs" using g by (simp add: gathering_def reads_on_def)
  from readChunk_reads [OF s this] obtain keys rd rs' where rd: "readChunk (db_settings d) ?rd [] = Some (keys, rd)"
    "reading (db_settings d) push_keys [] (keys @ keys_of rs') rd keys rs'" "keys @ keys_of rs' = keys_of rs"
    "br_till rd = br_till (cp_reader c)" "br_data rd = db_log d" "length keys < cs_compact_chunk (db_settings d) \<longrightarrow> rs' = []" by auto
  define c1 where "c1 = c\<lparr> cp_reader := rd \<rparr>"
  have "rd\<lparr> br_data := db_log d \<rparr> = rd" using rd(5) by simp
  then have on: "reads_on (db_settings d) (db_log d) rd rs'" using rd(2) reading_from by (simp add: reads_on_def)
  have "listed h c1 [] cap" using c(2) by (simp add: listed_def c1_def)
  then have g1: "gathering h c1 [] (set keys) rs' d"
    unfolding gathering_def
  proof (intro conjI exI)
    show "captured h p es cap S d" "listed h c1 [] cap" by fact+
    show "S \<inter> set (keys_of p) \<subseteq> set keys \<union> set (keys_of rs')" using c(4) arg_cong [OF rd(3), of set] by simp
  qed (use g c(3,5) on rd(4) in \<open>simp_all add: gathering_def c1_def\<close>)
  have ok: "\<not> br_failed rd" using rd(2) by (auto simp: reading_def)
  have run: "compact_parseChunk f (db_log d) c = (if keys = [] then compact_finish f c1 else Some (compact_call (CallGetManyRaw keys) c1))"
    using g c(5) rd(1) ok by (simp add: compact_parseChunk_def gathering_def c1_def del: readChunk.simps)
  show ?thesis
  proof (cases "keys = []")
    case True
    then have "gathering h c1 [] {} [] d" using g1 rd(6) chunk by simp
    moreover have "cp_calls c1 = []" using calls by (simp add: c1_def)
    ultimately obtain c' where c': "compact_finish f c1 = Some c'" "failed c' \<or> works 3 h c' d" by (rule finish_compacts)
    then show ?thesis using that [of c'] run True works_more [of 3 h c' d] by auto
  next
    case False
    define c2 where "c2 = compact_call (CallGetManyRaw keys) c1"
    have "gathering h c2 [] (set keys) rs' d" using g1 by (simp add: c2_def compact_call_def)
    moreover have "cp_calls c2 = [CallGetManyRaw keys]" using calls by (simp add: c2_def c1_def compact_call_def)
    moreover have "2 * length (keys_of rs') + 5 \<le> 2 * length (keys_of rs) + 3"
      using arg_cong [OF rd(3), of length] False by (cases keys) auto
    ultimately have "works (2 * length (keys_of rs) + 3) h c2 d" unfolding works_def by blast
    then show ?thesis using that [of c2] run False by (simp add: c2_def)
  qed
qed

section \<open>Answers\<close>

lemma entry_of_log:
  assumes c: "captured h p es cap S d" and e: "db_find k d = Some e"
  shows "entry_fits (db_settings d) (bh_system_time h) (tp_relative (db_time d)) e"
proof -
  note cap = capturedD [OF c]
  obtain rs es' where lg: "\<forall>r\<in>set rs. record_ok (db_settings d) r" "\<forall>r\<in>set (p @ rs). record_fits (db_settings d) r"
    "holds (view (header_bytes h @ es) (bh_system_time h) p {}) rs d"
    using cap(3,4) logged_holds [of "view (header_bytes h @ es) (bh_system_time h) p {}" d] by auto
  have "\<forall>r\<in>set (p @ rs). record_clock (cs_track_time (db_settings d)) r 0 \<le> tp_relative (db_time d)"
    using lg(3) clocks_below [of "cs_track_time (db_settings d)" "p @ rs"] by (simp add: holds_def)
  then have "entries_fit (db_settings d) (bh_system_time h) (tp_relative (db_time d))
      (effects (cs_track_time (db_settings d)) (bh_system_time h) k rs
        (effects (cs_track_time (db_settings d)) (bh_system_time h) k p None))"
    using cap(3) lg(1,2) by (intro effects_fit) (simp_all add: entries_fit_def)
  then show ?thesis using holds_find [OF lg(3), of k] e by (simp add: entries_fit_def)
qed

lemma answer_gathers:
  assumes g: "gathering h c [] (set keys) rs d"
  shows "gathering h c (getManyRaw keys d) {} rs d"
proof -
  obtain p es cap S where c: "captured h p es cap S d" "listed h c [] cap" "ci_till (cp_info c) = length (header_bytes h @ es)"
    "S \<inter> set (keys_of p) \<subseteq> set keys \<union> set (keys_of rs)" "cp_settings c = db_settings d" "ci_system_time (cp_info c) < 2 ^ 32"
    using g by (auto simp: gathering_def)
  note cap = capturedD [OF c(1)]
  have s: "settings_ok (db_settings d)" using c(2,5) by (simp add: listed_def)
  have raws: "(k, e) \<in> set (getManyRaw keys d) \<longleftrightarrow> k \<in> set keys \<and> db_find k d = Some e" for k e
    by (auto simp: getManyRaw_def List.map_filter_def image_iff split: option.splits)
  have "\<forall>(k, e)\<in>set (getManyRaw keys d). db_find k d = Some e
      \<and> entry_fits (db_settings d) (bh_system_time h) (tp_relative (db_time d)) e"
    using raws entry_of_log [OF c(1)] by auto
  from pending_fits [OF s c(5,6) this, of "cp_written c"]
  obtain new where new: "pending c (cp_written c) (getManyRaw keys d) = Some new"
    "\<forall>st\<in>set new. takes_over (bh_system_time h) d st" "fst ` set (getManyRaw keys d) \<subseteq> cp_written c \<union> so_key ` set new"
    "so_key ` set new \<subseteq> fst ` set (getManyRaw keys d)" by blast
  obtain parts eb where parts: "writes (cp_settings c) (map MultiStore parts) eb" "cp_file c = header_bytes h @ eb"
    "cp_written c = so_key ` set (concat parts @ cp_list c)" "cap = concat parts @ cp_list c"
    using c(2) by (auto simp: listed_def)
  have seen: "\<forall>k\<in>set keys. db_find k d \<noteq> None \<longrightarrow> k \<in> so_key ` set (cap @ new)"
  proof (intro ballI impI)
    fix k assume k: "k \<in> set keys" "db_find k d \<noteq> None"
    then obtain e where "(k, e) \<in> set (getManyRaw keys d)" using raws by blast
    then have "k \<in> cp_written c \<union> so_key ` set new" using new(3) by force
    then show "k \<in> so_key ` set (cap @ new)" using parts(3,4) by auto
  qed
  have log: "logged (view (header_bytes h @ es) (bh_system_time h) (map StoreRecord (cap @ new)) (S - set keys)) {} d"
    by (rule taken_over [OF s cap(3-7) new(2) seen])
  have keys: "so_key ` set new \<subseteq> set keys" using new(4) raws by fastforce
  have fits: "\<forall>st\<in>set new. store_ok (cs_track_time (db_settings d)) st" using new(2) by (simp add: takes_over_def store_fits_def)
  show ?thesis
    unfolding gathering_def
  proof (intro conjI exI)
    show "captured h p es (cap @ new) (S - set keys) d"
      unfolding captured_def using cap log keys fits by (auto simp: image_Un)
    show "listed h c (getManyRaw keys d) (cap @ new)"
      unfolding listed_def using c(2,5) parts new(1) fits
      by (intro conjI exI [of _ parts] exI [of _ eb] exI [of _ new]) (auto simp: listed_def)
    show "(S - set keys) \<inter> set (keys_of p) \<subseteq> {} \<union> set (keys_of rs)" using c(4) by blast
  qed (use g c(3) in \<open>simp_all add: gathering_def\<close>)
qed

lemma processValues_works:
  assumes g: "gathering h c raws {} rs d" and calls: "cp_calls c = []" and chunk: "0 < cs_compact_chunk (db_settings d)"
  obtains c' where "compact_processValues f (db_log d) raws c = Some c'" "failed c' \<or> works (2 * length (keys_of rs) + 3) h c' d"
proof -
  obtain p es cap S where c: "captured h p es cap S d" "listed h c raws cap" "ci_till (cp_info c) = length (header_bytes h @ es)"
    "S \<inter> set (keys_of p) \<subseteq> set (keys_of rs)" "cp_settings c = db_settings d"
    using g by (auto simp: gathering_def)
  obtain ok c1 where c1: "compact_fillLists f raws c = Some (ok, c1)" "same_work c c1" "ok \<longrightarrow> listed h c1 [] cap"
    by (rule fillLists_lists [OF c(2)])
  show ?thesis
  proof (cases ok)
    case True
    have "gathering h c1 [] {} rs d"
      unfolding gathering_def
    proof (intro conjI exI)
      show "captured h p es cap S d" "listed h c1 [] cap" using c(1) c1(3) True by simp_all
      show "S \<inter> set (keys_of p) \<subseteq> {} \<union> set (keys_of rs)" using c(4) by simp
    qed (use g c(3) c1(2) in \<open>simp_all add: gathering_def same_work_def\<close>)
    moreover have "cp_calls c1 = []" using c1(2) calls by (simp add: same_work_def)
    ultimately obtain c' where "compact_parseChunk f (db_log d) c1 = Some c'" "failed c' \<or> works (2 * length (keys_of rs) + 3) h c' d"
      by (rule parseChunk_works [OF _ _ chunk])
    then show ?thesis using that c1(1) True by (simp add: compact_processValues_def)
  next
    case False
    then show ?thesis
      using that [of "compact_fail c1"] c1(1,2) calls failed_calls(1) [of c1]
      by (simp add: compact_processValues_def same_work_def)
  qed
qed

section \<open>Catching up\<close>

lemma copy_blocks_copies: "0 < block \<Longrightarrow> copy_blocks block log at compact = Some (compact @ drop at log)"
proof (induction block log at compact rule: copy_blocks.induct)
  case (1 block log at compact)
  show ?case
  proof (cases "length log \<le> at")
    case False
    define got where "got = take (min (length log - at) block) (drop at log)"
    have len: "length got = min (length log - at) block" by (simp add: got_def)
    have ne: "got \<noteq> []" using len False 1(2) by auto
    have "got @ drop (at + length got) log = drop at log"
      using len by (simp add: got_def) (metis append_take_drop_id drop_drop add.commute)
    then show ?thesis
      using 1(1) [OF False got_def ne 1(2)] ne False by (simp add: copy_blocks.simps [of block log at] flip: got_def)
  qed (simp add: copy_blocks.simps [of block log at])
qed

lemma CatchUp_copies:
  assumes "16 dvd length log" "at \<le> length log" "0 < block"
  shows "CatchUp ok compact log at block = (if ok then Some (length log, compact @ drop at log) else None)"
  using assms copy_blocks_copies [of block log at compact] by (simp add: CatchUp_def Let_def del: copy_blocks.simps)

lemma compacted_log:
  assumes s: "settings_ok (db_settings d)" and c: "compacted h c n d"
  shows "16 dvd length (db_log d)"
    "cp_settings c' = cp_settings c \<Longrightarrow> cp_file c' = cp_file c @ drop n (db_log d) \<Longrightarrow> compacted h c' (length (db_log d)) d"
proof -
  obtain ms eb where ms: "writes (db_settings d) ms eb" "cp_file c = header_bytes h @ eb"
    "logged (view (take n (db_log d)) (bh_system_time h) ms {}) {} d" "16 dvd n" "n \<le> length (db_log d)" "kHeadSize \<le> n"
    "header_ok (db_settings d) h" "cp_settings c = db_settings d"
    using c by (auto simp: compacted_def)
  obtain rs es where rs: "writes (db_settings d) rs es" "db_log d = take n (db_log d) @ es"
    "logged (view (db_log d) (bh_system_time h) (ms @ rs) {}) {} d"
    using logged_now [OF ms(3)] by auto
  have es: "es = drop n (db_log d)" using rs(2) by (metis append_take_drop_id same_append_eq)
  have "16 dvd length es" using log_bytes_dvd [OF s] rs(1) by (auto simp: writes_def)
  then show log: "16 dvd length (db_log d)" using ms(4,5) es by (simp add: dvd_diff_nat) (metis dvd_diffD)
  assume c': "cp_settings c' = cp_settings c" "cp_file c' = cp_file c @ drop n (db_log d)"
  then show "compacted h c' (length (db_log d)) d"
    unfolding compacted_def using ms rs es log writes_append [OF ms(1) rs(1)]
    by (intro conjI exI [of _ "ms @ rs"] exI [of _ "eb @ es"]) simp_all
qed

lemma turn_works:
  assumes s: "settings_ok (db_settings d)" and c: "compacted h c (cp_from c) d" "cp_calls c = []" "cp_phase c = CompactFinalizing"
  shows "failed (compact_turn f (db_log d) c) \<or> works (if cp_from c = length (db_log d) then 1 else 2) h (compact_turn f (db_log d) c) d"
proof -
  have at: "cp_from c \<le> length (db_log d)" "kHeadSize \<le> length (db_log d)" "cp_settings c = db_settings d"
    using c(1) by (auto simp: compacted_def)
  have "0 < cs_read_block (cp_settings c)" using s at(3) by (simp add: settings_ok_def CheckSettings_def kHeadSize_def)
  then have catch: "CatchUp (cf_copy f) (cp_file c) (db_log d) (cp_from c) (cs_read_block (cp_settings c))
      = (if cf_copy f then Some (length (db_log d), cp_file c @ drop (cp_from c) (db_log d)) else None)"
    by (rule CatchUp_copies [OF compacted_log(1) [OF s c(1)] at(1)])
  have next_ok: "compacted h c' (length (db_log d)) d"
    if "cp_settings c' = cp_settings c" "cp_file c' = cp_file c @ drop (cp_from c) (db_log d)" for c'
    using compacted_log(2) [OF s c(1) that] .
  show ?thesis
    using c(2,3) at(2)
    by (auto simp: compact_turn_def catch Let_def failed_def compact_fail_def compact_call_def works_def kHeadSize_def next_ok)
qed

section \<open>The end\<close>

lemma logged_replaced:
  assumes s: "settings_ok (db_settings d)" and h: "header_ok (db_settings d) h" and ms: "writes (db_settings d) ms eb"
    and log: "logged (view (db_log d) (bh_system_time h) ms {}) {} d"
    and d': "db_settings d' = db_settings d" "db_log d' = header_bytes h @ eb" "db_offset d' = length (db_log d')"
      "db_time d' = db_time d" "db_map d' = db_map d" "db_removing d' = db_removing d" "cw_object (db_compactor d') = None"
  shows "log_good d'"
proof -
  obtain rs es dr where lg: "writes (db_settings d) rs es" "db_log d = db_log d @ es"
    "replay (ms @ rs) (blank (db_settings d) (bh_system_time h)) = Some dr" "mirrors (view (db_log d) (bh_system_time h) ms {}) {} d dr"
    using log by (auto simp: logged_def writes_def)
  have "rs = []" using writes_unique [OF s lg(1), of "[]"] lg(2) by (simp add: writes_def)
  then have "replay ms (blank (db_settings d) (bh_system_time h)) = Some dr" using lg(3) by simp
  moreover have "mirrors (whole h) {} d' dr" using lg(4) d' by (simp add: mirrors_def whole_def clock_below_def db_find_def)
  moreover have "marked (whole h) ms d'" using d'(7) by (simp add: marked_def)
  ultimately have "logged (whole h) {} d'"
    unfolding logged_def using ms d'(1-3)
    by (intro exI [of _ ms] exI [of _ eb] exI [of _ dr]) (simp add: writes_def whole_def)
  then show ?thesis using h d'(1) by (auto simp: log_good_def)
qed

lemma compactorDone_good:
  assumes s: "settings_ok (db_settings d)" and c: "compacted h c till d" and good: "log_good d"
    and v: "db_open d" "ev_move_ok v" "ev_log_open v = OpenSuccess"
    and run: "compactorDone v ok (cp_file c) till d = Some d'"
  shows "log_good d' \<and> db_ready d' = None \<and> db_open d'"
proof -
  have fail: "log_good (compactorFail v d) \<and> db_ready (compactorFail v d) = None \<and> db_open (compactorFail v d)"
  proof -
    have "logged V X d \<Longrightarrow> logged V X (compactorFail v d)" for V X
      by (rule logged_change [where X = X]) (auto simp: compactorFail_def compactor_none_def Let_def)
    then show ?thesis using good v(1) by (auto simp: log_good_def compactorFail_def Let_def)
  qed
  have at: "till \<le> length (db_log d)" using c by (simp add: compacted_def)
  have "0 < cs_read_block (db_settings d)" using s by (simp add: settings_ok_def CheckSettings_def kHeadSize_def)
  note catch = CatchUp_copies [OF compacted_log(1) [OF s c] at this]
  define made where "made = cp_file c @ drop till (db_log d)"
  have made: "(if till \<noteq> binlog_size d then CatchUp ok (cp_file c) (db_log d) till (cs_read_block (db_settings d))
      else Some (till, cp_file c)) = (if ok \<or> till = length (db_log d) then Some (length (db_log d), made) else None)"
    using v(1) by (simp add: catch binlog_size_def made_def)
  define c' where "c' = c\<lparr> cp_file := made \<rparr>"
  have "compacted h c' (length (db_log d)) d"
    by (rule compacted_log(2) [OF s c]) (simp_all add: c'_def made_def)
  then obtain ms eb where ms: "header_ok (db_settings d) h" "writes (db_settings d) ms eb" "made = header_bytes h @ eb"
    "logged (view (db_log d) (bh_system_time h) ms {}) {} d"
    by (auto simp: compacted_def c'_def)
  have "d' = compactorFail v d \<or> compactor_moved v made (d\<lparr> db_ready := Some made \<rparr>) = Some d'"
    using run v(1) unfolding compactorDone_def made by (auto simp: binlog_size_def split: if_splits)
  then show ?thesis
  proof
    assume moved: "compactor_moved v made (d\<lparr> db_ready := Some made \<rparr>) = Some d'"
    then have d': "d' = d\<lparr> db_open := True, db_ready := None, db_log := made, db_offset := length made,
        db_excess := db_excess d - cw_excess (db_compactor d), db_compactor := compactor_none \<rparr>"
      using v by (auto simp: compactor_moved_def Let_def split: if_splits)
    have "log_good d'"
      by (rule logged_replaced [OF s ms(1,2,4)]) (simp_all add: d' ms(3) compactor_none_def)
    then show ?thesis by (simp add: d')
  qed (simp add: fail)
qed

section \<open>The database goes on\<close>

lemma base_kept:
  assumes "logged (view b t p S) X d" "logged (view b t p S) X d'" "n \<le> length b"
  shows "take n (db_log d') = take n (db_log d)" "n \<le> length (db_log d')"
  using logged_base [OF assms(1)] logged_base [OF assms(2)] assms(3) by auto

lemma gathering_goes:
  assumes g: "gathering h c raws asked rs d" and d': "db_settings d' = db_settings d" "\<And>V X. logged V X d \<Longrightarrow> logged V X d'"
  shows "gathering h c raws asked rs d'"
proof -
  obtain p es cap S where c: "captured h p es cap S d" "listed h c raws cap" "ci_till (cp_info c) = length (header_bytes h @ es)"
    "S \<inter> set (keys_of p) \<subseteq> asked \<union> set (keys_of rs)" "br_till (cp_reader c) = ci_till (cp_info c)"
    "reads_on (db_settings d) (db_log d) (cp_reader c) rs"
    using g by (auto simp: gathering_def)
  have base: "take (ci_till (cp_info c)) (db_log d') = take (ci_till (cp_info c)) (db_log d)"
    "ci_till (cp_info c) \<le> length (db_log d')"
    using base_kept [OF capturedD(4) [OF c(1)] d'(2) [OF capturedD(4) [OF c(1)]], of "ci_till (cp_info c)"] c(3) by simp_all
  have "captured h p es cap S d'" using c(1) d' by (simp add: captured_def)
  moreover have "reads_on (db_settings d') (db_log d') (cp_reader c) rs"
    using reads_grown [OF c(6)] base c(5) d'(1) by simp
  ultimately show ?thesis
    using g c(2-4) d'(1) unfolding gathering_def by auto
qed

lemma compacted_goes:
  assumes c: "compacted h c n d" and d': "db_settings d' = db_settings d" "\<And>V X. logged V X d \<Longrightarrow> logged V X d'"
  shows "compacted h c n d'"
proof -
  obtain ms eb where ms: "writes (db_settings d) ms eb" "cp_file c = header_bytes h @ eb" "n \<le> length (db_log d)"
    "logged (view (take n (db_log d)) (bh_system_time h) ms {}) {} d"
    using c by (auto simp: compacted_def)
  have "take n (db_log d') = take n (db_log d)" "n \<le> length (db_log d')"
    using base_kept [OF ms(4) d'(2) [OF ms(4)], of n] ms(3) by simp_all
  then show ?thesis using c ms d' unfolding compacted_def by auto
qed

lemma works_goes:
  assumes w: "works n h c d" and d': "db_settings d' = db_settings d" "\<And>V X. logged V X d \<Longrightarrow> logged V X d'"
  shows "works (n + 1) h c d'"
proof -
  consider keys rs where "cp_calls c = [CallGetManyRaw keys]" "gathering h c [] (set keys) rs d" "2 * length (keys_of rs) + 5 \<le> n"
    | "cp_calls c = []" "cp_phase c = CompactFinalizing" "compacted h c (cp_from c) d" "2 \<le> n"
    | till where "cp_calls c = [CallDone till]" "compacted h c till d" "1 \<le> n"
    using w unfolding works_def by (auto split: if_splits)
  then show ?thesis
  proof cases
    case 1
    then show ?thesis using gathering_goes [OF 1(2) d'] unfolding works_def by (intro disjI1 exI [of _ keys] exI [of _ rs]) simp
  next
    case 2
    then show ?thesis using compacted_goes [OF 2(3) d'] by (simp add: works_def)
  next
    case 3
    then show ?thesis using compacted_goes [OF 3(2) d'] by (simp add: works_def)
  qed
qed

section \<open>The start\<close>

lemma parseChunk_failed:
  assumes "failed c" "cp_list c = []" "cp_log_open c \<Longrightarrow> settings_ok (cp_settings c) \<and> reads_on (cp_settings c) log (cp_reader c) rs"
    "\<not> cp_log_open c \<Longrightarrow> \<not> br_failed (cp_reader c)"
  obtains c' where "compact_parseChunk f log c = Some c'" "failed c'"
proof -
  have finish: "\<exists>c'. compact_finish f c1 = Some c' \<and> failed c'" if "cp_calls c1 = cp_calls c" "cp_list c1 = []" for c1
    using that assms(1) by (simp add: compact_finish_def compact_writeList_def failed_def)
  have "\<exists>c'. compact_parseChunk f log c = Some c' \<and> failed c'"
  proof (cases "cp_log_open c")
    case False
    then show ?thesis using assms(2,4) finish [of c] by (simp add: compact_parseChunk_def)
  next
    case True
    then have "reading (cp_settings c) push_keys [] ([] @ keys_of rs) ((cp_reader c)\<lparr> br_data := log \<rparr>) [] rs"
      and s: "settings_ok (cp_settings c)" using assms(3) by (simp_all add: reads_on_def)
    from readChunk_reads [OF s this(1)]
    obtain keys rd where rd: "readChunk (cp_settings c) ((cp_reader c)\<lparr> br_data := log \<rparr>) [] = Some (keys, rd)" by blast
    define c1 where "c1 = c\<lparr> cp_reader := rd \<rparr>"
    have "failed (compact_fail c1)" "failed (compact_call (CallGetManyRaw keys) c1)"
      using assms(1) failed_calls [of c1] by (auto simp: failed_def c1_def)
    moreover have "compact_parseChunk f log c = (if br_failed rd then Some (compact_fail c1)
        else if keys = [] then compact_finish f c1 else Some (compact_call (CallGetManyRaw keys) c1))"
      using True rd by (simp add: compact_parseChunk_def c1_def del: readChunk.simps)
    moreover obtain c' where "compact_finish f c1 = Some c'" "failed c'" using finish [of c1] assms(2) by (auto simp: c1_def)
    ultimately show ?thesis by auto
  qed
  then show ?thesis using that by blast
qed

lemma nothing_captured:
  assumes "logged (view b t p {}) {} d" "\<forall>r\<in>set p. record_ok (db_settings d) r"
  shows "logged (view b t [] UNIV) {} d"
proof -
  obtain rs es where lg: "writes (db_settings d) rs es" "db_log d = b @ es" "db_offset d = length (db_log d)"
    "\<forall>r\<in>set (p @ rs). record_fits (db_settings d) r" "holds (view b t p {}) rs d"
    using assms logged_holds [of "view b t p {}" d] by (auto simp: writes_def)
  have "fold (record_clock (cs_track_time (db_settings d))) (p @ rs) t \<le> tp_relative (db_time d)"
    using lg(5) by (simp add: holds_def)
  then have "fold (record_clock (cs_track_time (db_settings d))) ([] @ rs) t \<le> tp_relative (db_time d)"
    unfolding clocks_below by auto
  then have "holds (view b t [] UNIV) rs d" using lg(5) by (simp add: holds_def)
  then show ?thesis using logged_from_holds [OF lg(1-3)] lg(4) by simp
qed

lemma start_works:
  assumes s: "settings_ok (db_settings d)" and good: "log_good d" and info: "cw_object (db_compactor d) = Some info"
      "ci_system_time info < 2 ^ 32" and chunk: "0 < cs_compact_chunk (db_settings d)"
  obtains h c where "compact_start f (db_log d) (compactor_new (db_settings d) info) = Some c" "failed c \<or> (\<exists>n. works n h c d)"
proof -
  obtain h where h: "header_ok (db_settings d) h" "logged (whole h) {} d" using good by (auto simp: log_good_def)
  obtain p es where p: "writes (db_settings d) p es" "ci_till info = length (header_bytes h @ es)"
    "logged (view (header_bytes h @ es) (bh_system_time h) p {}) {} d"
    using logged_at_mark [OF h(2) _ info(1)] by (auto simp: whole_def)
  obtain rs es' where rs: "writes (db_settings d) rs es'" "db_log d = (header_bytes h @ es) @ es'"
    by (rule logged_now [OF p(3)]) simp
  have div: "16 dvd length es" "16 dvd length es'"
    using log_bytes_dvd [OF s, of p es] log_bytes_dvd [OF s, of rs es'] p(1) rs(1) by (simp_all add: writes_def)
  then have size: "length (db_log d) div 16 * 16 = length (db_log d)" by (simp add: rs(2))
  define c0 where "c0 = (compactor_new (db_settings d) info)\<lparr> cp_log_open := True,
    cp_reader := (reader_new [] 0 (ci_till info))\<lparr> br_offset := kHeadSize \<rparr>, cp_header := h \<rparr>"
  define c1 where "c1 = c0\<lparr> cp_file_open := True, cp_file := header_bytes h \<rparr>"
  have till: "ci_till info = 16 + length es" "ci_till info \<le> length (db_log d)" using p(2) by (simp_all add: rs(2))
  have base: "take (ci_till info) (db_log d) = header_bytes h @ es" using take_base [OF rs(2)] p(2) by simp
  have reads: "reads_on (db_settings d) (db_log d) (cp_reader c0) p"
    unfolding reads_on_def reading_def using p(1) till base div(1) s
    by (intro exI [of _ es]) (auto simp: c0_def reader_new_def kHeadSize_def push_all writes_def stuck_def ReadRecordSize_def
        settings_ok_def CheckSettings_def)
  have opened: "compact_openBinlog f (db_log d) (compactor_new (db_settings d) info)
      = (if cf_log f = OpenSuccess then (True, (compactor_new (db_settings d) info)\<lparr> cp_log_open := True \<rparr>)
         else (False, compactor_new (db_settings d) info))"
    using till(2) size by (simp add: compact_openBinlog_def compactor_new_def)
  have header: "compact_readHeader (db_log d) ((compactor_new (db_settings d) info)\<lparr> cp_log_open := True \<rparr>) = (True, c0)"
    using header_reads [OF h(1), of "es @ es'"] rs(2)
    by (simp add: compact_readHeader_def c0_def compactor_new_def kHeadSize_def)
  show ?thesis
  proof (cases "cf_log f = OpenSuccess \<and> cf_new f = OpenSuccess \<and> cf_write f 0")
    case True
    have run: "compact_start f (db_log d) (compactor_new (db_settings d) info) = compact_parseChunk f (db_log d) c1"
      using True chunk opened header
      by (simp add: compact_start_def compact_openCompact_def compact_write_def c1_def) (simp add: c0_def compactor_new_def)
    have "captured h p es [] UNIV d"
      using h(1) p(1,3) nothing_captured [OF p(3)] by (simp add: captured_def writes_def)
    moreover have "listed h c1 [] []"
      using s by (auto simp: listed_def c1_def c0_def compactor_new_def writes_def intro!: exI [of _ "[]"])
    ultimately have "gathering h c1 [] {} p d"
      unfolding gathering_def using reads p(2) info(2)
      by (intro conjI exI) (auto simp: c1_def c0_def compactor_new_def reader_new_def)
    then show ?thesis
      using parseChunk_works [of h c1 p d f] run that chunk by (auto simp: c1_def c0_def compactor_new_def)
  next
    case False
    define cx where "cx = (if cf_log f \<noteq> OpenSuccess then compact_fail (compactor_new (db_settings d) info)
      else compact_fail (if cf_new f = OpenSuccess then c0\<lparr> cp_file_open := True, cp_file := [] \<rparr> else c0))"
    have run: "compact_start f (db_log d) (compactor_new (db_settings d) info) = compact_parseChunk f (db_log d) cx"
      using False chunk opened header
      by (auto simp: compact_start_def compact_openCompact_def compact_write_def cx_def Let_def)
        (simp_all add: c0_def compactor_new_def compact_fail_def compact_call_def)
    have "failed cx" "cp_list cx = []" "cp_log_open cx \<Longrightarrow> cp_settings cx = db_settings d \<and> cp_reader cx = cp_reader c0"
      "\<not> cp_log_open cx \<Longrightarrow> \<not> br_failed (cp_reader cx)"
      by (auto simp: cx_def failed_def compact_fail_def compact_call_def c0_def compactor_new_def reader_new_def split: if_splits)
    then obtain c' where "compact_parseChunk f (db_log d) cx = Some c'" "failed c'"
      using parseChunk_failed [of cx "db_log d" p f] s reads by metis
    then show ?thesis using that [of c' h] run by simp
  qed
qed

end
