(* ===== verification/CacheHistory.thy ===== *)
theory CacheHistory imports CacheReopen CacheCompactorRun begin

text \<open>
  The states a cache can be in, from the first time it is opened: those that any events lead to, and
  those that events lead to whose writes to the log succeed, with a compactor that works beside them, in
  which the log replays to the map.
\<close>

section \<open>Reachable states\<close>

inductive cache_reachable :: "database \<Rightarrow> bool" where
  reachable_first: "settings_ok s \<Longrightarrow> cache_open v (blank s 0) = Some (NoError, d) \<Longrightarrow> cache_reachable d"
| reachable_event: "cache_reachable d \<Longrightarrow> cache_enabled v ev d \<Longrightarrow> cache_step v ev d = Some d' \<Longrightarrow> cache_reachable d'"

lemma cache_reachable_inv: "cache_reachable d \<Longrightarrow> cache_inv d"
proof (induction rule: cache_reachable.induct)
  case (reachable_first s v d)
  then show ?case using first_open by (auto simp: new_cache_def)
next
  case (reachable_event d v ev d')
  then show ?case using cache_step_inv [of d v ev] by (auto elim!: returnsE)
qed

text \<open>What opens nothing leaves nothing behind.\<close>

lemma openBinlog_fails:
  assumes d: "vacant d" "db_ready d = None" and empty: "fresh \<or> db_log d = []" "opened = OpenSuccess \<longrightarrow> \<not> ev_log_ok v"
  shows "returns (\<lambda>(o', f). o' \<noteq> OpenSuccess \<and> vacant f \<and> db_ready f = None) (openBinlog v opened fresh d)"
  using assms by (auto simp: openBinlog_def writeHeader_def Let_def vacant_def files_ok_def)

lemma openBinlog_returns:
  assumes d: "vacant d" "db_ready d = None" and empty: "fresh \<or> db_log d = []"
  shows "returns (\<lambda>(o', f). o' = OpenSuccess \<and> db_open f \<or> o' \<noteq> OpenSuccess \<and> vacant f \<and> db_ready f = None) (openBinlog v opened fresh d)"
proof (cases "opened = OpenSuccess \<and> ev_log_ok v")
  case True
  then show ?thesis using new_log [OF d empty, of v] by (auto elim!: returns_mono)
next
  case False
  then show ?thesis using openBinlog_fails [OF d empty, of opened v] by (auto elim!: returns_mono)
qed

lemma openNewBinlog_returns:
  assumes "vacant d"
  shows "returns (\<lambda>(error, f). error = NoError \<or> vacant f) (openNewBinlog v d)"
proof -
  have "vacant (d\<lparr> db_files := Map.empty, db_ready := None, db_log := [] \<rparr>)" using assms by (simp add: vacant_def files_ok_def)
  from openBinlog_returns [OF this, of True v "ev_new_open v"] show ?thesis
    using assms by (auto simp: openNewBinlog_def elim!: returnsE split: if_splits)
qed

lemma vacant_closes: "vacant d \<Longrightarrow> cache_close v d \<noteq> None"
  by (simp add: cache_close_def writeBundles_def writeMultiRemove_def writeMultiAccess_def vacant_def)

lemma first_open_returns:
  assumes "settings_ok s"
  shows "cache_open v (blank s t) \<noteq> None"
proof -
  define b where "b = clearState (blank s t)"
  have b: "vacant b" "db_ready b = None" "db_log b = []"
    using assms vacant_clearState [of "blank s t"] by (simp_all add: b_def blank_def files_ok_def) (simp_all add: clearState_def)
  have close: "cache_close v (blank s t) = Some b" by (simp add: cache_close_def b_def blank_def)
  have "returns (\<lambda>(error, f). error = NoError \<or> vacant f) (openSomeBinlog v b)"
    using openBinlog_returns [OF b(1,2), of False v "ev_log_open v"]
      openNewBinlog_returns [of _ v] b(3)
    by (auto simp: openSomeBinlog_def elim!: returnsE split: open_result.splits if_splits)
  then show ?thesis
    using vacant_closes by (auto simp: cache_open_def close elim!: returnsE split: if_splits)
qed

section \<open>Histories\<close>

text \<open>Events that leave the log as it is but for what they write to its end.\<close>

definition appends :: "cache_event \<Rightarrow> bool" where
  "appends ev \<longleftrightarrow> (case ev of EvUpdateSettings bulk age \<Rightarrow> False | EvCompactorDone ok compact till \<Rightarrow> False | _ \<Rightarrow> True)"

text \<open>The database with what is left of a compaction. Events and the steps of the compaction come in
  any order; what the compactor reads and writes may fail, the log is moved and opened again.\<close>

inductive cache_history :: "database \<Rightarrow> compaction \<Rightarrow> bool" where
  history_first: "settings_ok s \<Longrightarrow> cache_open v (blank s 0) = Some (NoError, d) \<Longrightarrow> cache_history d NoCompaction"
| history_event: "cache_history d work \<Longrightarrow> cache_enabled v ev d \<Longrightarrow> appends ev \<Longrightarrow> fine v d \<Longrightarrow> cache_step v ev d = Some d'
    \<Longrightarrow> cache_history d' (compaction_left d' work)"
| history_compaction: "cache_history d work \<Longrightarrow> ev_move_ok v \<Longrightarrow> ev_log_open v = OpenSuccess
    \<Longrightarrow> compaction_step v f d work = Some (d', work') \<Longrightarrow> cache_history d' work'"
| history_again: "cache_history d work \<Longrightarrow> log_fine v d \<Longrightarrow> clock_room v d \<Longrightarrow> ev_log_open v = OpenSuccess
    \<Longrightarrow> cache_open v d = Some (NoError, d') \<Longrightarrow> cache_history d' NoCompaction"

definition goes :: "env \<Rightarrow> database \<Rightarrow> database \<Rightarrow> bool" where
  "goes v d d' \<longleftrightarrow> cache_inv d' \<and> follows v d d' \<and> (\<forall>V X. fine v d \<longrightarrow> logged V X d \<longrightarrow> logged V X d')"

lemma fine_follows: "follows v d d' \<Longrightarrow> fine v d \<Longrightarrow> fine v d'"
  using follows_fine by (auto simp: fine_def)

lemma goes_good: "goes v d d' \<Longrightarrow> fine v d \<Longrightarrow> log_good d \<Longrightarrow> log_good d'"
  unfolding goes_def follows_def log_good_def by auto

lemma goes_trans: "goes v d d' \<Longrightarrow> goes v d' d'' \<Longrightarrow> goes v d d''"
  unfolding goes_def using follows_trans fine_follows by blast

lemma goes_refl: "cache_inv d \<Longrightarrow> goes v d d"
  by (simp add: goes_def)

lemma keeps_goes: "keeps v d d' \<Longrightarrow> goes v d d'"
  by (simp add: goes_def keeps_def fine_def)

lemma removes_goes: "removes v k d d' \<Longrightarrow> goes v d d'"
  by (simp add: goes_def removes_def fine_def)

lemma cleans_goes: "cleans v K d d' \<Longrightarrow> goes v d d'"
  using cleans_inv cleans_follows cleans_logged by (simp add: goes_def fine_def)

lemma put_goes: "put_post v k value d error d' \<Longrightarrow> goes v d d'"
  by (simp add: goes_def put_post_def)

lemma copy_goes:
  "removes v a d d1 \<Longrightarrow> put_post v b value d1 error d' \<Longrightarrow> goes v d d'"
  "put_post v b value d error d1 \<Longrightarrow> keeps v d1 d' \<Longrightarrow> goes v d d'"
  using goes_trans [OF removes_goes put_goes] goes_trans [OF put_goes keeps_goes] by blast+

lemma move_goes: "move_post v a b d error d' \<Longrightarrow> goes v d d'"
  by (simp add: goes_def move_post_def fine_def)

lemma books_goes: "cache_inv d \<Longrightarrow> books d' = books d \<Longrightarrow> goes v d d'"
  using cleans_goes [OF books_cleans] .

lemma appends_goes:
  assumes d: "cache_inv d" and ok: "cache_enabled v ev d" and app: "appends ev" and ready: "db_ready d = None"
  shows "returns (goes v d) (cache_step v ev d)"
proof (cases ev)
  case (EvPut k val)
  then show ?thesis using ok cache_put_keeps [OF d, of val v k]
    by (auto simp: cache_step_def cache_enabled_def elim!: returns_mono dest: put_goes)
next
  case (EvGet k)
  then show ?thesis using cache_get_keeps [OF d, of v k]
    by (auto simp: cache_step_def elim!: returns_mono dest: removes_goes keeps_goes split: if_splits)
next
  case (EvGetWithSizes k keys)
  then show ?thesis using getWithSizes_keeps [OF d, of v k keys]
    by (auto simp: cache_step_def elim!: returns_mono dest: removes_goes keeps_goes split: if_splits)
next
  case (EvRemove k)
  then show ?thesis using cache_remove_keeps [OF d, of v k]
    by (auto simp: cache_step_def elim!: returns_mono dest: removes_goes)
next
  case (EvPutIfEmpty k val)
  then show ?thesis using ok d cache_put_keeps [OF d, of val v k]
    by (auto simp: cache_step_def cache_enabled_def putIfEmpty_def elim!: returns_mono dest: put_goes intro: goes_refl)
next
  case (EvCopyIfEmpty a b)
  then show ?thesis using ok d copyIfEmpty_keeps [OF d, of v b a]
    by (auto simp: cache_step_def cache_enabled_def elim!: returns_mono
        dest: copy_goes intro: goes_refl split: if_splits)
next
  case (EvMoveIfEmpty a b)
  then show ?thesis using moveIfEmpty_keeps [OF d, of v a b]
    by (auto simp: cache_step_def elim!: returns_mono dest: move_goes)
next
  case (EvClearByTag tag)
  then show ?thesis using clearByTag_returns [OF d, of v tag]
    by (auto simp: cache_step_def elim!: returns_mono dest: cleans_goes)
next
  case EvClearStale
  then show ?thesis using clear_all_stale_cleans [OF d, of v]
    by (auto simp: cache_step_def elim!: returns_mono dest: cleans_goes)
next
  case EvBundlesTimer
  have start: "goes v d (d\<lparr> db_bundles_timer := None \<rparr>)" by (rule books_goes [OF d books_stale(4)])
  then have "cache_inv (d\<lparr> db_bundles_timer := None \<rparr>)" by (simp add: goes_def)
  then show ?thesis using EvBundlesTimer writeBundles_keeps [of "d\<lparr> db_bundles_timer := None \<rparr>" v]
    by (auto simp: cache_step_def bundles_timer_fired_def elim!: returns_mono
        intro: goes_trans [OF start] keeps_goes [OF keeps_trans [OF _ checkCompactor_keeps [OF keepsD(1)]]])
next
  case EvPruneTimer
  have start: "goes v d (d\<lparr> db_prune_timer := None \<rparr>)" by (rule books_goes [OF d books_stale(3)])
  then have "cache_inv (d\<lparr> db_prune_timer := None \<rparr>)" by (simp add: goes_def)
  then show ?thesis using EvPruneTimer prune_returns [of "d\<lparr> db_prune_timer := None \<rparr>" v]
    by (auto simp: cache_step_def prune_timer_fired_def elim!: returns_mono intro: goes_trans [OF start cleans_goes])
next
  case EvPushPosted
  have "books (push_posted d) = books d" by (simp add: push_posted_def pushStats_def books_def)
  then show ?thesis using EvPushPosted books_goes [OF d] by (simp add: cache_step_def)
next
  case EvClearPosted
  have start: "goes v d (d\<lparr> db_clearing := False \<rparr>)" by (rule books_goes [OF d books_stale(2)])
  then have "cache_inv (d\<lparr> db_clearing := False \<rparr>)" by (simp add: goes_def)
  then show ?thesis using EvClearPosted clearStaleChunk_cleans [of "d\<lparr> db_clearing := False \<rparr>" v]
    by (auto simp: cache_step_def clear_posted_def elim!: returns_mono intro: goes_trans [OF start cleans_goes] goes_refl [OF d])
next
  case EvCleanerDone
  have "books (cleanerDone d) = books d" by (simp add: cleanerDone_def pushStatsDelayed_def books_def)
  then show ?thesis using EvCleanerDone books_goes [OF d] by (simp add: cache_step_def)
next
  case (EvConsumers c)
  have "books (d\<lparr> db_consumers := c \<rparr>) = books d" by (simp add: books_def)
  then show ?thesis using EvConsumers books_goes [OF d] by (simp add: cache_step_def)
next
  case EvCompactorFailed
  have "follows v d (compactorFail v d)" using ready
    by (simp add: compactorFail_def Let_def follows_def countRelativeTime_def time_passed_def)
  moreover have "logged V X (compactorFail v d)" if "logged V X d" for V X
    by (rule logged_change [OF that]) (simp_all add: compactorFail_def compactor_none_def Let_def)
  ultimately show ?thesis using EvCompactorFailed compactorFail_inv [OF d, of v] by (simp add: cache_step_def goes_def)
qed (use app in \<open>simp_all add: appends_def\<close>)

text \<open>The compactor can go on from where it is, for at most \<open>n\<close> steps if nothing else happens.\<close>

definition at_work :: "nat \<Rightarrow> compaction \<Rightarrow> database \<Rightarrow> bool" where
  "at_work n work d \<longleftrightarrow> work \<noteq> NoCompaction \<longrightarrow> cw_object (db_compactor d) \<noteq> None \<and> 0 < cs_compact_chunk (db_settings d) \<and> 0 < n
     \<and> (case work of
          NoCompaction \<Rightarrow> True
        | AtWork c \<Rightarrow> failed c \<or> (\<exists>h. works n h c d)
        | Answered c raws \<Rightarrow> cp_calls c = [] \<and> (\<exists>h rs. gathering h c raws {} rs d \<and> 2 * length (keys_of rs) + 4 \<le> n))"

lemma at_work_none [simp]: "at_work n NoCompaction d"
  by (simp add: at_work_def)

lemma at_work_AtWork:
  "at_work n (AtWork c) d \<longleftrightarrow> cw_object (db_compactor d) \<noteq> None \<and> 0 < cs_compact_chunk (db_settings d) \<and> 0 < n
    \<and> (failed c \<or> (\<exists>h. works n h c d))"
  by (simp add: at_work_def)

lemma at_work_goes:
  assumes w: "at_work n work d" and d': "db_settings d' = db_settings d" "\<And>V X. logged V X d \<Longrightarrow> logged V X d'"
  shows "at_work (n + 1) (compaction_left d' work) d'"
proof (cases "cw_object (db_compactor d') = None")
  case True
  then show ?thesis by (simp add: compaction_left_def)
next
  case False
  then have left: "compaction_left d' work = work" unfolding compaction_left_def by (rule if_not_P)
  show ?thesis
  proof (cases work)
    case (AtWork c)
    then show ?thesis
      using w False d'(1) works_goes [OF _ d'] unfolding left by (auto simp: at_work_def)
  next
    case (Answered c raws)
    then obtain h rs where "gathering h c raws {} rs d" "2 * length (keys_of rs) + 4 \<le> n" using w by (auto simp: at_work_def)
    then have "\<exists>h rs. gathering h c raws {} rs d' \<and> 2 * length (keys_of rs) + 4 \<le> n + 1"
      using gathering_goes [OF _ d'] by (intro exI [of _ h] exI [of _ rs]) simp
    then show ?thesis using w False d'(1) Answered unfolding left by (simp add: at_work_def)
  qed (simp add: compaction_left_def)
qed

text \<open>A step ends the compaction or leaves the database alone and has one step less to go.\<close>

lemma start_goes_on:
  assumes d: "cache_inv d" "log_good d" and info: "cw_object (db_compactor d) = Some info" and chunk: "0 < cs_compact_chunk (db_settings d)"
  shows "\<exists>work' n. compaction_step v f d NoCompaction = Some (d, work') \<and> at_work n work' d \<and> work' \<noteq> NoCompaction"
proof -
  have "settings_ok (db_settings d)" "ci_system_time info < 2 ^ 32" using d(1) info by (simp_all add: cache_inv_def excess_ok_def)
  from start_works [OF this(1) d(2) info this(2) chunk] obtain h c n
    where c: "compact_start f (db_log d) (compactor_new (db_settings d) info) = Some c" "failed c \<or> works n h c d" by metis
  then have "at_work (n + 1) (AtWork c) d" using info chunk works_more [of n h c d "n + 1"] by (auto simp: at_work_AtWork)
  then show ?thesis using c(1) info by (auto simp: compaction_step_def)
qed

lemma work_goes_on:
  assumes d: "cache_inv d" "log_good d" "db_ready d = None" "db_open d" and work: "at_work n work d" "work \<noteq> NoCompaction"
    and v: "ev_move_ok v" "ev_log_open v = OpenSuccess"
  shows "returns (\<lambda>(d', work'). work' = NoCompaction \<and> cw_object (db_compactor d') = None \<and> cache_inv d' \<and> log_good d'
      \<and> db_ready d' = None \<and> db_open d' \<and> shape d' = shape d \<and> db_files d' = db_files d
      \<or> d' = d \<and> work' \<noteq> NoCompaction \<and> (\<exists>m<n. at_work m work' d)) (compaction_step v f d work)"
proof -
  have s: "settings_ok (db_settings d)" using d(1) by (simp add: cache_inv_def)
  have object: "cw_object (db_compactor d) \<noteq> None" "0 < cs_compact_chunk (db_settings d)" "0 < n"
    using work by (simp_all add: at_work_def)
  show ?thesis
  proof (cases work)
    case (Answered c raws)
    then obtain h rs where g: "gathering h c raws {} rs d" "cp_calls c = []" "2 * length (keys_of rs) + 4 \<le> n"
      using work by (auto simp: at_work_def)
    obtain c' where c': "compact_processValues f (db_log d) raws c = Some c'" "failed c' \<or> works (2 * length (keys_of rs) + 3) h c' d"
      by (rule processValues_works [OF g(1,2) object(2)])
    then have "at_work (2 * length (keys_of rs) + 3) (AtWork c') d" using object by (auto simp: at_work_AtWork)
    moreover have "2 * length (keys_of rs) + 3 < n" using g(3) by simp
    ultimately show ?thesis using Answered c'(1) by (auto simp: compaction_step_def)
  next
    case (AtWork c)
    show ?thesis
    proof (cases "failed c")
      case True
      have "logged V X (compactorFail v d)" if "logged V X d" for V X
        by (rule logged_change [OF that]) (simp_all add: compactorFail_def compactor_none_def Let_def)
      then have "log_good (compactorFail v d)" using d(2) by (auto simp: log_good_def compactorFail_def Let_def)
      moreover have "db_ready (compactorFail v d) = None" "db_open (compactorFail v d)" "shape (compactorFail v d) = shape d"
        "db_files (compactorFail v d) = db_files d" "cw_object (db_compactor (compactorFail v d)) = None"
        using d(4) by (simp_all add: compactorFail_def compactor_none_def Let_def shape_def db_find_def)
      ultimately show ?thesis
        using True AtWork compactorFail_inv [OF d(1), of v] by (auto simp: compaction_step_def failed_def)
    next
      case False
      then obtain h where "works n h c d" using work AtWork by (auto simp: at_work_def)
      then consider keys rs where "cp_calls c = [CallGetManyRaw keys]" "gathering h c [] (set keys) rs d" "2 * length (keys_of rs) + 5 \<le> n"
        | "cp_calls c = []" "cp_phase c = CompactFinalizing" "compacted h c (cp_from c) d"
          "(if cp_from c = length (db_log d) then 2 else 3) \<le> n"
        | till where "cp_calls c = [CallDone till]" "compacted h c till d"
        unfolding works_def by blast
      then show ?thesis
      proof cases
        case 1
        have "gathering h (c\<lparr> cp_calls := [] \<rparr>) (getManyRaw keys d) {} rs d"
          using answer_gathers [OF 1(2)] by simp
        then have "at_work (2 * length (keys_of rs) + 4) (Answered (c\<lparr> cp_calls := [] \<rparr>) (getManyRaw keys d)) d"
          using object by (auto simp: at_work_def)
        moreover have "2 * length (keys_of rs) + 4 < n" using 1(3) by simp
        ultimately show ?thesis using AtWork 1(1) by (auto simp: compaction_step_def)
      next
        case 2
        define m where "m = (if cp_from c = length (db_log d) then 1 else 2 :: nat)"
        have "at_work m (AtWork (compact_turn f (db_log d) c)) d"
          using object turn_works [OF s 2(3,1,2), of f] by (auto simp: at_work_AtWork m_def)
        moreover have "m < n" using 2(4) by (auto simp: m_def split: if_splits)
        ultimately show ?thesis using AtWork 2(1) by (auto simp: compaction_step_def)
      next
        case 3
        obtain d' where d': "compactorDone v (cf_copy f) (cp_file c) till d = Some d'" "cache_inv d'" "shape d' = shape d"
          "db_files d' = db_files d"
          using compactorDone_inv [OF d(1) object(1), of v "cf_copy f" "cp_file c" till] by (auto elim!: returnsE)
        have "cw_object (db_compactor d') = None"
          using d'(1) by (auto simp: compactorDone_def compactor_moved_def compactorFail_def compactor_none_def Let_def
              split: if_splits option.splits prod.splits)
        then show ?thesis
          using AtWork 3(1) d' compactorDone_good [OF s 3(2) d(2,4) v d'(1)] by (simp add: compaction_step_def)
      qed
    qed
  qed (use work in simp)
qed

text \<open>Without a size for the chunks the first assertion of the compactor fails.\<close>

lemma started_chunk:
  "compaction_step v f d NoCompaction = Some (d', work') \<Longrightarrow> d' = d \<and> work' = NoCompaction \<or> 0 < cs_compact_chunk (db_settings d)
    \<and> cw_object (db_compactor d) \<noteq> None"
  by (auto simp: compaction_step_def compact_start_def compactor_new_def split: option.splits if_splits)

lemma history_inv: "cache_history d work \<Longrightarrow> cache_inv d \<and> log_good d \<and> db_ready d = None \<and> db_open d \<and> (\<exists>n. at_work n work d)"
proof (induction rule: cache_history.induct)
  case (history_first s v d)
  then show ?case using first_open by (auto simp: new_cache_def)
next
  case (history_event d work v ev d')
  then have goes: "goes v d d'" using appends_goes [of d v ev] by (auto elim!: returnsE)
  obtain n where n: "at_work n work d" using history_event by blast
  have "db_settings d' = db_settings d" "\<And>V X. logged V X d \<Longrightarrow> logged V X d'"
    using goes history_event.hyps by (simp_all add: goes_def follows_def)
  from at_work_goes [OF n this] have "\<exists>n. at_work n (compaction_left d' work) d'" by blast
  moreover have "cache_inv d' \<and> log_good d' \<and> db_ready d' = None \<and> db_open d'"
    using history_event goes_good [OF goes] goes by (auto simp: goes_def follows_def fine_def log_fine_def)
  ultimately show ?case by blast
next
  case (history_compaction d work v f d' work')
  show ?case
  proof (cases "work = NoCompaction")
    case True
    then show ?thesis
      using history_compaction started_chunk [of v f d d' work'] start_goes_on [of d _ v f] by fastforce
  next
    case False
    then show ?thesis
      using history_compaction work_goes_on [of d _ work v f] by (fastforce elim!: returnsE)
  qed
next
  case (history_again d work v d')
  then show ?case using reopen_same [of d v] by (auto elim!: returnsE)
qed

text \<open>A compaction the database does not disturb, each step with what its files answer.\<close>

primrec compaction_run :: "env \<Rightarrow> (nat \<Rightarrow> compactor_files) \<Rightarrow> nat \<Rightarrow> database \<Rightarrow> compaction \<Rightarrow> (database \<times> compaction) option" where
  "compaction_run v fs 0 d work = Some (d, work)"
| "compaction_run v fs (Suc n) d work =
     do { (d, work) \<leftarrow> compaction_step v (fs 0) d work; compaction_run v (\<lambda>i. fs (Suc i)) n d work }"

lemma work_ends:
  assumes d: "cache_inv d" "log_good d" "db_ready d = None" "db_open d" and work: "at_work n work d" "work \<noteq> NoCompaction"
    and v: "ev_move_ok v" "ev_log_open v = OpenSuccess"
  shows "\<exists>m d'. compaction_run v fs m d work = Some (d', NoCompaction) \<and> cw_object (db_compactor d') = None
    \<and> shape d' = shape d \<and> db_files d' = db_files d"
  using work
proof (induction n arbitrary: work fs rule: less_induct)
  case (less n)
  obtain d1 work1 where step: "compaction_step v (fs 0) d work = Some (d1, work1)"
    "work1 = NoCompaction \<and> cw_object (db_compactor d1) = None \<and> shape d1 = shape d \<and> db_files d1 = db_files d
      \<or> d1 = d \<and> work1 \<noteq> NoCompaction \<and> (\<exists>m<n. at_work m work1 d)"
    using work_goes_on [OF d less.prems v, of "fs 0"] by (auto elim!: returnsE)
  from step(2) show ?case
  proof (elim disjE conjE exE)
    assume "work1 = NoCompaction" "cw_object (db_compactor d1) = None" "shape d1 = shape d" "db_files d1 = db_files d"
    then show ?thesis using step(1) by (intro exI [of _ 1] exI [of _ d1]) simp
  next
    fix m assume m: "d1 = d" "work1 \<noteq> NoCompaction" "m < n" "at_work m work1 d"
    obtain k d' where "compaction_run v (\<lambda>i. fs (Suc i)) k d work1 = Some (d', NoCompaction)"
      "cw_object (db_compactor d') = None" "shape d' = shape d" "db_files d' = db_files d"
      using less.IH [OF m(3,4,2)] by blast
    then show ?thesis using step(1) m(1) by (intro exI [of _ "Suc k"] exI [of _ d']) simp
  qed
qed

lemma run_history:
  "compaction_run v fs n d work = Some (d', work') \<Longrightarrow> cache_history d work \<Longrightarrow> ev_move_ok v \<Longrightarrow> ev_log_open v = OpenSuccess
    \<Longrightarrow> cache_history d' work'"
proof (induction n arbitrary: fs d work)
  case (Suc n)
  obtain d1 work1 where step: "compaction_step v (fs 0) d work = Some (d1, work1)"
    "compaction_run v (\<lambda>i. fs (Suc i)) n d1 work1 = Some (d', work')"
    using Suc.prems(1) by (auto split: bind_splits)
  show ?case using Suc.IH [OF step(2) history_compaction [OF Suc.prems(2-4) step(1)] Suc.prems(3,4)] .
qed simp

lemma compaction_ends:
  assumes h: "cache_history d work" and chunk: "0 < cs_compact_chunk (db_settings d)"
    and v: "ev_move_ok v" "ev_log_open v = OpenSuccess"
  shows "\<exists>n d'. compaction_run v fs n d work = Some (d', NoCompaction) \<and> cw_object (db_compactor d') = None
    \<and> shape d' = shape d \<and> db_files d' = db_files d"
proof -
  obtain n where d: "cache_inv d" "log_good d" "db_ready d = None" "db_open d" "at_work n work d" using history_inv [OF h] by blast
  show ?thesis
  proof (cases "work = NoCompaction")
    case False
    then show ?thesis using work_ends [OF d False v] by blast
  next
    case none: True
    show ?thesis
    proof (cases "cw_object (db_compactor d)")
      case None
      then show ?thesis using none by (intro exI [of _ 0] exI [of _ d]) simp
    next
      case (Some info)
      obtain work1 m where start: "compaction_step v (fs 0) d NoCompaction = Some (d, work1)" "at_work m work1 d" "work1 \<noteq> NoCompaction"
        using start_goes_on [OF d(1,2) Some chunk] by blast
      obtain k d' where "compaction_run v (\<lambda>i. fs (Suc i)) k d work1 = Some (d', NoCompaction)"
        "cw_object (db_compactor d') = None" "shape d' = shape d" "db_files d' = db_files d"
        using work_ends [OF d(1-4) start(2,3) v] by blast
      then show ?thesis using start(1) none by (intro exI [of _ "Suc k"] exI [of _ d']) simp
    qed
  qed
qed

section \<open>Properties\<close>

lemma fresh_cache:
  assumes s: "settings_ok s"
  obtains d where "cache_open calm (blank s 0) = Some (NoError, d)" "new_cache s d" "countRelativeTime calm d < 2 ^ 33"
proof -
  define b where "b = clearState (blank s 0)"
  have b: "vacant b" "db_ready b = None" "db_log b = []"
    using s vacant_clearState [of "blank s 0"]
    by (simp_all add: b_def blank_def files_ok_def) (simp_all add: clearState_def)
  have close: "cache_close calm (blank s 0) = Some b" by (simp add: cache_close_def b_def blank_def)
  obtain d where d: "openBinlog calm OpenSuccess False b = Some (OpenSuccess, d)" "countRelativeTime calm d < 2 ^ 33"
    using new_log [OF b(1,2) disjI2 [OF b(3)], of calm False] by (auto simp: calm_def elim!: returnsE)
  then have run: "cache_open calm (blank s 0) = Some (NoError, d)"
    using close by (simp add: cache_open_def openSomeBinlog_def) (simp add: calm_def)
  show ?thesis using that [OF run first_open [OF s run] d(2)] .
qed

lemmas tiny_cache = fresh_cache [OF tiny_settings_ok]

lemma calm_places: "new_cache s d \<Longrightarrow> places_ok calm d"
  by (auto simp: new_cache_def places_ok_def calm_def)

lemma calm_fine: "new_cache s d \<Longrightarrow> countRelativeTime calm d < 2 ^ 33 \<Longrightarrow> fine calm d"
  by (simp add: new_cache_def fine_def log_fine_def) (simp add: calm_def)

lemma tiny_limit: "new_cache tiny_settings d \<Longrightarrow> cs_max_data_size (db_settings d) = 3"
  by (simp add: new_cache_def tiny_settings_def)

lemma tag_weights:
  assumes "\<forall>(k, e)\<in>set m. 0 < ce_size e"
  shows "weight (tag_counts t) m = int (length (filter (\<lambda>(k, e). ce_tag e = t) m))"
    "weight (tag_sizes t) m = (\<Sum>(k, e)\<leftarrow>filter (\<lambda>(k, e). ce_tag e = t) m. int (ce_size e))"
  using assms by (induction m) (auto simp: weight_def tag_counts_def tag_sizes_def has_size_def)

lemma got_shape: "got v k d = (case shape d k of
     None \<Rightarrow> no_value
   | Some e \<Rightarrow>
       let data = (if ev_readable v (ce_place e) then stored d (ce_place e) (ce_size e) else []) in
       if data = [] \<or> CountChecksum data \<noteq> ce_checksum e then no_value else \<lparr>tv_bytes = data, tv_tag = ce_tag e\<rparr>)"
  by (cases "db_find k d") (simp_all add: got_def shape_def Let_def)

lemma get_same:
  assumes "cache_inv d" "cache_inv d'" "shape d' = shape d" "db_files d' = db_files d"
  shows "map_option fst (cache_get v k d') = map_option fst (cache_get v k d)"
proof -
  have "stored d' p n = stored d p n" for p n using assms(4) by (simp add: stored_def)
  then have "got v k d' = got v k d" unfolding got_shape assms(3) by (simp only:)
  then show ?thesis
    using cache_get_keeps [OF assms(1), of v k] cache_get_keeps [OF assms(2), of v k] by (auto elim!: returnsE)
qed








text \<open>Settings that compact whenever the bundles are written.\<close>

definition eager_settings :: cache_settings where
  "eager_settings = tiny_settings\<lparr> cs_compact_excess := - 1 \<rparr>"

definition all_well :: compactor_files where
  "all_well = \<lparr>cf_log = OpenSuccess, cf_new = OpenSuccess, cf_write = (\<lambda>_. True), cf_copy = True\<rparr>"

lemma eager_settings_ok: "settings_ok eager_settings"
  using tiny_settings_ok by (simp add: eager_settings_def settings_ok_def CacheTypes.checkSettings_def CheckSettings_def)

lemma clock_only: "writeBundles (v\<lparr> ev_clock := t \<rparr>) = writeBundles v"
proof -
  have "binlog_write (v\<lparr> ev_clock := t \<rparr>) r d = binlog_write v r d" "countTimePoint (v\<lparr> ev_clock := t \<rparr>) d = countTimePoint v d" for r d
    by (simp_all add: binlog_write_def countTimePoint_def time_passed_def GetUnixtime_def cong: if_cong)
  then have "writeMultiRemove (v\<lparr> ev_clock := t \<rparr>) d = writeMultiRemove v d" "writeMultiAccess (v\<lparr> ev_clock := t \<rparr>) d = writeMultiAccess v d" for d
    by (simp_all only: writeMultiRemove_def writeMultiAccess_def writeMultiAccessBlock_def)
  then show ?thesis by (simp add: writeBundles_def fun_eq_iff cong: if_cong)
qed

text \<open>Late enough, the timer starts a compaction.\<close>

lemma timer_compacts:
  assumes d: "cache_inv d" "fine v d" "db_settings d = eager_settings"
  obtains t d' where "cache_step (v\<lparr> ev_clock := t \<rparr>) EvBundlesTimer d = Some d'" "cw_object (db_compactor d') \<noteq> None" "shape d' = shape d"
    "db_settings d' = eager_settings"
proof -
  let ?d = "d\<lparr> db_bundles_timer := None \<rparr>"
  have inv: "cache_inv ?d"
    using d(1) by (simp add: cache_inv_def map_ok_def stats_ok_def queue_ok_def files_ok_def excess_ok_def db_find_def)
  obtain d1 where d1: "writeBundles v ?d = Some d1" "keeps v ?d d1" using writeBundles_keeps [OF inv, of v] by (auto elim!: returnsE)
  define t where "t = cw_next_attempt (db_compactor d1)"
  have "db_open d1" "db_settings d1 = eager_settings" "0 \<le> db_excess d1"
    using d1(2) d(2,3) by (simp_all add: keeps_def follows_def fine_def log_fine_def cache_inv_def excess_ok_def)
  then have "cw_object (db_compactor (checkCompactor (v\<lparr> ev_clock := t \<rparr>) d1)) \<noteq> None"
    by (simp add: checkCompactor_def t_def Let_def eager_settings_def tiny_settings_def small_settings_def default_settings_def)
  moreover have "cache_step (v\<lparr> ev_clock := t \<rparr>) EvBundlesTimer d = Some (checkCompactor (v\<lparr> ev_clock := t \<rparr>) d1)"
    using d1(1) by (simp add: cache_step_def bundles_timer_fired_def clock_only)
  moreover have "shape (checkCompactor (v\<lparr> ev_clock := t \<rparr>) d1) = shape d"
      "db_settings (checkCompactor (v\<lparr> ev_clock := t \<rparr>) d1) = eager_settings"
    using checkCompactor_keeps [OF keepsD(1) [OF d1(2)], of "v\<lparr> ev_clock := t \<rparr>"] d1(2) d(3)
    by (simp_all add: keeps_def follows_def) (simp add: shape_def db_find_def)
  ultimately show ?thesis using that by blast
qed


end
