(* ===== verification/CacheStore.thy ===== *)
theory CacheStore imports CacheHistory begin

text \<open>
  What the cache promises: it is a map from keys to tagged values. The locale states what it takes
  for a machine that answers requests to do what a specification of its contents says; the cache is
  an instance of it.
\<close>

section \<open>Machines that answer requests\<close>

primrec runs :: "('op \<Rightarrow> 's \<Rightarrow> ('r \<times> 's) option) \<Rightarrow> 'op list \<Rightarrow> 's \<Rightarrow> ('r list \<times> 's) option" where
  "runs step [] s = Some ([], s)"
| "runs step (op # ops) s = do { (r, s) \<leftarrow> step op s; (rs, s) \<leftarrow> runs step ops s; Some (r # rs, s) }"

primrec spec_runs :: "('op \<Rightarrow> 'm \<Rightarrow> 'r \<times> 'm) \<Rightarrow> 'op list \<Rightarrow> 'm \<Rightarrow> 'r list \<times> 'm" where
  "spec_runs spec [] m = ([], m)"
| "spec_runs spec (op # ops) m = (let (r, m) = spec op m; (rs, m) = spec_runs spec ops m in (r # rs, m))"

text \<open>Every request is one that is allowed in the state it is made in.\<close>

primrec all_allowed :: "('op \<Rightarrow> 's \<Rightarrow> ('r \<times> 's) option) \<Rightarrow> ('op \<Rightarrow> 's \<Rightarrow> bool) \<Rightarrow> 'op list \<Rightarrow> 's \<Rightarrow> bool" where
  "all_allowed step allowed [] s \<longleftrightarrow> True"
| "all_allowed step allowed (op # ops) s \<longleftrightarrow> allowed op s
     \<and> (case step op s of None \<Rightarrow> True | Some (r, s) \<Rightarrow> all_allowed step allowed ops s)"

locale request_machine =
  fixes good :: "'s \<Rightarrow> bool"
    and contents :: "'s \<Rightarrow> 'm"
    and step :: "'op \<Rightarrow> 's \<Rightarrow> ('r \<times> 's) option"
    and spec :: "'op \<Rightarrow> 'm \<Rightarrow> 'r \<times> 'm"
    and allowed :: "'op \<Rightarrow> 's \<Rightarrow> bool"
  assumes step_refines: "good s \<Longrightarrow> allowed op s
    \<Longrightarrow> returns (\<lambda>(r, s'). good s' \<and> spec op (contents s) = (r, contents s')) (step op s)"
begin

lemma runs_refine:
  "good s \<Longrightarrow> all_allowed step allowed ops s
     \<Longrightarrow> returns (\<lambda>(rs, s'). good s' \<and> spec_runs spec ops (contents s) = (rs, contents s')) (runs step ops s)"
proof (induction ops arbitrary: s)
  case (Cons op ops)
  obtain r s1 where s1: "step op s = Some (r, s1)" "good s1" "spec op (contents s) = (r, contents s1)"
    using step_refines [of s op] Cons.prems by (auto elim!: returnsE)
  then have "all_allowed step allowed ops s1" using Cons.prems(2) by simp
  from Cons.IH [OF s1(2) this] show ?case using s1 by (auto elim!: returns_mono)
qed simp

end

section \<open>Requests to the cache\<close>

datatype cache_request =
    Put cache_key tagged_value
  | Get cache_key
  | GetWithSizes cache_key "cache_key list"
  | Remove cache_key
  | PutIfEmpty cache_key tagged_value
  | CopyIfEmpty cache_key cache_key
  | MoveIfEmpty cache_key cache_key

datatype cache_reply = Status cache_error | Value tagged_value | Sized bytes "nat list"

definition cache_answer :: "env \<times> cache_request \<Rightarrow> database \<Rightarrow> (cache_reply \<times> database) option" where
  "cache_answer = (\<lambda>(v, req) d. case req of
     Put k x \<Rightarrow> map_option (map_prod Status id) (cache_put v k x d)
   | Get k \<Rightarrow> map_option (map_prod Value id) (cache_get v k d)
   | GetWithSizes k keys \<Rightarrow> map_option (map_prod (\<lambda>(data, sizes). Sized data sizes) id) (getWithSizes v k keys d)
   | Remove k \<Rightarrow> map_option (map_prod Status id) (cache_remove v k d)
   | PutIfEmpty k x \<Rightarrow> map_option (map_prod Status id) (putIfEmpty v k x d)
   | CopyIfEmpty a b \<Rightarrow> map_option (map_prod Status id) (copyIfEmpty v a b d)
   | MoveIfEmpty a b \<Rightarrow> map_option (map_prod Status id) (moveIfEmpty v a b d))"

text \<open>A value without bytes is no value.\<close>

definition kv_put :: "cache_key \<Rightarrow> tagged_value \<Rightarrow> (cache_key \<rightharpoonup> tagged_value) \<Rightarrow> cache_key \<rightharpoonup> tagged_value" where
  "kv_put k x m = m(k := (if tv_bytes x = [] then None else Some x))"

definition kv_get :: "cache_key \<Rightarrow> (cache_key \<rightharpoonup> tagged_value) \<Rightarrow> tagged_value" where
  "kv_get k m = (case m k of None \<Rightarrow> no_value | Some x \<Rightarrow> x)"

definition kv_spec :: "env \<times> cache_request \<Rightarrow> (cache_key \<rightharpoonup> tagged_value) \<Rightarrow> cache_reply \<times> (cache_key \<rightharpoonup> tagged_value)" where
  "kv_spec = (\<lambda>(v, req) m. case req of
     Put k x \<Rightarrow> (Status NoError, kv_put k x m)
   | Get k \<Rightarrow> (Value (kv_get k m), m)
   | GetWithSizes k keys \<Rightarrow> (case m k of
       None \<Rightarrow> (Sized [] [], m)
     | Some x \<Rightarrow> (Sized (tv_bytes x) (map (\<lambda>q. length (tv_bytes (kv_get q m))) keys), m))
   | Remove k \<Rightarrow> (Status NoError, m(k := None))
   | PutIfEmpty k x \<Rightarrow> (Status NoError, if m k = None then kv_put k x m else m)
   | CopyIfEmpty a b \<Rightarrow> (Status NoError, if m b = None \<and> m a \<noteq> None then m(b := m a) else m)
   | MoveIfEmpty a b \<Rightarrow> (Status NoError, if m b = None \<and> m a \<noteq> None then m(a := None, b := m a) else m))"

text \<open>Files can be written, read and removed, and values have at most the size that is allowed.\<close>

definition well :: "env \<Rightarrow> database \<Rightarrow> bool" where
  "well v d \<longleftrightarrow> fine v d \<and> places_ok v d \<and> (\<forall>p. ev_readable v p \<and> ev_removable v p)"

definition answerable :: "env \<times> cache_request \<Rightarrow> database \<Rightarrow> bool" where
  "answerable = (\<lambda>(v, req) d. well v d \<and> (case req of
     Put k x \<Rightarrow> length (tv_bytes x) \<le> cs_max_data_size (db_settings d)
   | PutIfEmpty k x \<Rightarrow> length (tv_bytes x) \<le> cs_max_data_size (db_settings d)
   | _ \<Rightarrow> True))"

section \<open>What a cache holds\<close>

definition held :: "database \<Rightarrow> entry \<Rightarrow> tagged_value" where
  "held d e = \<lparr>tv_bytes = stored d (ce_place e) (ce_size e), tv_tag = ce_tag e\<rparr>"

definition contents_of :: "database \<Rightarrow> cache_key \<rightharpoonup> tagged_value" where
  "contents_of d k = map_option (held d) (shape d k)"

text \<open>Every entry has its file, with the bytes that its checksum is of, and no two have the same.\<close>

definition entry_sound :: "database \<Rightarrow> entry \<Rightarrow> bool" where
  "entry_sound d e \<longleftrightarrow> stored d (ce_place e) (ce_size e) \<noteq> [] \<and> CountChecksum (stored d (ce_place e) (ce_size e)) = ce_checksum e"

definition sound :: "database \<Rightarrow> bool" where
  "sound d \<longleftrightarrow> cache_inv d \<and> (\<forall>k e. shape d k = Some e \<longrightarrow> entry_sound d e)
     \<and> (\<forall>k q e f. shape d k = Some e \<longrightarrow> shape d q = Some f \<longrightarrow> ce_place e = ce_place f \<longrightarrow> k = q)"

lemma held_files: "db_files d' = db_files d \<Longrightarrow> held d' = held d \<and> entry_sound d' = entry_sound d"
  by (auto simp: entry_sound_def held_def stored_def intro!: ext)

lemma sound_same:
  assumes "sound d" "cache_inv d'" "shape d' = shape d" "db_files d' = db_files d"
  shows "sound d' \<and> contents_of d' = contents_of d"
proof -
  note same = held_files [OF assms(4), THEN conjunct1] held_files [OF assms(4), THEN conjunct2]
  have "contents_of d' = contents_of d" by (rule ext) (simp only: contents_of_def same assms(3))
  then show ?thesis using assms(1-3) by (simp add: sound_def same)
qed

lemma sound_keeps: "sound d \<Longrightarrow> keeps v d d' \<Longrightarrow> sound d' \<and> contents_of d' = contents_of d"
  by (rule sound_same) (simp_all add: keeps_def)

lemma held_same: "db_files d' (ce_place e) = db_files d (ce_place e) \<Longrightarrow> held d' e = held d e \<and> entry_sound d' e = entry_sound d e"
  by (simp add: held_def entry_sound_def stored_def)

lemma got_held:
  assumes "sound d" "\<forall>p. ev_readable v p"
  shows "got v k d = kv_get k (contents_of d) \<and> (tv_bytes (got v k d) = [] \<longleftrightarrow> shape d k = None)"
proof (cases "shape d k")
  case (Some e)
  then have "entry_sound d e" using assms(1) unfolding sound_def by blast
  then show ?thesis
    using assms(2) Some by (simp add: got_shape entry_sound_def Let_def kv_get_def contents_of_def held_def)
qed (simp add: got_shape kv_get_def contents_of_def no_value_def)

text \<open>A change of one key.\<close>

lemma sound_change:
  assumes d: "sound d" and inv: "cache_inv d'"
    and shape: "\<And>q. q \<noteq> k \<Longrightarrow> shape d' q = shape d q"
    and files: "\<And>q e. q \<noteq> k \<Longrightarrow> shape d q = Some e \<Longrightarrow> db_files d' (ce_place e) = db_files d (ce_place e)"
    and new: "\<And>e. shape d' k = Some e \<Longrightarrow> entry_sound d' e \<and> (\<forall>q f. q \<noteq> k \<longrightarrow> shape d q = Some f \<longrightarrow> ce_place f \<noteq> ce_place e)"
  shows "sound d' \<and> contents_of d' = (contents_of d)(k := map_option (held d') (shape d' k))"
proof -
  have same: "held d' e = held d e" "entry_sound d' e = entry_sound d e" if "q \<noteq> k" "shape d q = Some e" for q e
    using held_same files [OF that] by blast+
  have "entry_sound d' e" if "shape d' q = Some e" for q e
  proof (cases "q = k")
    case False
    then have "shape d q = Some e" using that shape by simp
    then show ?thesis using same(2) [OF False] d unfolding sound_def by blast
  qed (use that new in simp)
  moreover have "q = r" if "shape d' q = Some e" "shape d' r = Some f" "ce_place e = ce_place f" for q r e f
  proof (cases "q = k \<or> r = k")
    case False
    then have "shape d q = Some e" "shape d r = Some f" using that shape by simp_all
    then show ?thesis using d that(3) unfolding sound_def by blast
  next
    case True
    show ?thesis
    proof (rule ccontr)
      assume "q \<noteq> r"
      then consider "q = k" "r \<noteq> k" | "q \<noteq> k" "r = k" using True by blast
      then show False using that new shape by cases (metis)+
    qed
  qed
  ultimately have "sound d'" using inv unfolding sound_def by blast
  moreover have "contents_of d' q = (if q = k then map_option (held d') (shape d' k) else contents_of d q)" for q
    using same(1) [of q] shape [of q] by (cases "shape d q") (auto simp: contents_of_def)
  ultimately show ?thesis by (simp add: fun_eq_iff)
qed

lemma sound_removes:
  assumes d: "sound d" and rem: "removes v k d d'" and "db_open d"
  shows "sound d' \<and> contents_of d' = (contents_of d)(k := None)"
proof -
  have d': "cache_inv d'" "shape d' = (shape d)(k := None)" using rem assms(3) by (simp_all add: removes_def)
  have files: "db_files d' (ce_place e) = db_files d (ce_place e)" if "q \<noteq> k" "shape d q = Some e" for q e
  proof (cases "db_find k d")
    case (Some f)
    then have "shape d k = Some (f\<lparr> ce_time := 0 \<rparr>)" by (simp add: shape_def)
    then have "ce_place e \<noteq> ce_place (f\<lparr> ce_time := 0 \<rparr>)" using d that unfolding sound_def by blast
    then show ?thesis using rem Some by (auto simp: removes_def)
  qed (use rem in \<open>simp add: removes_def\<close>)
  show ?thesis using sound_change [OF d d'(1), of k] files d'(2) by simp
qed

lemma sound_placed:
  assumes d: "sound d" and inv: "cache_inv d'" and placed: "placed v k x d d'" and x: "tv_bytes x \<noteq> []"
  shows "sound d' \<and> contents_of d' = (contents_of d)(k \<mapsto> x)"
proof -
  consider place where "db_files d place = None" "shape d' = (shape d)(k \<mapsto> value_entry x place)"
      "db_files d' = (case shape d k of
           Some e \<Rightarrow> if ev_removable v (ce_place e)
             then ((db_files d)(place \<mapsto> writeWithPadding v (tv_bytes x)))(ce_place e := None)
             else (db_files d)(place \<mapsto> writeWithPadding v (tv_bytes x))
         | None \<Rightarrow> (db_files d)(place \<mapsto> writeWithPadding v (tv_bytes x)))"
    | place where "shape d k = Some (value_entry x place)" "stored d place (length (tv_bytes x)) = tv_bytes x"
      "shape d' = shape d" "db_files d' = db_files d"
    using placed unfolding placed_def Let_def by blast
  then show ?thesis
  proof cases
    case 1
    have used: "ce_place e \<noteq> place" if "shape d q = Some e" for q e
    proof
      assume "ce_place e = place"
      then have "stored d (ce_place e) (ce_size e) = []" using 1(1) by (simp add: stored_def)
      then show False using d that unfolding sound_def entry_sound_def by blast
    qed
    have files: "db_files d' (ce_place e) = db_files d (ce_place e)" if "q \<noteq> k" "shape d q = Some e" for q e
      using used [OF that(2)] d that 1(3) unfolding sound_def by (fastforce split: option.splits)
    have "db_files d' place = Some (writeWithPadding v (tv_bytes x))"
      using 1(3) used by (auto split: option.splits)
    then have "stored d' place (length (tv_bytes x)) = tv_bytes x"
      using stored_written [of d place v "tv_bytes x"] by (simp add: stored_def)
    then have "entry_sound d' (value_entry x place)" "held d' (value_entry x place) = x"
      using x by (simp_all add: entry_sound_def held_def value_entry_def)
    moreover have "ce_place (value_entry x place) = place" by (simp add: value_entry_def)
    ultimately show ?thesis using sound_change [OF d inv, of k] files 1(2) used by simp
  next
    case 2
    have "held d (value_entry x place) = x" using 2(2) by (simp add: held_def value_entry_def)
    then have "contents_of d = (contents_of d)(k \<mapsto> x)" using 2(1) by (simp add: contents_of_def fun_eq_iff)
    then show ?thesis using sound_same [OF d inv 2(3,4)] by simp
  qed
qed

lemma sound_moved:
  assumes d: "sound d" and inv: "cache_inv d'" and files: "db_files d' = db_files d"
    and shape: "shape d' = (shape d)(a := None, b := shape d a)" and free: "shape d b = None" "shape d a \<noteq> None"
  shows "sound d' \<and> contents_of d' = (contents_of d)(a := None, b := contents_of d a)"
proof -
  note same = held_files [OF files, THEN conjunct1] held_files [OF files, THEN conjunct2]
  have ab: "a \<noteq> b" using free by auto
  define src where "src = (\<lambda>q. if q = b then a else q)"
  have was: "shape d (src q) = Some e \<and> q \<noteq> a" if "shape d' q = Some e" for q e
    using that ab by (auto simp: shape src_def split: if_splits)
  have "q = r" if "shape d' q = Some e" "shape d' r = Some f" "ce_place e = ce_place f" for q r e f
  proof -
    have "src q = src r" using was [OF that(1)] was [OF that(2)] that(3) d unfolding sound_def by blast
    then show ?thesis using was [OF that(1)] was [OF that(2)] by (auto simp: src_def split: if_splits)
  qed
  moreover have "entry_sound d' e" if "shape d' q = Some e" for q e
    using was [OF that] d unfolding sound_def same by blast
  moreover have "contents_of d' = (contents_of d)(a := None, b := contents_of d a)"
    by (simp add: contents_of_def same shape fun_eq_iff)
  ultimately show ?thesis using inv unfolding sound_def by blast
qed

section \<open>Requests do what the map does\<close>

lemma fits_removal:
  assumes "cache_remove v k d = Some (error, d')" "db_open d" "\<forall>p. ev_removable v p"
  shows "error = NoError"
  using assms by (auto simp: cache_remove_def remove_file_def Let_def split: option.splits bind_splits)

lemma well_open: "well v d \<Longrightarrow> db_open d \<and> fine v d \<and> places_ok v d \<and> (\<forall>p. ev_readable v p) \<and> (\<forall>p. ev_removable v p)"
  by (simp add: well_def fine_def log_fine_def)

lemma remove_answer:
  assumes d: "sound d" and v: "well v d"
  shows "returns (\<lambda>(error, d'). error = NoError \<and> sound d' \<and> contents_of d' = (contents_of d)(k := None)) (cache_remove v k d)"
proof -
  have "cache_inv d" using d by (simp add: sound_def)
  then obtain error d' where "cache_remove v k d = Some (error, d')" "removes v k d d'"
    using cache_remove_keeps [of d v k] by (auto elim!: returnsE)
  then show ?thesis using sound_removes [OF d] fits_removal [of v k d] well_open [OF v] by simp
qed

lemma put_answer:
  assumes d: "sound d" and v: "well v d" and x: "length (tv_bytes x) \<le> cs_max_data_size (db_settings d)"
  shows "returns (\<lambda>(error, d'). error = NoError \<and> sound d' \<and> contents_of d' = kv_put k x (contents_of d)) (cache_put v k x d)"
proof (cases "tv_bytes x = []")
  case True
  then have "cache_put v k x d = cache_remove v k d" using well_open [OF v] by (simp add: cache_put_def)
  then show ?thesis using remove_answer [OF d v, of k] True by (simp add: kv_put_def)
next
  case False
  have "cache_inv d" using d by (simp add: sound_def)
  then show ?thesis
    using cache_put_keeps [of d x v k] x well_open [OF v] False sound_placed [OF d]
    by (auto simp: put_post_def kv_put_def elim!: returns_mono)
qed

lemma contents_none: "contents_of d k = None \<longleftrightarrow> shape d k = None"
  by (simp add: contents_of_def)

lemma find_none: "db_find k d = None \<longleftrightarrow> contents_of d k = None"
  by (simp add: contents_of_def shape_def)

lemma contents_bytes: "sound d \<Longrightarrow> contents_of d k = Some x \<Longrightarrow> tv_bytes x \<noteq> []"
  by (auto simp: sound_def contents_of_def held_def entry_sound_def)

lemma get_answer:
  assumes d: "sound d" and v: "well v d"
  shows "returns (\<lambda>(x, d'). x = kv_get k (contents_of d) \<and> sound d' \<and> contents_of d' = contents_of d) (cache_get v k d)"
proof -
  have inv: "cache_inv d" using d by (simp add: sound_def)
  have got: "got v k d = kv_get k (contents_of d)" "tv_bytes (got v k d) = [] \<longleftrightarrow> shape d k = None"
    using got_held [OF d] well_open [OF v] by blast+
  have "sound d' \<and> contents_of d' = contents_of d" if "removes v k d d'" "shape d k = None" for d'
    using sound_removes [OF d that(1)] well_open [OF v] that(2) contents_none [of d k] by (simp add: fun_upd_idem)
  then show ?thesis
    using cache_get_keeps [OF inv, of v k] sound_keeps [OF d] got by (auto elim!: returns_mono split: if_splits)
qed

lemma find_size:
  assumes "sound d"
  shows "(case db_find q d of Some e \<Rightarrow> ce_size e | None \<Rightarrow> 0) = length (tv_bytes (kv_get q (contents_of d)))"
proof (cases "db_find q d")
  case (Some e)
  then have e: "shape d q = Some (e\<lparr> ce_time := 0 \<rparr>)" by (simp add: shape_def)
  then have "stored d (ce_place e) (ce_size e) \<noteq> []" using assms unfolding sound_def entry_sound_def by fastforce
  then have "length (stored d (ce_place e) (ce_size e)) = ce_size e"
    by (auto simp: stored_def split: option.splits if_splits)
  then show ?thesis using Some e by (simp add: kv_get_def contents_of_def held_def)
qed (simp add: kv_get_def contents_of_def shape_def no_value_def)

lemma sizes_answer:
  assumes d: "sound d" and v: "well v d"
  shows "returns (\<lambda>((data, sizes), d'). kv_spec (v, GetWithSizes k keys) (contents_of d) = (Sized data sizes, contents_of d') \<and> sound d')
    (getWithSizes v k keys d)"
proof -
  have inv: "cache_inv d" using d by (simp add: sound_def)
  have got: "got v k d = kv_get k (contents_of d)" "tv_bytes (got v k d) = [] \<longleftrightarrow> shape d k = None"
    using got_held [OF d] well_open [OF v] by blast+
  have gone: "sound d' \<and> contents_of d' = contents_of d" if "removes v k d d'" "shape d k = None" for d'
    using sound_removes [OF d that(1)] well_open [OF v] that(2) contents_none [of d k] by (simp add: fun_upd_idem)
  have sizes: "map (\<lambda>q. case db_find q d of Some e \<Rightarrow> ce_size e | None \<Rightarrow> 0) keys
      = map (\<lambda>q. length (tv_bytes (kv_get q (contents_of d)))) keys"
    using find_size [OF d] by simp
  show ?thesis
  proof (cases "contents_of d k")
    case None
    then have "shape d k = None" by (simp add: contents_none)
    then show ?thesis
      using getWithSizes_keeps [OF inv, of v k keys] gone got None
      by (auto simp: kv_spec_def elim!: returns_mono)
  next
    case (Some x)
    then have "shape d k \<noteq> None" by (auto simp: contents_of_def)
    then show ?thesis
      using getWithSizes_keeps [OF inv, of v k keys] sound_keeps [OF d] got Some
      unfolding sizes by (auto simp: kv_spec_def kv_get_def elim!: returns_mono)
  qed
qed

lemma copy_answer:
  assumes d: "sound d" and v: "well v d"
  shows "returns (\<lambda>(error, d'). kv_spec (v, CopyIfEmpty a b) (contents_of d) = (Status error, contents_of d') \<and> sound d')
    (copyIfEmpty v a b d)"
proof -
  have inv: "cache_inv d" using d by (simp add: sound_def)
  note open_v = well_open [OF v]
  have got: "got v a d = kv_get a (contents_of d)" "tv_bytes (got v a d) = [] \<longleftrightarrow> shape d a = None"
    using got_held [OF d] open_v by blast+
  consider "contents_of d b \<noteq> None" | "contents_of d b = None" "contents_of d a = None"
    | x where "contents_of d b = None" "contents_of d a = Some x" by blast
  then show ?thesis
  proof cases
    case 1
    then have "copyIfEmpty v a b d = Some (NoError, d)" using find_none [of b d] by (simp add: copyIfEmpty_def)
    then show ?thesis using 1 d by (auto simp: kv_spec_def)
  next
    case 2
    then have "copyIfEmpty v a b d = Some (NoError, d)"
      using open_v 2 [folded find_none] by (simp add: copyIfEmpty_def get_then_def cache_put_def no_value_def cache_remove_def)
    then show ?thesis using 2 d by (simp add: kv_spec_def)
  next
    case 3
    then have "shape d a \<noteq> None" "tv_bytes x \<noteq> []" "got v a d = x" "db_find b d = None"
      using contents_none [of d a] contents_bytes [OF d 3(2)] got(1) find_none [of b d] by (simp_all add: kv_get_def)
    moreover have "error = NoError \<and> sound d' \<and> contents_of d' = (contents_of d)(b \<mapsto> x)"
      if "put_post v b x d error d1" "keeps v d1 d'" for error d1 d'
    proof -
      have "error = NoError" "placed v b x d d1" "cache_inv d1"
        using that(1) open_v \<open>tv_bytes x \<noteq> []\<close> by (simp_all add: put_post_def)
      then show ?thesis using sound_placed [OF d, of d1 v b x] sound_keeps [OF _ that(2)] \<open>tv_bytes x \<noteq> []\<close> by simp
    qed
    ultimately show ?thesis
      using copyIfEmpty_keeps [OF inv, of v b a] open_v got(2) 3
      by (auto simp: kv_spec_def elim!: returns_mono split: if_splits)
  qed
qed

lemma move_answer:
  assumes d: "sound d" and v: "well v d"
  shows "returns (\<lambda>(error, d'). kv_spec (v, MoveIfEmpty a b) (contents_of d) = (Status error, contents_of d') \<and> sound d')
    (moveIfEmpty v a b d)"
proof -
  have inv: "cache_inv d" using d by (simp add: sound_def)
  then obtain error d' where run: "moveIfEmpty v a b d = Some (error, d')" "move_post v a b d error d'"
    using moveIfEmpty_keeps [of d v a b] by (auto elim!: returnsE)
  have ok: "error = NoError" "cache_inv d'" "db_files d' = db_files d"
    using run(2) well_open [OF v] by (auto simp: move_post_def fine_def)
  have "sound d' \<and> contents_of d' = (if contents_of d b = None \<and> contents_of d a \<noteq> None
      then (contents_of d)(a := None, b := contents_of d a) else contents_of d)"
  proof (cases "shape d b = None \<and> shape d a \<noteq> None")
    case True
    then have "shape d' = (shape d)(a := None, b := shape d a)" using run(2) ok(1) by (auto simp: move_post_def)
    then show ?thesis using sound_moved [OF d ok(2,3)] True contents_none by simp
  next
    case False
    then have "shape d' = shape d" using run(2) by (auto simp: move_post_def)
    then show ?thesis using sound_same [OF d ok(2) _ ok(3)] False contents_none by auto
  qed
  then show ?thesis using run(1) ok(1) by (auto simp: kv_spec_def)
qed

lemma cache_answers:
  assumes d: "sound d" and ok: "answerable op d"
  shows "returns (\<lambda>(r, d'). sound d' \<and> kv_spec op (contents_of d) = (r, contents_of d')) (cache_answer op d)"
proof -
  obtain v req where op: "op = (v, req)" by force
  have v: "well v d" using ok by (simp add: answerable_def op)
  show ?thesis
  proof (cases req)
    case (Put k x)
    then show ?thesis using put_answer [OF d v, of x k] ok
      by (auto simp: cache_answer_def answerable_def op kv_spec_def elim!: returns_mono)
  next
    case (Get k)
    then show ?thesis using get_answer [OF d v, of k] by (auto simp: cache_answer_def op kv_spec_def elim!: returns_mono)
  next
    case (GetWithSizes k keys)
    then show ?thesis using sizes_answer [OF d v, of k keys] by (auto simp: cache_answer_def op elim!: returns_mono)
  next
    case (Remove k)
    then show ?thesis using remove_answer [OF d v, of k] by (auto simp: cache_answer_def op kv_spec_def elim!: returns_mono)
  next
    case (PutIfEmpty k x)
    then show ?thesis using put_answer [OF d v, of x k] ok d find_none [of k d]
      by (auto simp: cache_answer_def answerable_def op kv_spec_def putIfEmpty_def elim!: returns_mono)
  next
    case (CopyIfEmpty a b)
    then show ?thesis using copy_answer [OF d v, of a b] by (auto simp: cache_answer_def op elim!: returns_mono)
  next
    case (MoveIfEmpty a b)
    then show ?thesis using move_answer [OF d v, of a b] by (auto simp: cache_answer_def op elim!: returns_mono)
  qed
qed

interpretation kv: request_machine sound contents_of cache_answer kv_spec answerable
  by unfold_locales (rule cache_answers)


section \<open>Housekeeping\<close>

text \<open>What happens to a cache besides requests.\<close>

definition housekeeping :: "cache_event \<Rightarrow> bool" where
  "housekeeping ev \<longleftrightarrow> (case ev of EvPut k x \<Rightarrow> False | EvGet k \<Rightarrow> False | EvGetWithSizes k keys \<Rightarrow> False | EvRemove k \<Rightarrow> False
     | EvPutIfEmpty k x \<Rightarrow> False | EvCopyIfEmpty a b \<Rightarrow> False | EvMoveIfEmpty a b \<Rightarrow> False | _ \<Rightarrow> True)"

definition drops :: "database \<Rightarrow> database \<Rightarrow> bool" where
  "drops d d' \<longleftrightarrow> sound d' \<and> contents_of d' \<subseteq>\<^sub>m contents_of d"

lemma drops_trans: "drops d d' \<Longrightarrow> drops d' d'' \<Longrightarrow> drops d d''"
  unfolding drops_def using map_le_trans by blast

lemma drops_same: "sound d \<Longrightarrow> cache_inv d' \<Longrightarrow> shape d' = shape d \<Longrightarrow> db_files d' = db_files d \<Longrightarrow> drops d d'"
  using sound_same by (simp add: drops_def)

lemma drops_keeps: "sound d \<Longrightarrow> keeps v d d' \<Longrightarrow> drops d d'"
  using sound_keeps by (simp add: drops_def)

lemma drops_removes: "sound d \<Longrightarrow> removes v k d d' \<Longrightarrow> drops d d'"
proof -
  assume d: "sound d" and rem: "removes v k d d'"
  show ?thesis
  proof (cases "db_open d")
    case True
    then show ?thesis using sound_removes [OF d rem] by (auto simp: drops_def map_le_def)
  next
    case False
    then have "shape d' = shape d" "db_files d' = db_files d" "cache_inv d'"
      using rem by (auto simp: removes_def split: option.splits)
    then show ?thesis using drops_same [OF d] by blast
  qed
qed

lemma drops_cleans: "cleans v K d d' \<Longrightarrow> sound d \<Longrightarrow> drops d d'"
proof (induction rule: cleans.induct)
  case clean_nothing
  then show ?case by (simp add: drops_def)
next
  case (clean_keeps d1 d2)
  then show ?case using drops_trans drops_keeps by (metis drops_def)
next
  case (clean_removes d1 k d2)
  then show ?case using drops_trans drops_removes by (metis drops_def)
next
  case (clean_books d1 d2)
  have "cache_inv d1" using clean_books(1) by (rule cleans_inv)
  then show ?case using clean_books drops_trans drops_same [of d1 d2] books_inv [OF clean_books(2)] by (metis drops_def)
next
  case (clean_minimal d1 t n)
  have "cache_inv d1" using clean_minimal(1) by (rule cleans_inv)
  then show ?case using clean_minimal drops_trans drops_same [of d1] minimal_inv [where t = t and n = n and d = d1] by (metis drops_def)
qed

lemma housekeeping_drops:
  assumes d: "sound d" and ok: "cache_enabled v ev d" and hk: "housekeeping ev"
  shows "returns (drops d) (cache_step v ev d)"
proof -
  have inv: "cache_inv d" using d by (simp add: sound_def)
  note same = drops_same [OF d] note clean = drops_cleans [OF _ d]
  have books: "drops d d'" if "books d' = books d" for d' using clean [OF books_cleans [OF inv that]] .
  show ?thesis
  proof (cases ev)
    case (EvUpdateSettings bulk age)
    then show ?thesis using ok updateSettings_inv [OF inv, where bulk = bulk and age = age and v = v]
      by (auto simp: cache_step_def cache_enabled_def elim!: returns_mono intro: same)
  next
    case (EvClearByTag tag)
    then show ?thesis using clearByTag_returns [OF inv, of v tag] by (auto simp: cache_step_def elim!: returns_mono dest: clean)
  next
    case EvClearStale
    then show ?thesis using clear_all_stale_cleans [OF inv, of v] by (auto simp: cache_step_def elim!: returns_mono dest: clean)
  next
    case EvBundlesTimer
    have start: "drops d (d\<lparr> db_bundles_timer := None \<rparr>)" by (rule books [OF books_stale(4)])
    then have "cache_inv (d\<lparr> db_bundles_timer := None \<rparr>)" "sound (d\<lparr> db_bundles_timer := None \<rparr>)" by (simp_all add: drops_def sound_def)
    then show ?thesis using EvBundlesTimer writeBundles_keeps [of "d\<lparr> db_bundles_timer := None \<rparr>" v]
      by (auto simp: cache_step_def bundles_timer_fired_def elim!: returns_mono
          intro: drops_trans [OF start] drops_keeps [OF _ keeps_trans [OF _ checkCompactor_keeps [OF keepsD(1)]]])
  next
    case EvPruneTimer
    have start: "drops d (d\<lparr> db_prune_timer := None \<rparr>)" by (rule books [OF books_stale(3)])
    then have "cache_inv (d\<lparr> db_prune_timer := None \<rparr>)" "sound (d\<lparr> db_prune_timer := None \<rparr>)" by (simp_all add: drops_def sound_def)
    then show ?thesis using EvPruneTimer prune_returns [of "d\<lparr> db_prune_timer := None \<rparr>" v]
      by (auto simp: cache_step_def prune_timer_fired_def elim!: returns_mono intro: drops_trans [OF start drops_cleans])
  next
    case EvPushPosted
    have "books (push_posted d) = books d" by (simp add: push_posted_def pushStats_def books_def)
    then show ?thesis using EvPushPosted books by (simp add: cache_step_def)
  next
    case EvClearPosted
    have start: "drops d (d\<lparr> db_clearing := False \<rparr>)" by (rule books [OF books_stale(2)])
    then have "cache_inv (d\<lparr> db_clearing := False \<rparr>)" "sound (d\<lparr> db_clearing := False \<rparr>)" by (simp_all add: drops_def sound_def)
    then show ?thesis using EvClearPosted clearStaleChunk_cleans [of "d\<lparr> db_clearing := False \<rparr>" v] books [OF refl]
      by (auto simp: cache_step_def clear_posted_def elim!: returns_mono intro: drops_trans [OF start drops_cleans])
  next
    case EvCleanerDone
    have "books (cleanerDone d) = books d" by (simp add: cleanerDone_def pushStatsDelayed_def books_def)
    then show ?thesis using EvCleanerDone books by (simp add: cache_step_def)
  next
    case (EvConsumers c)
    have "books (d\<lparr> db_consumers := c \<rparr>) = books d" by (simp add: books_def)
    then show ?thesis using EvConsumers books by (simp add: cache_step_def)
  next
    case EvCompactorFailed
    have "shape (compactorFail v d) = shape d" "db_files (compactorFail v d) = db_files d"
      by (simp_all add: compactorFail_def Let_def shape_def db_find_def)
    then show ?thesis using EvCompactorFailed same [OF compactorFail_inv [OF inv]] by (simp add: cache_step_def)
  next
    case (EvCompactorDone good compact till)
    then show ?thesis using ok compactorDone_inv [OF inv, of v good compact till]
      by (auto simp: cache_step_def cache_enabled_def elim!: returns_mono intro: same)
  qed (use hk in \<open>simp_all add: housekeeping_def\<close>)
qed

lemma new_sound: "new_cache s d \<Longrightarrow> sound d \<and> contents_of d = Map.empty"
  by (simp add: new_cache_def sound_def contents_of_def fun_eq_iff)

section \<open>Properties\<close>

text \<open>C1: as long as files can be written, read and removed, a cache does for any sequence of requests
  what a map from keys to tagged values does: every request is answered, every get gives the bytes and
  the tag that were last put, copied or moved to the key, a value without bytes is no value, and
  putting, copying and moving to a key that has a value does what it promises. That begins with the
  empty map when the cache is new.\<close>

theorem cache_is_key_value_store:
  assumes "sound d" "all_allowed cache_answer answerable ops d" "new_cache s fresh"
  shows "(\<exists>rs d'. runs cache_answer ops d = Some (rs, d') \<and> sound d'
      \<and> spec_runs kv_spec ops (contents_of d) = (rs, contents_of d'))
    \<and> sound fresh \<and> contents_of fresh = Map.empty"
  using kv.runs_refine [OF assms(1,2)] new_sound [OF assms(3)] by (auto elim!: returnsE)

lemma cache_is_key_value_store_witness:
  "\<exists>d rs d'. new_cache tiny_settings d
    \<and> runs cache_answer [(calm, Put (Key 1 2) \<lparr>tv_bytes = [7, 8, 9], tv_tag = 4\<rparr>), (calm, Get (Key 1 2))] d = Some (rs, d')
    \<and> rs = [Status NoError, Value \<lparr>tv_bytes = [7, 8, 9], tv_tag = 4\<rparr>]"
proof -
  let ?x = "\<lparr>tv_bytes = [7, 8, 9], tv_tag = 4\<rparr>"
  obtain d where d: "new_cache tiny_settings d" "countRelativeTime calm d < 2 ^ 33" by (rule tiny_cache)
  have well: "well calm d"
    using calm_places [OF d(1)] calm_fine [OF d] by (simp add: well_def) (simp add: calm_def)
  have small: "length (tv_bytes ?x) \<le> cs_max_data_size (db_settings d)" using tiny_limit [OF d(1)] by simp
  have sound: "sound d" and inv: "cache_inv d" using new_sound [OF d(1)] by (simp_all add: sound_def)
  have "well calm d1" if "cache_put calm (Key 1 2) ?x d = Some (error, d1)" for error d1
  proof -
    have post: "put_post calm (Key 1 2) ?x d error d1" "error = NoError"
      using cache_put_keeps [OF inv small calm_places [OF d(1)], of "Key 1 2"] put_answer [OF sound well small, of "Key 1 2"] that
      by (auto elim!: returnsE)
    then have "fine calm d1" "placed calm (Key 1 2) ?x d d1"
      using fine_follows [of calm d d1] calm_fine [OF d] by (simp_all add: put_post_def)
    moreover have "\<exists>p\<in>set (ev_places calm). db_files d1 p = None"
    proof -
      obtain place where "db_files d1 = (db_files d)(place \<mapsto> writeWithPadding calm (tv_bytes ?x)) \<or> db_files d1 = db_files d"
        using \<open>placed calm (Key 1 2) ?x d d1\<close> d(1) by (auto simp: placed_def new_cache_def)
      then have "db_files d1 p = None" if "p \<noteq> place" for p using that d(1) by (auto simp: new_cache_def)
      moreover have "\<exists>p\<in>set (ev_places calm). p \<noteq> place" by (auto simp: calm_def)
      ultimately show ?thesis by blast
    qed
    ultimately show ?thesis using calm_places [OF d(1)] by (simp add: well_def places_ok_def) (simp add: calm_def)
  qed
  then have "all_allowed cache_answer answerable [(calm, Put (Key 1 2) ?x), (calm, Get (Key 1 2))] d"
    using well small by (auto simp: answerable_def cache_answer_def split: option.splits)
  from cache_is_key_value_store [OF sound this d(1)] d(1) show ?thesis
    by (auto simp: kv_spec_def kv_put_def kv_get_def Let_def)
qed

text \<open>C18: what happens to a cache besides requests, timers, prunes, clearing, compaction and new limits,
  adds nothing and changes no value: each key has the bytes and the tag it had, or is gone.\<close>

theorem cache_housekeeping_only_drops:
  assumes "sound d" "cache_enabled v ev d" "housekeeping ev"
  shows "\<exists>d'. cache_step v ev d = Some d' \<and> sound d' \<and> contents_of d' \<subseteq>\<^sub>m contents_of d"
  using housekeeping_drops [OF assms] by (auto simp: drops_def elim!: returnsE)


lemma cache_housekeeping_only_drops_witness:
  "\<exists>d d'. new_cache tiny_settings d \<and> cache_step calm EvPruneTimer d = Some d' \<and> contents_of d' = Map.empty"
proof -
  obtain d where d: "new_cache tiny_settings d" by (rule tiny_cache)
  have "sound d" "contents_of d = Map.empty" using new_sound [OF d] by simp_all
  moreover have "cache_enabled calm EvPruneTimer d" "housekeeping EvPruneTimer" by (simp_all add: cache_enabled_def housekeeping_def)
  ultimately obtain d' where "cache_step calm EvPruneTimer d = Some d'" "contents_of d' \<subseteq>\<^sub>m Map.empty"
    using cache_housekeeping_only_drops by metis
  then show ?thesis using d by (auto simp: map_le_def)
qed

end
