(* ===== verification/Spec2Isabelle.thy ===== *)
theory Spec2Isabelle
  imports
    FlatMap
    TlTypes
    ReceivedIds
    PtsWaiter
    Messages
    DownloadEvents
    CacheEffects
    CacheCompactor
    CacheCompaction
    CacheCompactorRun
    CacheHistory
    CacheStore
begin

text \<open>
  A model of parts of the core of Telegram Desktop, translated from the C++ sources under
  \<^verbatim>\<open>src/Telegram\<close>: the sorted-vector containers everything else uses, the \<^verbatim>\<open>TL\<close> wire format, the
  bookkeeping of received messages and updates, the lists of known message ids with the slices
  that are shown of them, the download of files, and the local cache of what was downloaded.
  Paths below are relative to \<^verbatim>\<open>src/Telegram\<close>, those without a directory of their own to
  \<^verbatim>\<open>src/Telegram/SourceFiles\<close>.

  \<^bold>\<open>Conventions.\<close> A C++ struct or class is a record, an enum or variant a datatype. A method
  takes the state and returns the new one, with what it returned and the list of what it did to
  the outside (calls, events, files, requests sent). \<open>None\<close> is a failed \<^verbatim>\<open>Assert\<close>, \<^verbatim>\<open>Expects\<close> or
  \<^verbatim>\<open>Ensures\<close>, an exception or undefined behaviour; errors the code handles are values. Sizes,
  counts and message ids that never come near the limits of their type are \<^typ>\<open>int\<close> or \<^typ>\<open>nat\<close>; the
  words of the wire format are words of their width. Loops are structural recursion on the vector
  they go over or end by a measure; those the code runs until nothing is left to do are a
  \<^theory_text>\<open>partial_function (option)\<close>.

  \<^bold>\<open>Theories.\<close>
  \<^item> \<open>Prelude\<close>: lists with insertion, removal and binary search by position, as \<^verbatim>\<open>std::vector\<close> has
    them, and the locale of refinements.
  \<^item> \<open>FlatSet\<close>, \<open>FlatMap\<close>: \<^verbatim>\<open>lib_base/base/flat_set.h\<close>, \<^verbatim>\<open>flat_map.h\<close>, and their refinement to
    sets and finite maps.
  \<^item> \<open>TlTypes\<close>: \<^verbatim>\<open>lib_tl/tl\<close>, the readers and writers of the basic types, with their round trips.
  \<^item> \<open>ReceivedIds\<close>: \<^verbatim>\<open>mtproto/details/mtproto_received_ids_manager\<close>, a bounded window of message
    ids that never accepts one twice.
  \<^item> \<open>PtsWaiter\<close>: \<^verbatim>\<open>data/data_pts_waiter\<close>, which hands updates over in the order of their counters
    whatever order they arrive in.
  \<^item> \<open>MsgIds\<close>: \<^verbatim>\<open>data/data_msg_id.h\<close> and \<^verbatim>\<open>data_peer_id\<close>.
  \<^item> \<open>Slices\<close>, \<open>SparseIdsList\<close>, \<open>SparseSlice\<close>: \<^verbatim>\<open>storage/storage_sparse_ids_list\<close> and
    \<^verbatim>\<open>data/data_sparse_ids\<close>; the disjoint slices of known ids refine the set of ids, and a viewer
    built on the list shows its window.
  \<^item> \<open>Messages\<close>: the same for \<^verbatim>\<open>data/data_messages\<close>, over positions.
  \<^item> \<open>FileLoader\<close>: \<^verbatim>\<open>storage/file_download\<close>, the bytes of a file put together from parts, and the
    local cache.
  \<^item> \<open>DownloadQueue\<close>, \<open>DownloadBalance\<close>: the task queue and the sessions of a data center in
    \<^verbatim>\<open>storage/download_manager_mtproto\<close>.
  \<^item> \<open>StreamQueue\<close>, \<open>DownloadClients\<close>: what the two kinds of download task,
    \<^verbatim>\<open>storage/file_download_mtproto\<close> and \<^verbatim>\<open>media/streaming/media_streaming_loader_mtproto\<close>, keep
    themselves.
  \<^item> \<open>Download\<close>, \<open>DownloadParts\<close>: the manager and the requests of its tasks
    (\<^verbatim>\<open>DownloadManagerMtproto\<close>, \<^verbatim>\<open>DownloadMtprotoTask\<close>), and the answers to them, with the
    redirect to a CDN and the hashes of its parts.
  \<^item> \<open>DownloadInv\<close>, \<open>DownloadSend\<close>, \<open>DownloadOps\<close>, \<open>DownloadRun\<close>: the invariant \<open>dl_inv\<close> of the
    manager with its tasks, and every operation from a state that has it.
  \<^item> \<open>DownloadEvents\<close>: the manager as a machine of events, and the states it reaches.
  \<^item> \<open>CacheTypes\<close>, \<open>XxHash\<close>: \<^verbatim>\<open>lib_storage/storage/cache/storage_cache_types\<close>, the records of the
    cache's log as the bytes they are, and the checksum of the values (\<^verbatim>\<open>XXH32\<close>).
  \<^item> \<open>CacheBinlog\<close>: \<^verbatim>\<open>storage_cache_binlog_reader\<close>, the log read block by block.
  \<^item> \<open>CacheDatabase\<close>: \<^verbatim>\<open>storage_cache_database_object\<close>, the cache: its map, its log, its
    statistics, its pruning and its timers; the files of the values are a finite map.
  \<^item> \<open>CacheInv\<close>, \<open>CacheOps\<close>, \<open>CacheRequests\<close>, \<open>CachePrune\<close>, \<open>CachePruneChoice\<close>: the invariant
    \<open>cache_inv\<close> and every operation from a state that has it, with what the log replays to
    afterwards (\<open>logged\<close>).
  \<^item> \<open>CacheCompactor\<close>: \<^verbatim>\<open>storage_cache_compactor\<close>, the object that writes a shorter log while the
    cache is used, and the calls between the two.
  \<^item> \<open>CacheEffects\<close>, \<open>CacheCompaction\<close>, \<open>CacheCompactorRun\<close>: what records do to a key, why the
    shorter log replays to the same map, and every step of the compactor.
  \<^item> \<open>CacheEvents\<close>, \<open>CacheReopen\<close>, \<open>CacheHistory\<close>: the cache as a machine of events, a cache that
    is closed and opened again, and the states a cache with its compactor can be in.
  \<^item> \<open>CacheStore\<close>: the cache seen by its callers, a map from keys to tagged values.

  \<^bold>\<open>How the parts interact.\<close> Everything rests on the vectors of \<open>FlatSet\<close> and \<open>FlatMap\<close>.
  \<open>SparseSlice\<close> builds what \<open>SparseIdsList\<close> answers into the window that is shown, and the last
  properties of both theories join the two. A task of \<open>Download\<close> holds its client (\<open>FileLoader\<close>
  in an \<^verbatim>\<open>mtpFileLoader\<close>, or \<open>StreamQueue\<close> in a \<^verbatim>\<open>LoaderMtproto\<close>); the manager asks it for its
  next offset, sends the part in a session chosen by \<open>DownloadBalance\<close> and gives it what arrives.
  The finished file goes to the cache in the form \<open>FileLoader\<close> gives it. The cache writes what it
  does to its log with \<open>CacheTypes\<close>, and \<open>CacheBinlog\<close> reads it back.

  \<^bold>\<open>Interfaces.\<close> \<open>strict_weak\<close> and \<open>strict_total\<close> are the comparisons a sorted vector may have,
  \<open>map_store\<close> a finite map over a representation (of \<open>FlatMap\<close>), \<open>refinement\<close> a machine that
  follows an abstract one (of both lists of messages), \<open>tl_codec\<close> and \<open>tl_boxable\<close> a reader with
  its writer (of every basic type of the wire format), \<open>request_machine\<close> a machine that answers
  requests as a specification does (of the cache).

  \<^bold>\<open>What is shown.\<close>
  \<^item> Of each container and list: an invariant every operation keeps, and the operations on the
    representation are those on the set or map it stands for.
  \<^item> Of the wire format and the log of the cache: what was written is read back and nothing more;
    of the log also when it is cut off anywhere.
  \<^item> Of the download: in every state events can lead to, what the sessions wait for is what the
    tasks have out, no part is out twice, no assert fails, and the loop that sends ends. The
    events may come in any order.
  \<^item> Of the cache: in every state events can lead to, whichever file operations fail, its totals
    are exact and no assert fails; a prune drops just what it has to; for its callers it is a
    map; and while its writes to the log succeed, closing and opening it changes nothing.
  \<^item> Of the compactor: it ends, from any point and whichever of its operations fail; the log it
    makes, with what the database wrote in the meantime, replays to the map. Records that were
    taken over and then done again do no harm, for doing a log twice is doing it once
    (\<open>effects_twice\<close>).
  \<^item> Where the code does not do what it means to, a theorem says what it does instead: an input
    that shows it, or the general fact.

  \<^bold>\<open>Bounds and ends of loops.\<close> No fuel is used. \<open>checkSendNext\<close>, \<open>read_binlog\<close>, \<open>clear_all_stale\<close>
  and \<open>compact_fillLists\<close> are partial functions proved to end: each part that is sent lowers what
  the sessions may still take, each block read lowers what is left of the file, each chunk of
  stale keys empties the queue, each list written leaves fewer values. A compaction ends by a
  count of the steps left (\<open>at_work\<close>). The relative times of the cache are natural numbers where
  the code has \<^verbatim>\<open>uint64\<close>: \<open>clock_room\<close> is the hypothesis that they stay in range. The sizes in
  its records are the three bytes they have there, and a value larger than the settings allow is
  refused, as in the code.

  \<^bold>\<open>Not modelled.\<close> Of the modelled parts: the \<^verbatim>\<open>rpl\<close> streams, whose events are collected as
  values instead, threads (every object here lives on one; a call to another is an entry of a
  log, and the calls between the cache and its compactor are run in any order with everything
  else), the encryption of files and the lock on them, and the paths and versions of the cache's
  directories with the cleaner that removes old ones. Of the program: the connection and the key
  exchange of \<^verbatim>\<open>mtproto\<close>, the histories, dialogs and the data of chats, the player behind the
  streaming loader, calls, payments, export, settings and everything that draws: there the logic
  is spread over calls into Qt, \<^verbatim>\<open>rpl\<close>, OpenSSL, FFmpeg and the objects of a session, which would
  all be parameters.
\<close>

end
